(* ===== verification/Prelude.thy ===== *)
theory Prelude
  imports Main "HOL-Library.Word"
begin

text \<open>
  Shared vocabulary of the development: the fixed-width integer types of
  \<^verbatim>\<open>include/types.h\<close>, the collections of facts that the component theories add to,
  and the generic lemmas on words and lists that more than one component needs.
\<close>

unbundle bit_operations_syntax

section \<open>Types\<close>

type_synonym uint8_t = "8 word"
type_synonym uint16_t = "16 word"
type_synonym uint32_t = "32 word"

text \<open>The NUL character, which ends a C string and marks an unmapped key.\<close>

abbreviation NUL :: char where
  "NUL \<equiv> CHR 0x00"

section \<open>Collections of facts\<close>

named_theorems inv_intros \<open>introduction rules: an operation preserves an invariant\<close>
named_theorems frame_simps \<open>fields that an operation leaves alone\<close>

section \<open>Words\<close>

lemma unat_Suc_word:
  fixes a b :: "'a::len word"
  assumes "a < b"
  shows "unat (a + 1) = Suc (unat a)"
  using assms by unat_arith

lemma word_range_measure:
  fixes a b :: "'a::len word"
  assumes "a < b"
  shows "unat b - unat (a + 1) < unat b - unat a"
  using assms unat_Suc_word [OF assms] by (simp add: word_less_nat_alt)

lemma bit_or_push_one:
  fixes w :: "'a::len word"
  shows "bit (w OR push_bit k 1) j \<longleftrightarrow> bit w j \<or> (j = k \<and> j < LENGTH('a))"
  by (auto simp: bit_simps)

lemma bit_and_not_push_one:
  fixes w :: "'a::len word"
  shows "bit (w AND NOT (push_bit k 1)) j \<longleftrightarrow> bit w j \<and> j \<noteq> k"
  by (auto simp: bit_simps dest: bit_imp_le_length)

lemma and_one_neq_zero_iff_bit:
  fixes w :: "'a::len word"
  shows "(drop_bit k w AND 1 \<noteq> 0) \<longleftrightarrow> bit w k"
  by (simp add: and_one_eq odd_iff_mod_2_eq_one [symmetric] bit_iff_odd_drop_bit [symmetric])

lemma and_255: "w AND 0xFF = take_bit 8 (w :: 'a::len word)"
  by (simp add: take_bit_eq_mask mask_eq_exp_minus_1)

section \<open>Lists\<close>

lemma find_upt_Some_iff:
  "find P [0..<n] = Some i \<longleftrightarrow> i < n \<and> P i \<and> (\<forall>j<i. \<not> P j)"
  by (auto simp: find_Some_iff)

lemma find_upt_None_iff:
  "find P [0..<n] = None \<longleftrightarrow> (\<forall>i<n. \<not> P i)"
  by (auto simp: find_None_iff)

end
