(* ===== verification/Gdt.thy ===== *)
theory Gdt
  imports Prelude
begin

text \<open>
  The Global Descriptor Table (\<^verbatim>\<open>src/gdt.c\<close>, \<^verbatim>\<open>include/gdt.h\<close>) and the segment registers
  that \<^verbatim>\<open>src/gdt_flush.asm\<close> reloads. The address of the table is chosen by the linker and is
  a parameter.
\<close>

record gdt_entry =
  limit_low :: uint16_t
  base_low :: uint16_t
  base_middle :: uint8_t
  access :: uint8_t
  granularity :: uint8_t
  base_high :: uint8_t

record gdt_ptr =
  gdt_ptr_limit :: uint16_t
  gdt_ptr_base :: uint32_t

record segments =
  gdtr :: gdt_ptr
  seg_cs :: uint16_t
  seg_ds :: uint16_t
  seg_es :: uint16_t
  seg_fs :: uint16_t
  seg_gs :: uint16_t
  seg_ss :: uint16_t

record gdt_state =
  gdt_entries :: "gdt_entry list"
  gdt_ptr_var :: gdt_ptr
  segs :: segments

definition gdt_set_entry ::
  "nat \<Rightarrow> uint32_t \<Rightarrow> uint32_t \<Rightarrow> uint8_t \<Rightarrow> uint8_t \<Rightarrow> gdt_entry list \<Rightarrow> gdt_entry list" where
  "gdt_set_entry idx base limit acc gran es =
     es[idx := \<lparr> limit_low = ucast (limit AND 0xFFFF),
                base_low = ucast (base AND 0xFFFF),
                base_middle = ucast (drop_bit 16 base AND 0xFF),
                access = acc,
                granularity = (gran AND 0xF0) OR ucast (drop_bit 16 limit AND 0x0F),
                base_high = ucast (drop_bit 24 base AND 0xFF) \<rparr>]"

text \<open>\<^verbatim>\<open>gdt_flush\<close>: \<^verbatim>\<open>lgdt\<close>, a far jump through selector 0x08, then the data selectors.\<close>

definition gdt_flush :: "gdt_ptr \<Rightarrow> segments \<Rightarrow> segments" where
  "gdt_flush p s = s\<lparr>gdtr := p, seg_cs := 0x08, seg_ds := 0x10, seg_es := 0x10,
                     seg_fs := 0x10, seg_gs := 0x10, seg_ss := 0x10\<rparr>"

text \<open>A \<open>gdt_entry\<close> is packed in 8 bytes.\<close>

definition sizeof_gdt_entry :: nat where
  "sizeof_gdt_entry = 8"

definition gdt_init :: "uint32_t \<Rightarrow> gdt_state \<Rightarrow> gdt_state" where
  "gdt_init table_addr s =
     (let es0 = gdt_set_entry 0 0 0 0 0 (gdt_entries s);
          es1 = gdt_set_entry 1 0x00000000 0xFFFFF 0x9A 0xCF es0;
          es2 = gdt_set_entry 2 0x00000000 0xFFFFF 0x92 0xCF es1;
          p = \<lparr> gdt_ptr_limit = of_nat (sizeof_gdt_entry * length es2 - 1),
                gdt_ptr_base = table_addr \<rparr>
      in s\<lparr>gdt_entries := es2, gdt_ptr_var := p, segs := gdt_flush p (segs s)\<rparr>)"

section \<open>What the processor reads from a descriptor\<close>

definition seg_base :: "gdt_entry \<Rightarrow> uint32_t" where
  "seg_base e = ucast (base_low e) OR push_bit 16 (ucast (base_middle e))
                OR push_bit 24 (ucast (base_high e))"

definition seg_limit20 :: "gdt_entry \<Rightarrow> uint32_t" where
  "seg_limit20 e = ucast (limit_low e) OR push_bit 16 (ucast (granularity e AND 0x0F))"

text \<open>With the granularity bit set the limit counts 4 KB pages.\<close>

definition seg_limit :: "gdt_entry \<Rightarrow> uint32_t" where
  "seg_limit e = (if bit (granularity e) 7 then push_bit 12 (seg_limit20 e) OR 0xFFF
                  else seg_limit20 e)"

definition seg_present :: "gdt_entry \<Rightarrow> bool" where
  "seg_present e \<longleftrightarrow> bit (access e) 7"

definition seg_dpl :: "gdt_entry \<Rightarrow> uint8_t" where
  "seg_dpl e = drop_bit 5 (access e) AND 3"

definition seg_executable :: "gdt_entry \<Rightarrow> bool" where
  "seg_executable e \<longleftrightarrow> bit (access e) 3"

definition seg_32bit :: "gdt_entry \<Rightarrow> bool" where
  "seg_32bit e \<longleftrightarrow> bit (granularity e) 6"

lemma gdt_set_entry_length [simp]: "length (gdt_set_entry i b l a g es) = length es"
  by (simp add: gdt_set_entry_def)

lemma gdt_set_entry_other [simp]: "j \<noteq> i \<Longrightarrow> gdt_set_entry i b l a g es ! j = es ! j"
  by (simp add: gdt_set_entry_def)

lemma and_15: "w AND 0xF = take_bit 4 (w :: 'a::len word)"
  by (simp add: take_bit_eq_mask mask_eq_exp_minus_1)

lemma and_65535: "w AND 0xFFFF = take_bit 16 (w :: 'a::len word)"
  by (simp add: take_bit_eq_mask mask_eq_exp_minus_1)

lemma bit_F0: "bit (0xF0 :: uint8_t) n \<longleftrightarrow> 4 \<le> n \<and> n < 8"
proof -
  have "(0xF0 :: uint8_t) = push_bit 4 (mask 4)" by (simp add: mask_eq_exp_minus_1)
  then show ?thesis by (simp only: bit_simps) auto
qed

lemma gdt_set_entry_base:
  assumes "i < length es"
  shows "seg_base (gdt_set_entry i b l a g es ! i) = b"
proof (rule bit_eqI)
  fix n :: nat assume "possible_bit TYPE(32 word) n"
  with assms show "bit (seg_base (gdt_set_entry i b l a g es ! i)) n = bit b n"
    by (cases "n < 24")
      (auto simp: gdt_set_entry_def seg_base_def and_255 and_65535 bit_simps)
qed

lemma gdt_set_entry_limit:
  "i < length es \<Longrightarrow> seg_limit20 (gdt_set_entry i b l a g es ! i) = take_bit 20 l"
  by (rule bit_eqI)
    (auto simp: gdt_set_entry_def seg_limit20_def and_15 and_65535 bit_simps bit_F0)

lemma gdt_set_entry_access:
  "i < length es \<Longrightarrow> access (gdt_set_entry i b l a g es ! i) = a"
  by (simp add: gdt_set_entry_def)

lemma gdt_set_entry_gran:
  assumes "i < length es"
  shows "drop_bit 4 (granularity (gdt_set_entry i b l a g es ! i)) = drop_bit 4 g"
proof (rule bit_eqI)
  fix n :: nat
  have "\<not> bit g (4 + n)" if "\<not> n < 4"
    using that bit_imp_le_length [of g "4 + n"] by auto
  then show "bit (drop_bit 4 (granularity (gdt_set_entry i b l a g es ! i))) n
      = bit (drop_bit 4 g) n" if "possible_bit TYPE(8 word) n"
    using assms that by (auto simp: gdt_set_entry_def and_15 bit_simps bit_F0)
qed

section \<open>Properties\<close>

text \<open>A descriptor written by \<open>gdt_set_entry\<close> is read back by the processor as it was
  meant: the scattered base is the given base, the scattered limit the low 20 bits of the given
  limit, the access byte and the flag nibble are kept, and no other descriptor changes.\<close>

theorem gdt_set_entry_decodes:
  assumes "i < length es"
  shows "seg_base (gdt_set_entry i b l a g es ! i) = b
    \<and> seg_limit20 (gdt_set_entry i b l a g es ! i) = take_bit 20 l
    \<and> access (gdt_set_entry i b l a g es ! i) = a
    \<and> drop_bit 4 (granularity (gdt_set_entry i b l a g es ! i)) = drop_bit 4 g
    \<and> (\<forall>j. j \<noteq> i \<longrightarrow> gdt_set_entry i b l a g es ! j = es ! j)"
  by (simp only: gdt_set_entry_base [OF assms] gdt_set_entry_limit [OF assms]
      gdt_set_entry_access [OF assms] gdt_set_entry_gran [OF assms]) simp

definition zero_descriptor :: gdt_entry where
  "zero_descriptor = \<lparr> limit_low = 0, base_low = 0, base_middle = 0, access = 0,
                       granularity = 0, base_high = 0 \<rparr>"

theorem gdt_set_entry_decodes_witness:
  "seg_base (gdt_set_entry 2 0x12345678 0xABCDE 0x92 0xCF (replicate 3 zero_descriptor) ! 2)
     = 0x12345678"
  using gdt_set_entry_decodes [of 2 "replicate 3 zero_descriptor"] by simp

text \<open>A selector names an entry: bits 3 and up are the index, the low bits table and ring.\<close>

definition selected :: "gdt_state \<Rightarrow> uint16_t \<Rightarrow> gdt_entry" where
  "selected s sel = gdt_entries s ! unat (drop_bit 3 sel)"

definition flat_ring0 :: "gdt_entry \<Rightarrow> bool" where
  "flat_ring0 e \<longleftrightarrow> seg_base e = 0 \<and> seg_limit e = 0xFFFFFFFF \<and> seg_present e \<and> seg_dpl e = 0
     \<and> seg_32bit e"

definition flat_descriptor :: "uint8_t \<Rightarrow> gdt_entry" where
  "flat_descriptor acc = \<lparr> limit_low = 0xFFFF, base_low = 0, base_middle = 0, access = acc,
                           granularity = 0xCF, base_high = 0 \<rparr>"

lemma gdt_init_entries:
  assumes "length (gdt_entries s) = 3"
  shows "gdt_entries (gdt_init a s)
    = [zero_descriptor, flat_descriptor 0x9A, flat_descriptor 0x92]"
proof -
  from assms obtain x y z where "gdt_entries s = [x, y, z]"
    by (auto simp: length_Suc_conv numeral_3_eq_3)
  then show ?thesis
    by (simp add: gdt_init_def Let_def gdt_set_entry_def zero_descriptor_def flat_descriptor_def)
qed

lemma flat_descriptors:
  "flat_ring0 (flat_descriptor 0x9A)" "seg_executable (flat_descriptor 0x9A)"
  "flat_ring0 (flat_descriptor 0x92)" "\<not> seg_executable (flat_descriptor 0x92)"
  by code_simp+

lemma gdt_init_segs:
  "length (gdt_entries s) = 3 \<Longrightarrow>
   segs (gdt_init a s) = gdt_flush \<lparr> gdt_ptr_limit = 23, gdt_ptr_base = a \<rparr> (segs s)"
  by (simp add: gdt_init_def Let_def sizeof_gdt_entry_def)

text \<open>After \<open>gdt_init\<close> the null descriptor is empty, every segment register selects a
  present 32-bit ring 0 descriptor that covers the whole 4 GB address space, the code segment
  is executable and the data segments are not, and the table register covers exactly the three
  descriptors.\<close>

theorem gdt_init_flat_segments:
  assumes "length (gdt_entries s) = 3"
  shows "flat_ring0 (selected (gdt_init a s) (seg_cs (segs (gdt_init a s))))
    \<and> seg_executable (selected (gdt_init a s) (seg_cs (segs (gdt_init a s))))
    \<and> list_all (\<lambda>r. flat_ring0 (selected (gdt_init a s) (r (segs (gdt_init a s))))
           \<and> \<not> seg_executable (selected (gdt_init a s) (r (segs (gdt_init a s)))))
         [seg_ds, seg_es, seg_fs, seg_gs, seg_ss]
    \<and> gdt_entries (gdt_init a s) ! 0 = zero_descriptor
    \<and> gdtr (segs (gdt_init a s)) = \<lparr> gdt_ptr_limit = 23, gdt_ptr_base = a \<rparr>"
  using flat_descriptors
  by (simp add: selected_def gdt_init_entries [OF assms] gdt_init_segs [OF assms] gdt_flush_def)

definition gdt_boot :: gdt_state where
  "gdt_boot = \<lparr> gdt_entries = replicate 3 zero_descriptor,
                gdt_ptr_var = \<lparr> gdt_ptr_limit = 0, gdt_ptr_base = 0 \<rparr>,
                segs = \<lparr> gdtr = \<lparr> gdt_ptr_limit = 0, gdt_ptr_base = 0 \<rparr>, seg_cs = 0x08,
                  seg_ds = 0x10, seg_es = 0x10, seg_fs = 0x10, seg_gs = 0x10, seg_ss = 0x10 \<rparr> \<rparr>"

theorem gdt_init_flat_segments_witness:
  "flat_ring0 (selected (gdt_init 0x104000 gdt_boot) (seg_cs (segs (gdt_init 0x104000 gdt_boot))))"
  using gdt_init_flat_segments [of gdt_boot "0x104000"] by (simp add: gdt_boot_def)

end
