(* ===== verification/Idt.thy ===== *)
theory Idt
  imports Prelude
begin

text \<open>
  The Interrupt Descriptor Table and the table of IRQ handlers (\<^verbatim>\<open>src/idt.c\<close>,
  \<^verbatim>\<open>include/idt.h\<close>). The addresses of the assembler stubs and of the table itself are chosen by
  the linker and are parameters; a C function pointer is a value of the type variable \<open>'h\<close>,
  which the theory of interrupts instantiates.
\<close>

definition IDT_ENTRIES :: nat where "IDT_ENTRIES = 256"
definition IRQ_COUNT :: nat where "IRQ_COUNT = 16"

record registers =
  reg_ds :: uint32_t
  reg_edi :: uint32_t
  reg_esi :: uint32_t
  reg_ebp :: uint32_t
  reg_esp_dummy :: uint32_t
  reg_ebx :: uint32_t
  reg_edx :: uint32_t
  reg_ecx :: uint32_t
  reg_eax :: uint32_t
  int_no :: uint32_t
  err_code :: uint32_t
  reg_eip :: uint32_t
  reg_cs :: uint32_t
  reg_eflags :: uint32_t

record idt_entry =
  gate_base_low :: uint16_t
  gate_sel :: uint16_t
  gate_always0 :: uint8_t
  gate_flags :: uint8_t
  gate_base_high :: uint16_t

record idt_ptr =
  idt_ptr_limit :: uint16_t
  idt_ptr_base :: uint32_t

record 'h idt_state =
  idt :: "idt_entry list"
  idt_ptr_var :: idt_ptr
  irq_handlers :: "'h option list"
  idtr :: idt_ptr

definition zero_gate :: idt_entry where
  "zero_gate = \<lparr> gate_base_low = 0, gate_sel = 0, gate_always0 = 0, gate_flags = 0,
                 gate_base_high = 0 \<rparr>"

text \<open>The static objects before \<^verbatim>\<open>idt_init\<close>: zero-initialised storage.\<close>

definition idt_boot :: "'h idt_state" where
  "idt_boot = \<lparr> idt = replicate IDT_ENTRIES zero_gate,
                idt_ptr_var = \<lparr> idt_ptr_limit = 0, idt_ptr_base = 0 \<rparr>,
                irq_handlers = replicate IRQ_COUNT None,
                idtr = \<lparr> idt_ptr_limit = 0, idt_ptr_base = 0 \<rparr> \<rparr>"

definition exception_names :: "string list" where
  "exception_names =
    [''Division Error'', ''Debug'', ''Non-Maskable Interrupt'', ''Breakpoint'', ''Overflow'',
     ''Bound Range Exceeded'', ''Invalid Opcode'', ''Device Not Available'', ''Double Fault'',
     ''Coprocessor Segment Overrun'', ''Invalid TSS'', ''Segment Not Present'',
     ''Stack-Segment Fault'', ''General Protection Fault'', ''Page Fault'', ''Reserved'',
     ''x87 Floating-Point Exception'', ''Alignment Check'', ''Machine Check'',
     ''SIMD Floating-Point Exception'', ''Virtualization Exception'',
     ''Control Protection Exception'', ''Reserved'', ''Reserved'', ''Reserved'', ''Reserved'',
     ''Reserved'', ''Reserved'', ''Hypervisor Injection Exception'',
     ''VMM Communication Exception'', ''Security Exception'', ''Reserved'']"

definition idt_set_gate ::
  "uint8_t \<Rightarrow> uint32_t \<Rightarrow> uint16_t \<Rightarrow> uint8_t \<Rightarrow> idt_entry list \<Rightarrow> idt_entry list" where
  "idt_set_gate num base sel flags t =
     t[unat num := \<lparr> gate_base_low = ucast (base AND 0xFFFF),
                     gate_sel = sel,
                     gate_always0 = 0,
                     gate_flags = flags,
                     gate_base_high = ucast (drop_bit 16 base AND 0xFFFF) \<rparr>]"

text \<open>The 48 calls of \<^verbatim>\<open>idt_set_gate\<close>, in order: \<open>isr n\<close> is the address of stub \<open>n\<close>.\<close>

definition idt_set_gates :: "(nat \<Rightarrow> uint32_t) \<Rightarrow> nat \<Rightarrow> idt_entry list \<Rightarrow> idt_entry list" where
  "idt_set_gates isr n t = foldl (\<lambda>t i. idt_set_gate (of_nat i) (isr i) 0x08 0x8E t) t [0..<n]"

definition sizeof_idt_entry :: nat where
  "sizeof_idt_entry = 8"

definition idt_init :: "(nat \<Rightarrow> uint32_t) \<Rightarrow> uint32_t \<Rightarrow> 'h idt_state \<Rightarrow> 'h idt_state" where
  "idt_init isr table_addr s =
     (let p = \<lparr> idt_ptr_limit = of_nat (sizeof_idt_entry * IDT_ENTRIES - 1),
                idt_ptr_base = table_addr \<rparr>
      in s\<lparr>irq_handlers := map (\<lambda>_. None) [0..<IRQ_COUNT],
           idt_ptr_var := p,
           idt := idt_set_gates isr 48 (idt s),
           idtr := p\<rparr>)"

definition irq_register_handler :: "uint8_t \<Rightarrow> 'h \<Rightarrow> 'h idt_state \<Rightarrow> 'h idt_state" where
  "irq_register_handler irq handler s =
     (if unat irq < IRQ_COUNT
      then s\<lparr>irq_handlers := (irq_handlers s)[unat irq := Some handler]\<rparr>
      else s)"

section \<open>What the processor reads from a gate\<close>

definition gate_base :: "idt_entry \<Rightarrow> uint32_t" where
  "gate_base g = push_bit 16 (ucast (gate_base_high g)) OR ucast (gate_base_low g)"

definition gate_present :: "idt_entry \<Rightarrow> bool" where
  "gate_present g \<longleftrightarrow> bit (gate_flags g) 7"

lemma length_exception_names [simp]: "length exception_names = 32"
  by (simp add: exception_names_def)

lemma length_idt_set_gate [simp]: "length (idt_set_gate n b s f t) = length t"
  by (simp add: idt_set_gate_def)

lemma idt_set_gates_Suc:
  "idt_set_gates isr (Suc n) t
     = idt_set_gate (of_nat n) (isr n) 0x08 0x8E (idt_set_gates isr n t)"
  by (simp add: idt_set_gates_def)

lemma idt_set_gates_0 [simp]: "idt_set_gates isr 0 t = t"
  by (simp add: idt_set_gates_def)

lemma length_idt_set_gates [simp]: "length (idt_set_gates isr n t) = length t"
  by (induction n) (simp_all add: idt_set_gates_Suc)

lemma idt_set_gate_nth:
  assumes "unat num < length t"
  shows "gate_base (idt_set_gate num base sel flags t ! unat num) = base"
    and "gate_sel (idt_set_gate num base sel flags t ! unat num) = sel"
    and "gate_flags (idt_set_gate num base sel flags t ! unat num) = flags"
    and "gate_always0 (idt_set_gate num base sel flags t ! unat num) = 0"
proof -
  have m: "w AND 0xFFFF = take_bit 16 w" for w :: uint32_t
    by (simp add: take_bit_eq_mask mask_eq_exp_minus_1)
  show "gate_base (idt_set_gate num base sel flags t ! unat num) = base"
    using assms by (intro bit_eqI) (auto simp: idt_set_gate_def gate_base_def m bit_simps)
qed (use assms in \<open>simp_all add: idt_set_gate_def\<close>)

lemma idt_set_gate_other: "i \<noteq> unat num \<Longrightarrow> idt_set_gate num b s f t ! i = t ! i"
  by (simp add: idt_set_gate_def)

lemma idt_set_gates_beyond: "n \<le> i \<Longrightarrow> n \<le> 256 \<Longrightarrow> idt_set_gates isr n t ! i = t ! i"
  by (induction n)
    (auto simp: idt_set_gates_Suc idt_set_gate_other unat_of_nat take_bit_eq_mod)

lemma idt_set_gates_nth:
  assumes "n \<le> 256" "length t = 256" "i < n"
  shows "gate_base (idt_set_gates isr n t ! i) = isr i
           \<and> gate_sel (idt_set_gates isr n t ! i) = 0x08
           \<and> gate_flags (idt_set_gates isr n t ! i) = 0x8E
           \<and> gate_always0 (idt_set_gates isr n t ! i) = 0"
  using assms(1,3)
proof (induction n)
  case (Suc n)
  have u: "unat (of_nat n :: uint8_t) = n"
    using Suc.prems by (simp add: unat_of_nat take_bit_eq_mod)
  show ?case
  proof (cases "i = n")
    case True
    have "unat (of_nat n :: uint8_t) < length (idt_set_gates isr n t)"
      using Suc.prems assms(2) u by simp
    from idt_set_gate_nth [OF this] u True show ?thesis
      by (simp add: idt_set_gates_Suc)
  next
    case False
    with Suc u show ?thesis
      by (simp add: idt_set_gates_Suc idt_set_gate_other)
  qed
qed simp

lemma irq_register_handler_idt [frame_simps, simp]:
  "idt (irq_register_handler irq h s) = idt s"
  "idtr (irq_register_handler irq h s) = idtr s"
  "length (irq_handlers (irq_register_handler irq h s)) = length (irq_handlers s)"
  by (simp_all add: irq_register_handler_def)

lemma irq_register_handler_nth:
  "length (irq_handlers s) = IRQ_COUNT \<Longrightarrow> i < IRQ_COUNT \<Longrightarrow>
   irq_handlers (irq_register_handler irq h s) ! i
     = (if i = unat irq then Some h else irq_handlers s ! i)"
  by (auto simp: irq_register_handler_def)

lemma idt_init_spec:
  "i < 48 \<Longrightarrow> gate_base (idt (idt_init isr a (idt_boot :: 'h idt_state)) ! i) = isr i
     \<and> gate_sel (idt (idt_init isr a (idt_boot :: 'h idt_state)) ! i) = 0x08
     \<and> gate_flags (idt (idt_init isr a (idt_boot :: 'h idt_state)) ! i) = 0x8E
     \<and> gate_present (idt (idt_init isr a (idt_boot :: 'h idt_state)) ! i)"
  "48 \<le> i \<Longrightarrow> i < 256 \<Longrightarrow> idt (idt_init isr a (idt_boot :: 'h idt_state)) ! i = zero_gate"
  "length (idt (idt_init isr a (idt_boot :: 'h idt_state))) = 256"
  "irq_handlers (idt_init isr a (idt_boot :: 'h idt_state)) = replicate 16 None"
  "idtr (idt_init isr a (idt_boot :: 'h idt_state)) = \<lparr> idt_ptr_limit = 2047, idt_ptr_base = a \<rparr>"
proof -
  have p: "bit (0x8E :: uint8_t) 7" by code_simp
  have t: "idt (idt_init isr a (idt_boot :: 'h idt_state)) = idt_set_gates isr 48 (replicate 256 zero_gate)"
    by (simp add: idt_init_def Let_def idt_boot_def IDT_ENTRIES_def)
  show "irq_handlers (idt_init isr a (idt_boot :: 'h idt_state)) = replicate 16 None"
    by (simp add: idt_init_def Let_def IRQ_COUNT_def map_replicate_const)
  show "idtr (idt_init isr a (idt_boot :: 'h idt_state)) = \<lparr> idt_ptr_limit = 2047, idt_ptr_base = a \<rparr>"
    by (simp add: idt_init_def Let_def sizeof_idt_entry_def IDT_ENTRIES_def)
  show "i < 48 \<Longrightarrow> gate_base (idt (idt_init isr a (idt_boot :: 'h idt_state)) ! i) = isr i
     \<and> gate_sel (idt (idt_init isr a (idt_boot :: 'h idt_state)) ! i) = 0x08
     \<and> gate_flags (idt (idt_init isr a (idt_boot :: 'h idt_state)) ! i) = 0x8E
     \<and> gate_present (idt (idt_init isr a (idt_boot :: 'h idt_state)) ! i)"
    "48 \<le> i \<Longrightarrow> i < 256 \<Longrightarrow> idt (idt_init isr a (idt_boot :: 'h idt_state)) ! i = zero_gate"
    "length (idt (idt_init isr a (idt_boot :: 'h idt_state))) = 256"
    unfolding t gate_present_def
    using idt_set_gates_nth [of 48 "replicate 256 zero_gate" i isr] p
    by (auto simp: idt_set_gates_beyond)
qed

section \<open>Properties\<close>

text \<open>After \<open>idt_init\<close> each of the vectors 0 to 47 has a present 32-bit ring 0 interrupt
  gate to its own stub in the kernel code segment, every later vector is still empty, no IRQ
  has a handler, and the table register covers the whole table.\<close>

theorem idt_init_gates:
  "let s = idt_init isr a (idt_boot :: 'h idt_state) in
     (\<forall>i < 48. gate_base (idt s ! i) = isr i \<and> gate_sel (idt s ! i) = 0x08
        \<and> gate_flags (idt s ! i) = 0x8E \<and> gate_present (idt s ! i))
   \<and> (\<forall>i. 48 \<le> i \<and> i < 256 \<longrightarrow> idt s ! i = zero_gate)
   \<and> length (idt s) = 256 \<and> irq_handlers s = replicate 16 None
   \<and> idtr s = \<lparr> idt_ptr_limit = 2047, idt_ptr_base = a \<rparr>"
  unfolding Let_def by (simp add: idt_init_spec)

theorem idt_init_gates_witness:
  "gate_base (idt (idt_init (\<lambda>i. 0x100000 + 16 * of_nat i) 0x5000
     (idt_boot :: nat idt_state)) ! 33) = 0x100210"
  using idt_init_gates [where 'h = nat and isr = "\<lambda>i. 0x100000 + 16 * of_nat i" and a = "0x5000"]
  unfolding Let_def by (elim conjE allE [of _ 33]) simp

end
