(* ===== verification/Ports.thy ===== *)
theory Ports
  imports Prelude
begin

text \<open>
  Port-mapped I/O. Every driver of the kernel reaches its device through the same two
  one-instruction helpers (\<^verbatim>\<open>outb\<close>, \<^verbatim>\<open>inb\<close>), so a device is modelled by what the driver can
  observe of it: the log of the accesses made so far, and a function, a parameter of the
  model, that answers a read from that log. A read is logged too, so that a device that is
  polled in a loop can change its answer.
\<close>

datatype io_event =
    Out uint16_t uint8_t
  | OutW uint16_t uint16_t
  | In uint16_t uint8_t

type_synonym io_log = "io_event list"

type_synonym device = "io_log \<Rightarrow> uint16_t \<Rightarrow> uint8_t"

definition outb :: "uint16_t \<Rightarrow> uint8_t \<Rightarrow> io_log \<Rightarrow> io_log" where
  "outb port val l = l @ [Out port val]"

definition outw :: "uint16_t \<Rightarrow> uint16_t \<Rightarrow> io_log \<Rightarrow> io_log" where
  "outw port val l = l @ [OutW port val]"

definition inb :: "device \<Rightarrow> uint16_t \<Rightarrow> io_log \<Rightarrow> uint8_t \<times> io_log" where
  "inb dev port l = (let r = dev l port in (r, l @ [In port r]))"

text \<open>The bytes written to one port, in order.\<close>

fun written :: "uint16_t \<Rightarrow> io_log \<Rightarrow> uint8_t list" where
  "written p [] = []"
| "written p (Out q v # l) = (if q = p then v # written p l else written p l)"
| "written p (OutW q v # l) = written p l"
| "written p (In q v # l) = written p l"

lemma written_append [simp]: "written p (k @ l) = written p k @ written p l"
  by (induction p k rule: written.induct) auto

lemma written_outb [simp]:
  "written p (outb q v l) = (if q = p then written p l @ [v] else written p l)"
  by (simp add: outb_def)

lemma written_outw [simp]: "written p (outw q v l) = written p l"
  by (simp add: outw_def)

lemma written_inb [simp]: "written p (snd (inb dev q l)) = written p l"
  by (simp add: inb_def Let_def)

lemma length_outb [simp]: "length (outb p v l) = Suc (length l)"
  by (simp add: outb_def)

section \<open>Splitting a 16-bit value into two byte writes\<close>

definition lo_byte :: "uint16_t \<Rightarrow> uint8_t" where
  "lo_byte w = ucast (w AND 0xFF)"

definition hi_byte :: "uint16_t \<Rightarrow> uint8_t" where
  "hi_byte w = ucast (drop_bit 8 w AND 0xFF)"

definition join_bytes :: "uint8_t \<Rightarrow> uint8_t \<Rightarrow> uint16_t" where
  "join_bytes h l = push_bit 8 (ucast h) OR ucast l"

lemma join_lo_hi [simp]: "join_bytes (hi_byte w) (lo_byte w) = w"
  by (rule bit_eqI) (auto simp: join_bytes_def hi_byte_def lo_byte_def and_255 bit_simps)

end
