(* ===== verification/Pic.thy ===== *)
theory Pic
  imports Ports
begin

text \<open>
  The 8259A driver (\<^verbatim>\<open>src/pic.c\<close>, \<^verbatim>\<open>include/pic.h\<close>): both controllers are programmed by
  port writes; the log holds every write of the driver, delays included.
\<close>

definition PIC_MASTER_CMD :: uint16_t where "PIC_MASTER_CMD = 0x20"
definition PIC_MASTER_DATA :: uint16_t where "PIC_MASTER_DATA = 0x21"
definition PIC_SLAVE_CMD :: uint16_t where "PIC_SLAVE_CMD = 0xA0"
definition PIC_SLAVE_DATA :: uint16_t where "PIC_SLAVE_DATA = 0xA1"
definition PIC_EOI :: uint8_t where "PIC_EOI = 0x20"
definition ICW1_INIT :: uint8_t where "ICW1_INIT = 0x10"
definition ICW1_ICW4 :: uint8_t where "ICW1_ICW4 = 0x01"
definition ICW4_8086 :: uint8_t where "ICW4_8086 = 0x01"
definition PIC_MASTER_OFFSET :: uint8_t where "PIC_MASTER_OFFSET = 0x20"
definition PIC_SLAVE_OFFSET :: uint8_t where "PIC_SLAVE_OFFSET = 0x28"

lemmas pic_ports = PIC_MASTER_CMD_def PIC_MASTER_DATA_def PIC_SLAVE_CMD_def PIC_SLAVE_DATA_def

lemmas pic_values = PIC_EOI_def ICW1_INIT_def ICW1_ICW4_def ICW4_8086_def
  PIC_MASTER_OFFSET_def PIC_SLAVE_OFFSET_def

definition io_wait :: "io_log \<Rightarrow> io_log" where
  "io_wait l = outb 0x80 0x00 l"

definition pic_init :: "io_log \<Rightarrow> io_log" where
  "pic_init l0 =
     (let l = io_wait (outb PIC_MASTER_CMD (ICW1_INIT OR ICW1_ICW4) l0);
          l = io_wait (outb PIC_SLAVE_CMD (ICW1_INIT OR ICW1_ICW4) l);
          l = io_wait (outb PIC_MASTER_DATA PIC_MASTER_OFFSET l);
          l = io_wait (outb PIC_SLAVE_DATA PIC_SLAVE_OFFSET l);
          l = io_wait (outb PIC_MASTER_DATA 0x04 l);
          l = io_wait (outb PIC_SLAVE_DATA 0x02 l);
          l = io_wait (outb PIC_MASTER_DATA ICW4_8086 l);
          l = io_wait (outb PIC_SLAVE_DATA ICW4_8086 l);
          l = outb PIC_MASTER_DATA 0x00 l
      in outb PIC_SLAVE_DATA 0x00 l)"

definition pic_send_eoi :: "uint8_t \<Rightarrow> io_log \<Rightarrow> io_log" where
  "pic_send_eoi irq l =
     outb PIC_MASTER_CMD PIC_EOI (if irq \<ge> 8 then outb PIC_SLAVE_CMD PIC_EOI l else l)"

lemma pic_send_eoi_written:
  "written PIC_MASTER_CMD (pic_send_eoi irq l) = written PIC_MASTER_CMD l @ [PIC_EOI]"
  "written PIC_SLAVE_CMD (pic_send_eoi irq l)
     = written PIC_SLAVE_CMD l @ (if irq \<ge> 8 then [PIC_EOI] else [])"
  by (simp_all add: pic_send_eoi_def pic_ports)

lemma pic_init_written:
  "written PIC_MASTER_CMD (pic_init l) = written PIC_MASTER_CMD l @ [0x11]"
  "written PIC_SLAVE_CMD (pic_init l) = written PIC_SLAVE_CMD l @ [0x11]"
  "written PIC_MASTER_DATA (pic_init l) = written PIC_MASTER_DATA l @ [0x20, 0x04, 0x01, 0x00]"
  "written PIC_SLAVE_DATA (pic_init l) = written PIC_SLAVE_DATA l @ [0x28, 0x02, 0x01, 0x00]"
  by (simp_all add: pic_init_def Let_def io_wait_def pic_ports pic_values)

section \<open>Properties\<close>

text \<open>The vector the pair of controllers raises for an IRQ line, from the data bytes of the
  initialisation sequence (ICW2 is the first) of the controller it is wired to.\<close>

definition pic_vector :: "io_log \<Rightarrow> uint8_t \<Rightarrow> uint8_t" where
  "pic_vector l irq =
     (if irq < 8 then hd (written PIC_MASTER_DATA l) + irq
      else hd (written PIC_SLAVE_DATA l) + (irq - 8))"

text \<open>\<open>pic_init\<close> sends each controller ICW1 and then, on the data port, its vector base, its
  place in the cascade, the 8086 mode and an open mask, so that the sixteen IRQ lines arrive on
  the vectors 32 to 47, after the processor's own exceptions.\<close>

theorem pic_init_remaps:
  "written PIC_MASTER_CMD (pic_init []) = [0x11] \<and> written PIC_SLAVE_CMD (pic_init []) = [0x11]
   \<and> written PIC_MASTER_DATA (pic_init []) = [0x20, 0x04, 0x01, 0x00]
   \<and> written PIC_SLAVE_DATA (pic_init []) = [0x28, 0x02, 0x01, 0x00]
   \<and> pic_vector (pic_init []) irq = 32 + irq"
  by (simp add: pic_init_written pic_vector_def)

end
