(* ===== verification/Pit.thy ===== *)
theory Pit
  imports Ports
begin

text \<open>
  The timer driver (\<^verbatim>\<open>src/pit.c\<close>, \<^verbatim>\<open>include/pit.h\<close>): programming channel 0, the tick counter
  and \<^verbatim>\<open>sleep_ticks\<close>. The IRQ0 handler also calls the scheduler and is in the theory of
  interrupts.
\<close>

definition PIT_CHANNEL0 :: uint16_t where "PIT_CHANNEL0 = 0x40"
definition PIT_CMD :: uint16_t where "PIT_CMD = 0x43"
definition PIT_CMD_CHANNEL0_MODE3 :: uint8_t where "PIT_CMD_CHANNEL0_MODE3 = 0x36"
definition PIT_BASE_FREQ :: uint32_t where "PIT_BASE_FREQ = 1193182"

record pit =
  tick_count :: uint32_t
  pit_io :: io_log

text \<open>The divisor; a frequency of 0 divides by zero, which traps: \<open>None\<close>.\<close>

definition pit_divisor :: "uint32_t \<Rightarrow> uint16_t option" where
  "pit_divisor frequency_hz =
     (if frequency_hz = 0 then None else Some (ucast (PIT_BASE_FREQ div frequency_hz)))"

definition pit_program :: "uint16_t \<Rightarrow> io_log \<Rightarrow> io_log" where
  "pit_program divisor l =
     outb PIT_CHANNEL0 (hi_byte divisor)
       (outb PIT_CHANNEL0 (lo_byte divisor)
         (outb PIT_CMD PIT_CMD_CHANNEL0_MODE3 l))"

definition pit_init :: "uint32_t \<Rightarrow> pit \<Rightarrow> pit option" where
  "pit_init frequency_hz p =
     (case pit_divisor frequency_hz of
        None \<Rightarrow> None
      | Some divisor \<Rightarrow> Some (p\<lparr>pit_io := pit_program divisor (pit_io p)\<rparr>))"

definition get_tick_count :: "pit \<Rightarrow> uint32_t" where
  "get_tick_count p = tick_count p"

definition count_tick :: "pit \<Rightarrow> pit" where
  "count_tick p = p\<lparr>tick_count := tick_count p + 1\<rparr>"

text \<open>
  \<^verbatim>\<open>sleep_ticks\<close>: \<open>start\<close> is the counter at its first line and \<open>reads k\<close> the value of the volatile
  counter at the \<open>k\<close>-th test of the loop, \<open>k\<close> counted from 0; between two tests there is one
  \<^verbatim>\<open>hlt\<close>, so the number of the test that ends the loop is the number of halts. A loop that
  never ends is \<open>None\<close>.
\<close>

partial_function (option) sleep_loop ::
  "(nat \<Rightarrow> uint32_t) \<Rightarrow> nat \<Rightarrow> uint32_t \<Rightarrow> uint32_t \<Rightarrow> nat option" where
  "sleep_loop reads k start ticks =
     (if reads k - start < ticks then sleep_loop reads (Suc k) start ticks else Some k)"

declare sleep_loop.simps [code]

definition sleep_ticks :: "uint32_t \<Rightarrow> (nat \<Rightarrow> uint32_t) \<Rightarrow> uint32_t \<Rightarrow> nat option" where
  "sleep_ticks start reads ticks = sleep_loop reads 0 start ticks"

lemma pit_program_written:
  "written PIT_CMD (pit_program d l) = written PIT_CMD l @ [0x36]"
  "written PIT_CHANNEL0 (pit_program d l) = written PIT_CHANNEL0 l @ [lo_byte d, hi_byte d]"
  by (simp_all add: pit_program_def PIT_CMD_def PIT_CHANNEL0_def PIT_CMD_CHANNEL0_MODE3_def)

lemma unat_base_div: "unat (PIT_BASE_FREQ div f) = 1193182 div unat f"
  by (simp add: PIT_BASE_FREQ_def unat_div)

lemma pit_divisor_exact:
  assumes "19 \<le> unat f"
  shows "pit_divisor f = Some (of_nat (1193182 div unat f)) \<and> 1193182 div unat f < 2 ^ 16"
proof -
  have "1193182 div unat f \<le> 1193182 div 19"
    using assms by (intro div_le_mono2) auto
  then have "1193182 div unat f < 2 ^ 16" by simp
  moreover have "f \<noteq> 0" using assms by auto
  ultimately show ?thesis
    by (simp add: pit_divisor_def unat_base_div [symmetric] of_nat_unat)
qed

text \<open>The loop ends at the first test at which enough ticks have been counted, and only there.\<close>

lemma sleep_loop_ends:
  assumes "sleep_loop reads k start ticks = Some h"
  shows "\<not> reads h - start < ticks"
  by (rule sleep_loop.raw_induct [where P = "\<lambda>reads k start ticks h. \<not> reads h - start < ticks",
        OF _ assms])
    (auto split: if_splits)

lemma sleep_loop_reaches:
  assumes "k \<le> h" "\<not> reads h - start < ticks" "\<And>j. j < h \<Longrightarrow> reads j - start < ticks"
  shows "sleep_loop reads k start ticks = Some h"
  using assms(1)
proof (induction rule: inc_induct)
  case base
  then show ?case using assms(2) by (subst sleep_loop.simps) simp
next
  case (step k)
  then show ?case using assms(3) by (subst sleep_loop.simps) simp
qed

text \<open>
  Read as a natural number, the difference of the two counter values is the number of ticks
  elapsed as long as that is below \<open>2 ^ 32\<close>.
\<close>

lemma elapsed_less:
  fixes start n :: uint32_t
  assumes "e < 2 ^ 32"
  shows "(start + of_nat e) - start < n \<longleftrightarrow> e < unat n"
  using assms by (simp add: word_less_nat_alt unat_of_nat take_bit_eq_mod)

section \<open>Properties\<close>

text \<open>C39: for every frequency from 19 Hz up to the base clock \<open>pit_init\<close> succeeds and sends the
  mode byte 0x36 and then the low and the high byte of the divisor \<open>1193182 div f\<close>, with nothing
  cut off; a frequency of 0 divides by zero.\<close>

theorem pit_init_programs_divisor:
  assumes "19 \<le> unat f"
  shows "\<exists>p'. pit_init f p = Some p' \<and> tick_count p' = tick_count p
    \<and> written PIT_CMD (pit_io p') = written PIT_CMD (pit_io p) @ [0x36]
    \<and> (\<exists>d. written PIT_CHANNEL0 (pit_io p') = written PIT_CHANNEL0 (pit_io p) @ [lo_byte d, hi_byte d]
         \<and> unat (join_bytes (hi_byte d) (lo_byte d)) = 1193182 div unat f)
    \<and> pit_init 0 p = None"
proof -
  from pit_divisor_exact [OF assms]
  have d: "pit_divisor f = Some (of_nat (1193182 div unat f))" and lt: "1193182 div unat f < 2 ^ 16"
    by auto
  have u: "unat (of_nat (1193182 div unat f) :: uint16_t) = 1193182 div unat f"
    using lt by (simp add: unat_of_nat take_bit_eq_mod)
  let ?d = "of_nat (1193182 div unat f) :: uint16_t"
  have "pit_init f p = Some (p\<lparr>pit_io := pit_program ?d (pit_io p)\<rparr>)"
    by (simp only: pit_init_def d option.case)
  moreover have "pit_init 0 p = None" by (simp add: pit_init_def pit_divisor_def)
  moreover have "unat (join_bytes (hi_byte ?d) (lo_byte ?d)) = 1193182 div unat f"
    by (simp only: join_lo_hi u)
  ultimately show ?thesis
    by (intro exI [of _ "p\<lparr>pit_io := pit_program ?d (pit_io p)\<rparr>"])
      (simp add: pit_program_written, blast)
qed

theorem pit_init_programs_divisor_witness:
  "\<exists>p'. pit_init 100 \<lparr> tick_count = 0, pit_io = [] \<rparr> = Some p'"
  using pit_init_programs_divisor [of 100 "\<lparr> tick_count = 0, pit_io = [] \<rparr>"] by auto

text \<open>C40: \<open>sleep_ticks n\<close> halts until the first test at which \<open>n\<close> ticks or more have gone by since
  its first line, and no longer; if they never go by it never returns. The number of ticks per
  halt is free, none, one or several: \<open>t k\<close> ticks have gone by at the \<open>k\<close>-th test, and no halt
  may last \<open>2 ^ 32 - n\<close> ticks. The counter may start anywhere, also just below its wrap-around.\<close>

theorem sleep_ticks_exact:
  assumes "t 0 < 2 ^ 32" "\<And>k. t (Suc k) < t k + (2 ^ 32 - unat n)"
  shows "sleep_ticks start (\<lambda>k. start + of_nat (t k)) n =
    (if \<exists>k. unat n \<le> t k then Some (LEAST k. unat n \<le> t k) else None)"
proof -
  let ?reads = "\<lambda>k. start + of_nat (t k) :: uint32_t"
  have small: "t k < 2 ^ 32" if early: "\<forall>j < k. t j < unat n" for k
  proof (cases k)
    case (Suc i)
    with early have "t i < unat n" by simp
    with assms(2) [of i] unsigned_less [of n, where 'a = nat] show ?thesis unfolding Suc by simp
  qed (use assms(1) in simp)
  show ?thesis
  proof (cases "\<exists>k. unat n \<le> t k")
    case True
    define h where "h = (LEAST k. unat n \<le> t k)"
    have ends: "unat n \<le> t h" unfolding h_def using True by (rule LeastI_ex)
    have early: "t j < unat n" if "j < h" for j
      using not_less_Least [OF that [unfolded h_def]] by simp
    have "\<not> ?reads h - start < n"
      using elapsed_less [OF small] early ends by simp
    moreover have "?reads j - start < n" if "j < h" for j
      using elapsed_less [OF small, of j start n] early that by simp
    ultimately have "sleep_loop ?reads 0 start n = Some h"
      by (intro sleep_loop_reaches) simp_all
    with True show ?thesis by (simp add: sleep_ticks_def h_def)
  next
    case False
    then have "\<forall>k. t k < unat n" by (simp add: not_le)
    then have "?reads k - start < n" for k
      using elapsed_less [OF small, of k start n] by simp
    then have "sleep_loop ?reads 0 start n = None"
      using sleep_loop_ends [of ?reads 0 start n] by (cases "sleep_loop ?reads 0 start n") blast+
    with False show ?thesis by (simp add: sleep_ticks_def)
  qed
qed

theorem sleep_ticks_exact_witness:
  "sleep_ticks 0xFFFFFFFE (\<lambda>k. 0xFFFFFFFE + of_nat (3 * k)) 10 = Some 4"
proof -
  have "(LEAST k. unat (10 :: uint32_t) \<le> 3 * k) = (4 :: nat)"
    by (rule Least_equality) simp_all
  moreover have "\<exists>k. unat (10 :: uint32_t) \<le> 3 * k" by (rule exI [of _ 4]) simp
  ultimately show ?thesis
    using sleep_ticks_exact [where t = "\<lambda>k. 3 * k" and n = 10 and start = "0xFFFFFFFE"] by simp
qed

end
