(* ===== verification/Cstring.thy ===== *)
theory Cstring
  imports Prelude
begin

text \<open>
  The string helpers of \<^verbatim>\<open>src/shell.c\<close>. A C string is a \<open>string\<close> that holds the bytes
  before the terminator; the pointer \<open>s + 1\<close> is \<open>tl s\<close> and \<open>*s\<close> is \<open>deref s\<close>, which
  is NUL at the end of the list.
\<close>

definition deref :: "string \<Rightarrow> char" where
  "deref s = (case s of [] \<Rightarrow> NUL | c # _ \<Rightarrow> c)"

definition uchar :: "char \<Rightarrow> int" where
  "uchar c = int (of_char c)"

definition schar :: "char \<Rightarrow> int" where
  "schar c = sint (of_char c :: 8 word)"

definition c_string :: "string \<Rightarrow> bool" where
  "c_string s \<longleftrightarrow> NUL \<notin> set s"

lemma deref_simps [simp]: "deref [] = NUL" "deref (c # s) = c"
  by (simp_all add: deref_def)

lemma deref_neq_NUL: "deref s \<noteq> NUL \<Longrightarrow> s \<noteq> []"
  by auto

lemma uchar_inject [simp]: "uchar a = uchar b \<longleftrightarrow> a = b"
  by (simp add: uchar_def)

lemma c_string_simps [simp]:
  "c_string []" "c_string (c # s) \<longleftrightarrow> c \<noteq> NUL \<and> c_string s"
  "c_string (s @ t) \<longleftrightarrow> c_string s \<and> c_string t"
  by (auto simp: c_string_def)

section \<open>sh_strcmp and sh_strncmp\<close>

function sh_strcmp :: "string \<Rightarrow> string \<Rightarrow> int" where
  "sh_strcmp a b =
     (if deref a \<noteq> NUL \<and> deref b \<noteq> NUL \<and> deref a = deref b
      then sh_strcmp (tl a) (tl b)
      else uchar (deref a) - uchar (deref b))"
  by pat_completeness auto
termination
  by (relation "measure (\<lambda>(a, b). length a)") (auto simp: deref_def split: list.splits)

declare sh_strcmp.simps [simp del]

function sh_strncmp :: "string \<Rightarrow> string \<Rightarrow> int \<Rightarrow> int" where
  "sh_strncmp a b n =
     (if n \<noteq> 0 \<and> deref a \<noteq> NUL \<and> deref b \<noteq> NUL \<and> deref a = deref b
      then sh_strncmp (tl a) (tl b) (n - 1)
      else if n - 1 < 0 then 0
      else uchar (deref a) - uchar (deref b))"
  by pat_completeness auto
termination
  by (relation "measure (\<lambda>(a, b, n). length a)") (auto simp: deref_def split: list.splits)

declare sh_strncmp.simps [simp del]

lemma sh_strcmp_eq_0_iff:
  "c_string a \<Longrightarrow> c_string b \<Longrightarrow> sh_strcmp a b = 0 \<longleftrightarrow> a = b"
proof (induction a b rule: sh_strcmp.induct)
  case (1 a b)
  show ?case
  proof (cases a; cases b)
    fix x xs y ys assume ab: "a = x # xs" "b = y # ys"
    with "1" show ?thesis
      by (subst sh_strcmp.simps) auto
  qed (use "1.prems" in \<open>subst sh_strcmp.simps, force\<close>)+
qed

lemma sh_strncmp_eq_0_iff:
  "c_string a \<Longrightarrow> c_string b \<Longrightarrow> 0 \<le> n \<Longrightarrow>
   sh_strncmp a b n = 0 \<longleftrightarrow> take (nat n) a = take (nat n) b"
proof (induction a b n rule: sh_strncmp.induct)
  case (1 a b n)
  show ?case
  proof (cases "n = 0")
    case True
    then show ?thesis by (simp add: sh_strncmp.simps [of a b])
  next
    case False
    with "1.prems" obtain m where m: "nat n = Suc m" and nm: "nat (n - 1) = m"
      by (cases "nat n") auto
    show ?thesis
    proof (cases a; cases b)
      fix x xs y ys assume ab: "a = x # xs" "b = y # ys"
      with "1" False m nm show ?thesis
        by (subst sh_strncmp.simps) auto
    qed (use "1.prems" False m in \<open>subst sh_strncmp.simps, force\<close>)+
  qed
qed

lemma sh_strcmp_antisym: "sh_strcmp b a = - sh_strcmp a b"
proof (induction a b rule: sh_strcmp.induct)
  case (1 a b)
  then show ?case
    by (subst (1 2) sh_strcmp.simps) auto
qed

section \<open>sh_itoa\<close>

text \<open>
  \<open>itoa_tmp\<close> is the loop that fills \<^verbatim>\<open>tmp\<close> with the digits, least significant first (the
  list is the part of \<^verbatim>\<open>tmp\<close> below the index \<^verbatim>\<open>i\<close>), and \<open>itoa_copy\<close> the loop that copies
  it backwards.
\<close>

function itoa_tmp :: "uint32_t \<Rightarrow> string \<Rightarrow> string" where
  "itoa_tmp n tmp =
     (if n \<noteq> 0 then itoa_tmp (n div 10) (tmp @ [char_of (48 + unat (n mod 10))]) else tmp)"
  by pat_completeness auto
termination
proof (relation "measure (\<lambda>(n, tmp). unat n)", goal_cases)
  case (2 n tmp)
  then have "0 < unat n" by (simp add: unat_gt_0)
  then show ?case by (simp add: unat_div)
qed simp

declare itoa_tmp.simps [simp del]

fun itoa_copy :: "string \<Rightarrow> nat \<Rightarrow> string \<Rightarrow> string" where
  "itoa_copy tmp 0 buf = buf"
| "itoa_copy tmp (Suc i) buf = itoa_copy tmp i (buf @ [tmp ! i])"

definition sh_itoa :: "uint32_t \<Rightarrow> string" where
  "sh_itoa n =
     (if n = 0 then ''0''
      else let tmp = itoa_tmp n [] in itoa_copy tmp (length tmp) [])"

lemma itoa_copy_rev: "i \<le> length tmp \<Longrightarrow> itoa_copy tmp i buf = buf @ rev (take i tmp)"
  by (induction tmp i buf rule: itoa_copy.induct) (auto simp: take_Suc_conv_app_nth)

text \<open>The decimal digits of a number, as a reference on \<open>nat\<close>.\<close>

fun dec_digits :: "nat \<Rightarrow> string" where
  "dec_digits n = (if n < 10 then [char_of (48 + n)] else dec_digits (n div 10) @ [char_of (48 + n mod 10)])"

declare dec_digits.simps [simp del]

lemma digits_0: "dec_digits 0 = ''0''"
  by (subst dec_digits.simps) code_simp

lemma itoa_tmp_digits: "n \<noteq> 0 \<Longrightarrow> itoa_tmp n tmp = tmp @ rev (dec_digits (unat n))"
proof (induction n tmp rule: itoa_tmp.induct)
  case (1 n tmp)
  have div: "unat (n div 10) = unat n div 10" and mod: "unat (n mod 10) = unat n mod 10"
    by (simp_all add: unat_div unat_mod)
  show ?case
  proof (cases "n div 10 = 0")
    case True
    then have "unat n div 10 = 0" using div by simp
    then have "unat n < 10" by simp
    with "1.prems" True show ?thesis
      by (subst itoa_tmp.simps)
        (simp add: itoa_tmp.simps [of 0] dec_digits.simps [of "unat n"] unat_mod)
  next
    case False
    then have "unat n div 10 \<noteq> 0" using div by (metis unat_eq_zero)
    then have "\<not> unat n < 10" by auto
    with "1" False show ?thesis
      by (subst itoa_tmp.simps) (simp add: dec_digits.simps [of "unat n"] div mod)
  qed
qed

lemma sh_itoa_digits: "sh_itoa n = dec_digits (unat n)"
  by (simp add: sh_itoa_def Let_def itoa_copy_rev itoa_tmp_digits digits_0)

text \<open>
  A decimal number of at most \<open>k\<close> digits is below \<open>10 ^ k\<close>; a \<^verbatim>\<open>uint32_t\<close> therefore needs
  at most ten digits, so that the ten digits fit in \<^verbatim>\<open>tmp[12]\<close> and, with the terminator, in
  the callers' \<^verbatim>\<open>buf[12]\<close>.
\<close>

lemma length_digits: "n < 10 ^ Suc k \<Longrightarrow> length (dec_digits n) \<le> Suc k"
proof (induction k arbitrary: n)
  case 0
  then show ?case by (subst dec_digits.simps) simp
next
  case (Suc k)
  then have "n div 10 < 10 ^ Suc k" by (simp add: div_less_iff_less_mult)
  from Suc.IH [OF this] show ?case by (subst dec_digits.simps) simp
qed

lemma digits_nonempty [simp]: "dec_digits n \<noteq> []"
  by (subst dec_digits.simps) simp

definition is_digit :: "char \<Rightarrow> bool" where
  "is_digit c \<longleftrightarrow> schar (CHR ''0'') \<le> schar c \<and> schar c \<le> schar (CHR ''9'')"

lemma of_char_digit: "d < 10 \<Longrightarrow> of_char (char_of (48 + d) :: char) = (48 + d :: nat)"
  by simp

lemma shift_mod_256:
  fixes n :: nat
  assumes "n < 256"
  shows "(int n + 128) mod 256 - 128 = (if n < 128 then int n else int n - 256)"
proof (cases "n < 128")
  case False
  have "(int n + 128) mod 256 = ((int n - 128) + 256) mod 256" by (simp add: add.commute)
  also have "\<dots> = (int n - 128) mod 256" by (rule mod_add_self2)
  also have "\<dots> = int n - 128" using assms False by (intro mod_pos_pos_trivial) auto
  finally show ?thesis using False by simp
qed simp

lemma schar_eq: "schar c = (if of_char c < (128::nat) then uchar c else uchar c - 256)"
proof -
  have "uint (of_char c :: 8 word) = uchar c"
  proof -
    have "(of_char c :: 8 word) = of_nat (of_char c)" by (simp add: of_nat_of_char)
    then show ?thesis by (simp add: uchar_def uint_nat unat_of_nat)
  qed
  then have "schar c = (uchar c + 128) mod 256 - 128"
    by (simp add: schar_def sint_uint signed_take_bit_eq_take_bit_shift take_bit_eq_mod)
  then show ?thesis
    using shift_mod_256 [of "of_char c"] nat_of_char_less_256 [of c] by (simp add: uchar_def)
qed

lemma is_digit_iff: "is_digit c \<longleftrightarrow> 48 \<le> (of_char c :: nat) \<and> (of_char c :: nat) \<le> 57"
proof -
  have "schar (CHR ''0'') = 48" "schar (CHR ''9'') = 57" by code_simp+
  then show ?thesis
    using nat_of_char_less_256 [of c] unfolding is_digit_def schar_eq uchar_def by presburger
qed

lemma is_digit_char_of [simp]: "d < 10 \<Longrightarrow> is_digit (char_of (48 + d :: nat))"
  by (simp add: is_digit_iff)

lemma digits_are_digits: "\<forall>c \<in> set (dec_digits n). is_digit c"
proof (induction n rule: dec_digits.induct)
  case (1 n)
  show ?case
  proof (cases "n < 10")
    case True
    then show ?thesis by (subst dec_digits.simps) simp
  next
    case False
    with "1" show ?thesis by (subst dec_digits.simps) auto
  qed
qed

lemma not_is_digit_NUL [simp]: "\<not> is_digit NUL"
  by (simp add: is_digit_iff)

lemma digits_c_string [simp]: "c_string (dec_digits n)"
  using digits_are_digits [of n] by (auto simp: c_string_def)

section \<open>The decimal argument of killprocess\<close>

text \<open>The loop of \<^verbatim>\<open>cmd_killprocess\<close>: it stops at the first character that is no digit.\<close>

function parse_dec :: "uint32_t \<Rightarrow> string \<Rightarrow> uint32_t" where
  "parse_dec target s =
     (if is_digit (deref s)
      then parse_dec (target * 10 + of_int (schar (deref s) - schar (CHR ''0''))) (tl s)
      else target)"
  by pat_completeness auto
termination
  by (relation "measure (\<lambda>(target, s). length s)") (auto simp: deref_def split: list.splits)

declare parse_dec.simps [simp del]

lemma parse_dec_digit:
  assumes "d < 10"
  shows "parse_dec t (char_of (48 + d :: nat) # s) = parse_dec (t * 10 + of_nat d) s"
proof -
  have "schar (char_of (48 + d)) - schar (CHR ''0'') = int d"
  proof -
    have "schar (CHR ''0'') = 48" by code_simp
    with assms show ?thesis by (simp add: schar_eq uchar_def)
  qed
  with assms show ?thesis by (subst parse_dec.simps) simp
qed

lemma parse_dec_digits:
  "parse_dec 0 (dec_digits n @ s) = parse_dec (of_nat n) s"
proof (induction n arbitrary: s rule: dec_digits.induct)
  case (1 n)
  show ?case
  proof (cases "n < 10")
    case True
    then show ?thesis
      by (subst dec_digits.simps) (simp add: parse_dec_digit)
  next
    case False
    have "parse_dec 0 (dec_digits n @ s)
        = parse_dec 0 (dec_digits (n div 10) @ char_of (48 + n mod 10) # s)"
      using False by (subst dec_digits.simps) simp
    also have "\<dots> = parse_dec (of_nat (n div 10)) (char_of (48 + n mod 10) # s)"
      using "1" False by blast
    also have "\<dots> = parse_dec (of_nat (n div 10 * 10 + n mod 10)) s"
      by (simp only: parse_dec_digit of_nat_add of_nat_mult of_nat_numeral mod_less_divisor zero_less_numeral)
    finally show ?thesis by (simp only: div_mult_mod_eq)
  qed
qed

lemma parse_dec_stop: "\<not> is_digit (deref s) \<Longrightarrow> parse_dec t s = t"
  by (subst parse_dec.simps) simp

lemma parse_dec_prefix:
  "\<not> is_digit (deref s) \<Longrightarrow> parse_dec 0 (dec_digits n @ s) = of_nat n"
  by (simp add: parse_dec_digits parse_dec_stop)

section \<open>The comparison routines against the order of byte strings\<close>

definition byte_less :: "(string \<times> string) set" where
  "byte_less = lexord {(a, b). uchar a < uchar b}"

lemma sh_strcmp_Nil [simp]:
  "sh_strcmp [] [] = 0" "sh_strcmp [] (b # t) = - uchar b" "sh_strcmp (a # s) [] = uchar a"
  by (subst sh_strcmp.simps, simp add: uchar_def)+

lemma sh_strcmp_Cons:
  "a \<noteq> NUL \<Longrightarrow> sh_strcmp (a # s) (b # t) = (if a = b then sh_strcmp s t else uchar a - uchar b)"
  by (subst sh_strcmp.simps) auto

lemma uchar_NUL: "uchar NUL = 0"
  by (simp add: uchar_def)

lemma uchar_pos: "c \<noteq> NUL \<Longrightarrow> 0 < uchar c"
proof -
  assume "c \<noteq> NUL"
  then have "uchar c \<noteq> uchar NUL" by (simp only: uchar_inject not_False_eq_True)
  then show ?thesis by (simp add: uchar_def)
qed

lemma sh_strcmp_less_iff:
  "c_string a \<Longrightarrow> c_string b \<Longrightarrow> sh_strcmp a b < 0 \<longleftrightarrow> (a, b) \<in> byte_less"
proof (induction a arbitrary: b)
  case Nil
  then show ?case by (cases b) (auto simp: byte_less_def dest: uchar_pos)
next
  case (Cons x a)
  then show ?case
    by (cases b) (auto simp: byte_less_def sh_strcmp_Cons dest: uchar_pos)
qed

lemma sh_strncmp_take:
  "c_string a \<Longrightarrow> c_string b \<Longrightarrow> sh_strncmp a b (int n) = sh_strcmp (take n a) (take n b)"
proof (induction n arbitrary: a b)
  case 0
  then show ?case by (subst sh_strncmp.simps) simp
next
  case (Suc n)
  show ?case
  proof (cases a; cases b)
    fix x xs y ys assume "a = x # xs" "b = y # ys"
    with Suc show ?thesis by (subst sh_strncmp.simps) (auto simp: sh_strcmp_Cons)
  qed (use Suc.prems in \<open>subst sh_strncmp.simps, auto simp: uchar_NUL\<close>)+
qed

section \<open>Properties\<close>

text \<open>\<open>sh_strcmp\<close> decides the order of C strings: its sign is that of the lexicographic
  order of the unsigned bytes, it is zero exactly on equal strings, and swapping the arguments
  negates it.\<close>

theorem sh_strcmp_orders:
  assumes "c_string a" "c_string b"
  shows "(sh_strcmp a b < 0 \<longleftrightarrow> (a, b) \<in> byte_less) \<and> (sh_strcmp a b = 0 \<longleftrightarrow> a = b)
    \<and> (sh_strcmp a b > 0 \<longleftrightarrow> (b, a) \<in> byte_less) \<and> sh_strcmp b a = - sh_strcmp a b"
  using sh_strcmp_less_iff [OF assms] sh_strcmp_less_iff [OF assms(2,1)]
    sh_strcmp_eq_0_iff [OF assms] sh_strcmp_antisym [of b a] by auto

theorem sh_strcmp_orders_witness:
  "sh_strcmp ''ls'' ''lsx'' < 0 \<longleftrightarrow> (''ls'', ''lsx'') \<in> byte_less"
  using sh_strcmp_orders [of "''ls''" "''lsx''"] by simp

text \<open>\<open>sh_strncmp\<close> on a count \<open>n\<close> is \<open>sh_strcmp\<close> on the first \<open>n\<close> characters.\<close>

theorem sh_strncmp_is_strcmp_of_prefix:
  assumes "c_string a" "c_string b"
  shows "sh_strncmp a b (int n) = sh_strcmp (take n a) (take n b)"
  using assms by (rule sh_strncmp_take)

theorem sh_strncmp_is_strcmp_of_prefix_witness:
  "sh_strncmp ''killprocess 12'' ''killprocess'' (int 11)
     = sh_strcmp (take 11 ''killprocess 12'') (take 11 ''killprocess'')"
  by (rule sh_strncmp_is_strcmp_of_prefix) (simp_all add: c_string_def)

text \<open>\<open>sh_itoa\<close> writes the decimal digits of its argument, at most ten, so that neither
  \<^verbatim>\<open>tmp[12]\<close> nor a caller's \<^verbatim>\<open>buf[12]\<close> overflows, and the number parser of the shell reads the
  number back from them.\<close>

theorem sh_itoa_round_trip:
  "sh_itoa n = dec_digits (unat n) \<and> c_string (sh_itoa n) \<and> sh_itoa n \<noteq> []
     \<and> length (sh_itoa n) \<le> 10 \<and> list_all is_digit (sh_itoa n) \<and> parse_dec 0 (sh_itoa n) = n"
proof -
  have "unat n < 2 ^ LENGTH(32)" by (rule unsigned_less)
  then have "unat n < 10 ^ Suc 9" by simp
  then have "length (dec_digits (unat n)) \<le> Suc 9" by (rule length_digits)
  moreover have "parse_dec 0 (dec_digits (unat n)) = n" using parse_dec_prefix [of "[]" "unat n"] by simp
  ultimately show ?thesis
    by (simp add: sh_itoa_digits list_all_iff digits_are_digits)
qed

end
