(* ===== verification/Serial.thy ===== *)
theory Serial
  imports Ports Cstring
begin

text \<open>
  The COM1 driver (\<^verbatim>\<open>src/serial.c\<close>). The transmitter is polled: a device that never reports an
  empty holding register keeps the loop running, which is the result \<open>None\<close>.
\<close>

definition COM1_BASE :: uint16_t where "COM1_BASE = 0x3F8"

record serial =
  serial_ready :: int
  serial_io :: io_log

definition serial_init :: "serial \<Rightarrow> serial" where
  "serial_init s =
     (let l = outb (COM1_BASE + 1) 0x00 (serial_io s);
          l = outb (COM1_BASE + 3) 0x80 l;
          l = outb (COM1_BASE + 0) 0x0C l;
          l = outb (COM1_BASE + 1) 0x00 l;
          l = outb (COM1_BASE + 3) 0x03 l;
          l = outb (COM1_BASE + 2) 0xC7 l;
          l = outb (COM1_BASE + 4) 0x0B l
      in s\<lparr>serial_io := l, serial_ready := 1\<rparr>)"

partial_function (option) serial_wait :: "device \<Rightarrow> io_log \<Rightarrow> io_log option" where
  "serial_wait dev l =
     (let (status, l') = inb dev (COM1_BASE + 5) l
      in if status AND 0x20 = 0 then serial_wait dev l' else Some l')"

declare serial_wait.simps [code]

definition serial_putchar :: "device \<Rightarrow> char \<Rightarrow> serial \<Rightarrow> serial option" where
  "serial_putchar dev c s =
     (case serial_wait dev (serial_io s) of
        None \<Rightarrow> None
      | Some l \<Rightarrow> Some (s\<lparr>serial_io := outb COM1_BASE (of_char c) l\<rparr>))"

fun serial_print :: "device \<Rightarrow> string \<Rightarrow> serial \<Rightarrow> serial option" where
  "serial_print dev [] s = Some s"
| "serial_print dev (c # cs) s =
     (if c = NUL then Some s
      else case serial_putchar dev c s of
             None \<Rightarrow> None
           | Some s' \<Rightarrow> serial_print dev cs s')"

section \<open>A transmitter that makes progress\<close>

text \<open>
  What the driver relies on of the UART: however the polling started, after finitely many
  further reads of the line status register it reports an empty holding register.
\<close>

definition lsr_reads :: "device \<Rightarrow> nat \<Rightarrow> io_log \<Rightarrow> io_log" where
  "lsr_reads dev n l = ((\<lambda>k. snd (inb dev (COM1_BASE + 5) k)) ^^ n) l"

definition uart_live :: "device \<Rightarrow> bool" where
  "uart_live dev \<longleftrightarrow>
     (\<forall>l. \<exists>n. dev (lsr_reads dev n l) (COM1_BASE + 5) AND 0x20 \<noteq> 0)"

lemma lsr_reads_Suc: "lsr_reads dev (Suc n) l = lsr_reads dev n (snd (inb dev (COM1_BASE + 5) l))"
  by (simp add: lsr_reads_def funpow_Suc_right del: funpow.simps)

lemma serial_wait_returns:
  assumes "dev (lsr_reads dev n l) (COM1_BASE + 5) AND 0x20 \<noteq> 0"
  shows "\<exists>l'. serial_wait dev l = Some l' \<and> (\<forall>p. written p l' = written p l)"
  using assms
proof (induction n arbitrary: l)
  case 0
  then show ?case
    by (subst serial_wait.simps) (simp add: lsr_reads_def inb_def Let_def)
next
  case (Suc n)
  let ?l = "snd (inb dev (COM1_BASE + 5) l)"
  from Suc obtain l' where l': "serial_wait dev ?l = Some l'" "\<forall>p. written p l' = written p ?l"
    unfolding lsr_reads_Suc by blast
  then show ?case
    by (subst serial_wait.simps) (auto simp: inb_def Let_def)
qed

lemma serial_putchar_returns:
  assumes "uart_live dev"
  shows "\<exists>s'. serial_putchar dev c s = Some s' \<and> serial_ready s' = serial_ready s
     \<and> written COM1_BASE (serial_io s') = written COM1_BASE (serial_io s) @ [of_char c]"
proof -
  from assms obtain n where "dev (lsr_reads dev n (serial_io s)) (COM1_BASE + 5) AND 0x20 \<noteq> 0"
    by (auto simp: uart_live_def)
  from serial_wait_returns [of dev n, OF this] show ?thesis
    by (auto simp: serial_putchar_def)
qed

lemma serial_print_returns:
  assumes "uart_live dev" "c_string cs"
  shows "\<exists>s'. serial_print dev cs s = Some s' \<and> serial_ready s' = serial_ready s
     \<and> written COM1_BASE (serial_io s') = written COM1_BASE (serial_io s) @ map of_char cs"
  using assms(2)
proof (induction cs arbitrary: s)
  case Nil
  then show ?case by simp
next
  case (Cons c cs)
  from serial_putchar_returns [OF assms(1), of c s] obtain s1 where
    s1: "serial_putchar dev c s = Some s1" "serial_ready s1 = serial_ready s"
      "written COM1_BASE (serial_io s1) = written COM1_BASE (serial_io s) @ [of_char c]"
    by blast
  from Cons.IH [of s1] Cons.prems s1 show ?case by auto
qed

section \<open>Properties\<close>

text \<open>With a UART that always becomes ready again \<open>serial_print\<close> returns and has sent
  exactly the bytes of the string, in order, on the data register.\<close>

theorem serial_print_transmits:
  assumes "uart_live dev" "c_string cs"
  shows "\<exists>s'. serial_print dev cs s = Some s'
    \<and> written COM1_BASE (serial_io s') = written COM1_BASE (serial_io s) @ map of_char cs"
  using serial_print_returns [OF assms] by blast

text \<open>A transmitter that is busy on every other access.\<close>

definition busy_uart :: device where
  "busy_uart l port = (if even (length l) then 0x20 else 0)"

lemma busy_uart_live: "uart_live busy_uart"
  unfolding uart_live_def
proof
  fix l :: io_log
  show "\<exists>n. busy_uart (lsr_reads busy_uart n l) (COM1_BASE + 5) AND 0x20 \<noteq> 0"
  proof (cases "even (length l)")
    case True
    then show ?thesis by (intro exI [of _ 0]) (simp add: lsr_reads_def busy_uart_def)
  next
    case False
    then show ?thesis
      by (intro exI [of _ 1]) (simp add: lsr_reads_def busy_uart_def inb_def Let_def)
  qed
qed

theorem serial_print_transmits_witness:
  "\<exists>s'. serial_print busy_uart ''[SoraOS] Boot start'' \<lparr> serial_ready = 1, serial_io = [] \<rparr> = Some s'"
  using serial_print_transmits [OF busy_uart_live, of "''[SoraOS] Boot start''"]
  by (auto simp: c_string_def)

end
