(* ===== verification/Interfaces.thy ===== *)
theory Interfaces
  imports Prelude
begin

text \<open>
  The contracts between the components, as locales. A component that provides the operations
  of a contract interprets it on its own definitions; a component that uses them builds on the
  lemmas proved here once.
\<close>

section \<open>A bounded first-in first-out buffer\<close>

text \<open>
  The keyboard buffer as its users see it: the interrupt handler pushes, the shell pops.
  A full buffer drops what is pushed; an empty one answers \<open>nothing\<close>, which is therefore
  never a value in the buffer.
\<close>

locale bounded_fifo =
  fixes invar :: "'s \<Rightarrow> bool"
    and contents :: "'s \<Rightarrow> 'a list"
    and cap :: nat
    and nothing :: 'a
    and push :: "'a \<Rightarrow> 's \<Rightarrow> 's"
    and pop :: "'s \<Rightarrow> 'a \<times> 's"
  assumes cap_bound: "invar s \<Longrightarrow> length (contents s) \<le> cap"
    and no_nothing: "invar s \<Longrightarrow> nothing \<notin> set (contents s)"
    and push_invar: "invar s \<Longrightarrow> c \<noteq> nothing \<Longrightarrow> invar (push c s)"
    and push_contents: "invar s \<Longrightarrow> c \<noteq> nothing \<Longrightarrow>
          contents (push c s) =
            (if length (contents s) < cap then contents s @ [c] else contents s)"
    and pop_invar: "invar s \<Longrightarrow> invar (snd (pop s))"
    and pop_contents: "invar s \<Longrightarrow> contents (snd (pop s)) = tl (contents s)"
    and pop_value: "invar s \<Longrightarrow>
          fst (pop s) = (case contents s of [] \<Rightarrow> nothing | c # _ \<Rightarrow> c)"
begin

fun push_all :: "'a list \<Rightarrow> 's \<Rightarrow> 's" where
  "push_all [] s = s"
| "push_all (c # cs) s = push_all cs (push c s)"

fun pop_n :: "nat \<Rightarrow> 's \<Rightarrow> 'a list \<times> 's" where
  "pop_n 0 s = ([], s)"
| "pop_n (Suc n) s =
     (let (c, s') = pop s; (cs, s'') = pop_n n s' in (c # cs, s''))"

lemma push_all_invar: "invar s \<Longrightarrow> nothing \<notin> set cs \<Longrightarrow> invar (push_all cs s)"
  by (induction cs arbitrary: s) (use push_invar in \<open>auto simp: eq_commute\<close>)

lemma push_all_contents:
  "invar s \<Longrightarrow> nothing \<notin> set cs \<Longrightarrow>
   contents (push_all cs s) = contents s @ take (cap - length (contents s)) cs"
proof (induction cs arbitrary: s)
  case (Cons c cs)
  then have c: "c \<noteq> nothing" by auto
  have "invar (push c s)" using Cons.prems c by (auto intro: push_invar)
  with Cons c show ?case
    using cap_bound [OF Cons.prems(1)]
    by (auto simp: push_contents take_Cons' Suc_diff_le)
qed simp

lemma pop_empty_iff: "invar s \<Longrightarrow> fst (pop s) = nothing \<longleftrightarrow> contents s = []"
  using no_nothing by (fastforce simp: pop_value split: list.splits)

lemma pop_n_contents:
  "invar s \<Longrightarrow> n \<le> length (contents s) \<Longrightarrow>
   fst (pop_n n s) = take n (contents s) \<and> contents (snd (pop_n n s)) = drop n (contents s)
     \<and> invar (snd (pop_n n s))"
proof (induction n arbitrary: s)
  case (Suc n)
  then obtain c cs where cs: "contents s = c # cs" by (cases "contents s") auto
  with Suc.prems have "invar (snd (pop s))" "n \<le> length (contents (snd (pop s)))"
    by (auto simp: pop_invar pop_contents)
  from Suc.IH [OF this] Suc.prems cs show ?case
    by (auto simp: split_beta Let_def pop_value pop_contents)
qed simp

lemma fifo_order:
  "invar s \<Longrightarrow> contents s = [] \<Longrightarrow> nothing \<notin> set cs \<Longrightarrow> length cs \<le> cap \<Longrightarrow>
   fst (pop_n (length cs) (push_all cs s)) = cs"
  using pop_n_contents [OF push_all_invar, of s cs "length cs"]
  by (simp add: push_all_contents)

end

section \<open>A character console\<close>

text \<open>
  What the shell, the panic handler and the boot screen rely on of the text console: a
  character can always be put, and \<open>frame\<close>, the part of the console that character output
  must not touch, stays as it is.
\<close>

locale console =
  fixes invar :: "'s \<Rightarrow> bool"
    and frame :: "'s \<Rightarrow> 'f"
    and put :: "char \<Rightarrow> 's \<Rightarrow> 's"
  assumes put_invar: "invar s \<Longrightarrow> invar (put c s)"
    and put_frame: "invar s \<Longrightarrow> frame (put c s) = frame s"
begin

fun puts :: "string \<Rightarrow> 's \<Rightarrow> 's" where
  "puts [] s = s"
| "puts (c # cs) s = (if c = NUL then s else puts cs (put c s))"

lemma puts_invar: "invar s \<Longrightarrow> invar (puts cs s)"
  by (induction cs arbitrary: s) (auto intro: put_invar)

lemma puts_frame: "invar s \<Longrightarrow> frame (puts cs s) = frame s"
  by (induction cs arbitrary: s) (auto simp: put_invar put_frame)

lemma puts_append: "NUL \<notin> set cs \<Longrightarrow> puts (cs @ ds) s = puts ds (puts cs s)"
  by (induction cs arbitrary: s) auto

end

text \<open>A console with a current colour, which printing in another colour restores.\<close>

locale colour_console = console invar frame put
  for invar :: "'s \<Rightarrow> bool" and frame :: "'s \<Rightarrow> 'f" and put :: "char \<Rightarrow> 's \<Rightarrow> 's" +
  fixes colour :: "'s \<Rightarrow> 'k"
    and set_colour :: "'k \<Rightarrow> 's \<Rightarrow> 's"
  assumes put_colour: "colour (put c s) = colour s"
    and colour_set: "colour (set_colour k s) = k"
    and set_invar: "invar (set_colour k s) = invar s"
    and set_frame: "frame (set_colour k s) = frame s"
begin

definition puts_in :: "'k \<Rightarrow> string \<Rightarrow> 's \<Rightarrow> 's" where
  "puts_in k cs s = set_colour (colour s) (puts cs (set_colour k s))"

lemma puts_colour: "colour (puts cs s) = colour s"
  by (induction cs arbitrary: s) (auto simp: put_colour)

lemma puts_in_invar: "invar s \<Longrightarrow> invar (puts_in k cs s)"
  by (simp add: puts_in_def set_invar puts_invar)

lemma puts_in_frame: "invar s \<Longrightarrow> frame (puts_in k cs s) = frame s"
  by (simp add: puts_in_def set_frame set_invar puts_frame)

lemma puts_in_colour: "colour (puts_in k cs s) = colour s"
  by (simp add: puts_in_def colour_set)

end

section \<open>A page allocator\<close>

text \<open>
  What the scheduler and the thread code rely on of the physical memory manager. \<open>free s\<close> is
  the set of free page numbers; an address is the page number times 4096, and address 0 is
  the failure value. A page is given back by its address.
\<close>

locale page_allocator =
  fixes invar :: "'s \<Rightarrow> bool"
    and free :: "'s \<Rightarrow> nat set"
    and managed :: "'s \<Rightarrow> nat"
    and alloc :: "'s \<Rightarrow> uint32_t \<times> 's"
    and release :: "uint32_t \<Rightarrow> 's \<Rightarrow> 's"
  assumes alloc_invar: "invar s \<Longrightarrow> invar (snd (alloc s))"
    and alloc_managed: "invar s \<Longrightarrow> managed (snd (alloc s)) = managed s"
    and alloc_fails: "invar s \<Longrightarrow> fst (alloc s) = 0 \<Longrightarrow> snd (alloc s) = s"
    and alloc_page: "invar s \<Longrightarrow> fst (alloc s) \<noteq> 0 \<Longrightarrow>
          unat (fst (alloc s)) mod 4096 = 0 \<and> unat (fst (alloc s)) div 4096 \<in> free s \<and>
          free (snd (alloc s)) = free s - {unat (fst (alloc s)) div 4096}"
    and free_managed: "invar s \<Longrightarrow> n \<in> free s \<Longrightarrow> 0 < n \<and> n < managed s"
    and release_invar: "invar s \<Longrightarrow> a \<noteq> 0 \<Longrightarrow> invar (release a s)"
    and release_managed: "invar s \<Longrightarrow> a \<noteq> 0 \<Longrightarrow> managed (release a s) = managed s"
    and release_free: "invar s \<Longrightarrow> a \<noteq> 0 \<Longrightarrow>
          free (release a s) =
            (if unat a mod 4096 = 0 \<and> unat a div 4096 < managed s
             then insert (unat a div 4096) (free s) else free s)"
begin

fun alloc_n :: "nat \<Rightarrow> 's \<Rightarrow> uint32_t list \<times> 's" where
  "alloc_n 0 s = ([], s)"
| "alloc_n (Suc n) s =
     (let (a, s') = alloc s; (as, s'') = alloc_n n s' in (a # as, s''))"

lemma alloc_free_subset: "invar s \<Longrightarrow> free (snd (alloc s)) \<subseteq> free s"
  using alloc_page alloc_fails by (cases "fst (alloc s) = 0") auto

lemma alloc_n_page:
  "invar s \<Longrightarrow> a \<in> set (fst (alloc_n n s)) \<Longrightarrow> a \<noteq> 0 \<Longrightarrow> unat a div 4096 \<in> free s"
proof (induction n arbitrary: s)
  case (Suc n)
  show ?case
  proof (cases "a = fst (alloc s)")
    case True
    with Suc.prems alloc_page show ?thesis by blast
  next
    case False
    with Suc.prems have "a \<in> set (fst (alloc_n n (snd (alloc s))))"
      by (auto simp: split_beta Let_def)
    with Suc alloc_invar alloc_free_subset show ?thesis by blast
  qed
qed simp

text \<open>Pages handed out in a row, with none given back in between, are all different.\<close>

lemma alloc_n_distinct:
  "invar s \<Longrightarrow> 0 \<notin> set (fst (alloc_n n s)) \<Longrightarrow> distinct (fst (alloc_n n s))"
proof (induction n arbitrary: s)
  case (Suc n)
  let ?a = "fst (alloc s)" and ?s = "snd (alloc s)"
  have as: "fst (alloc_n (Suc n) s) = ?a # fst (alloc_n n ?s)"
    by (simp add: split_beta Let_def)
  with Suc.prems have a0: "?a \<noteq> 0" and rest: "0 \<notin> set (fst (alloc_n n ?s))" by auto
  have "?a \<notin> set (fst (alloc_n n ?s))"
    using alloc_n_page [OF alloc_invar [OF Suc.prems(1)], of ?a n] alloc_page [OF Suc.prems(1) a0] a0
    by blast
  with Suc.IH [OF alloc_invar [OF Suc.prems(1)] rest] as show ?case by simp
qed simp

lemma alloc_release:
  assumes "invar s" "fst (alloc s) \<noteq> 0"
  shows "free (release (fst (alloc s)) (snd (alloc s))) = free s"
proof -
  have p: "unat (fst (alloc s)) mod 4096 = 0" "unat (fst (alloc s)) div 4096 \<in> free s"
    "free (snd (alloc s)) = free s - {unat (fst (alloc s)) div 4096}"
    using alloc_page [OF assms] by auto
  moreover have "unat (fst (alloc s)) div 4096 < managed (snd (alloc s))"
    using free_managed [OF assms(1) p(2)] alloc_managed [OF assms(1)] by simp
  ultimately show ?thesis
    using release_free [OF alloc_invar [OF assms(1)] assms(2)] by auto
qed

end

section \<open>A run queue\<close>

text \<open>
  What process and thread management rely on of the linked run queue. \<open>queue s xs\<close> relates a
  state to the list of the queued elements; \<open>frame\<close> is everything but the links.
\<close>

locale process_queue =
  fixes queue :: "'s \<Rightarrow> 'r list \<Rightarrow> bool"
    and frame :: "'s \<Rightarrow> 'f"
    and enq :: "'r \<Rightarrow> 's \<Rightarrow> 's option"
    and deq :: "'r \<Rightarrow> 's \<Rightarrow> 's option"
  assumes queue_distinct: "queue s xs \<Longrightarrow> distinct xs"
    and queue_unique: "queue s xs \<Longrightarrow> queue s ys \<Longrightarrow> xs = ys"
    and enq_queue: "queue s xs \<Longrightarrow> x \<notin> set xs \<Longrightarrow>
          \<exists>s'. enq x s = Some s' \<and> queue s' (xs @ [x]) \<and> frame s' = frame s"
    and deq_queue: "queue s xs \<Longrightarrow>
          \<exists>s'. deq x s = Some s' \<and> queue s' (remove1 x xs) \<and> frame s' = frame s"
begin

fun enq_all :: "'r list \<Rightarrow> 's \<Rightarrow> 's option" where
  "enq_all [] s = Some s"
| "enq_all (x # xs) s = Option.bind (enq x s) (enq_all xs)"

lemma enq_all_queue:
  "queue s xs \<Longrightarrow> distinct (xs @ ys) \<Longrightarrow>
   \<exists>s'. enq_all ys s = Some s' \<and> queue s' (xs @ ys) \<and> frame s' = frame s"
proof (induction ys arbitrary: s xs)
  case (Cons y ys)
  then obtain s1 where s1: "enq y s = Some s1" "queue s1 (xs @ [y])" "frame s1 = frame s"
    using enq_queue [of s xs y] by auto
  with Cons.IH [of s1 "xs @ [y]"] Cons.prems show ?case by auto
qed simp

text \<open>An element put in and taken out again leaves the queue as it was.\<close>

lemma enq_deq:
  assumes "queue s xs" "x \<notin> set xs" "enq x s = Some s1"
  shows "\<exists>s2. deq x s1 = Some s2 \<and> queue s2 xs \<and> frame s2 = frame s"
proof -
  have s1: "queue s1 (xs @ [x])" "frame s1 = frame s"
    using enq_queue [OF assms(1,2)] assms(3) by auto
  moreover have "remove1 x (xs @ [x]) = xs" using assms(2) by (simp add: remove1_append)
  ultimately show ?thesis using deq_queue [OF s1(1), of x] by auto
qed

lemma deq_gone:
  assumes "queue s xs" "deq x s = Some s'"
  shows "\<exists>ys. queue s' ys \<and> x \<notin> set ys \<and> set ys = set xs - {x}"
  using deq_queue [OF assms(1), of x] queue_distinct [OF assms(1)] assms(2)
  by (auto simp: set_remove1_eq)

end

end
