(* ===== verification/Keyboard.thy ===== *)
theory Keyboard
  imports Ports Interfaces
begin

text \<open>
  The PS/2 keyboard driver (\<^verbatim>\<open>src/keyboard.c\<close>): the translation of scancodes under the shift
  state, and the circular buffer of 256 slots between the interrupt handler and the shell. The
  buffer is shown to be a first-in first-out queue of at most 255 characters, the contract
  \<open>bounded_fifo\<close>.
\<close>

definition KB_BUFFER_SIZE :: nat where "KB_BUFFER_SIZE = 256"
definition KB_DATA_PORT :: uint16_t where "KB_DATA_PORT = 0x60"

record kbd =
  kb_buffer :: string
  kb_head :: uint8_t
  kb_tail :: uint8_t
  shift_held :: uint8_t
  kb_io :: io_log

definition scancode_normal :: string where
  "scancode_normal =
     [NUL, NUL] @ ''1234567890-='' @ [CHR 0x08, CHR 0x09] @ ''qwertyuiop[]'' @ [CHR 0x0A, NUL]
     @ ''asdfghjkl;'' @ [CHR 0x27, CHR 0x60, NUL, CHR 0x5C] @ ''zxcvbnm,./''
     @ [NUL, CHR ''*'', NUL, CHR '' ''] @ replicate 13 NUL @ ''789-456+1230.'' @ replicate 44 NUL"

definition scancode_shifted :: string where
  "scancode_shifted =
     [NUL, NUL] @ ''!@#$%^&*()_+'' @ [CHR 0x08, CHR 0x09] @ ''QWERTYUIOP{}'' @ [CHR 0x0A, NUL]
     @ ''ASDFGHJKL:'' @ [CHR 0x22, CHR ''~'', NUL, CHR ''|''] @ ''ZXCVBNM<>?''
     @ [NUL, CHR ''*'', NUL, CHR '' ''] @ replicate 13 NUL @ ''789-456+1230.'' @ replicate 44 NUL"

text \<open>The static objects before \<^verbatim>\<open>keyboard_init\<close>.\<close>

definition kbd_boot :: kbd where
  "kbd_boot = \<lparr> kb_buffer = replicate KB_BUFFER_SIZE NUL, kb_head = 0, kb_tail = 0,
               shift_held = 0, kb_io = [] \<rparr>"

definition keyboard_init :: "kbd \<Rightarrow> kbd" where
  "keyboard_init k = k\<lparr>kb_head := 0, kb_tail := 0, shift_held := 0\<rparr>"

text \<open>The index after \<open>i\<close>: computed on \<^verbatim>\<open>int\<close> and converted back to \<^verbatim>\<open>uint8_t\<close>.\<close>

definition kb_next :: "uint8_t \<Rightarrow> uint8_t" where
  "kb_next i = of_nat ((unat i + 1) mod KB_BUFFER_SIZE)"

definition kb_push :: "char \<Rightarrow> kbd \<Rightarrow> kbd" where
  "kb_push c k =
     (let next_head = kb_next (kb_head k)
      in if next_head \<noteq> kb_tail k
         then k\<lparr>kb_buffer := (kb_buffer k)[unat (kb_head k) := c], kb_head := next_head\<rparr>
         else k)"

definition kb_translate :: "uint8_t \<Rightarrow> uint8_t \<Rightarrow> char" where
  "kb_translate shift scancode =
     (if shift \<noteq> 0 then scancode_shifted ! unat (scancode AND 0x7F)
      else scancode_normal ! unat (scancode AND 0x7F))"

definition keyboard_scancode :: "uint8_t \<Rightarrow> kbd \<Rightarrow> kbd" where
  "keyboard_scancode scancode k =
     (if scancode = 0x2A \<or> scancode = 0x36 then k\<lparr>shift_held := 1\<rparr>
      else if scancode = 0xAA \<or> scancode = 0xB6 then k\<lparr>shift_held := 0\<rparr>
      else if scancode AND 0x80 \<noteq> 0 then k
      else let c = kb_translate (shift_held k) scancode
           in if c = NUL then k else kb_push c k)"

definition keyboard_handler :: "device \<Rightarrow> kbd \<Rightarrow> kbd" where
  "keyboard_handler dev k =
     (let (scancode, l) = inb dev KB_DATA_PORT (kb_io k)
      in keyboard_scancode scancode (k\<lparr>kb_io := l\<rparr>))"

definition keyboard_getchar :: "kbd \<Rightarrow> char \<times> kbd" where
  "keyboard_getchar k =
     (if kb_head k = kb_tail k then (NUL, k)
      else (kb_buffer k ! unat (kb_tail k), k\<lparr>kb_tail := kb_next (kb_tail k)\<rparr>))"

section \<open>The buffer as a queue\<close>

definition kb_contents :: "kbd \<Rightarrow> string" where
  "kb_contents k =
     map (\<lambda>i. kb_buffer k ! unat (kb_tail k + of_nat i)) [0..<unat (kb_head k - kb_tail k)]"

definition kb_invar :: "kbd \<Rightarrow> bool" where
  "kb_invar k \<longleftrightarrow> length (kb_buffer k) = KB_BUFFER_SIZE \<and> NUL \<notin> set (kb_contents k)"

lemma kb_next_eq: "kb_next i = i + 1"
  by (simp add: kb_next_def KB_BUFFER_SIZE_def word_unat_eq_iff unat_of_nat unat_word_ariths
      take_bit_eq_mod)

lemma length_kb_contents [simp]: "length (kb_contents k) = unat (kb_head k - kb_tail k)"
  by (simp add: kb_contents_def)

lemma unat8_bound [simp]: "unat (w :: uint8_t) < 256"
  using unsigned_less [of w] by simp

lemma unat8_le [simp]: "unat (w :: uint8_t) \<le> 255"
  using unat8_bound [of w] by linarith

lemma unat8_of_nat: "i < 256 \<Longrightarrow> unat (of_nat i :: uint8_t) = i"
  by (simp add: unat_of_nat take_bit_eq_mod)

lemma kb_full_iff: "kb_next h = t \<longleftrightarrow> unat (h - t) = 255"
proof -
  have m1: "(255 :: uint8_t) = - 1" by code_simp
  have "unat (h - t) = 255 \<longleftrightarrow> h - t = 255" by (simp add: word_unat_eq_iff)
  also have "\<dots> \<longleftrightarrow> h + 1 = t" unfolding m1 by (auto simp: algebra_simps)
  finally show ?thesis by (simp add: kb_next_eq)
qed

lemma unat8_Suc: "unat w \<noteq> 255 \<Longrightarrow> unat (w + 1) = Suc (unat (w :: uint8_t))"
  using unat8_bound [of w] by (simp add: unat_word_ariths del: unat8_bound unat8_le)

lemma unat8_pred: "w \<noteq> 0 \<Longrightarrow> unat (w - 1) = unat (w :: uint8_t) - 1"
  by unat_arith

lemma kb_push_contents:
  assumes "length (kb_buffer k) = KB_BUFFER_SIZE"
  shows "kb_contents (kb_push c k) =
     (if length (kb_contents k) < 255 then kb_contents k @ [c] else kb_contents k)"
proof (cases "unat (kb_head k - kb_tail k) = 255")
  case True
  then have "kb_next (kb_head k) = kb_tail k" by (simp add: kb_full_iff)
  with True show ?thesis by (simp add: kb_push_def Let_def)
next
  case False
  let ?h = "kb_head k" and ?t = "kb_tail k"
  have lt: "unat (?h - ?t) < 255" using False unat8_le [of "?h - ?t"] by linarith
  have len: "unat (?h + 1 - ?t) = Suc (unat (?h - ?t))"
    using unat8_Suc [OF False] by (simp add: algebra_simps)
  have other: "unat ?h \<noteq> unat (?t + of_nat i)" if "i < unat (?h - ?t)" for i
  proof
    assume "unat ?h = unat (?t + of_nat i)"
    then have "?h = ?t + of_nat i" by (rule unsigned_word_eqI)
    then have "of_nat i = ?h - ?t" by (simp add: algebra_simps)
    then have "unat (of_nat i :: uint8_t) = unat (?h - ?t)" by simp
    with that lt show False by (simp add: unat8_of_nat)
  qed
  have "kb_next ?h \<noteq> ?t" using False by (simp add: kb_full_iff)
  then show ?thesis
    using lt other assms
    by (simp add: kb_push_def Let_def kb_contents_def kb_next_eq len KB_BUFFER_SIZE_def)
qed

lemma kb_push_buffer [simp]: "length (kb_buffer (kb_push c k)) = length (kb_buffer k)"
  by (simp add: kb_push_def Let_def)

lemma keyboard_getchar_buffer [simp]: "kb_buffer (snd (keyboard_getchar k)) = kb_buffer k"
  by (simp add: keyboard_getchar_def)

lemma keyboard_getchar_contents:
  "kb_contents (snd (keyboard_getchar k)) = tl (kb_contents k)
   \<and> fst (keyboard_getchar k) = (case kb_contents k of [] \<Rightarrow> NUL | c # _ \<Rightarrow> c)"
proof (cases "kb_head k = kb_tail k")
  case True
  then show ?thesis by (simp add: keyboard_getchar_def kb_contents_def)
next
  case False
  let ?n = "unat (kb_head k - kb_tail k)"
  obtain m where m: "?n = Suc m" using False by (cases ?n) (auto simp: unat_eq_zero)
  have "unat (kb_head k - (kb_tail k + 1)) = m"
    using unat8_pred [of "kb_head k - kb_tail k"] False m by (simp add: algebra_simps)
  with False m show ?thesis
    by (simp add: keyboard_getchar_def kb_contents_def kb_next_eq map_upt_Suc algebra_simps
        del: upt_Suc)
qed

interpretation kb: bounded_fifo kb_invar kb_contents 255 NUL kb_push keyboard_getchar
proof (unfold_locales, goal_cases)
  case (4 s c)
  then show ?case by (simp add: kb_push_contents kb_invar_def)
next
  case (3 s c)
  then show ?case by (auto simp: kb_push_contents kb_invar_def)
next
  case (5 s)
  then show ?case
    by (auto simp: kb_invar_def keyboard_getchar_contents dest: list.set_sel(2) split: list.splits)
      (metis list.set_sel(2) tl_Nil)
qed (auto simp: kb_invar_def keyboard_getchar_contents)

section \<open>Translation of scancodes\<close>

lemma length_scancode_tables [simp]:
  "length scancode_normal = 128" "length scancode_shifted = 128"
  by (simp_all add: scancode_normal_def scancode_shifted_def)

lemma kb_boot_invar: "kb_invar (keyboard_init kbd_boot)"
  by (simp add: kb_invar_def keyboard_init_def kbd_boot_def kb_contents_def)

lemma keyboard_init_empty: "kb_contents (keyboard_init k) = []"
  by (simp add: keyboard_init_def kb_contents_def)

text \<open>What one scancode puts into the queue, and the shift state after it.\<close>

definition scancode_char :: "uint8_t \<Rightarrow> uint8_t \<Rightarrow> char option" where
  "scancode_char shift sc =
     (if sc \<in> {0x2A, 0x36, 0xAA, 0xB6} \<or> sc AND 0x80 \<noteq> 0 \<or> kb_translate shift sc = NUL then None
      else Some (kb_translate shift sc))"

definition scancode_shift :: "uint8_t \<Rightarrow> uint8_t \<Rightarrow> uint8_t" where
  "scancode_shift shift sc =
     (if sc \<in> {0x2A, 0x36} then 1 else if sc \<in> {0xAA, 0xB6} then 0 else shift)"

lemma kb_push_shift [simp]: "shift_held (kb_push c k) = shift_held k"
  by (simp add: kb_push_def Let_def)

lemma kb_contents_shift [simp]:
  "kb_contents (k\<lparr>shift_held := h\<rparr>) = kb_contents k"
  "kb_contents (k\<lparr>kb_io := l\<rparr>) = kb_contents k"
  by (simp_all add: kb_contents_def)

lemma keyboard_scancode_spec:
  "keyboard_scancode sc k =
     (case scancode_char (shift_held k) sc of
        None \<Rightarrow> k\<lparr>shift_held := scancode_shift (shift_held k) sc\<rparr>
      | Some c \<Rightarrow> kb_push c k)"
  by (auto simp: keyboard_scancode_def scancode_char_def scancode_shift_def Let_def)

lemma scancode_char_neq_NUL: "scancode_char s sc \<noteq> Some NUL"
  by (auto simp: scancode_char_def)

lemma kb_invar_fields [simp]:
  "kb_invar (k\<lparr>shift_held := h\<rparr>) = kb_invar k"
  "kb_invar (k\<lparr>kb_io := l\<rparr>) = kb_invar k"
  by (simp_all add: kb_invar_def)

lemma keyboard_scancode_invar: "kb_invar k \<Longrightarrow> kb_invar (keyboard_scancode sc k)"
  using scancode_char_neq_NUL
  by (auto simp: keyboard_scancode_spec intro!: kb.push_invar split: option.splits)

text \<open>A sequence of scancodes decoded under a starting shift state.\<close>

fun decode_scancodes :: "uint8_t \<Rightarrow> uint8_t list \<Rightarrow> string" where
  "decode_scancodes shift [] = []"
| "decode_scancodes shift (sc # scs) =
     (case scancode_char shift sc of None \<Rightarrow> [] | Some c \<Rightarrow> [c])
       @ decode_scancodes (scancode_shift shift sc) scs"

fun keyboard_scancodes :: "uint8_t list \<Rightarrow> kbd \<Rightarrow> kbd" where
  "keyboard_scancodes [] k = k"
| "keyboard_scancodes (sc # scs) k = keyboard_scancodes scs (keyboard_scancode sc k)"

lemma keyboard_scancodes_invar: "kb_invar k \<Longrightarrow> kb_invar (keyboard_scancodes scs k)"
  by (induction scs arbitrary: k) (simp_all add: keyboard_scancode_invar)

lemma scancode_shift_char: "scancode_char s sc = Some c \<Longrightarrow> scancode_shift s sc = s"
  by (auto simp: scancode_char_def scancode_shift_def split: if_splits)

lemma keyboard_scancodes_contents:
  assumes "kb_invar k"
  shows "kb_contents (keyboard_scancodes scs k)
     = kb_contents k @ take (255 - length (kb_contents k)) (decode_scancodes (shift_held k) scs)"
  using assms
proof (induction scs arbitrary: k)
  case (Cons sc scs)
  have inv: "kb_invar (keyboard_scancode sc k)"
    using Cons.prems by (rule keyboard_scancode_invar)
  show ?case
  proof (cases "scancode_char (shift_held k) sc")
    case None
    then show ?thesis using Cons.IH [OF inv]
      by (simp add: keyboard_scancode_spec del: length_kb_contents)
  next
    case (Some c)
    then have c: "c \<noteq> NUL" using scancode_char_neq_NUL by auto
    have le: "length (kb_contents k) \<le> 255" using Cons.prems by (rule kb.cap_bound)
    from Some c Cons.IH [OF inv] Cons.prems le show ?thesis
      by (auto simp: keyboard_scancode_spec kb.push_contents scancode_shift_char take_Cons'
          Suc_diff_le simp del: length_kb_contents)
  qed
qed simp

section \<open>Properties\<close>

text \<open>The keyboard buffer is a first-in first-out queue of at most 255 characters: a push
  appends, or drops the character when the queue is full and then changes nothing else;
  \<open>keyboard_getchar\<close> takes the oldest character, and answers NUL exactly when the queue is
  empty. The wrap-around of the two 8-bit indices is never visible.\<close>

theorem keyboard_buffer_is_fifo:
  assumes "kb_invar k" "c \<noteq> NUL"
  shows "kb_invar (kb_push c k) \<and> kb_invar (snd (keyboard_getchar k))
    \<and> kb_contents (kb_push c k) =
         (if length (kb_contents k) < 255 then kb_contents k @ [c] else kb_contents k)
    \<and> kb_contents (snd (keyboard_getchar k)) = tl (kb_contents k)
    \<and> (fst (keyboard_getchar k) = NUL \<longleftrightarrow> kb_contents k = [])
    \<and> (kb_contents k \<noteq> [] \<longrightarrow> fst (keyboard_getchar k) = hd (kb_contents k))"
  using kb.push_invar [OF assms] kb.pop_invar [OF assms(1)] kb.push_contents [OF assms]
    kb.pop_contents [OF assms(1)] kb.pop_empty_iff [OF assms(1)] kb.pop_value [OF assms(1)]
  by (auto split: list.splits)

theorem keyboard_buffer_is_fifo_witness:
  "kb_contents (kb_push (CHR ''x'') (keyboard_init kbd_boot)) = ''x''"
  using keyboard_buffer_is_fifo [OF kb_boot_invar, of "CHR ''x''"]
  by (simp add: keyboard_init_empty)

text \<open>After \<open>keyboard_init\<close>, any sequence of scancodes leaves in the queue the characters
  they stand for under the shift state at the time (releases, unmapped keys and the shift keys
  themselves produce none), up to the capacity of 255; the characters then come out in the
  order they were typed.\<close>

theorem keyboard_scancodes_typed:
  "kb_contents (keyboard_scancodes scs (keyboard_init kbd_boot)) = take 255 (decode_scancodes 0 scs)
   \<and> fst (kb.pop_n (min 255 (length (decode_scancodes 0 scs)))
            (keyboard_scancodes scs (keyboard_init kbd_boot))) = take 255 (decode_scancodes 0 scs)"
proof -
  let ?k = "keyboard_scancodes scs (keyboard_init kbd_boot)"
  have s: "shift_held (keyboard_init kbd_boot) = 0" by (simp add: keyboard_init_def)
  have c: "kb_contents ?k = take 255 (decode_scancodes 0 scs)"
    using keyboard_scancodes_contents [OF kb_boot_invar, of scs] s
    by (simp add: keyboard_init_empty del: length_kb_contents)
  have i: "kb_invar ?k" using keyboard_scancodes_invar [OF kb_boot_invar] .
  have l: "min 255 (length (decode_scancodes 0 scs)) = length (kb_contents ?k)"
    unfolding c by simp
  have "fst (kb.pop_n (length (kb_contents ?k)) ?k) = kb_contents ?k"
    using kb.pop_n_contents [OF i order_refl] by (simp only: take_all [OF order_refl])
  then show ?thesis unfolding l by (simp only: c simp_thms)
qed

end
