(* ===== verification/Vga.thy ===== *)
theory Vga
  imports Ports Cstring Interfaces
begin

text \<open>
  The text console (\<^verbatim>\<open>src/vga.c\<close>, \<^verbatim>\<open>include/vga.h\<close>): the 80 by 25 cells at \<^verbatim>\<open>0xB8000\<close>, the
  software cursor, the hardware cursor in the CRT controller, scrolling and the status bar in
  row 0. Video memory is a function from the 32-bit index of \<^verbatim>\<open>VGA_BUFFER[i]\<close> to the cell, so
  that a store outside the 2000 visible cells is a store like any other and can be shown not
  to happen.
\<close>

definition VGA_WIDTH :: uint32_t where "VGA_WIDTH = 80"
definition VGA_HEIGHT :: uint32_t where "VGA_HEIGHT = 25"
definition STATUS_COLOR :: uint8_t where "STATUS_COLOR = 0x17"

datatype vga_color_t =
    VGA_COLOR_BLACK | VGA_COLOR_BLUE | VGA_COLOR_GREEN | VGA_COLOR_CYAN | VGA_COLOR_RED
  | VGA_COLOR_MAGENTA | VGA_COLOR_BROWN | VGA_COLOR_LIGHT_GREY | VGA_COLOR_DARK_GREY
  | VGA_COLOR_LIGHT_BLUE | VGA_COLOR_LIGHT_GREEN | VGA_COLOR_LIGHT_CYAN | VGA_COLOR_LIGHT_RED
  | VGA_COLOR_LIGHT_MAGENTA | VGA_COLOR_YELLOW | VGA_COLOR_WHITE

record vga =
  vram :: "uint32_t \<Rightarrow> uint16_t"
  vga_row :: uint32_t
  vga_col :: uint32_t
  vga_color :: uint8_t
  crtc :: io_log

definition vga_entry :: "char \<Rightarrow> uint8_t \<Rightarrow> uint16_t" where
  "vga_entry c color = of_char c OR push_bit 8 (ucast color)"

text \<open>The assignment \<^verbatim>\<open>VGA_BUFFER[i] = x\<close>.\<close>

definition vga_store :: "uint32_t \<Rightarrow> uint16_t \<Rightarrow> vga \<Rightarrow> vga" where
  "vga_store i x v = v\<lparr>vram := (vram v)(i := x)\<rparr>"

section \<open>Cursor and colour\<close>

definition vga_enable_cursor :: "device \<Rightarrow> vga \<Rightarrow> vga" where
  "vga_enable_cursor dev v =
     (let l = outb 0x3D4 0x0A (crtc v);
          (a, l) = inb dev 0x3D5 l;
          l = outb 0x3D5 ((a AND 0xC0) OR 13) l;
          l = outb 0x3D4 0x0B l;
          (b, l) = inb dev 0x3D5 l;
          l = outb 0x3D5 ((b AND 0xE0) OR 15) l
      in v\<lparr>crtc := l\<rparr>)"

definition vga_disable_cursor :: "vga \<Rightarrow> vga" where
  "vga_disable_cursor v = v\<lparr>crtc := outb 0x3D5 0x20 (outb 0x3D4 0x0A (crtc v))\<rparr>"

definition vga_update_hw_cursor :: "vga \<Rightarrow> vga" where
  "vga_update_hw_cursor v =
     (let pos = ucast (vga_row v * VGA_WIDTH + vga_col v) :: uint16_t;
          l = outb 0x3D4 0x0F (crtc v);
          l = outb 0x3D5 (lo_byte pos) l;
          l = outb 0x3D4 0x0E l;
          l = outb 0x3D5 (hi_byte pos) l
      in v\<lparr>crtc := l\<rparr>)"

definition vga_set_cursor :: "uint32_t \<Rightarrow> uint32_t \<Rightarrow> vga \<Rightarrow> vga" where
  "vga_set_cursor row col v = vga_update_hw_cursor (v\<lparr>vga_row := row, vga_col := col\<rparr>)"

definition vga_get_cursor :: "vga \<Rightarrow> uint32_t \<times> uint32_t" where
  "vga_get_cursor v = (vga_row v, vga_col v)"

definition vga_set_color :: "uint8_t \<Rightarrow> uint8_t \<Rightarrow> vga \<Rightarrow> vga" where
  "vga_set_color fg bg v = v\<lparr>vga_color := push_bit 4 bg OR (fg AND 0x0F)\<rparr>"

definition vga_get_color :: "vga \<Rightarrow> uint8_t" where
  "vga_get_color v = vga_color v"

section \<open>Direct writes and the status bar\<close>

definition vga_write_at :: "uint32_t \<Rightarrow> uint32_t \<Rightarrow> char \<Rightarrow> uint8_t \<Rightarrow> vga \<Rightarrow> vga" where
  "vga_write_at row col c color v = vga_store (row * VGA_WIDTH + col) (vga_entry c color) v"

fun vga_print_at :: "uint32_t \<Rightarrow> uint32_t \<Rightarrow> string \<Rightarrow> uint8_t \<Rightarrow> vga \<Rightarrow> vga" where
  "vga_print_at row col [] color v = v"
| "vga_print_at row col (c # s) color v =
     (if c \<noteq> NUL \<and> col < VGA_WIDTH
      then vga_print_at row (col + 1) s color (vga_write_at row col c color v)
      else v)"

text \<open>The text \<^verbatim>\<open>UP: <seconds>s\<close> that \<^verbatim>\<open>vga_draw_statusbar\<close> formats into \<^verbatim>\<open>buf\<close>.\<close>

definition statusbar_text :: "uint32_t \<Rightarrow> string" where
  "statusbar_text ticks =
     (let secs = ticks div 100;
          buf = ''UP: '';
          buf = (if secs = 0 then buf @ ''0''
                 else let tmp = itoa_tmp secs [] in itoa_copy tmp (length tmp) buf)
      in buf @ ''s'')"

definition vga_draw_statusbar :: "uint32_t \<Rightarrow> vga \<Rightarrow> vga" where
  "vga_draw_statusbar ticks v =
     (let v = fold (\<lambda>c. vga_write_at 0 (of_nat c) (CHR '' '') STATUS_COLOR) [0..<80] v;
          v = vga_print_at 0 1 ''Vamos OS v1.0'' STATUS_COLOR v
      in vga_print_at 0 70 (statusbar_text ticks) STATUS_COLOR v)"

section \<open>Clearing and scrolling\<close>

definition vga_clear :: "vga \<Rightarrow> vga" where
  "vga_clear v =
     (let blank = vga_entry (CHR '' '') (vga_color v);
          v = fold (\<lambda>i. vga_store (of_nat i) blank) [80..<2000] v
      in vga_update_hw_cursor (v\<lparr>vga_row := 1, vga_col := 0\<rparr>))"

definition vga_init :: "device \<Rightarrow> vga \<Rightarrow> vga" where
  "vga_init dev v =
     (let v = v\<lparr>vga_color := 0x07, vga_row := 0, vga_col := 0\<rparr>;
          blank = vga_entry (CHR '' '') (vga_color v);
          v = fold (\<lambda>i. vga_store (of_nat i) blank) [0..<2000] v
      in vga_update_hw_cursor (vga_enable_cursor dev v))"

text \<open>The two nested loops of \<^verbatim>\<open>vga_scroll\<close>: one cell, one row, all rows.\<close>

definition scroll_cell :: "nat \<Rightarrow> nat \<Rightarrow> vga \<Rightarrow> vga" where
  "scroll_cell row col v =
     vga_store (of_nat row * VGA_WIDTH + of_nat col)
       (vram v ((of_nat row + 1) * VGA_WIDTH + of_nat col)) v"

definition scroll_row :: "nat \<Rightarrow> vga \<Rightarrow> vga" where
  "scroll_row row v = fold (scroll_cell row) [0..<80] v"

definition vga_scroll :: "vga \<Rightarrow> vga" where
  "vga_scroll v =
     (let v = fold scroll_row [1..<24] v;
          blank = vga_entry (CHR '' '') (vga_color v);
          v = fold (\<lambda>col. vga_store ((VGA_HEIGHT - 1) * VGA_WIDTH + of_nat col) blank) [0..<80] v
      in v\<lparr>vga_row := VGA_HEIGHT - 1, vga_col := 0\<rparr>)"

section \<open>Character output\<close>

definition vga_putchar :: "char \<Rightarrow> vga \<Rightarrow> vga" where
  "vga_putchar c v =
     (let v = (if vga_row v = 0 then v\<lparr>vga_row := 1\<rparr> else v);
          v = (if c = CHR 0x0A then v\<lparr>vga_col := 0, vga_row := vga_row v + 1\<rparr>
               else if c = CHR 0x0D then v\<lparr>vga_col := 0\<rparr>
               else if c = CHR 0x08 then
                 (let v = (if vga_col v > 0 then v\<lparr>vga_col := vga_col v - 1\<rparr>
                           else if vga_row v > 1
                           then v\<lparr>vga_row := vga_row v - 1, vga_col := VGA_WIDTH - 1\<rparr>
                           else v)
                  in vga_store (vga_row v * VGA_WIDTH + vga_col v)
                       (vga_entry (CHR '' '') (vga_color v)) v)
               else
                 (let v = vga_store (vga_row v * VGA_WIDTH + vga_col v)
                            (vga_entry c (vga_color v)) v;
                      v = v\<lparr>vga_col := vga_col v + 1\<rparr>
                  in if vga_col v \<ge> VGA_WIDTH
                     then v\<lparr>vga_col := 0, vga_row := vga_row v + 1\<rparr> else v));
          v = (if vga_row v \<ge> VGA_HEIGHT then vga_scroll v else v)
      in vga_update_hw_cursor v)"

fun vga_print :: "string \<Rightarrow> vga \<Rightarrow> vga" where
  "vga_print [] v = v"
| "vga_print (c # s) v = (if c = NUL then v else vga_print s (vga_putchar c v))"

definition vga_print_color :: "string \<Rightarrow> uint8_t \<Rightarrow> vga \<Rightarrow> vga" where
  "vga_print_color s color v =
     (let saved = vga_color v;
          v = vga_print s (v\<lparr>vga_color := color\<rparr>)
      in v\<lparr>vga_color := saved\<rparr>)"

section \<open>Cells\<close>

lemmas vga_consts = VGA_WIDTH_def VGA_HEIGHT_def STATUS_COLOR_def

definition cursor_ok :: "vga \<Rightarrow> bool" where
  "cursor_ok v \<longleftrightarrow> vga_row v < VGA_HEIGHT \<and> vga_col v < VGA_WIDTH"

text \<open>A cell of the shell's part of the screen: rows 1 to 24.\<close>

definition shell_cell :: "uint32_t \<Rightarrow> bool" where
  "shell_cell i \<longleftrightarrow> 80 \<le> unat i \<and> unat i < 2000"

lemma unat_cell:
  assumes "r < 25" "c < (80 :: uint32_t)"
  shows "unat (r * 80 + c) = unat r * 80 + unat c"
proof -
  have "unat r < 25" "unat c < 80" using assms by (simp_all add: word_less_nat_alt)
  then show ?thesis by (simp add: unat_word_ariths)
qed

lemma eq_of_nat_iff: "k < 2 ^ 32 \<Longrightarrow> i = (of_nat k :: uint32_t) \<longleftrightarrow> unat i = k"
  by (auto simp: word_unat_eq_iff unat_of_nat take_bit_eq_mod)

lemma vga_store_simps [simp]:
  "vga_row (vga_store i x v) = vga_row v" "vga_col (vga_store i x v) = vga_col v"
  "vga_color (vga_store i x v) = vga_color v" "crtc (vga_store i x v) = crtc v"
  "vram (vga_store i x v) j = (if j = i then x else vram v j)"
  by (simp_all add: vga_store_def)

lemma vga_update_hw_cursor_simps [simp]:
  "vga_row (vga_update_hw_cursor v) = vga_row v" "vga_col (vga_update_hw_cursor v) = vga_col v"
  "vga_color (vga_update_hw_cursor v) = vga_color v" "vram (vga_update_hw_cursor v) = vram v"
  by (simp_all add: vga_update_hw_cursor_def Let_def)

lemma fold_store_simps [simp]:
  "vga_row (fold (\<lambda>k. vga_store (f k) x) ks v) = vga_row v"
  "vga_col (fold (\<lambda>k. vga_store (f k) x) ks v) = vga_col v"
  "vga_color (fold (\<lambda>k. vga_store (f k) x) ks v) = vga_color v"
  "crtc (fold (\<lambda>k. vga_store (f k) x) ks v) = crtc v"
  by (induction ks arbitrary: v) simp_all

lemma vram_fold_store:
  "vram (fold (\<lambda>k. vga_store (f k) x) ks v) i = (if i \<in> f ` set ks then x else vram v i)"
  by (induction ks arbitrary: v) auto

section \<open>What scrolling computes\<close>

lemma scroll_cell_simps [simp]:
  "vga_row (scroll_cell r c v) = vga_row v" "vga_col (scroll_cell r c v) = vga_col v"
  "vga_color (scroll_cell r c v) = vga_color v" "crtc (scroll_cell r c v) = crtc v"
  by (simp_all add: scroll_cell_def)

lemma fold_scroll_cell_simps [simp]:
  "vga_row (fold (scroll_cell r) cs v) = vga_row v"
  "vga_col (fold (scroll_cell r) cs v) = vga_col v"
  "vga_color (fold (scroll_cell r) cs v) = vga_color v"
  "crtc (fold (scroll_cell r) cs v) = crtc v"
  by (induction cs arbitrary: v) simp_all

lemma fold_scroll_row_simps [simp]:
  "vga_row (fold scroll_row rs v) = vga_row v"
  "vga_col (fold scroll_row rs v) = vga_col v"
  "vga_color (fold scroll_row rs v) = vga_color v"
  "crtc (fold scroll_row rs v) = crtc v"
  by (induction rs arbitrary: v) (simp_all add: scroll_row_def)

lemma cell_index:
  "of_nat r * VGA_WIDTH + of_nat c = (of_nat (r * 80 + c) :: uint32_t)"
  by (simp add: VGA_WIDTH_def)

lemma vram_scroll_cells:
  assumes "r < 24" "n \<le> 80"
  shows "vram (fold (scroll_cell r) [0..<n] v) i =
     (if r * 80 \<le> unat i \<and> unat i < r * 80 + n then vram v (i + 80) else vram v i)"
  using assms(2)
proof (induction n arbitrary: i)
  case (Suc n)
  let ?v = "fold (scroll_cell r) [0..<n] v"
  have dst: "i = of_nat (r * 80 + n) \<longleftrightarrow> unat i = r * 80 + n"
    using assms(1) Suc.prems by (intro eq_of_nat_iff) simp
  have src: "(of_nat r + 1) * VGA_WIDTH + of_nat n = (of_nat (r * 80 + n) + 80 :: uint32_t)"
    by (simp add: VGA_WIDTH_def algebra_simps)
  have "unat (of_nat (r * 80 + n) + 80 :: uint32_t) = r * 80 + n + 80"
    using assms(1) Suc.prems by (simp add: unat_word_ariths unat_of_nat take_bit_eq_mod)
  then have "vram ?v ((of_nat r + 1) * VGA_WIDTH + of_nat n) = vram v (of_nat (r * 80 + n) + 80)"
    using Suc by (simp add: src)
  then show ?case
    using Suc dst by (auto simp: scroll_cell_def cell_index)
qed auto

lemma vram_scroll_row:
  "r < 24 \<Longrightarrow> vram (scroll_row r v) i =
     (if r * 80 \<le> unat i \<and> unat i < r * 80 + 80 then vram v (i + 80) else vram v i)"
  by (simp add: scroll_row_def vram_scroll_cells)

lemma vram_scroll_rows:
  assumes "1 \<le> n" "n \<le> 24"
  shows "vram (fold scroll_row [1..<n] v) i =
     (if 80 \<le> unat i \<and> unat i < n * 80 then vram v (i + 80) else vram v i)"
  using assms
proof (induction n arbitrary: i rule: dec_induct)
  case (step n)
  let ?v = "fold scroll_row [1..<n] v"
  have shift: "unat (i + 80) = unat i + 80" if "unat i < 2000"
    using that by (simp add: unat_word_ariths)
  have "vram (fold scroll_row [1..<Suc n] v) i
      = (if n * 80 \<le> unat i \<and> unat i < n * 80 + 80 then vram ?v (i + 80) else vram ?v i)"
    using step.prems step.hyps by (simp add: vram_scroll_row)
  then show ?case
    using step shift by auto
qed auto

lemma vram_vga_scroll:
  "vram (vga_scroll v) i =
     (if 80 \<le> unat i \<and> unat i < 1920 then vram v (i + 80)
      else if 1920 \<le> unat i \<and> unat i < 2000 then vga_entry (CHR '' '') (vga_color v)
      else vram v i)"
proof -
  let ?f = "\<lambda>c. (VGA_HEIGHT - 1) * VGA_WIDTH + (of_nat c :: uint32_t)"
  have f: "?f c = of_nat (1920 + c)" for c
    by (simp add: vga_consts)
  have "i \<in> ?f ` set [0..<80] \<longleftrightarrow> 1920 \<le> unat i \<and> unat i < 2000"
  proof
    assume "i \<in> ?f ` set [0..<80]"
    then obtain c where "c < 80" "i = of_nat (1920 + c)" unfolding f by auto
    then show "1920 \<le> unat i \<and> unat i < 2000"
      using eq_of_nat_iff [of "1920 + c" i] by simp
  next
    assume "1920 \<le> unat i \<and> unat i < 2000"
    then have "unat i - 1920 < 80" "unat i = 1920 + (unat i - 1920)" by linarith+
    moreover from this have "i = of_nat (1920 + (unat i - 1920))"
      by (subst eq_of_nat_iff) simp_all
    ultimately show "i \<in> ?f ` set [0..<80]" unfolding f by (metis atLeast0LessThan atLeast_upt imageI lessThan_iff)
  qed
  then show ?thesis
    by (simp add: vga_scroll_def Let_def vram_fold_store vram_scroll_rows [of 24, simplified])
qed

lemma vga_scroll_simps [simp]:
  "vga_row (vga_scroll v) = 24" "vga_col (vga_scroll v) = 0"
  "vga_color (vga_scroll v) = vga_color v" "crtc (vga_scroll v) = crtc v"
  by (simp_all add: vga_scroll_def Let_def vga_consts)

section \<open>putchar keeps the cursor on the screen and leaves the rest alone\<close>

text \<open>The state between the character's own effect and the scroll test.\<close>

definition put_cell :: "char \<Rightarrow> vga \<Rightarrow> vga" where
  "put_cell c v =
     (let v = (if vga_row v = 0 then v\<lparr>vga_row := 1\<rparr> else v)
      in if c = CHR 0x0A then v\<lparr>vga_col := 0, vga_row := vga_row v + 1\<rparr>
         else if c = CHR 0x0D then v\<lparr>vga_col := 0\<rparr>
         else if c = CHR 0x08 then
           (let v = (if vga_col v > 0 then v\<lparr>vga_col := vga_col v - 1\<rparr>
                     else if vga_row v > 1
                     then v\<lparr>vga_row := vga_row v - 1, vga_col := VGA_WIDTH - 1\<rparr>
                     else v)
            in vga_store (vga_row v * VGA_WIDTH + vga_col v)
                 (vga_entry (CHR '' '') (vga_color v)) v)
         else
           (let v = vga_store (vga_row v * VGA_WIDTH + vga_col v)
                      (vga_entry c (vga_color v)) v;
                v = v\<lparr>vga_col := vga_col v + 1\<rparr>
            in if vga_col v \<ge> VGA_WIDTH
               then v\<lparr>vga_col := 0, vga_row := vga_row v + 1\<rparr> else v))"

lemma vga_putchar_split:
  "vga_putchar c v =
     (let w = put_cell c v
      in vga_update_hw_cursor (if vga_row w \<ge> VGA_HEIGHT then vga_scroll w else w))"
  by (simp add: vga_putchar_def put_cell_def Let_def)

lemma put_cell_row:
  assumes "cursor_ok v"
  shows "1 \<le> vga_row (put_cell c v) \<and> vga_row (put_cell c v) \<le> 25 \<and> vga_col (put_cell c v) < 80"
  using assms unfolding put_cell_def cursor_ok_def vga_consts Let_def
  by (auto simp: word_less_nat_alt word_le_nat_alt unat_word_ariths) (unat_arith+)


lemma put_cell_frame:
  assumes "cursor_ok v" "\<not> shell_cell i"
  shows "vram (put_cell c v) i = vram v i"
proof -
  have cell: "shell_cell (r * 80 + k)" if "1 \<le> r" "r < 25" "k < 80" for r k
    using that by (simp add: shell_cell_def unat_cell word_less_nat_alt word_le_nat_alt)
  have neq: "i \<noteq> r * 80 + k" if "1 \<le> r" "r < 25" "k < 80" for r k
    using cell [OF that] assms(2) by auto
  have row: "1 \<le> vga_row v" if "vga_row v \<noteq> 0"
    using that by (simp add: word_le_nat_alt unat_gt_0 Suc_le_eq)
  have up: "1 \<le> vga_row v - 1" "vga_row v - 1 < 25" if "1 < vga_row v" "vga_row v < 25"
    using that by unat_arith+
  have left: "vga_col v - 1 < 80" if "0 < vga_col v" "vga_col v < 80"
    using that by unat_arith
  show ?thesis
    using assms(1) row up left
    by (auto simp: put_cell_def Let_def cursor_ok_def vga_consts neq neq [of 1, simplified])
qed

lemma put_cell_keeps [simp]:
  "vga_color (put_cell c v) = vga_color v" "crtc (put_cell c v) = crtc v"
  by (simp_all add: put_cell_def Let_def)

lemma vga_putchar_cursor [inv_intros]:
  "cursor_ok v \<Longrightarrow> cursor_ok (vga_putchar c v)"
  using put_cell_row [of v c]
  by (auto simp: vga_putchar_split Let_def cursor_ok_def vga_consts)

lemma vga_putchar_row:
  "cursor_ok v \<Longrightarrow> 1 \<le> vga_row (vga_putchar c v)"
  using put_cell_row [of v c]
  by (auto simp: vga_putchar_split Let_def)

lemma vga_putchar_frame:
  assumes "cursor_ok v" "\<not> shell_cell i"
  shows "vram (vga_putchar c v) i = vram v i"
  using put_cell_frame [OF assms] assms(2)
  by (auto simp: vga_putchar_split Let_def vram_vga_scroll shell_cell_def)

lemma vga_putchar_color [simp]: "vga_color (vga_putchar c v) = vga_color v"
  by (simp add: vga_putchar_split Let_def)

section \<open>The console contract\<close>

text \<open>What character output must leave alone: the status bar and all memory off the screen.\<close>

definition vga_frame :: "vga \<Rightarrow> uint32_t \<Rightarrow> uint16_t" where
  "vga_frame v i = (if shell_cell i then 0 else vram v i)"

lemma cursor_ok_color [simp]: "cursor_ok (v\<lparr>vga_color := k\<rparr>) = cursor_ok v"
  by (simp add: cursor_ok_def)

interpretation vc: colour_console cursor_ok vga_frame vga_putchar vga_color
    "\<lambda>k v. v\<lparr>vga_color := k\<rparr>"
  by unfold_locales
    (auto simp: vga_putchar_cursor vga_putchar_frame vga_frame_def fun_eq_iff)

lemma vga_print_puts: "vga_print s v = vc.puts s v"
  by (induction s v rule: vga_print.induct) simp_all

lemma vga_print_color_puts: "vga_print_color s k v = vc.puts_in k s v"
  by (simp add: vga_print_color_def vc.puts_in_def vga_print_puts)

lemmas vga_print_facts =
  vc.puts_invar [folded vga_print_puts] vc.puts_frame [folded vga_print_puts]
  vc.puts_colour [folded vga_print_puts]
  vc.puts_in_invar [folded vga_print_color_puts] vc.puts_in_frame [folded vga_print_color_puts]
  vc.puts_in_colour [folded vga_print_color_puts]

lemma vga_print_append: "c_string s \<Longrightarrow> vga_print (s @ t) v = vga_print t (vga_print s v)"
  by (simp add: vga_print_puts c_string_def vc.puts_append)

section \<open>Printing within a line\<close>

definition printable :: "char \<Rightarrow> bool" where
  "printable c \<longleftrightarrow> c \<notin> {NUL, CHR 0x08, CHR 0x0A, CHR 0x0D}"

lemma vga_putchar_printable:
  assumes "printable c" "1 \<le> vga_row v" "vga_row v < 25" "unat (vga_col v) < 79"
  shows "vga_putchar c v =
     vga_update_hw_cursor
       (v\<lparr>vram := (vram v)(vga_row v * 80 + vga_col v := vga_entry c (vga_color v)),
          vga_col := vga_col v + 1\<rparr>)"
proof -
  have "vga_row v \<noteq> 0" using assms(2) by auto
  moreover have "\<not> 80 \<le> vga_col v + 1"
    using assms(4) by (simp add: word_le_nat_alt unat_word_ariths)
  moreover have "\<not> 25 \<le> vga_row v" using assms(3) by simp
  ultimately show ?thesis
    using assms(1) by (simp add: vga_putchar_def Let_def printable_def vga_consts vga_store_def)
qed

text \<open>The cells from index \<open>b\<close> on hold the text \<open>s\<close>; the others are as in \<open>f\<close>.\<close>

definition text_at :: "nat \<Rightarrow> string \<Rightarrow> uint8_t \<Rightarrow> (uint32_t \<Rightarrow> uint16_t) \<Rightarrow> uint32_t \<Rightarrow> uint16_t" where
  "text_at b s color f i =
     (if b \<le> unat i \<and> unat i < b + length s then vga_entry (s ! (unat i - b)) color else f i)"

lemma text_at_Nil [simp]: "text_at b [] color f = f"
  by (auto simp: text_at_def fun_eq_iff)

lemma text_at_Cons:
  assumes "unat j = b"
  shows "text_at (Suc b) s color (f(j := vga_entry c color)) = text_at b (c # s) color f"
proof
  fix i
  show "text_at (Suc b) s color (f(j := vga_entry c color)) i = text_at b (c # s) color f i"
  proof (cases "i = j")
    case False
    then have "unat i \<noteq> b" using assms by (auto simp: word_unat_eq_iff)
    then show ?thesis using False by (auto simp: text_at_def nth_Cons' Suc_diff_le)
  qed (use assms in \<open>simp add: text_at_def\<close>)
qed

lemma vga_print_line:
  assumes "\<forall>c \<in> set s. printable c" "1 \<le> vga_row v" "vga_row v < 25"
    and "unat (vga_col v) + length s < 80"
  shows "vga_row (vga_print s v) = vga_row v
     \<and> unat (vga_col (vga_print s v)) = unat (vga_col v) + length s
     \<and> vram (vga_print s v)
         = text_at (unat (vga_row v) * 80 + unat (vga_col v)) s (vga_color v) (vram v)"
  using assms
proof (induction s arbitrary: v)
  case (Cons c s)
  let ?j = "vga_row v * 80 + vga_col v" and ?b = "unat (vga_row v) * 80 + unat (vga_col v)"
  have w: "vga_putchar c v = vga_update_hw_cursor
       (v\<lparr>vram := (vram v)(?j := vga_entry c (vga_color v)), vga_col := vga_col v + 1\<rparr>)"
    using Cons.prems by (intro vga_putchar_printable) auto
  have col: "unat (vga_col v + 1) = Suc (unat (vga_col v))"
    using Cons.prems(4) by (simp add: unat_word_ariths)
  have "unat ?j = ?b"
    using Cons.prems(3,4) by (intro unat_cell) (simp_all add: word_less_nat_alt)
  then have cons: "text_at (Suc ?b) s (vga_color v) ((vram v)(?j := vga_entry c (vga_color v)))
      = text_at ?b (c # s) (vga_color v) (vram v)"
    by (rule text_at_Cons)
  have "c \<noteq> NUL" using Cons.prems(1) by (simp add: printable_def)
  moreover have "vga_row (vga_print s (vga_putchar c v)) = vga_row v
     \<and> unat (vga_col (vga_print s (vga_putchar c v))) = Suc (unat (vga_col v)) + length s
     \<and> vram (vga_print s (vga_putchar c v))
         = text_at (Suc ?b) s (vga_color v) ((vram v)(?j := vga_entry c (vga_color v)))"
    using Cons.IH [of "vga_putchar c v"] Cons.prems col by (simp add: w fun_upd_def)
  ultimately show ?case by (simp add: cons)
qed auto

section \<open>The hardware cursor\<close>

text \<open>
  The registers of the CRT controller after a log of accesses: a write to port \<^verbatim>\<open>0x3D4\<close> selects
  a register and a write to port \<^verbatim>\<open>0x3D5\<close> stores into the selected one.
\<close>

fun crtc_step :: "io_event \<Rightarrow> uint8_t \<times> (uint8_t \<Rightarrow> uint8_t) \<Rightarrow> uint8_t \<times> (uint8_t \<Rightarrow> uint8_t)" where
  "crtc_step (Out p x) (idx, regs) =
     (if p = 0x3D4 then (x, regs) else if p = 0x3D5 then (idx, regs(idx := x)) else (idx, regs))"
| "crtc_step (OutW p x) s = s"
| "crtc_step (In p x) s = s"

definition crtc_regs :: "io_log \<Rightarrow> uint8_t \<Rightarrow> uint8_t" where
  "crtc_regs l = snd (fold crtc_step l (0, \<lambda>_. 0))"

definition hw_cursor :: "vga \<Rightarrow> uint16_t" where
  "hw_cursor v = join_bytes (crtc_regs (crtc v) 0x0E) (crtc_regs (crtc v) 0x0F)"

lemma crtc_step_Out:
  "crtc_step (Out p x) s =
     (if p = 0x3D4 then (x, snd s)
      else if p = 0x3D5 then (fst s, (snd s)(fst s := x)) else s)"
  by (cases s) simp

lemma hw_cursor_update [simp]:
  "hw_cursor (vga_update_hw_cursor v) = ucast (vga_row v * VGA_WIDTH + vga_col v)"
  by (simp add: hw_cursor_def crtc_regs_def vga_update_hw_cursor_def Let_def outb_def
      crtc_step_Out)

lemma hw_cursor_cell:
  assumes "cursor_ok v"
  shows "unat (ucast (vga_row v * VGA_WIDTH + vga_col v) :: uint16_t)
     = unat (vga_row v) * 80 + unat (vga_col v)"
proof -
  have "unat (vga_row v) < 25" "unat (vga_col v) < 80"
    using assms by (simp_all add: cursor_ok_def vga_consts word_less_nat_alt)
  then show ?thesis
    using assms unat_cell [of "vga_row v" "vga_col v"]
    by (simp add: cursor_ok_def vga_consts unsigned_ucast_eq take_bit_eq_mod)
qed

lemma vga_putchar_hw_cursor:
  "hw_cursor (vga_putchar c v)
     = ucast (vga_row (vga_putchar c v) * VGA_WIDTH + vga_col (vga_putchar c v))"
  by (simp add: vga_putchar_split Let_def)

section \<open>Clearing\<close>

lemma of_nat_image_range:
  assumes "b \<le> 2 ^ 32"
  shows "i \<in> of_nat ` {a..<b} \<longleftrightarrow> a \<le> unat (i :: uint32_t) \<and> unat i < b"
proof
  assume "i \<in> of_nat ` {a..<b}"
  then obtain k where "a \<le> k" "k < b" "i = of_nat k" by auto
  with assms eq_of_nat_iff [of k i] show "a \<le> unat i \<and> unat i < b" by simp
next
  assume "a \<le> unat i \<and> unat i < b"
  moreover have "i = of_nat (unat i)" by simp
  ultimately show "i \<in> of_nat ` {a..<b}" by (metis atLeastLessThan_iff imageI)
qed

lemma vram_vga_clear:
  "vram (vga_clear v) i =
     (if shell_cell i then vga_entry (CHR '' '') (vga_color v) else vram v i)"
  using of_nat_image_range [of 2000 i 80]
  by (simp add: vga_clear_def Let_def vram_fold_store shell_cell_def del: upt_rec_numeral)

lemma vga_clear_simps [simp]:
  "vga_row (vga_clear v) = 1" "vga_col (vga_clear v) = 0" "vga_color (vga_clear v) = vga_color v"
  "hw_cursor (vga_clear v) = 80"
  by (simp_all add: vga_clear_def Let_def VGA_WIDTH_def del: upt_rec_numeral)

lemma vga_clear_cursor [inv_intros]: "cursor_ok (vga_clear v)"
  by (simp add: cursor_ok_def vga_consts)

lemma vga_enable_cursor_simps [simp]:
  "vga_row (vga_enable_cursor dev v) = vga_row v" "vga_col (vga_enable_cursor dev v) = vga_col v"
  "vga_color (vga_enable_cursor dev v) = vga_color v" "vram (vga_enable_cursor dev v) = vram v"
  by (simp_all add: vga_enable_cursor_def Let_def split_beta)

lemma vga_init_spec:
  "cursor_ok (vga_init dev v) \<and> hw_cursor (vga_init dev v) = 0 \<and>
   (unat i < 2000 \<longrightarrow> vram (vga_init dev v) i = vga_entry (CHR '' '') 0x07) \<and>
   (2000 \<le> unat i \<longrightarrow> vram (vga_init dev v) i = vram v i)"
  using of_nat_image_range [of 2000 i 0]
  by (simp add: vga_init_def Let_def vram_fold_store cursor_ok_def vga_consts
      del: upt_rec_numeral)

section \<open>The status bar\<close>

lemma vga_print_at_simps [simp]:
  "vga_row (vga_print_at r c s k v) = vga_row v" "vga_col (vga_print_at r c s k v) = vga_col v"
  "vga_color (vga_print_at r c s k v) = vga_color v" "crtc (vga_print_at r c s k v) = crtc v"
  by (induction r c s k v rule: vga_print_at.induct) (simp_all add: vga_write_at_def)

text \<open>On row 0, text is clipped at column 80.\<close>

lemma vram_vga_print_at:
  assumes "c_string s" "unat col \<le> 80"
  shows "vram (vga_print_at 0 col s color v)
     = text_at (unat col) (take (80 - unat col) s) color (vram v)"
  using assms
proof (induction s arbitrary: col v)
  case (Cons c s)
  show ?case
  proof (cases "unat col < 80")
    case True
    then have col: "unat (col + 1) = Suc (unat col)" by (simp add: unat_word_ariths)
    have "text_at (Suc (unat col)) (take (79 - unat col) s) color
            ((vram v)(col := vga_entry c color))
        = text_at (unat col) (c # take (79 - unat col) s) color (vram v)"
      by (rule text_at_Cons) simp
    moreover have "80 - unat col = Suc (79 - unat col)" using True by simp
    ultimately show ?thesis
      using Cons.IH [of "col + 1" "vga_write_at 0 col c color v"] Cons.prems True col
      by (simp add: word_less_nat_alt vga_consts vga_write_at_def vga_store_def fun_upd_def)
  next
    case False
    with Cons.prems show ?thesis by (simp add: word_less_nat_alt vga_consts)
  qed
qed simp

declare vga_print_at.simps [simp del] vga_print.simps [simp del]

lemma statusbar_text_digits:
  "statusbar_text ticks = ''UP: '' @ dec_digits (unat ticks div 100) @ ''s''"
proof -
  have div: "unat (ticks div 100) = unat ticks div 100" by (simp add: unat_div)
  show ?thesis
  proof (cases "ticks div 100 = 0")
    case True
    with div have "unat ticks div 100 = 0" by simp
    with True show ?thesis by (simp only: statusbar_text_def Let_def simp_thms if_True digits_0 append.simps)
  next
    case False
    have "itoa_copy (itoa_tmp (ticks div 100) []) (length (itoa_tmp (ticks div 100) [])) b
        = b @ dec_digits (unat (ticks div 100))" for b
      by (simp only: itoa_copy_rev order_refl take_all itoa_tmp_digits [OF False] append_Nil rev_rev_ident)
    with False show ?thesis by (simp only: statusbar_text_def Let_def if_False div append_assoc)
  qed
qed

text \<open>
  \<^verbatim>\<open>tmp[8]\<close> and \<^verbatim>\<open>buf[16]\<close> are large enough: at most eight digits, and at most thirteen
  characters before the terminator.
\<close>

lemma statusbar_text_bounds:
  "length (dec_digits (unat (ticks :: uint32_t) div 100)) \<le> 8 \<and> length (statusbar_text ticks) + 1 \<le> 14"
proof -
  have "unat ticks < 4294967296" using unsigned_less [of ticks] by simp
  then have "unat ticks div 100 < 10 ^ Suc 7" by (simp add: div_less_iff_less_mult)
  from length_digits [OF this] show ?thesis by (simp add: statusbar_text_digits)
qed

lemma statusbar_text_c_string [simp]: "c_string (statusbar_text t)"
  by (simp add: statusbar_text_digits)

lemma fold_write_at_row0:
  "fold (\<lambda>c. vga_write_at 0 (of_nat c) x k) cs = fold (\<lambda>c. vga_store (of_nat c) (vga_entry x k)) cs"
proof -
  have "vga_write_at 0 j x k = vga_store j (vga_entry x k)" for j
    by (rule ext) (simp add: vga_write_at_def)
  then show ?thesis by simp
qed

lemma vga_draw_statusbar_simps [simp]:
  "vga_row (vga_draw_statusbar t v) = vga_row v" "vga_col (vga_draw_statusbar t v) = vga_col v"
  "vga_color (vga_draw_statusbar t v) = vga_color v" "crtc (vga_draw_statusbar t v) = crtc v"
  by (simp_all add: vga_draw_statusbar_def Let_def fold_write_at_row0 del: upt_rec_numeral)

lemma cursor_ok_statusbar [simp]: "cursor_ok (vga_draw_statusbar t v) = cursor_ok v"
  by (simp add: cursor_ok_def)

lemma vram_vga_draw_statusbar:
  "vram (vga_draw_statusbar t v)
     = text_at 70 (take 10 (statusbar_text t)) STATUS_COLOR
        (text_at 1 ''Vamos OS v1.0'' STATUS_COLOR
          (\<lambda>i. if unat i < 80 then vga_entry (CHR '' '') STATUS_COLOR else vram v i))"
proof -
  have blank: "vram (fold (\<lambda>c. vga_write_at 0 (of_nat c) (CHR '' '') STATUS_COLOR) [0..<80] v)
      = (\<lambda>i. if unat i < 80 then vga_entry (CHR '' '') STATUS_COLOR else vram v i)"
    using of_nat_image_range [of 80 _ 0]
    by (simp add: fold_write_at_row0 vram_fold_store fun_eq_iff del: upt_rec_numeral)
  show ?thesis
    by (simp only: vga_draw_statusbar_def Let_def)
      (simp add: vram_vga_print_at blank del: upt_rec_numeral)
qed

lemma vga_draw_statusbar_frame:
  "80 \<le> unat i \<Longrightarrow> vram (vga_draw_statusbar t v) i = vram v i"
  by (auto simp: vram_vga_draw_statusbar text_at_def)

lemma statusbar_not_clipped:
  "unat t < 10000000 \<Longrightarrow> take 10 (statusbar_text t) = statusbar_text t"
  using length_digits [of "unat t div 100" 4]
  by (simp add: statusbar_text_digits div_less_iff_less_mult)

section \<open>Properties\<close>

text \<open>A put character keeps the cursor inside the shell's rows, whatever the character is;
  it never touches the status bar or memory outside the 2000 cells, keeps the colour, and
  leaves the hardware cursor on the cell of the software cursor.\<close>

theorem vga_putchar_safe:
  assumes "cursor_ok v"
  shows "cursor_ok (vga_putchar c v) \<and> 1 \<le> vga_row (vga_putchar c v)
    \<and> (\<forall>i. unat i < 80 \<or> 2000 \<le> unat i \<longrightarrow> vram (vga_putchar c v) i = vram v i)
    \<and> vga_color (vga_putchar c v) = vga_color v
    \<and> unat (hw_cursor (vga_putchar c v))
        = unat (vga_row (vga_putchar c v)) * 80 + unat (vga_col (vga_putchar c v))"
  using vga_putchar_cursor [OF assms, of c] vga_putchar_row [OF assms]
    vga_putchar_frame [OF assms] hw_cursor_cell [OF vga_putchar_cursor [OF assms, of c]]
  by (auto simp: vga_putchar_hw_cursor shell_cell_def)

definition vga_start :: vga where
  "vga_start = \<lparr> vram = (\<lambda>_. 0), vga_row = 24, vga_col = 79, vga_color = 7, crtc = [] \<rparr>"

lemma vga_start_ok: "cursor_ok vga_start"
  by (simp add: vga_start_def cursor_ok_def vga_consts)

theorem vga_putchar_safe_witness: "cursor_ok (vga_putchar (CHR ''x'') vga_start)"
  using vga_putchar_safe [OF vga_start_ok] by blast

text \<open>Scrolling moves rows 2 to 24 up by one row, blanks row 24 in the current colour and
  puts the cursor at its start; row 0, the status bar, and memory beyond the screen stay.\<close>

theorem vga_scroll_moves_rows:
  "vram (vga_scroll v) =
     (\<lambda>i. if 80 \<le> unat i \<and> unat i < 1920 then vram v (i + 80)
          else if 1920 \<le> unat i \<and> unat i < 2000 then vga_entry (CHR '' '') (vga_color v)
          else vram v i)
   \<and> vga_row (vga_scroll v) = 24 \<and> vga_col (vga_scroll v) = 0
   \<and> vga_color (vga_scroll v) = vga_color v"
  by (simp add: vram_vga_scroll fun_eq_iff)

text \<open>A string of printable characters that fits in the rest of the line appears, in the
  current colour, in the cells from the cursor on, the cursor ends behind it, and no other
  cell changes.\<close>

theorem vga_print_within_line:
  assumes "\<forall>c \<in> set s. printable c" "1 \<le> vga_row v" "vga_row v < 25"
    and "unat (vga_col v) + length s < 80"
  shows "vga_row (vga_print s v) = vga_row v
    \<and> unat (vga_col (vga_print s v)) = unat (vga_col v) + length s
    \<and> vram (vga_print s v)
        = text_at (unat (vga_row v) * 80 + unat (vga_col v)) s (vga_color v) (vram v)"
  using assms by (rule vga_print_line)

theorem vga_print_within_line_witness:
  "vga_row (vga_print ''ps'' (vga_clear vga_start)) = 1
   \<and> unat (vga_col (vga_print ''ps'' (vga_clear vga_start))) = 2"
  using vga_print_within_line [of "''ps''" "vga_clear vga_start"] by (simp add: printable_def)

text \<open>Printing in a colour of any text, however long, scrolls inside the shell's rows: the
  status bar stays as it is, the cursor stays on the screen and the colour is restored.\<close>

theorem vga_print_color_contained:
  assumes "cursor_ok v"
  shows "cursor_ok (vga_print_color s k v) \<and> vga_color (vga_print_color s k v) = vga_color v
    \<and> (\<forall>i. unat i < 80 \<or> 2000 \<le> unat i \<longrightarrow> vram (vga_print_color s k v) i = vram v i)"
  using vga_print_facts(4,5) [OF assms, of s k] vga_print_facts(6) [of s k v]
  by (auto simp: vga_frame_def fun_eq_iff shell_cell_def) (metis not_less)+

theorem vga_print_color_contained_witness: "vga_color (vga_print_color ''x'' 0x1F vga_start) = 7"
  using vga_print_color_contained [OF vga_start_ok] by (simp add: vga_start_def)

text \<open>The status bar shows the name at column 1 and the uptime in whole seconds at column
  70, blank elsewhere, all in its own colour; nothing outside row 0 and neither cursor nor
  colour change. The text fits in its buffer for every tick count, and on the screen for the
  first 99999 seconds.\<close>

theorem vga_draw_statusbar_shows_uptime:
  "vram (vga_draw_statusbar t v)
     = text_at 70 (take 10 (''UP: '' @ dec_digits (unat t div 100) @ ''s'')) STATUS_COLOR
        (text_at 1 ''Vamos OS v1.0'' STATUS_COLOR
          (\<lambda>i. if unat i < 80 then vga_entry (CHR '' '') STATUS_COLOR else vram v i))
   \<and> vga_row (vga_draw_statusbar t v) = vga_row v \<and> vga_col (vga_draw_statusbar t v) = vga_col v
   \<and> vga_color (vga_draw_statusbar t v) = vga_color v
   \<and> length (statusbar_text t) + 1 \<le> 14
   \<and> (unat t < 10000000 \<longrightarrow> take 10 (statusbar_text t) = statusbar_text t)"
  using statusbar_text_bounds [of t] statusbar_not_clipped [of t]
  by (simp add: vram_vga_draw_statusbar statusbar_text_digits)

theorem vga_draw_statusbar_shows_uptime_witness:
  "take 10 (statusbar_text 4200) = statusbar_text 4200"
  using vga_draw_statusbar_shows_uptime [of 4200] by simp

end
