(* ===== verification/Pmm.thy ===== *)
theory Pmm
  imports Interfaces
begin

text \<open>
  The physical memory manager (\<^verbatim>\<open>src/pmm.c\<close>, \<^verbatim>\<open>include/pmm.h\<close>) and the Multiboot structures
  it reads (\<^verbatim>\<open>include/multiboot.h\<close>). The Multiboot memory map is written by the boot loader: the
  words of memory are a parameter \<open>mem\<close>, indexed by address. The address of \<^verbatim>\<open>kernel_end\<close> is
  chosen by the linker and is a parameter too.
\<close>

definition PAGE_SIZE :: uint32_t where "PAGE_SIZE = 4096"
definition PMM_MAX_PAGES :: uint32_t where "PMM_MAX_PAGES = 65536"
definition BITMAP_SIZE :: nat where "BITMAP_SIZE = 2048"
definition MULTIBOOT_FLAG_MEM :: uint32_t where "MULTIBOOT_FLAG_MEM = 0x001"
definition MULTIBOOT_FLAG_MMAP :: uint32_t where "MULTIBOOT_FLAG_MMAP = 0x040"
definition MULTIBOOT_MEMORY_AVAILABLE :: uint32_t where "MULTIBOOT_MEMORY_AVAILABLE = 1"

record multiboot_mmap_entry =
  mmap_size :: uint32_t
  addr_low :: uint32_t
  addr_high :: uint32_t
  len_low :: uint32_t
  len_high :: uint32_t
  mmap_type :: uint32_t

record multiboot_info =
  mb_flags :: uint32_t
  mem_lower :: uint32_t
  mem_upper :: uint32_t
  boot_device :: uint32_t
  cmdline :: uint32_t
  mods_count :: uint32_t
  mods_addr :: uint32_t
  syms :: "uint32_t list"
  mmap_length :: uint32_t
  mmap_addr :: uint32_t
  drives_length :: uint32_t
  drives_addr :: uint32_t
  config_table :: uint32_t
  boot_loader_name :: uint32_t
  apm_table :: uint32_t
  vbe_control_info :: uint32_t
  vbe_mode_info :: uint32_t
  vbe_mode :: uint16_t
  vbe_interface_seg :: uint16_t
  vbe_interface_off :: uint16_t
  vbe_interface_len :: uint16_t

record pmm =
  pmm_bitmap :: "uint32_t list"
  pmm_total_pages :: uint32_t
  pmm_free_pages :: uint32_t

definition pmm_boot :: pmm where
  "pmm_boot = \<lparr> pmm_bitmap = replicate BITMAP_SIZE 0, pmm_total_pages = 0, pmm_free_pages = 0 \<rparr>"

section \<open>Bitmap helpers\<close>

definition bitmap_set :: "uint32_t \<Rightarrow> uint32_t list \<Rightarrow> uint32_t list" where
  "bitmap_set page bm =
     bm[unat (page div 32) := bm ! unat (page div 32) OR push_bit (unat (page mod 32)) 1]"

definition bitmap_clear :: "uint32_t \<Rightarrow> uint32_t list \<Rightarrow> uint32_t list" where
  "bitmap_clear page bm =
     bm[unat (page div 32) := bm ! unat (page div 32) AND NOT (push_bit (unat (page mod 32)) 1)]"

definition bitmap_test :: "uint32_t \<Rightarrow> uint32_t list \<Rightarrow> bool" where
  "bitmap_test page bm \<longleftrightarrow> drop_bit (unat (page mod 32)) (bm ! unat (page div 32)) AND 1 \<noteq> 0"

definition pmm_memset :: "uint8_t list \<Rightarrow> uint8_t \<Rightarrow> nat \<Rightarrow> uint8_t list" where
  "pmm_memset dst val n = fold (\<lambda>i p. p[i := val]) [0..<n] dst"

text \<open>The bitmap as the bytes that \<^verbatim>\<open>pmm_memset\<close> writes, in the little-endian order of x86.\<close>

definition word_bytes :: "uint32_t \<Rightarrow> uint8_t list" where
  "word_bytes w = [ucast w, ucast (drop_bit 8 w), ucast (drop_bit 16 w), ucast (drop_bit 24 w)]"

fun bytes_words :: "uint8_t list \<Rightarrow> uint32_t list" where
  "bytes_words (a # b # c # d # bs) =
     (ucast a OR push_bit 8 (ucast b) OR push_bit 16 (ucast c) OR push_bit 24 (ucast d))
       # bytes_words bs"
| "bytes_words bs = []"

section \<open>Initialisation\<close>

text \<open>The body of the two loops that give a page back: free it if it is marked used.\<close>

definition release_page :: "uint32_t \<Rightarrow> pmm \<Rightarrow> pmm" where
  "release_page p s =
     (if bitmap_test p (pmm_bitmap s)
      then s\<lparr>pmm_bitmap := bitmap_clear p (pmm_bitmap s), pmm_free_pages := pmm_free_pages s + 1\<rparr>
      else s)"

definition pmm_total_of :: "multiboot_info \<Rightarrow> uint32_t" where
  "pmm_total_of mb =
     (if mb_flags mb AND MULTIBOOT_FLAG_MEM \<noteq> 0
      then (let total_kb = 1024 + mem_upper mb;
                total = total_kb div 4
            in if total > PMM_MAX_PAGES then PMM_MAX_PAGES else total)
      else PMM_MAX_PAGES)"

function free_region :: "uint32_t \<Rightarrow> uint32_t \<Rightarrow> pmm \<Rightarrow> pmm" where
  "free_region p lst s =
     (if p < lst \<and> p < pmm_total_pages s then free_region (p + 1) lst (release_page p s) else s)"
  by pat_completeness auto
termination
  by (relation "measure (\<lambda>(p, lst, s). unat lst - unat p)")
    (auto intro: word_range_measure)

declare free_region.simps [simp del]

definition mmap_entry_at :: "(uint32_t \<Rightarrow> uint32_t) \<Rightarrow> uint32_t \<Rightarrow> multiboot_mmap_entry" where
  "mmap_entry_at mem a =
     \<lparr> mmap_size = mem a, addr_low = mem (a + 4), addr_high = mem (a + 8),
       len_low = mem (a + 12), len_high = mem (a + 16), mmap_type = mem (a + 20) \<rparr>"

definition entry_available :: "multiboot_mmap_entry \<Rightarrow> bool" where
  "entry_available e \<longleftrightarrow> mmap_type e = MULTIBOOT_MEMORY_AVAILABLE \<and> addr_high e = 0"

definition region_first :: "multiboot_mmap_entry \<Rightarrow> uint32_t" where
  "region_first e = (addr_low e + PAGE_SIZE - 1) div PAGE_SIZE"

definition region_last :: "multiboot_mmap_entry \<Rightarrow> uint32_t" where
  "region_last e = (addr_low e + len_low e) div PAGE_SIZE"

definition free_entry :: "multiboot_mmap_entry \<Rightarrow> pmm \<Rightarrow> pmm" where
  "free_entry e s =
     (if entry_available e then free_region (region_first e) (region_last e) s else s)"

text \<open>The walk over the map; a map whose entries do not advance keeps it running: \<open>None\<close>.\<close>

partial_function (option) mmap_walk ::
  "(uint32_t \<Rightarrow> uint32_t) \<Rightarrow> uint32_t \<Rightarrow> uint32_t \<Rightarrow> pmm \<Rightarrow> pmm option" where
  "mmap_walk mem entry end_addr s =
     (if entry < end_addr
      then mmap_walk mem (entry + mmap_size (mmap_entry_at mem entry) + 4) end_addr
             (free_entry (mmap_entry_at mem entry) s)
      else Some s)"

declare mmap_walk.simps [code]

function protect_kernel :: "uint32_t \<Rightarrow> uint32_t \<Rightarrow> pmm \<Rightarrow> pmm" where
  "protect_kernel p kernel_pages s =
     (if p < kernel_pages \<and> p < pmm_total_pages s
      then protect_kernel (p + 1) kernel_pages
             (if \<not> bitmap_test p (pmm_bitmap s)
              then (let s = s\<lparr>pmm_bitmap := bitmap_set p (pmm_bitmap s)\<rparr>
                    in if pmm_free_pages s > 0
                       then s\<lparr>pmm_free_pages := pmm_free_pages s - 1\<rparr> else s)
              else s)
      else s)"
  by pat_completeness auto
termination
  by (relation "measure (\<lambda>(p, n, s). unat n - unat p)")
    (auto intro: word_range_measure)

declare protect_kernel.simps [simp del]

definition pmm_init ::
  "(uint32_t \<Rightarrow> uint32_t) \<Rightarrow> uint32_t \<Rightarrow> multiboot_info \<Rightarrow> pmm \<Rightarrow> pmm option" where
  "pmm_init mem kernel_end mb s =
     (let bytes = concat (map word_bytes (pmm_bitmap s));
          s = s\<lparr>pmm_bitmap := bytes_words (pmm_memset bytes 0xFF (length bytes)),
                pmm_free_pages := 0, pmm_total_pages := pmm_total_of mb\<rparr>;
          walked = (if mb_flags mb AND MULTIBOOT_FLAG_MMAP \<noteq> 0
                    then mmap_walk mem (mmap_addr mb) (mmap_addr mb + mmap_length mb) s
                    else Some s);
          kernel_pages = (kernel_end + PAGE_SIZE - 1) div PAGE_SIZE
      in map_option (protect_kernel 0 kernel_pages) walked)"

section \<open>Allocation\<close>

text \<open>
  The inner loop over the bits of word \<open>i\<close> returns from the function when it finds a free
  page (\<open>Some\<close>), the outer loop passes over full words.
\<close>

function alloc_bit :: "uint32_t \<Rightarrow> uint32_t \<Rightarrow> pmm \<Rightarrow> (uint32_t \<times> pmm) option" where
  "alloc_bit i b s =
     (if b < 32
      then (let page = i * 32 + b
            in if \<not> bitmap_test page (pmm_bitmap s)
               then Some (page * PAGE_SIZE,
                          s\<lparr>pmm_bitmap := bitmap_set page (pmm_bitmap s),
                            pmm_free_pages := pmm_free_pages s - 1\<rparr>)
               else alloc_bit i (b + 1) s)
      else None)"
  by pat_completeness auto
termination
  by (relation "measure (\<lambda>(i, b, s). 32 - unat b)")
    (auto simp: unat_Suc_word [of _ 32] word_less_nat_alt)

declare alloc_bit.simps [simp del]

function alloc_word :: "uint32_t \<Rightarrow> pmm \<Rightarrow> uint32_t \<times> pmm" where
  "alloc_word i s =
     (if i < pmm_total_pages s div 32
      then (if pmm_bitmap s ! unat i = 0xFFFFFFFF then alloc_word (i + 1) s
            else case alloc_bit i 0 s of
                   Some r \<Rightarrow> r
                 | None \<Rightarrow> alloc_word (i + 1) s)
      else (0, s))"
  by pat_completeness auto
termination
  by (relation "measure (\<lambda>(i, s). unat (pmm_total_pages s div 32) - unat i)")
    (simp_all add: unat_Suc_word word_less_nat_alt)

declare alloc_word.simps [simp del]

text \<open>The address of the page and the new state; address 0 is \<^verbatim>\<open>NULL\<close>.\<close>

definition pmm_alloc_page :: "pmm \<Rightarrow> uint32_t \<times> pmm" where
  "pmm_alloc_page s = alloc_word 0 s"

definition pmm_free_page :: "uint32_t \<Rightarrow> pmm \<Rightarrow> pmm" where
  "pmm_free_page a s =
     (if a mod PAGE_SIZE \<noteq> 0 then s
      else let page = a div PAGE_SIZE
           in if page \<ge> pmm_total_pages s then s else release_page page s)"

definition pmm_get_free_page_count :: "pmm \<Rightarrow> uint32_t" where
  "pmm_get_free_page_count s = pmm_free_pages s"

section \<open>The bitmap as a set of free pages\<close>

definition page_used :: "uint32_t list \<Rightarrow> nat \<Rightarrow> bool" where
  "page_used bm n \<longleftrightarrow> bit (bm ! (n div 32)) (n mod 32)"

definition free_set :: "pmm \<Rightarrow> nat set" where
  "free_set s = {n. n < unat (pmm_total_pages s) \<and> \<not> page_used (pmm_bitmap s) n}"

definition pmm_inv :: "pmm \<Rightarrow> bool" where
  "pmm_inv s \<longleftrightarrow>
     length (pmm_bitmap s) = BITMAP_SIZE \<and> unat (pmm_total_pages s) \<le> 65536 \<and>
     (\<forall>n<65536. unat (pmm_total_pages s) \<le> n \<longrightarrow> page_used (pmm_bitmap s) n) \<and>
     unat (pmm_free_pages s) = card (free_set s)"

lemma unat_div_mod32 [simp]:
  "unat (p div 32 :: uint32_t) = unat p div 32" "unat (p mod 32 :: uint32_t) = unat p mod 32"
  by (simp_all add: unat_div unat_mod)

lemma bitmap_test_used: "bitmap_test p bm \<longleftrightarrow> page_used bm (unat p)"
  by (simp add: bitmap_test_def page_used_def and_one_neq_zero_iff_bit)

lemma page_used_set:
  assumes "length bm = BITMAP_SIZE" "unat p < 65536"
  shows "page_used (bitmap_set p bm) n \<longleftrightarrow> n = unat p \<or> page_used bm n"
proof -
  have "unat p div 32 < length bm" using assms by (simp add: BITMAP_SIZE_def)
  moreover have "n = unat p" if "n div 32 = unat p div 32" "n mod 32 = unat p mod 32"
    using that by (metis div_mult_mod_eq)
  ultimately show ?thesis
    by (auto simp: bitmap_set_def page_used_def nth_list_update bit_or_push_one simp del: push_bit_of_1)
qed

lemma page_used_clear:
  assumes "length bm = BITMAP_SIZE" "unat p < 65536"
  shows "page_used (bitmap_clear p bm) n \<longleftrightarrow> n \<noteq> unat p \<and> page_used bm n"
proof -
  have "unat p div 32 < length bm" using assms by (simp add: BITMAP_SIZE_def)
  moreover have "n = unat p" if "n div 32 = unat p div 32" "n mod 32 = unat p mod 32"
    using that by (metis div_mult_mod_eq)
  ultimately show ?thesis
    by (auto simp: bitmap_clear_def page_used_def nth_list_update bit_and_not_push_one simp del: push_bit_of_1)
qed

lemma bitmap_length [simp]:
  "length (bitmap_set p bm) = length bm" "length (bitmap_clear p bm) = length bm"
  by (simp_all add: bitmap_set_def bitmap_clear_def)

lemma finite_free_set [simp]: "finite (free_set s)"
  by (simp add: free_set_def)

lemma card_free_set_le: "card (free_set s) \<le> unat (pmm_total_pages s)"
proof -
  have "card (free_set s) \<le> card {..<unat (pmm_total_pages s)}"
    by (rule card_mono) (auto simp: free_set_def)
  then show ?thesis by simp
qed

text \<open>One page given back, one page taken: the two steps every operation is made of.\<close>

definition gives :: "nat set \<Rightarrow> pmm \<Rightarrow> pmm \<Rightarrow> bool" where
  "gives P s s' \<longleftrightarrow> pmm_inv s' \<and> pmm_total_pages s' = pmm_total_pages s
     \<and> free_set s' = free_set s \<union> P"

definition takes :: "nat set \<Rightarrow> pmm \<Rightarrow> pmm \<Rightarrow> bool" where
  "takes P s s' \<longleftrightarrow> pmm_inv s' \<and> pmm_total_pages s' = pmm_total_pages s
     \<and> free_set s' = free_set s - P"

lemma free_count_bound: "pmm_inv s \<Longrightarrow> unat (pmm_free_pages s) \<le> 65536"
  using card_free_set_le [of s] by (simp add: pmm_inv_def)

lemma release_page_gives:
  assumes inv: "pmm_inv s" and p: "unat p < unat (pmm_total_pages s)"
  shows "gives {unat p} s (release_page p s)"
proof (cases "page_used (pmm_bitmap s) (unat p)")
  case True
  have p2: "unat p < 65536" and len: "length (pmm_bitmap s) = BITMAP_SIZE"
    using inv p by (simp_all add: pmm_inv_def)
  let ?s = "release_page p s"
  have fs: "free_set ?s = insert (unat p) (free_set s)"
    using True p page_used_clear [OF len p2]
    by (auto simp: release_page_def bitmap_test_used free_set_def)
  have "unat p \<notin> free_set s" using True by (simp add: free_set_def)
  moreover have "unat (pmm_free_pages s + 1) = Suc (unat (pmm_free_pages s))"
    using free_count_bound [OF inv] by (simp add: unat_word_ariths)
  ultimately have "unat (pmm_free_pages ?s) = card (free_set ?s)"
    using True inv by (simp add: fs) (simp add: release_page_def bitmap_test_used pmm_inv_def)
  then show ?thesis
    using inv p fs page_used_clear [OF len p2] True
    by (auto simp: gives_def pmm_inv_def) (auto simp: release_page_def bitmap_test_used)
next
  case False
  then have "unat p \<in> free_set s" using p by (simp add: free_set_def)
  with False inv show ?thesis
    by (auto simp: gives_def release_page_def bitmap_test_used)
qed

lemma bitmap_set_takes:
  assumes inv: "pmm_inv s" and p: "unat p \<in> free_set s"
  shows "takes {unat p} s
     (s\<lparr>pmm_bitmap := bitmap_set p (pmm_bitmap s), pmm_free_pages := pmm_free_pages s - 1\<rparr>)"
    (is "takes _ _ ?s")
proof -
  have p1: "unat p < unat (pmm_total_pages s)" using p by (simp add: free_set_def)
  have p2: "unat p < 65536" and len: "length (pmm_bitmap s) = BITMAP_SIZE"
    using inv p1 by (simp_all add: pmm_inv_def)
  have fs: "free_set ?s = free_set s - {unat p}"
    using page_used_set [OF len p2] by (auto simp: free_set_def)
  have "0 < unat (pmm_free_pages s)"
    using inv p by (auto simp: pmm_inv_def card_gt_0_iff)
  then have "unat (pmm_free_pages s - 1) = unat (pmm_free_pages s) - 1"
    by (simp add: unat_gt_0 unat_minus_one)
  then show ?thesis
    using inv p fs page_used_set [OF len p2]
    by (auto simp: takes_def pmm_inv_def)
qed

lemma free_region_gives:
  "pmm_inv s \<Longrightarrow>
   gives {n. unat p \<le> n \<and> n < unat lst \<and> n < unat (pmm_total_pages s)} s (free_region p lst s)"
proof (induction p lst s rule: free_region.induct)
  case (1 p lst s)
  show ?case
  proof (cases "p < lst \<and> p < pmm_total_pages s")
    case True
    then have u: "unat (p + 1) = Suc (unat p)" by (auto intro: unat_Suc_word)
    have p: "unat p < unat (pmm_total_pages s)" "unat p < unat lst"
      using True by (simp_all add: word_less_nat_alt)
    have g: "gives {unat p} s (release_page p s)"
      using "1.prems" p(1) by (rule release_page_gives)
    then have t: "pmm_total_pages (release_page p s) = pmm_total_pages s"
      and i: "pmm_inv (release_page p s)" by (simp_all add: gives_def)
    have "{n. unat p \<le> n \<and> n < unat lst \<and> n < unat (pmm_total_pages s)}
        = {unat p} \<union> {n. Suc (unat p) \<le> n \<and> n < unat lst \<and> n < unat (pmm_total_pages s)}"
      using p by auto
    with "1.IH" [OF True i] g t u True show ?thesis
      by (subst free_region.simps) (auto simp: gives_def)
  next
    case False
    then have none: "{n. unat p \<le> n \<and> n < unat lst \<and> n < unat (pmm_total_pages s)} = {}"
      by (auto simp: word_less_nat_alt)
    have "free_region p lst s = s" using False by (subst free_region.simps) auto
    with "1.prems" show ?thesis unfolding none by (simp add: gives_def)
  qed
qed

lemma protect_kernel_takes:
  "pmm_inv s \<Longrightarrow>
   takes {n. unat p \<le> n \<and> n < unat m \<and> n < unat (pmm_total_pages s)} s (protect_kernel p m s)"
proof (induction p m s rule: protect_kernel.induct)
  case (1 p m s)
  show ?case
  proof (cases "p < m \<and> p < pmm_total_pages s")
    case True
    let ?t = "if \<not> bitmap_test p (pmm_bitmap s)
              then (let s = s\<lparr>pmm_bitmap := bitmap_set p (pmm_bitmap s)\<rparr>
                    in if pmm_free_pages s > 0
                       then s\<lparr>pmm_free_pages := pmm_free_pages s - 1\<rparr> else s)
              else s"
    have u: "unat (p + 1) = Suc (unat p)" using True by (auto intro: unat_Suc_word)
    have p: "unat p < unat (pmm_total_pages s)" "unat p < unat m"
      using True by (simp_all add: word_less_nat_alt)
    have t: "takes {unat p} s ?t"
    proof (cases "unat p \<in> free_set s")
      case free: True
      then have "0 < unat (pmm_free_pages s)"
        using "1.prems" by (auto simp: pmm_inv_def card_gt_0_iff)
      then have "0 < pmm_free_pages s" by (simp add: word_less_nat_alt)
      with free bitmap_set_takes [OF "1.prems" free] show ?thesis
        by (simp add: bitmap_test_used free_set_def Let_def)
    next
      case False
      with p(1) have "page_used (pmm_bitmap s) (unat p)" by (simp add: free_set_def)
      with False "1.prems" show ?thesis by (auto simp: takes_def bitmap_test_used)
    qed
    then have tt: "pmm_total_pages ?t = pmm_total_pages s" and ti: "pmm_inv ?t"
      unfolding takes_def by blast+
    have eq: "{n. unat p \<le> n \<and> n < unat m \<and> n < unat (pmm_total_pages s)}
        = {unat p} \<union> {n. Suc (unat p) \<le> n \<and> n < unat m \<and> n < unat (pmm_total_pages s)}"
      using p by auto
    have "protect_kernel p m s = protect_kernel (p + 1) m ?t"
      using True by (subst protect_kernel.simps) (simp only: if_True simp_thms)
    with "1.IH" [OF True ti] t tt u eq show ?thesis
      unfolding takes_def by auto
  next
    case False
    then have none: "{n. unat p \<le> n \<and> n < unat m \<and> n < unat (pmm_total_pages s)} = {}"
      by (auto simp: word_less_nat_alt)
    have "protect_kernel p m s = s" using False by (subst protect_kernel.simps) auto
    with "1.prems" show ?thesis unfolding none by (simp add: takes_def)
  qed
qed

section \<open>What the allocator returns\<close>

text \<open>
  \<open>took n s (a, s')\<close>: page \<open>n\<close> was free, is the one at address \<open>a\<close>, and is the only page that
  is not free any more.
\<close>

definition took :: "nat \<Rightarrow> pmm \<Rightarrow> uint32_t \<times> pmm \<Rightarrow> bool" where
  "took n s r \<longleftrightarrow> n \<in> free_set s \<and> n < 65536 \<and> fst r = of_nat (n * 4096) \<and> takes {n} s (snd r)"

lemma free_set_lt: "pmm_inv s \<Longrightarrow> n \<in> free_set s \<Longrightarrow> n < 65536"
  by (auto simp: free_set_def pmm_inv_def)

lemma word_page_index:
  assumes "pmm_inv s" "i < pmm_total_pages s div 32" "b < 32"
  shows "unat (i * 32 + b) = unat i * 32 + unat b"
    and "unat i * 32 + unat b < unat (pmm_total_pages s)"
proof -
  have i: "unat i < unat (pmm_total_pages s) div 32" and b: "unat b < 32"
    using assms(2,3) by (simp_all add: word_less_nat_alt)
  then show le: "unat i * 32 + unat b < unat (pmm_total_pages s)" by linarith
  have "unat (pmm_total_pages s) \<le> 65536" using assms(1) by (simp add: pmm_inv_def)
  with le show "unat (i * 32 + b) = unat i * 32 + unat b"
    by (simp add: unat_word_ariths)
qed

lemma alloc_bit_spec:
  assumes "pmm_inv s" "i < pmm_total_pages s div 32" "unat b \<le> 32"
  shows "case alloc_bit i b s of
     None \<Rightarrow> \<forall>n. unat i * 32 + unat b \<le> n \<and> n < unat i * 32 + 32 \<longrightarrow> n \<notin> free_set s
   | Some r \<Rightarrow> \<exists>n. unat i * 32 + unat b \<le> n \<and> n < unat i * 32 + 32 \<and> took n s r \<and>
       (\<forall>m. unat i * 32 + unat b \<le> m \<and> m < n \<longrightarrow> m \<notin> free_set s)"
  using assms
proof (induction i b s rule: alloc_bit.induct)
  case (1 i b s)
  show ?case
  proof (cases "b < 32")
    case True
    let ?p = "i * 32 + b" and ?n = "unat i * 32 + unat b"
    have pn: "unat ?p = ?n" and lt: "?n < unat (pmm_total_pages s)"
      using word_page_index [OF "1.prems"(1,2) True] by simp_all
    have b1: "unat (b + 1) = Suc (unat b)" and b32: "unat b < 32"
      using True unat_Suc_word [OF True] by (simp_all add: word_less_nat_alt)
    have free: "?n \<in> free_set s \<longleftrightarrow> \<not> bitmap_test ?p (pmm_bitmap s)"
      using lt pn by (simp add: free_set_def bitmap_test_used)
    show ?thesis
    proof (cases "bitmap_test ?p (pmm_bitmap s)")
      case False
      with free have f: "unat ?p \<in> free_set s" using pn by simp
      have "?p * PAGE_SIZE = of_nat (?n * 4096)"
        using pn by (simp add: PAGE_SIZE_def word_unat_eq_iff unat_word_ariths unat_of_nat
            take_bit_eq_mod mod_mult_left_eq)
      then have "took ?n s (?p * PAGE_SIZE, s\<lparr>pmm_bitmap := bitmap_set ?p (pmm_bitmap s),
          pmm_free_pages := pmm_free_pages s - 1\<rparr>)"
        using bitmap_set_takes [OF "1.prems"(1) f] f pn free_set_lt [OF "1.prems"(1) f]
        by (simp add: took_def)
      with False True b32 show ?thesis
        by (subst alloc_bit.simps) (auto simp: Let_def)
    next
      case used: True
      have eq: "alloc_bit i b s = alloc_bit i (b + 1) s"
        using True used by (subst alloc_bit.simps) (simp add: Let_def)
      have low: "?n \<notin> free_set s" using free used by simp
      have step: "?n \<le> n \<longleftrightarrow> n = ?n \<or> unat i * 32 + unat (b + 1) \<le> n" for n
        using b1 by auto
      from "1.IH" [OF True refl] used "1.prems" b1 b32
      have "case alloc_bit i (b + 1) s of
          None \<Rightarrow> \<forall>n. unat i * 32 + unat (b + 1) \<le> n \<and> n < unat i * 32 + 32 \<longrightarrow> n \<notin> free_set s
        | Some r \<Rightarrow> \<exists>n. unat i * 32 + unat (b + 1) \<le> n \<and> n < unat i * 32 + 32 \<and> took n s r \<and>
            (\<forall>m. unat i * 32 + unat (b + 1) \<le> m \<and> m < n \<longrightarrow> m \<notin> free_set s)"
        by simp
      then show ?thesis
        unfolding eq step using low by (auto split: option.splits)
    qed
  next
    case False
    then have "unat b = 32" using "1.prems"(3) by (simp add: word_less_nat_alt)
    with False show ?thesis by (subst alloc_bit.simps) auto
  qed
qed

lemma bit_all_ones: "bit (0xFFFFFFFF :: uint32_t) k \<longleftrightarrow> k < 32"
proof -
  have "(0xFFFFFFFF :: uint32_t) = - 1" by code_simp
  then show ?thesis by (simp only:) simp
qed

lemma full_word_used:
  assumes "pmm_bitmap s ! unat i = 0xFFFFFFFF" "unat i * 32 \<le> n" "n < unat i * 32 + 32"
  shows "n \<notin> free_set s"
proof -
  have "n div 32 = unat i" using assms(2,3) by linarith
  moreover have "bit (pmm_bitmap s ! unat i) (n mod 32)"
    unfolding assms(1) bit_all_ones by simp
  ultimately show ?thesis by (simp add: free_set_def page_used_def)
qed

text \<open>The pages the allocator looks at: the last, incomplete word of the bitmap is left out.\<close>

definition usable :: "pmm \<Rightarrow> nat set" where
  "usable s = {n \<in> free_set s. n < 32 * (unat (pmm_total_pages s) div 32)}"

lemma alloc_word_spec:
  assumes "pmm_inv s" "unat i \<le> unat (pmm_total_pages s) div 32"
    and "\<forall>n < unat i * 32. n \<notin> free_set s"
  shows "(usable s = {} \<and> alloc_word i s = (0, s)) \<or>
     (\<exists>n \<in> usable s. took n s (alloc_word i s) \<and> (\<forall>m < n. m \<notin> free_set s))"
  using assms
proof (induction i s rule: alloc_word.induct)
  case (1 i s)
  show ?case
  proof (cases "i < pmm_total_pages s div 32")
    case True
    have i1: "unat (i + 1) = Suc (unat i)" using unat_Suc_word [OF True] .
    have lt: "unat i < unat (pmm_total_pages s) div 32" using True by (simp add: word_less_nat_alt)
    have split: "n < unat (i + 1) * 32 \<longleftrightarrow> n < unat i * 32 \<or> (unat i * 32 \<le> n \<and> n < unat i * 32 + 32)"
      for n using i1 by auto
    have bit: "case alloc_bit i 0 s of
        None \<Rightarrow> \<forall>n. unat i * 32 \<le> n \<and> n < unat i * 32 + 32 \<longrightarrow> n \<notin> free_set s
      | Some r \<Rightarrow> \<exists>n. unat i * 32 \<le> n \<and> n < unat i * 32 + 32 \<and> took n s r \<and>
          (\<forall>m. unat i * 32 \<le> m \<and> m < n \<longrightarrow> m \<notin> free_set s)"
      using alloc_bit_spec [of s i 0, unfolded unat_0 add_0_right] "1.prems"(1) True by simp
    show ?thesis
    proof (cases "pmm_bitmap s ! unat i = 0xFFFFFFFF")
      case full: True
      have "\<forall>n < unat (i + 1) * 32. n \<notin> free_set s"
        using "1.prems"(3) full_word_used [OF full] unfolding split by blast
      with "1.IH"(1) [OF True full] "1.prems" lt i1 True full show ?thesis
        by (subst (1 2) alloc_word.simps) simp
    next
      case open_word: False
      show ?thesis
      proof (cases "alloc_bit i 0 s")
        case None
        then have "\<forall>n < unat (i + 1) * 32. n \<notin> free_set s"
          using "1.prems"(3) bit unfolding split by auto
        with "1.IH"(2) [OF True open_word None] "1.prems" lt i1 True open_word None show ?thesis
          by (subst (1 2) alloc_word.simps) simp
      next
        case (Some r)
        with bit obtain n where n: "unat i * 32 \<le> n" "n < unat i * 32 + 32" "took n s r"
          "\<forall>m. unat i * 32 \<le> m \<and> m < n \<longrightarrow> m \<notin> free_set s" by auto
        have "n < 32 * (unat (pmm_total_pages s) div 32)" using n(2) lt by linarith
        with n(3) have "n \<in> usable s" by (simp add: usable_def took_def)
        moreover have "\<forall>m < n. m \<notin> free_set s"
          using n(4) "1.prems"(3) by (meson not_less)
        moreover have "alloc_word i s = r"
          using True open_word Some by (subst alloc_word.simps) simp
        ultimately show ?thesis using n(3) by blast
      qed
    qed
  next
    case False
    then have "unat i = unat (pmm_total_pages s) div 32"
      using "1.prems"(2) by (simp add: word_less_nat_alt)
    then have "usable s = {}" using "1.prems"(3) by (auto simp: usable_def)
    moreover have "alloc_word i s = (0, s)" using False by (subst alloc_word.simps) simp
    ultimately show ?thesis by simp
  qed
qed

lemma pmm_alloc_page_cases:
  assumes "pmm_inv s"
  obtains (none) "usable s = {}" "pmm_alloc_page s = (0, s)"
    | (page) n where "n \<in> usable s" "took n s (pmm_alloc_page s)" "\<And>m. m < n \<Longrightarrow> m \<notin> free_set s"
  using alloc_word_spec [of s 0] assms unfolding pmm_alloc_page_def by auto

section \<open>The allocator contract\<close>

text \<open>
  Page 0 holds the interrupt vectors of the BIOS and is below the kernel image, so
  initialisation reserves it; as long as it is not given back, a successful allocation is
  never address 0, which the callers take for failure.
\<close>

definition pmm_ready :: "pmm \<Rightarrow> bool" where
  "pmm_ready s \<longleftrightarrow> pmm_inv s \<and> 0 \<notin> free_set s"

definition pmm_managed :: "pmm \<Rightarrow> nat" where
  "pmm_managed s = unat (pmm_total_pages s)"

lemma unat_page_address: "n < 65536 \<Longrightarrow> unat (of_nat (n * 4096) :: uint32_t) = n * 4096"
  by (subst unat_of_nat) (simp add: take_bit_eq_mod)

lemma unat_page_div [simp]:
  "unat (a div PAGE_SIZE) = unat a div 4096" "unat (a mod PAGE_SIZE) = unat a mod 4096"
  by (simp_all add: PAGE_SIZE_def unat_div unat_mod)

lemma took_address:
  assumes "took n s r"
  shows "unat (fst r) = n * 4096" "unat (fst r) mod 4096 = 0" "unat (fst r) div 4096 = n"
    and "fst r = 0 \<longleftrightarrow> n = 0"
proof -
  show u: "unat (fst r) = n * 4096" using assms by (simp only: took_def unat_page_address)
  then show "unat (fst r) mod 4096 = 0" "unat (fst r) div 4096 = n" by simp_all
  show "fst r = 0 \<longleftrightarrow> n = 0" using u by (metis mult_eq_0_iff unat_eq_zero zero_neq_numeral)
qed

lemma pmm_free_page_gives:
  assumes "pmm_inv s"
  shows "gives (if unat a mod 4096 = 0 \<and> unat a div 4096 < unat (pmm_total_pages s)
                then {unat a div 4096} else {}) s (pmm_free_page a s)"
proof -
  have al: "a mod PAGE_SIZE = 0 \<longleftrightarrow> unat a mod 4096 = 0"
    by (metis unat_page_div(2) unat_eq_zero)
  have le: "pmm_total_pages s \<le> a div PAGE_SIZE \<longleftrightarrow> \<not> unat a div 4096 < unat (pmm_total_pages s)"
    by (simp add: word_le_nat_alt not_less)
  show ?thesis
    using release_page_gives [OF assms, of "a div PAGE_SIZE"] assms
    by (auto simp: pmm_free_page_def Let_def al le gives_def)
qed

lemma pmm_alloc_page_takes:
  assumes "pmm_inv s"
  shows "pmm_alloc_page s = (0, s) \<and> usable s = {} \<or> (\<exists>n. took n s (pmm_alloc_page s))"
  using pmm_alloc_page_cases [OF assms] by metis

lemma took_facts:
  assumes "took n s r"
  shows "n \<in> free_set s" "pmm_inv (snd r)" "pmm_total_pages (snd r) = pmm_total_pages s"
    and "free_set (snd r) = free_set s - {n}"
  using assms by (simp_all add: took_def takes_def)

lemma pmm_alloc_page_success:
  assumes "pmm_ready s" "fst (pmm_alloc_page s) \<noteq> 0"
  obtains n where "took n s (pmm_alloc_page s)"
  using assms pmm_alloc_page_takes [of s] by (auto simp: pmm_ready_def)

lemma pmm_alloc_page_failure:
  assumes "pmm_ready s" "fst (pmm_alloc_page s) = 0"
  shows "pmm_alloc_page s = (0, s)"
proof -
  have "\<not> took n s (pmm_alloc_page s)" for n
  proof
    assume n: "took n s (pmm_alloc_page s)"
    with assms(2) have "n = 0" using took_address(4) [OF n] by blast
    with took_facts(1) [OF n] assms(1) show False by (simp add: pmm_ready_def)
  qed
  then show ?thesis using assms(1) pmm_alloc_page_takes [of s] by (simp only: pmm_ready_def) blast
qed

lemma pmm_alloc_page_ready:
  assumes "pmm_ready s"
  shows "pmm_ready (snd (pmm_alloc_page s))
     \<and> pmm_total_pages (snd (pmm_alloc_page s)) = pmm_total_pages s"
proof (cases "fst (pmm_alloc_page s) = 0")
  case True
  with pmm_alloc_page_failure [OF assms] assms show ?thesis by simp
next
  case False
  from pmm_alloc_page_success [OF assms this] obtain n where "took n s (pmm_alloc_page s)" .
  from took_facts [OF this] assms show ?thesis by (simp add: pmm_ready_def)
qed

interpretation pa: page_allocator pmm_ready free_set pmm_managed pmm_alloc_page pmm_free_page
proof (unfold_locales, goal_cases)
  case (1 s)
  then show ?case by (simp add: pmm_alloc_page_ready)
next
  case (2 s)
  then show ?case by (simp add: pmm_alloc_page_ready pmm_managed_def)
next
  case (3 s)
  then show ?case by (simp add: pmm_alloc_page_failure)
next
  case (4 s)
  from pmm_alloc_page_success [OF this] obtain n where n: "took n s (pmm_alloc_page s)" .
  from took_address [OF n] took_facts [OF n] show ?case by simp
next
  case (5 s n)
  then show ?case by (cases "n = 0") (auto simp: pmm_ready_def free_set_def pmm_managed_def)
next
  case (6 s a)
  have "unat a div 4096 \<noteq> 0" if "unat a mod 4096 = 0"
  proof
    assume "unat a div 4096 = 0"
    then have "unat a < 4096" by (simp add: div_eq_0_iff)
    with that have "unat a = 0" by simp
    with 6(2) show False by (simp add: unat_eq_zero)
  qed
  with 6(1) pmm_free_page_gives [of s a] show ?case
    by (auto simp: pmm_ready_def gives_def split: if_splits)
next
  case (7 s a)
  then show ?case using pmm_free_page_gives [of s a]
    by (simp add: pmm_ready_def gives_def pmm_managed_def)
next
  case (8 s a)
  then show ?case using pmm_free_page_gives [of s a]
    by (simp add: pmm_ready_def gives_def pmm_managed_def)
qed

section \<open>What initialisation establishes\<close>

lemma pmm_memset_replicate:
  "n \<le> length dst \<Longrightarrow> pmm_memset dst v n = replicate n v @ drop n dst"
proof (induction n)
  case (Suc n)
  then have "pmm_memset dst v (Suc n) = (replicate n v @ drop n dst)[n := v]"
    by (simp add: pmm_memset_def)
  also have "\<dots> = replicate n v @ (drop n dst)[0 := v]"
    by (simp add: list_update_append)
  also have "drop n dst = dst ! n # drop (Suc n) dst"
    using Suc.prems by (simp add: Cons_nth_drop_Suc)
  finally show ?case by (simp add: replicate_app_Cons_same)
qed (simp add: pmm_memset_def)

lemma length_bitmap_bytes: "length (concat (map word_bytes bm)) = 4 * length bm"
  by (induction bm) (simp_all add: word_bytes_def)

lemma bytes_words_ones: "bytes_words (replicate (4 * m) 0xFF) = replicate m 0xFFFFFFFF"
proof (induction m)
  case (Suc m)
  have "replicate (4 * Suc m) (0xFF :: uint8_t)
      = 0xFF # 0xFF # 0xFF # 0xFF # replicate (4 * m) 0xFF"
    by (simp add: numeral_eq_Suc)
  moreover have "(ucast (0xFF :: uint8_t) OR push_bit 8 (ucast (0xFF :: uint8_t))
      OR push_bit 16 (ucast (0xFF :: uint8_t)) OR push_bit 24 (ucast (0xFF :: uint8_t)))
      = (0xFFFFFFFF :: uint32_t)" by code_simp
  ultimately show ?case using Suc by (simp only: bytes_words.simps replicate_Suc)
qed simp

lemma memset_bitmap:
  "bytes_words (pmm_memset (concat (map word_bytes bm)) 0xFF (length (concat (map word_bytes bm))))
     = replicate (length bm) 0xFFFFFFFF"
  by (simp only: pmm_memset_replicate order_refl drop_all append_Nil2 length_bitmap_bytes
      bytes_words_ones)

lemma page_used_ones:
  assumes "n < 65536"
  shows "page_used (replicate BITMAP_SIZE 0xFFFFFFFF) n"
proof -
  have "n div 32 < 2048" using assms by simp
  then have "replicate 2048 (0xFFFFFFFF :: uint32_t) ! (n div 32) = 0xFFFFFFFF"
    by (rule nth_replicate)
  then show ?thesis unfolding page_used_def BITMAP_SIZE_def
    by (simp only: bit_all_ones mod_less_divisor zero_less_numeral)
qed

lemma pmm_total_of_le: "unat (pmm_total_of mb) \<le> 65536"
  by (auto simp: pmm_total_of_def Let_def PMM_MAX_PAGES_def word_less_nat_alt not_less)

definition pmm_cleared :: "multiboot_info \<Rightarrow> pmm \<Rightarrow> pmm" where
  "pmm_cleared mb s = s\<lparr>pmm_bitmap := replicate BITMAP_SIZE 0xFFFFFFFF,
                        pmm_free_pages := 0, pmm_total_pages := pmm_total_of mb\<rparr>"

lemma pmm_cleared_inv: "pmm_inv (pmm_cleared mb s) \<and> free_set (pmm_cleared mb s) = {}"
proof -
  have "free_set (pmm_cleared mb s) = {}"
    using pmm_total_of_le [of mb] by (auto simp: free_set_def pmm_cleared_def page_used_ones)
  then show ?thesis
    using pmm_total_of_le [of mb]
    by (simp add: pmm_inv_def) (simp add: pmm_cleared_def page_used_ones)
qed

text \<open>
  The available entries of the memory map as a list, read by the same walk. The pages of an
  entry are the whole pages inside it.
\<close>

partial_function (option) mmap_regions ::
  "(uint32_t \<Rightarrow> uint32_t) \<Rightarrow> uint32_t \<Rightarrow> uint32_t \<Rightarrow> multiboot_mmap_entry list option" where
  "mmap_regions mem entry end_addr =
     (if entry < end_addr
      then Option.bind
             (mmap_regions mem (entry + mmap_size (mmap_entry_at mem entry) + 4) end_addr)
             (\<lambda>es. Some (mmap_entry_at mem entry # es))
      else Some [])"

declare mmap_regions.simps [code]

definition entry_pages :: "multiboot_mmap_entry \<Rightarrow> nat set" where
  "entry_pages e =
     (if entry_available e then {n. unat (region_first e) \<le> n \<and> n < unat (region_last e)} else {})"

lemma free_entry_gives:
  "pmm_inv s \<Longrightarrow>
   gives {n \<in> entry_pages e. n < unat (pmm_total_pages s)} s (free_entry e s)"
  using free_region_gives [of s "region_first e" "region_last e"]
  by (auto simp: free_entry_def entry_pages_def gives_def)

lemma mmap_walk_gives:
  assumes "mmap_regions mem a z = Some es" "pmm_inv s"
  shows "\<exists>s'. mmap_walk mem a z s = Some s'
     \<and> gives {n \<in> \<Union> (entry_pages ` set es). n < unat (pmm_total_pages s)} s s'"
  using assms
proof (induction es arbitrary: a s)
  case Nil
  then have "\<not> a < z"
    by (subst (asm) mmap_regions.simps) (auto simp: bind_eq_Some_conv split: if_splits)
  with Nil show ?case by (subst mmap_walk.simps) (simp add: gives_def)
next
  case (Cons e es)
  let ?a = "a + mmap_size (mmap_entry_at mem a) + 4"
  from Cons.prems(1) have lt: "a < z" and e: "e = mmap_entry_at mem a"
    and rest: "mmap_regions mem ?a z = Some es"
    by (subst (asm) (1) mmap_regions.simps, auto simp: bind_eq_Some_conv split: if_splits)+
  have g: "gives {n \<in> entry_pages e. n < unat (pmm_total_pages s)} s (free_entry e s)"
    using Cons.prems(2) by (rule free_entry_gives)
  then have i: "pmm_inv (free_entry e s)"
    and t: "pmm_total_pages (free_entry e s) = pmm_total_pages s" by (simp_all add: gives_def)
  from Cons.IH [OF rest i] obtain s' where
    s': "mmap_walk mem ?a z (free_entry e s) = Some s'"
    "gives {n \<in> \<Union> (entry_pages ` set es). n < unat (pmm_total_pages s)} (free_entry e s) s'"
    unfolding t by blast
  have "mmap_walk mem a z s = Some s'"
    using lt s'(1) by (subst mmap_walk.simps) (simp add: e)
  with s'(2) g show ?case by (auto simp: gives_def)
qed

text \<open>A sane map: every entry advances the walk without passing the end of the address space.\<close>

definition mmap_sane :: "(uint32_t \<Rightarrow> uint32_t) \<Rightarrow> uint32_t \<Rightarrow> bool" where
  "mmap_sane mem z \<longleftrightarrow> (\<forall>a < z. a < a + mem a + 4)"

lemma mmap_regions_total:
  assumes "mmap_sane mem z"
  shows "\<exists>es. mmap_regions mem a z = Some es"
proof (induction "unat z - unat a" arbitrary: a rule: less_induct)
  case less
  show ?case
  proof (cases "a < z")
    case True
    with assms have adv: "a < a + mem a + 4" by (simp add: mmap_sane_def)
    then have "unat z - unat (a + mem a + 4) < unat z - unat a"
      using True by (simp add: word_less_nat_alt)
    from less [OF this] obtain es where "mmap_regions mem (a + mem a + 4) z = Some es" by blast
    with True show ?thesis
      by (subst mmap_regions.simps) (simp add: mmap_entry_at_def)
  next
    case False
    then show ?thesis by (subst mmap_regions.simps) simp
  qed
qed

definition kernel_page_count :: "uint32_t \<Rightarrow> nat" where
  "kernel_page_count kernel_end = unat ((kernel_end + PAGE_SIZE - 1) div PAGE_SIZE)"

definition boot_regions ::
  "(uint32_t \<Rightarrow> uint32_t) \<Rightarrow> multiboot_info \<Rightarrow> multiboot_mmap_entry list option" where
  "boot_regions mem mb =
     (if bit (mb_flags mb) 6
      then mmap_regions mem (mmap_addr mb) (mmap_addr mb + mmap_length mb) else Some [])"

lemma mmap_flag_bit: "mb_flags mb AND MULTIBOOT_FLAG_MMAP \<noteq> 0 \<longleftrightarrow> bit (mb_flags mb) 6"
  by (simp add: bit_iff_and_push_bit_not_eq_0 MULTIBOOT_FLAG_MMAP_def)

lemma mem_flag_bit: "mb_flags mb AND MULTIBOOT_FLAG_MEM \<noteq> 0 \<longleftrightarrow> bit (mb_flags mb) 0"
  by (simp add: bit_iff_and_push_bit_not_eq_0 MULTIBOOT_FLAG_MEM_def)

lemma pmm_init_cleared:
  "length (pmm_bitmap s) = BITMAP_SIZE \<Longrightarrow>
   pmm_init mem kernel_end mb s =
     map_option (protect_kernel 0 ((kernel_end + PAGE_SIZE - 1) div PAGE_SIZE))
       (if bit (mb_flags mb) 6
        then mmap_walk mem (mmap_addr mb) (mmap_addr mb + mmap_length mb) (pmm_cleared mb s)
        else Some (pmm_cleared mb s))"
  by (simp only: pmm_init_def Let_def memset_bitmap pmm_cleared_def mmap_flag_bit)

lemma boot_regions_total:
  assumes "mmap_sane mem (mmap_addr mb + mmap_length mb)"
  shows "\<exists>es. boot_regions mem mb = Some es"
  using mmap_regions_total [OF assms, of "mmap_addr mb"]
  by (simp add: boot_regions_def)

lemma pmm_init_spec:
  assumes len: "length (pmm_bitmap s) = BITMAP_SIZE"
    and es: "boot_regions mem mb = Some es"
  shows "\<exists>s'. pmm_init mem kernel_end mb s = Some s' \<and> pmm_inv s'
     \<and> pmm_total_pages s' = pmm_total_of mb
     \<and> free_set s' = {n \<in> \<Union> (entry_pages ` set es).
                        kernel_page_count kernel_end \<le> n \<and> n < unat (pmm_total_of mb)}"
proof -
  let ?c = "pmm_cleared mb s"
  have t: "pmm_total_pages ?c = pmm_total_of mb" by (simp add: pmm_cleared_def)
  have c: "pmm_inv ?c" "free_set ?c = {}" using pmm_cleared_inv by blast+
  obtain w where w: "(if bit (mb_flags mb) 6
        then mmap_walk mem (mmap_addr mb) (mmap_addr mb + mmap_length mb) ?c else Some ?c) = Some w"
    and gw: "gives {n \<in> \<Union> (entry_pages ` set es). n < unat (pmm_total_of mb)} ?c w"
  proof (cases "bit (mb_flags mb) 6")
    case True
    with es mmap_walk_gives [OF _ c(1), of mem "mmap_addr mb" "mmap_addr mb + mmap_length mb" es] t
    show ?thesis using that by (auto simp: boot_regions_def)
  next
    case False
    with es c that show ?thesis by (simp add: boot_regions_def gives_def)
  qed
  have iw: "pmm_inv w" and tw: "pmm_total_pages w = pmm_total_of mb"
    using gw t by (simp_all add: gives_def)
  let ?s = "protect_kernel 0 ((kernel_end + PAGE_SIZE - 1) div PAGE_SIZE) w"
  have "takes {n. n < kernel_page_count kernel_end \<and> n < unat (pmm_total_of mb)} w ?s"
    using protect_kernel_takes [OF iw, of 0 "(kernel_end + PAGE_SIZE - 1) div PAGE_SIZE"] tw
    by (simp only: kernel_page_count_def unat_0 le0 simp_thms)
  with gw c(2) tw show ?thesis
    by (auto simp: pmm_init_cleared [OF len] w gives_def takes_def)
qed

lemma kernel_page_count_pos:
  assumes "0 < unat kernel_end" "unat kernel_end \<le> 2 ^ 32 - 4096"
  shows "0 < kernel_page_count kernel_end"
proof -
  have "unat (kernel_end + PAGE_SIZE - 1) = unat kernel_end + 4095"
    using assms by (simp add: PAGE_SIZE_def unat_word_ariths)
  then show ?thesis
    using assms(1) by (simp add: kernel_page_count_def)
qed

section \<open>The pages a memory map offers\<close>

text \<open>
  What the loader offers, said without the code: bases and lengths are 64-bit numbers, read as
  natural numbers, type 1 is available memory, and a page is offered when all its 4096 bytes lie in
  one available region, none of them below the end of the kernel, and its number is among those
  the manager can keep: the first 65536, or fewer when the loader says how much memory there is.
\<close>

definition region_base :: "multiboot_mmap_entry \<Rightarrow> nat" where
  "region_base e = unat (addr_low e) + 2 ^ 32 * unat (addr_high e)"

definition region_size :: "multiboot_mmap_entry \<Rightarrow> nat" where
  "region_size e = unat (len_low e) + 2 ^ 32 * unat (len_high e)"

definition region_pages :: "multiboot_mmap_entry \<Rightarrow> nat set" where
  "region_pages e = {n. mmap_type e = 1 \<and> region_base e \<le> 4096 * n
     \<and> 4096 * (n + 1) \<le> region_base e + region_size e}"

definition managed_pages :: "multiboot_info \<Rightarrow> nat" where
  "managed_pages mb =
     (if bit (mb_flags mb) 0 then min 65536 ((1024 + unat (mem_upper mb)) div 4) else 65536)"

definition offered_pages :: "uint32_t \<Rightarrow> multiboot_info \<Rightarrow> multiboot_mmap_entry list \<Rightarrow> nat set" where
  "offered_pages kernel_end mb es =
     {n. n < managed_pages mb \<and> unat kernel_end \<le> 4096 * n \<and> (\<exists>e \<in> set es. n \<in> region_pages e)}"

text \<open>
  The code computes in 32 bits. It is right for memory in its range: available regions that begin
  below 4 GB, but not in the last page, end below 4 GB; the amount of memory and the end of the
  kernel are not at the very end of the number range either. Regions beginning above 4 GB are free
  to be anything.
\<close>

definition region_in_range :: "multiboot_mmap_entry \<Rightarrow> bool" where
  "region_in_range e \<longleftrightarrow> (mmap_type e = 1 \<and> addr_high e = 0 \<longrightarrow>
     region_base e + 4095 < 2 ^ 32 \<and> region_base e + region_size e < 2 ^ 32)"

definition memory_in_range :: "uint32_t \<Rightarrow> multiboot_info \<Rightarrow> multiboot_mmap_entry list \<Rightarrow> bool" where
  "memory_in_range kernel_end mb es \<longleftrightarrow> (\<forall>e \<in> set es. region_in_range e)
     \<and> (bit (mb_flags mb) 0 \<longrightarrow> 1024 + unat (mem_upper mb) < 2 ^ 32)
     \<and> unat kernel_end + 4095 < 2 ^ 32"

lemma round_up_page:
  assumes "unat a + 4095 < 2 ^ 32"
  shows "unat ((a + PAGE_SIZE - 1) div PAGE_SIZE) \<le> n \<longleftrightarrow> unat a \<le> 4096 * n"
proof -
  have "unat (a + PAGE_SIZE - 1) = unat a + 4095"
    using assms by (simp add: PAGE_SIZE_def unat_word_ariths)
  then have "unat ((a + PAGE_SIZE - 1) div PAGE_SIZE) = (unat a + 4095) div 4096"
    by (simp add: PAGE_SIZE_def unat_div)
  then show ?thesis by auto
qed

lemma round_down_page:
  assumes "unat a + unat l < 2 ^ 32"
  shows "n < unat ((a + l) div PAGE_SIZE) \<longleftrightarrow> 4096 * (n + 1) \<le> unat a + unat l"
proof -
  have "unat (a + l) = unat a + unat l"
    using assms by (simp add: unat_word_ariths)
  then have "unat ((a + l) div PAGE_SIZE) = (unat a + unat l) div 4096"
    by (simp add: PAGE_SIZE_def unat_div)
  then show ?thesis by auto
qed

lemma managed_pages_total:
  assumes "bit (mb_flags mb) 0 \<longrightarrow> 1024 + unat (mem_upper mb) < 2 ^ 32"
  shows "unat (pmm_total_of mb) = managed_pages mb"
proof (cases "bit (mb_flags mb) 0")
  case True
  with assms have "unat (1024 + mem_upper mb) = 1024 + unat (mem_upper mb)"
    by (simp add: unat_word_ariths)
  with True show ?thesis
    by (simp add: pmm_total_of_def managed_pages_def mem_flag_bit PMM_MAX_PAGES_def Let_def
        word_less_nat_alt unat_div min_def)
qed (simp add: pmm_total_of_def managed_pages_def mem_flag_bit PMM_MAX_PAGES_def)

lemma entry_pages_region:
  assumes "region_in_range e" "n < 65536"
  shows "n \<in> entry_pages e \<longleftrightarrow> n \<in> region_pages e"
proof (cases "addr_high e = 0")
  case True
  show ?thesis
  proof (cases "mmap_type e = 1")
    case avail: True
    with assms(1) True have r: "unat (addr_low e) + 4095 < 2 ^ 32"
      "region_base e + region_size e < 2 ^ 32" by (simp_all add: region_in_range_def region_base_def)
    from r(2) have z: "unat (len_high e) = 0" by (simp add: region_base_def region_size_def)
    with r(2) have s: "unat (addr_low e) + unat (len_low e) < 2 ^ 32"
      by (simp add: region_base_def region_size_def True)
    show ?thesis
      using round_up_page [OF r(1), of n] round_down_page [OF s, of n]
      by (simp add: entry_pages_def region_pages_def entry_available_def region_first_def
          region_last_def MULTIBOOT_MEMORY_AVAILABLE_def avail True region_base_def region_size_def z)
  qed (simp add: entry_pages_def region_pages_def entry_available_def MULTIBOOT_MEMORY_AVAILABLE_def)
next
  case False
  then have "0 < unat (addr_high e)" by (simp add: unat_gt_0)
  then have "\<not> region_base e \<le> 4096 * n" using assms(2) by (simp add: region_base_def)
  with False show ?thesis by (simp add: entry_pages_def region_pages_def entry_available_def)
qed

lemma code_pages_offered:
  assumes "memory_in_range kernel_end mb es"
  shows "{n \<in> \<Union> (entry_pages ` set es). kernel_page_count kernel_end \<le> n \<and> n < unat (pmm_total_of mb)}
    = offered_pages kernel_end mb es"
proof -
  have "unat (pmm_total_of mb) = managed_pages mb"
    using assms by (intro managed_pages_total) (simp add: memory_in_range_def)
  moreover have "kernel_page_count kernel_end \<le> n \<longleftrightarrow> unat kernel_end \<le> 4096 * n" for n
    using assms round_up_page [of kernel_end n] by (simp only: memory_in_range_def kernel_page_count_def simp_thms)
  moreover have "n \<in> entry_pages e \<longleftrightarrow> n \<in> region_pages e" if "e \<in> set es" "n < managed_pages mb" for e n
    using assms that by (intro entry_pages_region) (auto simp: memory_in_range_def managed_pages_def split: if_splits)
  ultimately show ?thesis by (auto simp: offered_pages_def)
qed

text \<open>Out of that range: a region that ends exactly at 4 GB is lost, its end being taken for 0.\<close>

lemma region_up_to_4gb_lost:
  assumes "unat (addr_low e) + unat (len_low e) = 2 ^ 32"
  shows "entry_pages e = {}"
proof -
  have "unat (addr_low e + len_low e) = 0" using assms by (simp add: unat_word_ariths)
  then show ?thesis by (simp add: entry_pages_def region_last_def unat_div)
qed

section \<open>Concrete machines\<close>

text \<open>A machine of 512 MB whose map has one reserved and one available region.\<close>

definition demo_mem :: "uint32_t \<Rightarrow> uint32_t" where
  "demo_mem a =
     (if a = 0x9004 then 0 else if a = 0x9008 then 0 else if a = 0x900C then 0x9FC00
      else if a = 0x9010 then 0 else if a = 0x9014 then 2
      else if a = 0x901C then 0x100000 else if a = 0x9020 then 0
      else if a = 0x9024 then 0x1FF00000 else if a = 0x9028 then 0 else if a = 0x902C then 1 else 20)"

definition demo_mb :: multiboot_info where
  "demo_mb = \<lparr> mb_flags = 0x41, mem_lower = 639, mem_upper = 523264, boot_device = 0,
     cmdline = 0, mods_count = 0, mods_addr = 0, syms = [], mmap_length = 48,
     mmap_addr = 0x9000, drives_length = 0, drives_addr = 0, config_table = 0,
     boot_loader_name = 0, apm_table = 0, vbe_control_info = 0, vbe_mode_info = 0,
     vbe_mode = 0, vbe_interface_seg = 0, vbe_interface_off = 0, vbe_interface_len = 0 \<rparr>"

lemma demo_sane: "mmap_sane demo_mem (mmap_addr demo_mb + mmap_length demo_mb)"
  unfolding mmap_sane_def
proof (intro allI impI)
  fix a :: uint32_t
  assume "a < mmap_addr demo_mb + mmap_length demo_mb"
  then have "unat a < 0x9030" by (simp add: demo_mb_def word_less_nat_alt)
  moreover have "unat (demo_mem a) \<le> 0x1FF00000" by (simp add: demo_mem_def)
  ultimately have "unat (a + demo_mem a + 4) = unat a + unat (demo_mem a) + 4"
    by (simp add: unat_word_ariths)
  then show "a < a + demo_mem a + 4" by (simp add: word_less_nat_alt)
qed

lemma demo_regions:
  "\<exists>e1 e2. boot_regions demo_mem demo_mb = Some [e1, e2] \<and> mmap_type e1 = 2
     \<and> addr_low e2 = 0x100000 \<and> addr_high e2 = 0 \<and> len_low e2 = 0x1FF00000 \<and> len_high e2 = 0
     \<and> mmap_type e2 = 1"
proof -
  let ?e1 = "mmap_entry_at demo_mem 0x9000" and ?e2 = "mmap_entry_at demo_mem 0x9018"
  have s: "mmap_size ?e1 = 20" "mmap_size ?e2 = 20"
    by (simp_all add: mmap_entry_at_def demo_mem_def)
  have "mmap_regions demo_mem 0x9030 0x9030 = Some []" by (subst mmap_regions.simps) simp
  then have "mmap_regions demo_mem 0x9018 0x9030 = Some [?e2]"
    by (subst mmap_regions.simps) (simp add: s)
  then have "mmap_regions demo_mem 0x9000 0x9030 = Some [?e1, ?e2]"
    by (subst mmap_regions.simps) (simp add: s)
  moreover have "bit (mb_flags demo_mb) 6" by code_simp
  ultimately have "boot_regions demo_mem demo_mb = Some [?e1, ?e2]"
    by (simp add: boot_regions_def demo_mb_def)
  then show ?thesis
    by (intro exI [of _ ?e1] exI [of _ ?e2]) (simp add: mmap_entry_at_def demo_mem_def)
qed

lemma demo_offered:
  assumes "boot_regions demo_mem demo_mb = Some es"
  shows "memory_in_range 0x120000 demo_mb es" "offered_pages 0x120000 demo_mb es = {288..<65536}"
proof -
  obtain e1 e2 where e: "es = [e1, e2]" "mmap_type e1 = 2" "addr_low e2 = 0x100000" "addr_high e2 = 0"
    "len_low e2 = 0x1FF00000" "len_high e2 = 0" "mmap_type e2 = 1"
    using demo_regions assms by auto
  show "memory_in_range 0x120000 demo_mb es"
    using e by (simp add: memory_in_range_def region_in_range_def region_base_def region_size_def demo_mb_def)
  have "region_pages e1 = {}" "region_pages e2 = {256..<131072}"
    using e by (auto simp: region_pages_def region_base_def region_size_def)
  moreover have "managed_pages demo_mb = 65536"
    by (simp add: managed_pages_def demo_mb_def)
  ultimately show "offered_pages 0x120000 demo_mb es = {288..<65536}"
    by (auto simp: offered_pages_def e(1))
qed

text \<open>A manager of 40 pages, of which pages 1, 3 and 35 are free.\<close>

definition demo_pmm :: pmm where
  "demo_pmm = \<lparr> pmm_bitmap = 0xFFFFFFF5 # 0xFFFFFFF7 # replicate 2046 0xFFFFFFFF,
                pmm_total_pages = 40, pmm_free_pages = 3 \<rparr>"

lemma demo_pmm_used:
  assumes "n < 65536"
  shows "page_used (pmm_bitmap demo_pmm) n \<longleftrightarrow> n \<notin> {1, 3, 35}"
proof -
  consider "n < 32" | "32 \<le> n" "n < 64" | "64 \<le> n" by linarith
  then show ?thesis
  proof cases
    case 1
    have "bit (0xFFFFFFF5 :: uint32_t) n \<longleftrightarrow> n \<notin> {1, 3}" if "n < 32"
    proof -
      have "(0xFFFFFFF5 :: uint32_t) = NOT (push_bit 1 1 OR push_bit 3 1)" by code_simp
      then show ?thesis using that by (simp only: bit_simps) auto
    qed
    with 1 show ?thesis by (simp add: page_used_def demo_pmm_def)
  next
    case 2
    have "bit (0xFFFFFFF7 :: uint32_t) m \<longleftrightarrow> m \<noteq> 3" if "m < 32" for m
    proof -
      have "(0xFFFFFFF7 :: uint32_t) = NOT (push_bit 3 1)" by code_simp
      then show ?thesis using that by (simp only: bit_simps) auto
    qed
    moreover have "n div 32 = 1" using 2 by simp
    moreover have "n mod 32 = n - 32" using 2 by (simp add: mod_if)
    ultimately show ?thesis using 2 by (auto simp: page_used_def demo_pmm_def)
  next
    case 3
    then have "2 \<le> n div 32" by (simp add: less_eq_div_iff_mult_less_eq)
    then obtain d where d: "n div 32 = Suc (Suc d)" by (auto dest: le_Suc_ex)
    with assms have "d < 2046" by simp
    moreover have "bit (0xFFFFFFFF :: uint32_t) (n mod 32)"
      by (rule iffD2 [OF bit_all_ones]) simp
    ultimately show ?thesis using d 3 by (simp add: page_used_def demo_pmm_def)
  qed
qed

lemma demo_pmm_free: "free_set demo_pmm = {1, 3, 35}"
  using demo_pmm_used by (force simp: free_set_def demo_pmm_def)

lemma demo_pmm_ready: "pmm_ready demo_pmm"
proof -
  have "\<forall>n<65536. unat (pmm_total_pages demo_pmm) \<le> n \<longrightarrow> page_used (pmm_bitmap demo_pmm) n"
    using demo_pmm_used by (auto simp: demo_pmm_def)
  then show ?thesis
    unfolding pmm_ready_def pmm_inv_def demo_pmm_free
    by (simp add: demo_pmm_def BITMAP_SIZE_def)
qed

lemma demo_pmm_usable: "usable demo_pmm = {1, 3}"
  by (auto simp: usable_def demo_pmm_free) (simp_all add: demo_pmm_def)

section \<open>Properties\<close>

text \<open>C37: on every memory map whose entries advance, initialisation terminates with the invariant of
  the manager; for memory in the range of the 32-bit arithmetic the free pages are then exactly the
  offered ones: the pages all of whose bytes lie in one region of type 1, read with its 64-bit base
  and length, at or above the end of the kernel, and below the page limit. Everything else is
  marked used, and the free count is the number of free pages.\<close>

theorem pmm_init_frees_available:
  assumes "length (pmm_bitmap s) = BITMAP_SIZE"
    and "mmap_sane mem (mmap_addr mb + mmap_length mb)"
  shows "\<exists>es s'. boot_regions mem mb = Some es \<and> pmm_init mem kernel_end mb s = Some s'
    \<and> pmm_inv s' \<and> unat (pmm_get_free_page_count s') = card (free_set s')
    \<and> (memory_in_range kernel_end mb es \<longrightarrow>
         unat (pmm_total_pages s') = managed_pages mb \<and> free_set s' = offered_pages kernel_end mb es)"
proof -
  obtain es where es: "boot_regions mem mb = Some es"
    using boot_regions_total [OF assms(2)] by blast
  from pmm_init_spec [OF assms(1) es] obtain s' where
    s': "pmm_init mem kernel_end mb s = Some s'" "pmm_inv s'" "pmm_total_pages s' = pmm_total_of mb"
      "free_set s' = {n \<in> \<Union> (entry_pages ` set es).
                       kernel_page_count kernel_end \<le> n \<and> n < unat (pmm_total_of mb)}"
    by blast
  have "unat (pmm_get_free_page_count s') = card (free_set s')"
    using s'(2) by (simp only: pmm_inv_def pmm_get_free_page_count_def)
  moreover have "unat (pmm_total_pages s') = managed_pages mb \<and> free_set s' = offered_pages kernel_end mb es"
    if "memory_in_range kernel_end mb es"
    using managed_pages_total [of mb] code_pages_offered [OF that] that s'(3,4)
    by (simp add: memory_in_range_def)
  ultimately show ?thesis using es s' by blast
qed

theorem pmm_init_frees_available_witness:
  "\<exists>s'. pmm_init demo_mem 0x120000 demo_mb pmm_boot = Some s' \<and> free_set s' = {288..<65536}
     \<and> pmm_get_free_page_count s' = 65248"
proof -
  have "length (pmm_bitmap pmm_boot) = BITMAP_SIZE" by (simp add: pmm_boot_def)
  from pmm_init_frees_available [OF this demo_sane, of "0x120000"] obtain es s' where
    s': "boot_regions demo_mem demo_mb = Some es" "pmm_init demo_mem 0x120000 demo_mb pmm_boot = Some s'"
      "unat (pmm_get_free_page_count s') = card (free_set s')"
      "memory_in_range 0x120000 demo_mb es \<longrightarrow> free_set s' = offered_pages 0x120000 demo_mb es"
    by blast
  have f: "free_set s' = {288..<65536}" using s'(4) demo_offered [OF s'(1)] by blast
  then have "unat (pmm_get_free_page_count s') = 65248" using s'(3) by simp
  then have "pmm_get_free_page_count s' = 65248" by (metis of_nat_numeral of_nat_unat ucast_id)
  with f s'(2) show ?thesis by blast
qed

text \<open>C38: \<open>pmm_alloc_page\<close> hands out the lowest page of the usable free pages and marks it used,
  nothing else; it fails, without a change, exactly when no page is usable. Usable are the free
  pages of the complete bitmap words: a free page in the last, incomplete word is never handed
  out.\<close>

theorem pmm_alloc_page_takes_least:
  assumes "pmm_inv s"
  shows "if usable s = {} then pmm_alloc_page s = (0, s)
    else (\<exists>n s'. pmm_alloc_page s = (of_nat (n * 4096), s') \<and> n \<in> usable s
            \<and> (\<forall>m \<in> usable s. n \<le> m) \<and> pmm_inv s' \<and> free_set s' = free_set s - {n}
            \<and> pmm_total_pages s' = pmm_total_pages s)"
proof (rule pmm_alloc_page_cases [OF assms])
  fix n assume n: "n \<in> usable s" "took n s (pmm_alloc_page s)" "\<And>m. m < n \<Longrightarrow> m \<notin> free_set s"
  have "\<forall>m \<in> usable s. n \<le> m" using n(3) by (force simp: usable_def not_le [symmetric])
  moreover have "pmm_alloc_page s = (of_nat (n * 4096), snd (pmm_alloc_page s))"
    using n(2) by (simp only: took_def prod_eq_iff fst_conv snd_conv simp_thms)
  ultimately show ?thesis using n(1) took_facts [OF n(2)] by (metis empty_iff)
qed simp

theorem pmm_alloc_page_takes_least_witness: "usable (snd (pmm_alloc_page demo_pmm)) = {3}"
proof -
  from pmm_alloc_page_takes_least [of demo_pmm] demo_pmm_ready
  obtain n s' where n: "pmm_alloc_page demo_pmm = (of_nat (n * 4096), s')" "n \<in> {1, 3}"
    "\<forall>m \<in> {1, 3}. n \<le> m" "free_set s' = {1, 3, 35} - {n}"
    "pmm_total_pages s' = pmm_total_pages demo_pmm"
    by (auto simp: pmm_ready_def demo_pmm_usable demo_pmm_free)
  from n(2,3) have "n = 1" by auto
  with n(4) have "free_set s' = {3, 35}" by auto
  with n(1,5) show ?thesis by (auto simp: usable_def) (simp_all add: demo_pmm_def)
qed

text \<open>\<open>pmm_free_page\<close> accepts exactly the page-aligned addresses of managed pages and ignores
  every other; a page given back twice is counted once. The free count stays exact.\<close>

theorem pmm_free_page_exact:
  assumes "pmm_inv s"
  shows "pmm_inv (pmm_free_page a s)
    \<and> free_set (pmm_free_page a s) =
        (if unat a mod 4096 = 0 \<and> unat a div 4096 < unat (pmm_total_pages s)
         then insert (unat a div 4096) (free_set s) else free_set s)
    \<and> unat (pmm_get_free_page_count (pmm_free_page a s)) = card (free_set (pmm_free_page a s))"
proof -
  have g: "gives (if unat a mod 4096 = 0 \<and> unat a div 4096 < unat (pmm_total_pages s)
                then {unat a div 4096} else {}) s (pmm_free_page a s)"
    using assms by (rule pmm_free_page_gives)
  then have "pmm_inv (pmm_free_page a s)" by (simp only: gives_def)
  then have "unat (pmm_get_free_page_count (pmm_free_page a s)) = card (free_set (pmm_free_page a s))"
    by (simp only: pmm_inv_def pmm_get_free_page_count_def)
  with g show ?thesis by (simp add: gives_def)
qed

theorem pmm_free_page_exact_witness:
  "free_set (pmm_free_page 0x2000 demo_pmm) = {1, 2, 3, 35}"
  using pmm_free_page_exact [of demo_pmm "0x2000"] demo_pmm_ready
  by (auto simp: pmm_ready_def demo_pmm_free) (simp_all add: demo_pmm_def)

text \<open>With page 0 reserved, the pages handed out by any number of allocations in a row are
  pairwise different, aligned, and were free: no two owners ever share a page.\<close>

theorem pmm_allocations_distinct:
  assumes "pmm_ready s" "0 \<notin> set (fst (pa.alloc_n n s))"
  shows "distinct (fst (pa.alloc_n n s))
    \<and> (\<lambda>a. unat a div 4096) ` set (fst (pa.alloc_n n s)) \<subseteq> free_set s"
  using pa.alloc_n_distinct [OF assms] pa.alloc_n_page [OF assms(1)] assms(2) by blast

theorem pmm_allocations_distinct_witness: "distinct (fst (pa.alloc_n 1 demo_pmm))"
proof -
  have "fst (pmm_alloc_page demo_pmm) \<noteq> 0"
    by (rule pmm_alloc_page_cases [of demo_pmm])
      (use demo_pmm_ready in \<open>auto simp: demo_pmm_usable pmm_ready_def took_address(4)\<close>)
  then show ?thesis
    using pmm_allocations_distinct [OF demo_pmm_ready, of 1] by (simp add: split_beta Let_def)
qed

text \<open>A page that was allocated and is given back leaves the set of free pages as it was, and
  the manager ready for the next allocation.\<close>

theorem pmm_alloc_free_restores:
  assumes "pmm_ready s" "fst (pmm_alloc_page s) \<noteq> 0"
  shows "free_set (pmm_free_page (fst (pmm_alloc_page s)) (snd (pmm_alloc_page s))) = free_set s
    \<and> pmm_ready (pmm_free_page (fst (pmm_alloc_page s)) (snd (pmm_alloc_page s)))"
  using pa.alloc_release [OF assms] pa.release_invar [OF pa.alloc_invar [OF assms(1)] assms(2)]
  by simp

theorem pmm_alloc_free_restores_witness:
  "free_set (pmm_free_page (fst (pmm_alloc_page demo_pmm)) (snd (pmm_alloc_page demo_pmm)))
     = {1, 3, 35}"
proof -
  have "fst (pmm_alloc_page demo_pmm) \<noteq> 0"
    by (rule pmm_alloc_page_cases [of demo_pmm])
      (use demo_pmm_ready in \<open>auto simp: demo_pmm_usable pmm_ready_def took_address(4)\<close>)
  then show ?thesis
    using pmm_alloc_free_restores [OF demo_pmm_ready] by (simp add: demo_pmm_free)
qed

end
