(* ===== verification/Scheduler.thy ===== *)
theory Scheduler
  imports Pmm
begin

text \<open>
  Processes and the round-robin scheduler (\<^verbatim>\<open>src/scheduler.c\<close>, \<^verbatim>\<open>include/scheduler.h\<close>,
  \<^verbatim>\<open>src/context_switch.asm\<close>). A \<^verbatim>\<open>pcb_t*\<close> is a slot of one of the two static pools: a thread
  control block starts with a \<^verbatim>\<open>pcb_t\<close>, and the run queue links both kinds.

  A function that loops forever or follows a NULL pointer has the result \<open>None\<close>. A function
  that may leave through \<^verbatim>\<open>context_switch\<close> says so in its result (\<open>Switches\<close>): the rest of its
  caller then runs only when the old process is resumed.
\<close>

datatype process_state_t = PROCESS_READY | PROCESS_RUNNING | PROCESS_BLOCKED | PROCESS_DEAD

datatype pcb_ref = Pcb nat | Tcb nat

fun is_thread :: "pcb_ref \<Rightarrow> bool" where
  "is_thread (Pcb i) \<longleftrightarrow> False"
| "is_thread (Tcb i) \<longleftrightarrow> True"

record pcb =
  pid :: uint32_t
  state :: process_state_t
  priority :: uint8_t
  esp :: uint32_t
  stack_base :: uint32_t
  next_pcb :: "pcb_ref option"

text \<open>The part of a \<^verbatim>\<open>tcb_t\<close> after its embedded \<^verbatim>\<open>pcb_t\<close>.\<close>

record tcb_ext =
  tid :: uint32_t
  parent :: "pcb_ref option"
  wait_next :: "nat option"

text \<open>
  The state of the kernel core: the two pools, the static variables of \<^verbatim>\<open>scheduler.c\<close> and
  \<^verbatim>\<open>thread.c\<close>, the memory manager, the words of physical memory, and the stack pointer and
  program counter of the processor.
\<close>

record kern =
  pcbs :: "pcb_ref \<Rightarrow> pcb"
  tcbs :: "nat \<Rightarrow> tcb_ext"
  tcb_pool_initialized :: bool
  next_pid :: uint32_t
  next_tid :: uint32_t
  run_queue :: "pcb_ref option"
  current_pcb :: "pcb_ref option"
  idle_pcb :: "pcb_ref option"
  pm :: pmm
  ram :: "uint32_t \<Rightarrow> uint32_t"
  cpu_esp :: uint32_t
  cpu_eip :: uint32_t

datatype 'a flow = Returns 'a | Switches 'a

definition MAX_PROCESSES :: nat where "MAX_PROCESSES = 64"
definition STACK_SIZE :: uint32_t where "STACK_SIZE = PAGE_SIZE"

definition upd_pcb :: "pcb_ref \<Rightarrow> (pcb \<Rightarrow> pcb) \<Rightarrow> kern \<Rightarrow> kern" where
  "upd_pcb r f s = s\<lparr>pcbs := (pcbs s)(r := f (pcbs s r))\<rparr>"

section \<open>The run queue\<close>

partial_function (option) find_tail :: "(pcb_ref \<Rightarrow> pcb) \<Rightarrow> pcb_ref \<Rightarrow> pcb_ref option" where
  "find_tail h t =
     (case next_pcb (h t) of None \<Rightarrow> Some t | Some n \<Rightarrow> find_tail h n)"

declare find_tail.simps [code]

partial_function (option) find_prev ::
  "(pcb_ref \<Rightarrow> pcb) \<Rightarrow> pcb_ref option \<Rightarrow> pcb_ref \<Rightarrow> pcb_ref option option" where
  "find_prev h prev p =
     (case prev of
        None \<Rightarrow> Some None
      | Some r \<Rightarrow> if next_pcb (h r) \<noteq> Some p then find_prev h (next_pcb (h r)) p
                  else Some (Some r))"

declare find_prev.simps [code]

definition enqueue :: "pcb_ref \<Rightarrow> kern \<Rightarrow> kern option" where
  "enqueue p s =
     (let s = upd_pcb p (\<lambda>c. c\<lparr>next_pcb := None\<rparr>) s
      in case run_queue s of
           None \<Rightarrow> Some (s\<lparr>run_queue := Some p\<rparr>)
         | Some h \<Rightarrow>
             (case find_tail (pcbs s) h of
                None \<Rightarrow> None
              | Some tail \<Rightarrow> Some (upd_pcb tail (\<lambda>c. c\<lparr>next_pcb := Some p\<rparr>) s)))"

definition dequeue :: "pcb_ref \<Rightarrow> kern \<Rightarrow> kern option" where
  "dequeue p s =
     (if run_queue s = Some p
      then Some (upd_pcb p (\<lambda>c. c\<lparr>next_pcb := None\<rparr>) (s\<lparr>run_queue := next_pcb (pcbs s p)\<rparr>))
      else case find_prev (pcbs s) (run_queue s) p of
             None \<Rightarrow> None
           | Some None \<Rightarrow> Some s
           | Some (Some prev) \<Rightarrow>
               (let s = upd_pcb prev (\<lambda>c. c\<lparr>next_pcb := next_pcb (pcbs s p)\<rparr>) s
                in Some (upd_pcb p (\<lambda>c. c\<lparr>next_pcb := None\<rparr>) s)))"

definition scheduler_enqueue :: "pcb_ref \<Rightarrow> kern \<Rightarrow> kern option" where
  "scheduler_enqueue p s = enqueue p s"

definition scheduler_dequeue :: "pcb_ref \<Rightarrow> kern \<Rightarrow> kern option" where
  "scheduler_dequeue p s = dequeue p s"

section \<open>Processes\<close>

definition alloc_pcb :: "kern \<Rightarrow> pcb_ref option" where
  "alloc_pcb s =
     (case find (\<lambda>i. state (pcbs s (Pcb i)) = PROCESS_DEAD \<and> pid (pcbs s (Pcb i)) = 0)
             [0..<MAX_PROCESSES] of
        Some i \<Rightarrow> Some (Pcb i)
      | None \<Rightarrow>
          (case find (\<lambda>i. state (pcbs s (Pcb i)) = PROCESS_DEAD) [0..<MAX_PROCESSES] of
             Some i \<Rightarrow> Some (Pcb i)
           | None \<Rightarrow> None))"

definition create_process ::
  "uint32_t \<Rightarrow> uint8_t \<Rightarrow> kern \<Rightarrow> (pcb_ref option \<times> kern) option" where
  "create_process entry_fn prio s =
     (case alloc_pcb s of
        None \<Rightarrow> Some (None, s)
      | Some p \<Rightarrow>
          (let (stack, m) = pmm_alloc_page (pm s);
               s = s\<lparr>pm := m\<rparr>
           in if stack = 0 then Some (None, s)
              else (let sp = stack + STACK_SIZE - 4;
                        s = s\<lparr>ram := (ram s)(sp := entry_fn), next_pid := next_pid s + 1\<rparr>;
                        s = upd_pcb p (\<lambda>_. \<lparr> pid = next_pid s, state = PROCESS_READY,
                              priority = prio, esp = sp, stack_base = stack,
                              next_pcb = None \<rparr>) s
                    in map_option (\<lambda>s. (Some p, s)) (enqueue p s))))"

definition dead_pcb :: pcb where
  "dead_pcb = \<lparr> pid = 0, state = PROCESS_DEAD, priority = 0, esp = 0, stack_base = 0,
               next_pcb = None \<rparr>"

text \<open>\<open>idle_task\<close> is the address of the idle loop; a panic is \<open>Inl\<close> of its message.\<close>

definition scheduler_init :: "uint32_t \<Rightarrow> kern \<Rightarrow> (string + kern) option" where
  "scheduler_init idle_task s =
     (let s = fold (\<lambda>i. upd_pcb (Pcb i) (\<lambda>_. dead_pcb)) [0..<MAX_PROCESSES] s
      in case create_process idle_task 0 s of
           None \<Rightarrow> None
         | Some (None, s) \<Rightarrow> Some (Inl ''scheduler_init: failed to create idle process'')
         | Some (Some p, s) \<Rightarrow>
             (let s = s\<lparr>idle_pcb := Some p, current_pcb := Some p\<rparr>
              in Some (Inr (upd_pcb p (\<lambda>c. c\<lparr>state := PROCESS_RUNNING\<rparr>) s))))"

definition get_current_process :: "kern \<Rightarrow> pcb_ref option" where
  "get_current_process s = current_pcb s"

text \<open>
  \<^verbatim>\<open>context_switch.asm\<close>: \<^verbatim>\<open>ESP\<close> points to the return address when it is saved; the final \<^verbatim>\<open>ret\<close>
  pops the new program counter from the new stack.
\<close>

definition context_switch :: "pcb_ref \<Rightarrow> pcb_ref \<Rightarrow> kern \<Rightarrow> kern" where
  "context_switch old new s =
     (let s = upd_pcb old (\<lambda>c. c\<lparr>esp := cpu_esp s\<rparr>) s;
          sp = esp (pcbs s new)
      in s\<lparr>cpu_eip := ram s sp, cpu_esp := sp + 4\<rparr>)"

partial_function (option) sched_scan ::
  "(pcb_ref \<Rightarrow> pcb) \<Rightarrow> pcb_ref option \<Rightarrow> pcb_ref option \<Rightarrow> pcb_ref option
     \<Rightarrow> pcb_ref option option" where
  "sched_scan h rq start nx =
     (case nx of
        None \<Rightarrow> Some None
      | Some r \<Rightarrow>
          if state (h r) = PROCESS_READY then Some nx
          else (let nx = (case next_pcb (h r) of None \<Rightarrow> rq | Some n \<Rightarrow> Some n)
                in if nx = start then Some None else sched_scan h rq start nx))"

declare sched_scan.simps [code]

text \<open>The end of \<^verbatim>\<open>schedule\<close>, from the comparison of \<^verbatim>\<open>next\<close> with the current process on.\<close>

definition sched_switch :: "pcb_ref \<Rightarrow> pcb_ref option \<Rightarrow> kern \<Rightarrow> kern flow option" where
  "sched_switch cur nx s =
     (case nx of
        None \<Rightarrow> None
      | Some n \<Rightarrow>
          if n = cur then Some (Returns s)
          else (let s = (if state (pcbs s cur) = PROCESS_RUNNING
                         then upd_pcb cur (\<lambda>c. c\<lparr>state := PROCESS_READY\<rparr>) s else s);
                    s = upd_pcb n (\<lambda>c. c\<lparr>state := PROCESS_RUNNING\<rparr>) s;
                    s = s\<lparr>current_pcb := Some n\<rparr>
                in Some (Switches (context_switch cur n s))))"

definition schedule :: "kern \<Rightarrow> kern flow option" where
  "schedule s =
     (case current_pcb s of
        None \<Rightarrow> Some (Returns s)
      | Some cur \<Rightarrow>
          (let first = (case next_pcb (pcbs s cur) of None \<Rightarrow> run_queue s | Some n \<Rightarrow> Some n);
               fallback = (if current_pcb s = idle_pcb s then Some (Returns s)
                           else sched_switch cur (idle_pcb s) s)
           in case sched_scan (pcbs s) (run_queue s) first first of
                None \<Rightarrow> None
              | Some None \<Rightarrow> fallback
              | Some (Some n) \<Rightarrow>
                  if state (pcbs s n) \<noteq> PROCESS_READY then fallback
                  else sched_switch cur (Some n) s))"

definition process_exit :: "kern \<Rightarrow> kern flow option" where
  "process_exit s =
     (case current_pcb s of
        None \<Rightarrow> None
      | Some dying \<Rightarrow>
          (case dequeue dying (upd_pcb dying (\<lambda>c. c\<lparr>state := PROCESS_DEAD\<rparr>) s) of
             None \<Rightarrow> None
           | Some s \<Rightarrow>
               (let s = s\<lparr>pm := pmm_free_page (stack_base (pcbs s dying)) (pm s)\<rparr>;
                    s = upd_pcb dying (\<lambda>c. c\<lparr>pid := 0, stack_base := 0, esp := 0\<rparr>) s;
                    s = s\<lparr>current_pcb := idle_pcb s\<rparr>
                in case idle_pcb s of
                     None \<Rightarrow> None
                   | Some idle \<Rightarrow>
                       Some (Switches (context_switch dying idle
                         (upd_pcb idle (\<lambda>c. c\<lparr>state := PROCESS_RUNNING\<rparr>) s))))))"

section \<open>The queue as a list\<close>

fun is_list :: "(pcb_ref \<Rightarrow> pcb) \<Rightarrow> pcb_ref option \<Rightarrow> pcb_ref list \<Rightarrow> bool" where
  "is_list h p [] \<longleftrightarrow> p = None"
| "is_list h p (r # rs) \<longleftrightarrow> p = Some r \<and> is_list h (next_pcb (h r)) rs"

definition queue :: "kern \<Rightarrow> pcb_ref list \<Rightarrow> bool" where
  "queue s xs \<longleftrightarrow> is_list (pcbs s) (run_queue s) xs"

text \<open>Everything but the links of the queue.\<close>

definition strip :: "kern \<Rightarrow> kern" where
  "strip s = s\<lparr>pcbs := (\<lambda>r. (pcbs s r)\<lparr>next_pcb := None\<rparr>), run_queue := None\<rparr>"

lemma is_list_None [simp]: "is_list h None xs \<longleftrightarrow> xs = []"
  by (cases xs) auto

lemma is_list_Some: "is_list h (Some r) xs \<longleftrightarrow> (\<exists>ys. xs = r # ys \<and> is_list h (next_pcb (h r)) ys)"
  by (cases xs) auto

lemma is_list_unique: "is_list h p xs \<Longrightarrow> is_list h p ys \<Longrightarrow> xs = ys"
  by (induction xs arbitrary: p ys) (auto simp: is_list_Some)

lemma is_list_suffix:
  "is_list h p (xs @ r # ys) \<Longrightarrow> is_list h (Some r) (r # ys)"
  by (induction xs arbitrary: p) auto

lemma is_list_head_notin: "is_list h (Some r) (r # ys) \<Longrightarrow> r \<notin> set ys"
proof
  assume l: "is_list h (Some r) (r # ys)" and "r \<in> set ys"
  then obtain as bs where ys: "ys = as @ r # bs" by (auto dest: split_list)
  from l have "is_list h (Some r) ((r # as) @ r # bs)" by (simp add: ys)
  then have "is_list h (Some r) (r # bs)" by (rule is_list_suffix)
  with l have "r # ys = r # bs" by (rule is_list_unique)
  then show False by (simp add: ys)
qed

lemma is_list_distinct: "is_list h p xs \<Longrightarrow> distinct xs"
proof (induction xs arbitrary: p)
  case (Cons r xs)
  then show ?case using is_list_head_notin [of h r xs] by auto
qed simp

lemma is_list_upd:
  "r \<notin> set xs \<Longrightarrow> is_list (h(r := c)) p xs = is_list h p xs"
  by (induction xs arbitrary: p) auto

lemma is_list_cong:
  "(\<And>r. r \<in> set xs \<Longrightarrow> next_pcb (h r) = next_pcb (h' r)) \<Longrightarrow> is_list h p xs = is_list h' p xs"
  by (induction xs arbitrary: p) auto

lemma find_tail_last:
  "is_list h (Some r) (r # ys) \<Longrightarrow> find_tail h r = Some (last (r # ys))"
proof (induction ys arbitrary: r)
  case Nil
  then show ?case by (subst find_tail.simps) simp
next
  case (Cons y ys)
  then show ?case by (subst find_tail.simps) simp
qed

lemma is_list_append_last:
  "is_list h p xs \<Longrightarrow> xs \<noteq> [] \<Longrightarrow> x \<notin> set xs \<Longrightarrow> next_pcb (h x) = None \<Longrightarrow>
   is_list (h(last xs := (h (last xs))\<lparr>next_pcb := Some x\<rparr>)) p (xs @ [x])"
proof (induction xs arbitrary: p)
  case (Cons r xs)
  have d: "distinct (r # xs)" using Cons.prems(1) by (rule is_list_distinct)
  show ?case
  proof (cases "xs = []")
    case True
    with Cons.prems show ?thesis by auto
  next
    case False
    let ?h = "h(last xs := (h (last xs))\<lparr>next_pcb := Some x\<rparr>)"
    have "is_list ?h (next_pcb (h r)) (xs @ [x])"
      using Cons.IH [of "next_pcb (h r)"] Cons.prems False by (simp add: fun_upd_def)
    moreover have "?h r = h r" using d False by auto
    moreover have "last (r # xs) = last xs" using False by simp
    ultimately show ?thesis using Cons.prems(1) by (simp only: append_Cons is_list.simps)
  qed
qed simp

lemma find_prev_absent:
  "is_list h p xs \<Longrightarrow> x \<notin> set (tl xs) \<Longrightarrow> find_prev h p x = Some None"
proof (induction xs arbitrary: p)
  case Nil
  then show ?case by (subst find_prev.simps) simp
next
  case (Cons r xs)
  then have "next_pcb (h r) \<noteq> Some x" by (cases xs) auto
  moreover have "x \<notin> set (tl xs)" using Cons.prems(2) by (cases xs) auto
  ultimately show ?case
    using Cons by (subst find_prev.simps) auto
qed

lemma find_prev_present:
  "is_list h p (as @ r # x # bs) \<Longrightarrow> find_prev h p x = Some (Some r)"
proof (induction as arbitrary: p)
  case Nil
  then show ?case by (subst find_prev.simps) simp
next
  case (Cons a as)
  have "distinct (a # as @ r # x # bs)" using is_list_distinct [OF Cons.prems] by simp
  then have "next_pcb (h a) \<noteq> Some x" using Cons.prems by (cases as) auto
  with Cons show ?case by (subst find_prev.simps) auto
qed

lemma is_list_unlink:
  "is_list h p (as @ r # x # bs) \<Longrightarrow>
   is_list (h(r := (h r)\<lparr>next_pcb := next_pcb (h x)\<rparr>)) p (as @ r # bs)"
proof (induction as arbitrary: p)
  case Nil
  have "r \<notin> set bs" using is_list_distinct [OF Nil] by simp
  then have "is_list (h(r := (h r)\<lparr>next_pcb := next_pcb (h x)\<rparr>)) (next_pcb (h x)) bs"
    using Nil by (subst is_list_upd) auto
  with Nil show ?case by (simp add: fun_upd_def)
next
  case (Cons a as)
  have "a \<noteq> r" using is_list_distinct [OF Cons.prems] by simp
  with Cons show ?case by (simp add: fun_upd_def)
qed

section \<open>Enqueue and dequeue implement a list\<close>

lemma strip_simps [simp]:
  "strip (s\<lparr>run_queue := q\<rparr>) = strip s"
  "strip (upd_pcb r (\<lambda>c. c\<lparr>next_pcb := n\<rparr>) s) = strip s"
  by (simp_all add: strip_def upd_pcb_def fun_eq_iff cong: kern.fold_congs)

lemma strip_eqD:
  assumes "strip s = strip t"
  shows "state (pcbs s r) = state (pcbs t r)" "pid (pcbs s r) = pid (pcbs t r)"
    "priority (pcbs s r) = priority (pcbs t r)" "esp (pcbs s r) = esp (pcbs t r)"
    "stack_base (pcbs s r) = stack_base (pcbs t r)"
    "tcbs s = tcbs t" "tcb_pool_initialized s = tcb_pool_initialized t"
    "next_pid s = next_pid t" "next_tid s = next_tid t"
    "current_pcb s = current_pcb t" "idle_pcb s = idle_pcb t" "pm s = pm t" "ram s = ram t"
    "cpu_esp s = cpu_esp t" "cpu_eip s = cpu_eip t"
proof -
  have "pcbs (strip s) r = pcbs (strip t) r" using assms by simp
  then have c: "(pcbs s r)\<lparr>next_pcb := None\<rparr> = (pcbs t r)\<lparr>next_pcb := None\<rparr>"
    by (simp add: strip_def)
  show "state (pcbs s r) = state (pcbs t r)"
    using arg_cong [OF c, of state] by simp
  show "pid (pcbs s r) = pid (pcbs t r)"
    using arg_cong [OF c, of pid] by simp
  show "priority (pcbs s r) = priority (pcbs t r)"
    using arg_cong [OF c, of priority] by simp
  show "esp (pcbs s r) = esp (pcbs t r)"
    using arg_cong [OF c, of esp] by simp
  show "stack_base (pcbs s r) = stack_base (pcbs t r)"
    using arg_cong [OF c, of stack_base] by simp
  show "tcbs s = tcbs t" using arg_cong [OF assms, of tcbs] by (simp add: strip_def)
  show "tcb_pool_initialized s = tcb_pool_initialized t"
    using arg_cong [OF assms, of tcb_pool_initialized] by (simp add: strip_def)
  show "next_pid s = next_pid t" using arg_cong [OF assms, of next_pid] by (simp add: strip_def)
  show "next_tid s = next_tid t" using arg_cong [OF assms, of next_tid] by (simp add: strip_def)
  show "current_pcb s = current_pcb t"
    using arg_cong [OF assms, of current_pcb] by (simp add: strip_def)
  show "idle_pcb s = idle_pcb t" using arg_cong [OF assms, of idle_pcb] by (simp add: strip_def)
  show "pm s = pm t" using arg_cong [OF assms, of pm] by (simp add: strip_def)
  show "ram s = ram t" using arg_cong [OF assms, of ram] by (simp add: strip_def)
  show "cpu_esp s = cpu_esp t" using arg_cong [OF assms, of cpu_esp] by (simp add: strip_def)
  show "cpu_eip s = cpu_eip t" using arg_cong [OF assms, of cpu_eip] by (simp add: strip_def)
qed

lemma enqueue_queue:
  assumes q: "queue s xs" and x: "x \<notin> set xs"
  shows "\<exists>s'. enqueue x s = Some s' \<and> queue s' (xs @ [x]) \<and> strip s' = strip s"
proof -
  let ?s = "upd_pcb x (\<lambda>c. c\<lparr>next_pcb := None\<rparr>) s"
  have l: "is_list (pcbs ?s) (run_queue ?s) xs"
    using q x by (simp add: queue_def upd_pcb_def is_list_upd)
  have xn: "next_pcb (pcbs ?s x) = None" by (simp add: upd_pcb_def)
  show ?thesis
  proof (cases xs)
    case Nil
    with l xn show ?thesis
      by (auto simp: enqueue_def Let_def queue_def)
  next
    case (Cons h ys)
    with l have rq: "run_queue ?s = Some h" and tail: "find_tail (pcbs ?s) h = Some (last xs)"
      using find_tail_last [of "pcbs ?s" h ys] by auto
    let ?t = "upd_pcb (last xs) (\<lambda>c. c\<lparr>next_pcb := Some x\<rparr>) ?s"
    have "enqueue x s = Some ?t" using rq tail by (simp add: enqueue_def Let_def)
    moreover have "queue ?t (xs @ [x])"
    proof -
      have ne: "xs \<noteq> []" using Cons by simp
      have "pcbs ?t = (pcbs ?s)(last xs := (pcbs ?s (last xs))\<lparr>next_pcb := Some x\<rparr>)"
        by (simp add: upd_pcb_def)
      moreover have "run_queue ?t = run_queue ?s" by (simp add: upd_pcb_def)
      ultimately show ?thesis
        using is_list_append_last [OF l ne x xn] by (simp only: queue_def)
    qed
    moreover have "strip ?t = strip s" by simp
    ultimately show ?thesis by blast
  qed
qed

lemma dequeue_queue:
  assumes q: "queue s xs"
  shows "\<exists>s'. dequeue x s = Some s' \<and> queue s' (remove1 x xs) \<and> strip s' = strip s"
proof (cases "run_queue s = Some x")
  case True
  with q obtain ys where xs: "xs = x # ys" and ys: "is_list (pcbs s) (next_pcb (pcbs s x)) ys"
    by (auto simp: queue_def is_list_Some)
  have "x \<notin> set ys" using is_list_distinct q unfolding queue_def xs by fastforce
  with True ys show ?thesis
    by (auto simp: dequeue_def queue_def xs upd_pcb_def [of x _ "s\<lparr>run_queue := _\<rparr>"] is_list_upd
        strip_def fun_eq_iff)
next
  case False
  show ?thesis
  proof (cases "x \<in> set (tl xs)")
    case notin: False
    then have "x \<notin> set xs" using False q by (cases xs) (auto simp: queue_def)
    moreover have "find_prev (pcbs s) (run_queue s) x = Some None"
      using q notin by (intro find_prev_absent [of _ _ xs]) (simp_all add: queue_def)
    ultimately show ?thesis using False q by (simp add: dequeue_def remove1_idem)
  next
    case True
    then obtain as bs where "tl xs = as @ x # bs" by (auto dest: split_list)
    then obtain h where hxs: "xs = (h # as) @ x # bs" by (cases xs) auto
    obtain cs r where cs: "h # as = cs @ [r]" by (metis list.distinct(1) rev_exhaust)
    have xs: "xs = cs @ r # x # bs" using hxs cs by simp
    have l: "is_list (pcbs s) (run_queue s) (cs @ r # x # bs)" using q by (simp add: queue_def xs)
    have d: "distinct (cs @ r # x # bs)" using l by (rule is_list_distinct)
    let ?t = "upd_pcb r (\<lambda>c. c\<lparr>next_pcb := next_pcb (pcbs s x)\<rparr>) s"
    let ?u = "upd_pcb x (\<lambda>c. c\<lparr>next_pcb := None\<rparr>) ?t"
    have "dequeue x s = Some ?u"
      using False find_prev_present [OF l] by (simp add: dequeue_def Let_def)
    moreover have "is_list (pcbs ?t) (run_queue s) (cs @ r # bs)"
      using is_list_unlink [OF l] by (simp add: upd_pcb_def)
    then have "queue ?u (remove1 x xs)"
      using d by (auto simp: queue_def xs remove1_append upd_pcb_def [of x] is_list_upd)
        (auto simp: upd_pcb_def is_list_upd)
    moreover have "strip ?u = strip s" by simp
    ultimately show ?thesis by blast
  qed
qed

text \<open>Slots outside the queue keep their links; a slot taken out has none.\<close>

lemma enqueue_links:
  assumes q: "queue s xs" and x: "x \<notin> set xs" and e: "enqueue x s = Some t"
    and r: "r \<notin> set xs" "r \<noteq> x"
  shows "next_pcb (pcbs t r) = next_pcb (pcbs s r)"
proof -
  let ?s = "upd_pcb x (\<lambda>c. c\<lparr>next_pcb := None\<rparr>) s"
  have l: "is_list (pcbs ?s) (run_queue ?s) xs"
    using q x by (simp add: queue_def upd_pcb_def is_list_upd)
  show ?thesis
  proof (cases xs)
    case Nil
    with l e r show ?thesis by (auto simp: enqueue_def Let_def upd_pcb_def)
  next
    case (Cons h ys)
    with l have "run_queue ?s = Some h" "find_tail (pcbs ?s) h = Some (last xs)"
      using find_tail_last [of "pcbs ?s" h ys] by auto
    then have "t = upd_pcb (last xs) (\<lambda>c. c\<lparr>next_pcb := Some x\<rparr>) ?s"
      using e by (simp add: enqueue_def Let_def)
    moreover have "r \<noteq> last xs" using r(1) Cons by (metis last_in_set list.distinct(1))
    ultimately show ?thesis using r(2) by (simp add: upd_pcb_def)
  qed
qed

lemma find_prev_in:
  "is_list h p xs \<Longrightarrow> find_prev h p x = Some (Some y) \<Longrightarrow> y \<in> set xs"
proof (induction xs arbitrary: p)
  case Nil
  then show ?case by (subst (asm) find_prev.simps) simp
next
  case (Cons r xs)
  then show ?case by (subst (asm) find_prev.simps) (auto split: if_splits)
qed

lemma dequeue_links:
  assumes q: "queue s xs" and e: "dequeue x s = Some t"
  shows "r \<notin> set xs \<Longrightarrow> r \<noteq> x \<Longrightarrow> next_pcb (pcbs t r) = next_pcb (pcbs s r)"
    and "x \<in> set xs \<Longrightarrow> next_pcb (pcbs t x) = None"
proof -
  have l: "is_list (pcbs s) (run_queue s) xs" using q by (simp add: queue_def)
  show "next_pcb (pcbs t r) = next_pcb (pcbs s r)" if "r \<notin> set xs" "r \<noteq> x"
    using e that find_prev_in [OF l, of x]
    by (auto simp: dequeue_def upd_pcb_def Let_def split: if_splits option.splits)
  show "next_pcb (pcbs t x) = None" if x: "x \<in> set xs"
  proof (cases "run_queue s = Some x")
    case True
    with e show ?thesis by (auto simp: dequeue_def upd_pcb_def)
  next
    case False
    obtain as bs where xs: "xs = as @ x # bs" using x by (auto dest: split_list)
    with False l obtain cs y where "as = cs @ [y]" by (cases as rule: rev_cases) auto
    with xs l have "find_prev (pcbs s) (run_queue s) x = Some (Some y)"
      using find_prev_present [of "pcbs s" "run_queue s" cs y x bs] by simp
    with e False show ?thesis by (auto simp: dequeue_def upd_pcb_def Let_def)
  qed
qed

interpretation rq: process_queue queue strip enqueue dequeue
  by unfold_locales
    (auto simp: queue_def enqueue_queue dequeue_queue [unfolded queue_def]
      enqueue_queue [unfolded queue_def] intro: is_list_distinct is_list_unique)

section \<open>Properties\<close>

text \<open>C27: the linked run queue implements a list: \<open>enqueue\<close> of a new element appends it,
  \<open>dequeue\<close> removes its argument wherever it is and does nothing when it is not queued, both
  end, and neither changes anything but the links and the head.\<close>

theorem run_queue_is_list:
  assumes "queue s xs" "x \<notin> set xs"
  shows "(\<exists>t. enqueue x s = Some t \<and> queue t (xs @ [x]) \<and> strip t = strip s)
    \<and> (\<exists>t. dequeue y s = Some t \<and> queue t (remove1 y xs) \<and> strip t = strip s)
    \<and> distinct xs"
  using rq.enq_queue [OF assms] rq.deq_queue [OF assms(1)] rq.queue_distinct [OF assms(1)] by blast

definition demo_links :: kern where
  "demo_links = \<lparr> pcbs = (\<lambda>_. dead_pcb)(Pcb 0 := dead_pcb\<lparr>next_pcb := Some (Tcb 3)\<rparr>),
     tcbs = (\<lambda>_. \<lparr> tid = 0, parent = None, wait_next = None \<rparr>),
     tcb_pool_initialized = True, next_pid = 1, next_tid = 1, run_queue = Some (Pcb 0),
     current_pcb = None, idle_pcb = None, pm = pmm_boot, ram = (\<lambda>_. 0), cpu_esp = 0, cpu_eip = 0 \<rparr>"

theorem run_queue_is_list_witness:
  "\<exists>t. enqueue (Pcb 5) demo_links = Some t \<and> queue t [Pcb 0, Tcb 3, Pcb 5]"
  using run_queue_is_list [of demo_links "[Pcb 0, Tcb 3]" "Pcb 5" "Pcb 0"]
  by (auto simp: demo_links_def queue_def dead_pcb_def)

end
