(* ===== verification/Process_Table.thy ===== *)
theory Process_Table
  imports Scheduler
begin

text \<open>
  The process table as a whole: the invariant that ties the run queue, the slots, the stack
  pages and the current process together, and its preservation by process creation, by
  initialisation and by exit. The stack pages rest on the contract of the page allocator, the
  queue on the contract of the linked run queue.
\<close>

definition MAX_THREADS :: nat where "MAX_THREADS = 64"

section \<open>The invariant of the process table\<close>

text \<open>The slots in use: a thread slot means something only once the pool is initialised.\<close>

fun slot_ok :: "bool \<Rightarrow> pcb_ref \<Rightarrow> bool" where
  "slot_ok threads (Pcb i) \<longleftrightarrow> i < MAX_PROCESSES"
| "slot_ok threads (Tcb i) \<longleftrightarrow> i < MAX_THREADS \<and> threads"

definition live :: "kern \<Rightarrow> pcb_ref set" where
  "live s = {r. slot_ok (tcb_pool_initialized s) r \<and> state (pcbs s r) \<noteq> PROCESS_DEAD}"

definition stack_ok :: "pmm \<Rightarrow> uint32_t \<Rightarrow> bool" where
  "stack_ok m a \<longleftrightarrow> a \<noteq> 0 \<and> unat a mod 4096 = 0 \<and> unat a div 4096 < pmm_managed m
     \<and> unat a div 4096 \<notin> free_set m"

text \<open>
  \<open>core_inv\<close>: the queue holds exactly the live slots, and every one of them owns a stack page
  of its own that the memory manager does not consider free. \<open>run_ok\<close>: the current and the
  idle process are queued, and no process but the current one is marked running.
\<close>

definition core_inv :: "kern \<Rightarrow> pcb_ref list \<Rightarrow> bool" where
  "core_inv s xs \<longleftrightarrow> queue s xs \<and> set xs = live s \<and> pmm_ready (pm s)
     \<and> (\<forall>r \<in> set xs. stack_ok (pm s) (stack_base (pcbs s r)))
     \<and> inj_on (\<lambda>r. stack_base (pcbs s r)) (set xs)"

definition run_ok :: "kern \<Rightarrow> pcb_ref list \<Rightarrow> bool" where
  "run_ok s xs \<longleftrightarrow> (\<exists>c d. current_pcb s = Some c \<and> idle_pcb s = Some d \<and> c \<in> set xs \<and> d \<in> set xs
     \<and> (\<forall>r \<in> set xs. state (pcbs s r) = PROCESS_RUNNING \<longrightarrow> r = c))"

definition kern_inv :: "kern \<Rightarrow> pcb_ref list \<Rightarrow> bool" where
  "kern_inv s xs \<longleftrightarrow> core_inv s xs \<and> run_ok s xs"

lemma live_strip: "strip s = strip t \<Longrightarrow> live s = live t"
  using strip_eqD [of s t] by (simp add: live_def)

lemma core_inv_cong:
  assumes "strip s = strip t"
  shows "core_inv s xs \<longleftrightarrow> queue s xs \<and> set xs = live t \<and> pmm_ready (pm t)
     \<and> (\<forall>r \<in> set xs. stack_ok (pm t) (stack_base (pcbs t r)))
     \<and> inj_on (\<lambda>r. stack_base (pcbs t r)) (set xs)"
  using strip_eqD [OF assms] live_strip [OF assms] by (simp add: core_inv_def)

lemma run_ok_cong: "strip s = strip t \<Longrightarrow> run_ok s xs = run_ok t xs"
  using strip_eqD [of s t] by (simp add: run_ok_def)

lemma upd_pcb_simps [simp]:
  "pcbs (upd_pcb r f s) = (pcbs s)(r := f (pcbs s r))"
  "tcbs (upd_pcb r f s) = tcbs s" "tcb_pool_initialized (upd_pcb r f s) = tcb_pool_initialized s"
  "next_pid (upd_pcb r f s) = next_pid s" "next_tid (upd_pcb r f s) = next_tid s"
  "run_queue (upd_pcb r f s) = run_queue s" "current_pcb (upd_pcb r f s) = current_pcb s"
  "idle_pcb (upd_pcb r f s) = idle_pcb s" "pm (upd_pcb r f s) = pm s" "ram (upd_pcb r f s) = ram s"
  "cpu_esp (upd_pcb r f s) = cpu_esp s" "cpu_eip (upd_pcb r f s) = cpu_eip s"
  by (simp_all add: upd_pcb_def)

lemma live_upd:
  "slot_ok (tcb_pool_initialized s) r \<Longrightarrow> live (upd_pcb r f s) =
     (if state (f (pcbs s r)) = PROCESS_DEAD then live s - {r} else insert r (live s))"
  by (auto simp: live_def)

lemma live_fields [simp]:
  "live (s\<lparr>pm := m\<rparr>) = live s" "live (s\<lparr>ram := w\<rparr>) = live s" "live (s\<lparr>next_pid := n\<rparr>) = live s"
  "live (s\<lparr>next_tid := n\<rparr>) = live s" "live (s\<lparr>tcbs := t\<rparr>) = live s"
  "live (s\<lparr>current_pcb := q\<rparr>) = live s" "live (s\<lparr>idle_pcb := q\<rparr>) = live s"
  "live (s\<lparr>run_queue := q\<rparr>) = live s" "live (s\<lparr>cpu_esp := w1\<rparr>) = live s"
  "live (s\<lparr>cpu_eip := w1\<rparr>) = live s"
  by (simp_all add: live_def)

lemma queue_upd: "r \<notin> set xs \<Longrightarrow> queue (upd_pcb r f s) xs = queue s xs"
  by (simp add: queue_def is_list_upd)

lemma queue_upd_keep:
  "(\<And>c. next_pcb (f c) = next_pcb c) \<Longrightarrow> queue (upd_pcb r f s) xs = queue s xs"
  unfolding queue_def by (simp, rule is_list_cong) simp

lemma queue_fields [simp]:
  "queue (s\<lparr>pm := m\<rparr>) xs = queue s xs" "queue (s\<lparr>ram := w\<rparr>) xs = queue s xs"
  "queue (s\<lparr>next_pid := n\<rparr>) xs = queue s xs" "queue (s\<lparr>next_tid := n\<rparr>) xs = queue s xs"
  "queue (s\<lparr>tcbs := t\<rparr>) xs = queue s xs" "queue (s\<lparr>current_pcb := q\<rparr>) xs = queue s xs"
  "queue (s\<lparr>idle_pcb := q\<rparr>) xs = queue s xs" "queue (s\<lparr>cpu_esp := w1\<rparr>) xs = queue s xs"
  "queue (s\<lparr>cpu_eip := w1\<rparr>) xs = queue s xs"
  by (simp_all add: queue_def)

lemma core_inv_fields [simp]:
  "core_inv (s\<lparr>ram := w\<rparr>) xs = core_inv s xs" "core_inv (s\<lparr>next_pid := n\<rparr>) xs = core_inv s xs"
  "core_inv (s\<lparr>next_tid := n\<rparr>) xs = core_inv s xs" "core_inv (s\<lparr>tcbs := t\<rparr>) xs = core_inv s xs"
  "core_inv (s\<lparr>current_pcb := q\<rparr>) xs = core_inv s xs"
  "core_inv (s\<lparr>idle_pcb := q\<rparr>) xs = core_inv s xs"
  "core_inv (s\<lparr>cpu_esp := w1\<rparr>) xs = core_inv s xs"
  "core_inv (s\<lparr>cpu_eip := w1\<rparr>) xs = core_inv s xs"
  by (simp_all add: core_inv_def)

lemma core_inv_upd_keep:
  assumes "\<And>c. next_pcb (f c) = next_pcb c" "\<And>c. stack_base (f c) = stack_base c"
    and "state (f (pcbs s r)) = PROCESS_DEAD \<longleftrightarrow> state (pcbs s r) = PROCESS_DEAD"
  shows "core_inv (upd_pcb r f s) xs = core_inv s xs"
proof -
  have "live (upd_pcb r f s) = live s" using assms(3) by (auto simp: live_def)
  moreover have "stack_base (pcbs (upd_pcb r f s) q) = stack_base (pcbs s q)" for q
    using assms(2) by simp
  ultimately show ?thesis
    using queue_upd_keep [OF assms(1)] by (simp only: core_inv_def upd_pcb_simps)
qed

lemma find_Some_in: "find P xs = Some x \<Longrightarrow> x \<in> set xs \<and> P x"
  by (auto simp: find_Some_iff)

section \<open>Adding and removing a process\<close>

lemma stack_ok_alloc:
  assumes "pmm_ready m" "pmm_alloc_page m = (a, m')" "a \<noteq> 0"
  shows "pmm_ready m'" "stack_ok m' a"
    and "stack_ok m b \<Longrightarrow> stack_ok m' b" "stack_ok m b \<Longrightarrow> b \<noteq> a"
proof -
  have p: "unat a mod 4096 = 0" "unat a div 4096 \<in> free_set m"
    "free_set m' = free_set m - {unat a div 4096}"
    using pa.alloc_page [OF assms(1)] assms(2,3) by auto
  have g: "pmm_managed m' = pmm_managed m" using pa.alloc_managed [OF assms(1)] assms(2) by simp
  show "pmm_ready m'" using pa.alloc_invar [OF assms(1)] assms(2) by simp
  show "stack_ok m' a"
    using p g assms(3) pa.free_managed [OF assms(1) p(2)] by (simp add: stack_ok_def)
  show "stack_ok m b \<Longrightarrow> stack_ok m' b" using p g by (auto simp: stack_ok_def)
  show "stack_ok m b \<Longrightarrow> b \<noteq> a" using p by (auto simp: stack_ok_def)
qed

text \<open>The common part of \<open>create_process\<close> and \<open>create_thread\<close>.\<close>

lemma core_add:
  assumes inv: "core_inv s xs" and r: "slot_ok (tcb_pool_initialized s) r" "r \<notin> set xs"
    and al: "pmm_alloc_page (pm s) = (stack, m)" "stack \<noteq> 0"
    and c: "stack_base c = stack" "state c = PROCESS_READY"
  shows "\<exists>t. enqueue r (upd_pcb r (\<lambda>_. c) (s\<lparr>pm := m\<rparr>)) = Some t \<and> core_inv t (xs @ [r])
     \<and> strip t = strip (upd_pcb r (\<lambda>_. c) (s\<lparr>pm := m\<rparr>))"
proof -
  let ?u = "upd_pcb r (\<lambda>_. c) (s\<lparr>pm := m\<rparr>)"
  have "queue ?u xs" using inv r by (simp add: queue_upd core_inv_def)
  from rq.enq_queue [OF this r(2)] obtain t where
    t: "enqueue r ?u = Some t" "queue t (xs @ [r])" "strip t = strip ?u" by blast
  have ready: "pmm_ready (pm s)" using inv by (simp add: core_inv_def)
  note so = stack_ok_alloc [OF ready al]
  have "live ?u = insert r (live s)"
    using r(1) c(2) by (subst live_upd) simp_all
  moreover have "stack_base (pcbs s q) \<noteq> stack" if "q \<in> set xs" for q
    using so(4) inv that by (simp add: core_inv_def)
  then have "inj_on (\<lambda>q. stack_base (pcbs ?u q)) (set (xs @ [r]))"
    using inv r(2) c(1) by (force simp: core_inv_def inj_on_def)
  ultimately have "core_inv t (xs @ [r])"
    using inv r(2) c(1) so(1-3) t(2)
    by (subst core_inv_cong [OF t(3)]) (auto simp: core_inv_def)
  with t show ?thesis by blast
qed


lemma stack_ok_release:
  assumes "pmm_ready m" "stack_ok m a"
  shows "pmm_ready (pmm_free_page a m)"
    and "stack_ok m b \<Longrightarrow> b \<noteq> a \<Longrightarrow> stack_ok (pmm_free_page a m) b"
    and "free_set (pmm_free_page a m) = insert (unat a div 4096) (free_set m)"
proof -
  have a: "a \<noteq> 0" "unat a mod 4096 = 0" "unat a div 4096 < pmm_managed m"
    using assms(2) by (simp_all add: stack_ok_def)
  show "pmm_ready (pmm_free_page a m)" using pa.release_invar [OF assms(1) a(1)] .
  show f: "free_set (pmm_free_page a m) = insert (unat a div 4096) (free_set m)"
    using pa.release_free [OF assms(1) a(1)] a by simp
  have g: "pmm_managed (pmm_free_page a m) = pmm_managed m"
    using pa.release_managed [OF assms(1) a(1)] .
  show "stack_ok (pmm_free_page a m) b" if b: "stack_ok m b" "b \<noteq> a"
  proof -
    have "unat b div 4096 \<noteq> unat a div 4096"
    proof
      assume "unat b div 4096 = unat a div 4096"
      moreover have "unat b mod 4096 = unat a mod 4096" using a b by (simp add: stack_ok_def)
      ultimately have "unat b = unat a" by (metis div_mult_mod_eq)
      then have "b = a" by (rule unsigned_word_eqI)
      with b(2) show False by simp
    qed
    with b f g show ?thesis by (simp add: stack_ok_def)
  qed
qed

text \<open>
  The common part of \<open>process_exit\<close>, \<open>thread_delete\<close> and the \<^verbatim>\<open>killprocess\<close> command: mark dead,
  unlink, give the stack back, and clear fields of the dead slot.
\<close>

lemma core_remove:
  assumes inv: "core_inv s xs" and r: "r \<in> set xs"
  shows "\<exists>t. dequeue r (upd_pcb r (\<lambda>c. c\<lparr>state := PROCESS_DEAD\<rparr>) s) = Some t
     \<and> strip t = strip (upd_pcb r (\<lambda>c. c\<lparr>state := PROCESS_DEAD\<rparr>) s)
     \<and> (\<forall>f. (\<forall>c. state (f c) = state c) \<longrightarrow>
          core_inv (upd_pcb r f (t\<lparr>pm := pmm_free_page (stack_base (pcbs t r)) (pm t)\<rparr>)) (remove1 r xs))"
proof -
  let ?d = "upd_pcb r (\<lambda>c. c\<lparr>state := PROCESS_DEAD\<rparr>) s"
  have q: "queue ?d xs" using inv by (simp add: queue_upd_keep core_inv_def)
  from rq.deq_queue [OF q, of r] obtain t where
    t: "dequeue r ?d = Some t" "queue t (remove1 r xs)" "strip t = strip ?d" by blast
  note e = strip_eqD [OF t(3)]
  have ok: "slot_ok (tcb_pool_initialized s) r" using inv r by (auto simp: core_inv_def live_def)
  have dist: "distinct xs" using inv rq.queue_distinct by (auto simp: core_inv_def)
  have set: "set (remove1 r xs) = set xs - {r}" using dist by (simp add: set_remove1_eq)
  have base: "stack_base (pcbs t q) = stack_base (pcbs s q)" for q using e(5) [of q] by simp
  have pm: "pm t = pm s" using e by simp
  have live: "live t = set xs - {r}"
    using live_strip [OF t(3)] ok inv by (simp add: live_upd core_inv_def)
  have ready: "pmm_ready (pm s)" and so: "stack_ok (pm s) (stack_base (pcbs s r))"
    using inv r by (auto simp: core_inv_def)
  note rel = stack_ok_release [OF ready so]
  have "core_inv (upd_pcb r f (t\<lparr>pm := pmm_free_page (stack_base (pcbs t r)) (pm t)\<rparr>)) (remove1 r xs)"
    if f: "\<forall>c. state (f c) = state c" for f
  proof -
    let ?u = "upd_pcb r f (t\<lparr>pm := pmm_free_page (stack_base (pcbs t r)) (pm t)\<rparr>)"
    have "queue ?u (remove1 r xs)" using t(2) set by (simp add: queue_upd)
    moreover have "live ?u = set (remove1 r xs)"
      using f live set e(1) [of r] by (auto simp: live_def)
    moreover have "stack_ok (pm ?u) (stack_base (pcbs ?u q))" if "q \<in> set (remove1 r xs)" for q
    proof -
      have q: "q \<in> set xs" "q \<noteq> r" using that set by auto
      then have "stack_base (pcbs s q) \<noteq> stack_base (pcbs s r)"
        using inv r by (auto simp: core_inv_def inj_on_def)
      with q rel(2) inv show ?thesis by (simp add: base pm core_inv_def)
    qed
    moreover have "inj_on (\<lambda>q. stack_base (pcbs ?u q)) (set (remove1 r xs))"
      using inv unfolding set by (auto simp: core_inv_def inj_on_def base)
    ultimately show ?thesis using rel(1) by (simp add: core_inv_def base pm)
  qed
  with t show ?thesis by blast
qed

section \<open>Creating a process\<close>

lemma alloc_pcb_dead:
  "alloc_pcb s = Some p \<Longrightarrow> \<exists>i < MAX_PROCESSES. p = Pcb i \<and> state (pcbs s (Pcb i)) = PROCESS_DEAD"
  by (auto simp: alloc_pcb_def find_upt_Some_iff split: option.splits)

lemma alloc_pcb_None:
  "alloc_pcb s = None \<longleftrightarrow> (\<forall>i < MAX_PROCESSES. state (pcbs s (Pcb i)) \<noteq> PROCESS_DEAD)"
  by (auto simp: alloc_pcb_def find_upt_Some_iff find_upt_None_iff split: option.splits)

lemma pmm_alloc_null: "pmm_ready m \<Longrightarrow> pmm_alloc_page m = (0, m') \<Longrightarrow> m' = m"
  using pa.alloc_fails [of m] by simp

text \<open>
  A process can be created exactly when a slot is dead and a page is left; nothing changes
  otherwise.
\<close>

definition can_create :: "kern \<Rightarrow> bool" where
  "can_create s \<longleftrightarrow> alloc_pcb s \<noteq> None \<and> fst (pmm_alloc_page (pm s)) \<noteq> 0"

definition new_pcb :: "uint32_t \<Rightarrow> uint8_t \<Rightarrow> uint32_t \<Rightarrow> pcb" where
  "new_pcb n prio stack = \<lparr> pid = n, state = PROCESS_READY, priority = prio,
     esp = stack + STACK_SIZE - 4, stack_base = stack, next_pcb = None \<rparr>"

lemma create_process_fails:
  assumes "core_inv s xs" "\<not> can_create s"
  shows "create_process f prio s = Some (None, s)"
proof (cases "alloc_pcb s")
  case None
  then show ?thesis by (simp add: create_process_def)
next
  case (Some p)
  with assms(2) obtain m where m: "pmm_alloc_page (pm s) = (0, m)"
    by (cases "pmm_alloc_page (pm s)") (auto simp: can_create_def)
  with assms(1) have "m = pm s" by (auto intro: pmm_alloc_null simp: core_inv_def)
  with Some m show ?thesis by (simp add: create_process_def Let_def)
qed

lemma create_process_succeeds:
  assumes inv: "core_inv s xs" and can: "can_create s"
  obtains p t stack m where "create_process f prio s = Some (Some p, t)" "alloc_pcb s = Some p"
    "p \<notin> set xs" "core_inv t (xs @ [p])" "pmm_alloc_page (pm s) = (stack, m)" "stack \<noteq> 0"
    "strip t = strip (upd_pcb p (\<lambda>_. new_pcb (next_pid s + 1) prio stack)
        (s\<lparr>pm := m, ram := (ram s)(stack + STACK_SIZE - 4 := f), next_pid := next_pid s + 1\<rparr>))"
proof -
  obtain p where p: "alloc_pcb s = Some p" using can by (auto simp: can_create_def)
  obtain stack m where al: "pmm_alloc_page (pm s) = (stack, m)" by fastforce
  have s0: "stack \<noteq> 0" using can al by (simp add: can_create_def)
  obtain i where i: "p = Pcb i" "i < MAX_PROCESSES" "state (pcbs s p) = PROCESS_DEAD"
    using alloc_pcb_dead [OF p] by auto
  have notin: "p \<notin> set xs" using inv i(3) by (auto simp: core_inv_def live_def)
  let ?s = "s\<lparr>ram := (ram s)(stack + STACK_SIZE - 4 := f), next_pid := next_pid s + 1\<rparr>"
  have "core_inv ?s xs" using inv by simp
  from core_add [OF this _ notin, of stack m "new_pcb (next_pid s + 1) prio stack"] i al s0
  obtain t where t: "enqueue p (upd_pcb p (\<lambda>_. new_pcb (next_pid s + 1) prio stack) (?s\<lparr>pm := m\<rparr>)) = Some t"
    "core_inv t (xs @ [p])"
    "strip t = strip (upd_pcb p (\<lambda>_. new_pcb (next_pid s + 1) prio stack) (?s\<lparr>pm := m\<rparr>))"
    by (auto simp: new_pcb_def)
  have eq: "?s\<lparr>pm := m\<rparr> = s\<lparr>pm := m, ram := (ram s)(stack + STACK_SIZE - 4 := f),
      next_pid := next_pid s + 1\<rparr>" by simp
  have "create_process f prio s = Some (Some p, t)"
    using p al s0 t(1) [unfolded eq] by (simp add: create_process_def Let_def new_pcb_def)
  with p notin t al s0 that show ?thesis unfolding eq by blast
qed

lemma create_process_links:
  assumes q: "queue s xs" and c: "create_process f prio s = Some (Some p, t)" and p: "p \<notin> set xs"
    and r: "r \<notin> set xs" "r \<noteq> p"
  shows "next_pcb (pcbs t r) = next_pcb (pcbs s r)"
proof -
  obtain stack m where al: "pmm_alloc_page (pm s) = (stack, m)" by fastforce
  let ?u = "upd_pcb p (\<lambda>_. new_pcb (next_pid s + 1) prio stack)
    (s\<lparr>pm := m, ram := (ram s)(stack + STACK_SIZE - 4 := f), next_pid := next_pid s + 1\<rparr>)"
  have e: "enqueue p ?u = Some t"
    using c al by (auto simp: create_process_def Let_def new_pcb_def split: option.splits if_splits)
  have "queue ?u xs" using q p by (simp add: queue_upd)
  from enqueue_links [OF this p e r] r(2) show ?thesis by simp
qed

lemma run_ok_add:
  assumes "run_ok s xs" "\<forall>q \<in> set xs. state (pcbs t q) = state (pcbs s q)"
    and "state (pcbs t p) \<noteq> PROCESS_RUNNING" "current_pcb t = current_pcb s" "idle_pcb t = idle_pcb s"
  shows "run_ok t (xs @ [p])"
  using assms by (auto simp: run_ok_def)

lemma create_process_inv:
  assumes "kern_inv s xs" "can_create s"
  shows "\<exists>p t. create_process f prio s = Some (Some p, t) \<and> p \<notin> set xs \<and> kern_inv t (xs @ [p])"
proof -
  from assms have core: "core_inv s xs" and run: "run_ok s xs" by (simp_all add: kern_inv_def)
  obtain p t stack m where t: "create_process f prio s = Some (Some p, t)" "p \<notin> set xs"
    "core_inv t (xs @ [p])"
    "strip t = strip (upd_pcb p (\<lambda>_. new_pcb (next_pid s + 1) prio stack)
        (s\<lparr>pm := m, ram := (ram s)(stack + STACK_SIZE - 4 := f), next_pid := next_pid s + 1\<rparr>))"
    by (rule create_process_succeeds [OF core assms(2)])
  note e = strip_eqD [OF t(4)]
  have "run_ok t (xs @ [p])"
    using t(2) e by (intro run_ok_add [OF run]) (auto simp: new_pcb_def)
  with t show ?thesis by (auto simp: kern_inv_def)
qed

section \<open>Initialisation\<close>

lemma fold_dead_pcb:
  "fold (\<lambda>i. upd_pcb (Pcb i) (\<lambda>_. c)) is s
     = s\<lparr>pcbs := (\<lambda>r. if r \<in> Pcb ` set is then c else pcbs s r)\<rparr>"
  by (induction "is" arbitrary: s) (auto simp: upd_pcb_def fun_eq_iff)

definition pool_cleared :: "kern \<Rightarrow> kern" where
  "pool_cleared s = fold (\<lambda>i. upd_pcb (Pcb i) (\<lambda>_. dead_pcb)) [0..<MAX_PROCESSES] s"

lemma pool_cleared_eq:
  "pool_cleared s =
     s\<lparr>pcbs := (\<lambda>r. if r \<in> Pcb ` {0..<MAX_PROCESSES} then dead_pcb else pcbs s r)\<rparr>"
  unfolding pool_cleared_def fold_dead_pcb set_upt ..

lemma pool_cleared_inv:
  assumes "pmm_ready (pm s)" "run_queue s = None" "\<not> tcb_pool_initialized s"
  shows "core_inv (pool_cleared s) []" "alloc_pcb (pool_cleared s) = Some (Pcb 0)"
    "pm (pool_cleared s) = pm s" "next_pid (pool_cleared s) = next_pid s"
proof -
  have "slot_ok False r \<Longrightarrow> r \<in> Pcb ` {0..<MAX_PROCESSES}" for r by (cases r) auto
  then have "live (pool_cleared s) = {}"
    using assms(3) by (auto simp: live_def pool_cleared_eq dead_pcb_def split: if_splits)
  then show "core_inv (pool_cleared s) []"
    using assms by (simp add: core_inv_def queue_def pool_cleared_eq)
  have "find (\<lambda>i. state (pcbs (pool_cleared s) (Pcb i)) = PROCESS_DEAD
      \<and> pid (pcbs (pool_cleared s) (Pcb i)) = 0) [0..<MAX_PROCESSES] = Some 0"
    by (simp add: find_upt_Some_iff pool_cleared_eq dead_pcb_def MAX_PROCESSES_def
        del: upt_rec_numeral)
  then show "alloc_pcb (pool_cleared s) = Some (Pcb 0)" by (simp add: alloc_pcb_def)
qed (simp_all add: pool_cleared_eq)

lemma scheduler_init_spec:
  assumes "pmm_ready (pm s)" "run_queue s = None" "\<not> tcb_pool_initialized s"
  shows "if fst (pmm_alloc_page (pm s)) = 0
    then scheduler_init idle s = Some (Inl ''scheduler_init: failed to create idle process'')
    else (\<exists>t. scheduler_init idle s = Some (Inr t) \<and> kern_inv t [Pcb 0]
            \<and> current_pcb t = Some (Pcb 0) \<and> idle_pcb t = Some (Pcb 0)
            \<and> state (pcbs t (Pcb 0)) = PROCESS_RUNNING \<and> pid (pcbs t (Pcb 0)) = next_pid s + 1
            \<and> next_pid t = next_pid s + 1)"
proof (cases "fst (pmm_alloc_page (pm s)) = 0")
  case True
  note c = pool_cleared_inv [OF assms]
  from True c have "\<not> can_create (pool_cleared s)" by (simp add: can_create_def)
  from create_process_fails [OF c(1) this] True show ?thesis
    by (simp add: scheduler_init_def Let_def pool_cleared_def [symmetric])
next
  case False
  note c = pool_cleared_inv [OF assms]
  from False c have can: "can_create (pool_cleared s)" by (simp add: can_create_def)
  obtain p t stack m where t: "create_process idle 0 (pool_cleared s) = Some (Some p, t)"
    "alloc_pcb (pool_cleared s) = Some p" "core_inv t ([] @ [p])"
    "strip t = strip (upd_pcb p (\<lambda>_. new_pcb (next_pid (pool_cleared s) + 1) 0 stack)
        ((pool_cleared s)\<lparr>pm := m, ram := (ram (pool_cleared s))(stack + STACK_SIZE - 4 := idle),
           next_pid := next_pid (pool_cleared s) + 1\<rparr>))"
    by (rule create_process_succeeds [OF c(1) can])
  have p: "p = Pcb 0" using t(2) c(2) by simp
  let ?t = "upd_pcb p (\<lambda>c. c\<lparr>state := PROCESS_RUNNING\<rparr>) (t\<lparr>idle_pcb := Some p, current_pcb := Some p\<rparr>)"
  have "scheduler_init idle s = Some (Inr ?t)"
    using t(1) by (simp add: scheduler_init_def Let_def pool_cleared_def [symmetric])
  moreover have "core_inv ?t [p]"
  proof -
    have "p \<in> live t" using t(3) by (auto simp: core_inv_def)
    then show ?thesis using t(3) by (subst core_inv_upd_keep) (simp_all add: live_def)
  qed
  moreover have "run_ok ?t [p]" by (simp add: run_ok_def)
  moreover have "pid (pcbs ?t p) = next_pid s + 1" "next_pid ?t = next_pid s + 1"
    using strip_eqD(2) [OF t(4), of p] strip_eqD(8) [OF t(4)] c(4) by (simp_all add: new_pcb_def)
  ultimately show ?thesis using False p by (auto simp: kern_inv_def)
qed


section \<open>Leaving a process\<close>

lemma process_exit_spec:
  assumes inv: "kern_inv s xs" and cur: "current_pcb s = Some c" and idle: "idle_pcb s = Some d"
    and ne: "c \<noteq> d"
  shows "\<exists>t. process_exit s = Some (Switches t) \<and> kern_inv t (remove1 c xs)
     \<and> current_pcb t = Some d \<and> idle_pcb t = Some d
     \<and> state (pcbs t d) = PROCESS_RUNNING \<and> state (pcbs t c) = PROCESS_DEAD \<and> pid (pcbs t c) = 0
     \<and> free_set (pm t) = insert (unat (stack_base (pcbs s c)) div 4096) (free_set (pm s))
     \<and> cpu_eip t = ram s (esp (pcbs s d)) \<and> cpu_esp t = esp (pcbs s d) + 4
     \<and> (\<forall>r. r \<noteq> c \<longrightarrow> stack_base (pcbs t r) = stack_base (pcbs s r)
          \<and> (r \<noteq> d \<longrightarrow> state (pcbs t r) = state (pcbs s r)))"
proof -
  from inv cur idle have core: "core_inv s xs" and c: "c \<in> set xs" and d: "d \<in> set xs"
    and only: "\<And>r. r \<in> set xs \<Longrightarrow> state (pcbs s r) = PROCESS_RUNNING \<Longrightarrow> r = c"
    by (auto simp: kern_inv_def run_ok_def)
  obtain t where t: "dequeue c (upd_pcb c (\<lambda>c. c\<lparr>state := PROCESS_DEAD\<rparr>) s) = Some t"
    "strip t = strip (upd_pcb c (\<lambda>c. c\<lparr>state := PROCESS_DEAD\<rparr>) s)"
    and fin: "\<And>f. (\<forall>c. state (f c) = state c) \<Longrightarrow>
        core_inv (upd_pcb c f (t\<lparr>pm := pmm_free_page (stack_base (pcbs t c)) (pm t)\<rparr>)) (remove1 c xs)"
    using core_remove [OF core c] by blast
  note e = strip_eqD [OF t(2)]
  let ?f = "\<lambda>c. c\<lparr>pid := 0, stack_base := 0, esp := 0\<rparr>"
  let ?u = "upd_pcb c ?f (t\<lparr>pm := pmm_free_page (stack_base (pcbs t c)) (pm t)\<rparr>)"
  let ?v = "upd_pcb d (\<lambda>c. c\<lparr>state := PROCESS_RUNNING\<rparr>) (?u\<lparr>current_pcb := Some d\<rparr>)"
  let ?w = "context_switch c d ?v"
  have exit: "process_exit s = Some (Switches ?w)"
    using t(1) e(11) cur idle by (simp add: process_exit_def Let_def)
  have dead: "state (pcbs ?u d) \<noteq> PROCESS_DEAD"
    using core d ne e(1) [of d] by (auto simp: core_inv_def live_def)
  have "core_inv ?u (remove1 c xs)" by (rule fin) simp
  then have "core_inv ?v (remove1 c xs)" using dead by (subst core_inv_upd_keep) simp_all
  then have w: "core_inv ?w (remove1 c xs)"
    by (simp add: context_switch_def Let_def core_inv_upd_keep)
  have cw: "current_pcb ?w = Some d" "idle_pcb ?w = Some d"
    using e(11) idle by (simp_all add: context_switch_def Let_def)
  have st: "state (pcbs ?w r) = (if r = d then PROCESS_RUNNING
      else if r = c then PROCESS_DEAD else state (pcbs s r))" for r
    using ne e(1) [of r] by (cases "r = c") (simp_all add: context_switch_def Let_def)
  have dist: "set (remove1 c xs) = set xs - {c}"
    using core rq.queue_distinct by (auto simp: core_inv_def set_remove1_eq)
  have "run_ok ?w (remove1 c xs)"
    using cw d ne only by (auto simp: run_ok_def dist st)
  moreover have "free_set (pm ?w) = insert (unat (stack_base (pcbs s c)) div 4096) (free_set (pm s))"
  proof -
    have "pmm_ready (pm s)" "stack_ok (pm s) (stack_base (pcbs s c))"
      using core c by (auto simp: core_inv_def)
    from stack_ok_release(3) [OF this] show ?thesis
      using e(5) [of c] e(12) by (simp add: context_switch_def Let_def)
  qed
  moreover have "cpu_eip ?w = ram s (esp (pcbs s d)) \<and> cpu_esp ?w = esp (pcbs s d) + 4"
    using ne e(4) [of d] e(13) by (simp add: context_switch_def Let_def)
  moreover have "pid (pcbs ?w c) = 0" using ne by (simp add: context_switch_def Let_def)
  moreover have "stack_base (pcbs ?w r) = stack_base (pcbs s r)" if "r \<noteq> c" for r
    using that e(5) [of r] ne by (auto simp: context_switch_def Let_def)
  moreover have "state (pcbs ?w r) = state (pcbs s r)" if "r \<noteq> c" "r \<noteq> d" for r
    using that st by simp
  ultimately show ?thesis
    using exit w cw st [of d] st [of c] ne by (intro exI [of _ ?w]) (simp add: kern_inv_def)
qed


section \<open>A small machine\<close>

text \<open>Idle, one running process and one thread, with their stacks in pages 4, 6 and 8.\<close>

definition demo_pcb :: "uint32_t \<Rightarrow> process_state_t \<Rightarrow> uint32_t \<Rightarrow> pcb_ref option \<Rightarrow> pcb" where
  "demo_pcb n st base nx = \<lparr> pid = n, state = st, priority = 1, esp = base + 0xFF0,
     stack_base = base, next_pcb = nx \<rparr>"

definition demo_kern :: kern where
  "demo_kern = \<lparr>
     pcbs = (\<lambda>_. dead_pcb)
       (Pcb 0 := demo_pcb 1 PROCESS_READY 0x4000 (Some (Pcb 7)),
        Pcb 7 := demo_pcb 2 PROCESS_RUNNING 0x6000 (Some (Tcb 0)),
        Tcb 0 := demo_pcb 0 PROCESS_READY 0x8000 None),
     tcbs = (\<lambda>_. \<lparr> tid = 1, parent = Some (Pcb 7), wait_next = None \<rparr>),
     tcb_pool_initialized = True, next_pid = 2, next_tid = 1, run_queue = Some (Pcb 0),
     current_pcb = Some (Pcb 7), idle_pcb = Some (Pcb 0), pm = demo_pmm, ram = (\<lambda>_. 0x100000),
     cpu_esp = 0x6F00, cpu_eip = 0x100000 \<rparr>"

abbreviation demo_queue :: "pcb_ref list" where
  "demo_queue \<equiv> [Pcb 0, Pcb 7, Tcb 0]"

lemma demo_fields [simp]:
  "current_pcb demo_kern = Some (Pcb 7)" "idle_pcb demo_kern = Some (Pcb 0)" "pm demo_kern = demo_pmm"
  "state (pcbs demo_kern (Pcb 0)) = PROCESS_READY" "state (pcbs demo_kern (Pcb 7)) = PROCESS_RUNNING"
  "state (pcbs demo_kern (Tcb 0)) = PROCESS_READY" "tcb_pool_initialized demo_kern"
  by (simp_all add: demo_kern_def demo_pcb_def)

lemma demo_alloc: "alloc_pcb demo_kern = Some (Pcb 1)"
proof -
  have "find (\<lambda>i. state (pcbs demo_kern (Pcb i)) = PROCESS_DEAD \<and> pid (pcbs demo_kern (Pcb i)) = 0)
      [0..<MAX_PROCESSES] = Some 1"
    unfolding find_upt_Some_iff
    by (simp add: demo_kern_def demo_pcb_def dead_pcb_def MAX_PROCESSES_def)
  then show ?thesis by (simp add: alloc_pcb_def)
qed

lemma demo_page: "fst (pmm_alloc_page demo_pmm) \<noteq> 0"
  by (rule pmm_alloc_page_cases [of demo_pmm])
    (use demo_pmm_ready in \<open>auto simp: demo_pmm_usable pmm_ready_def took_address(4)\<close>)

lemma demo_can_create: "can_create demo_kern"
  using demo_page by (simp add: can_create_def demo_alloc)

lemma demo_inv: "kern_inv demo_kern demo_queue"
proof -
  have q: "queue demo_kern demo_queue"
    by (simp add: queue_def demo_kern_def demo_pcb_def)
  have "state (pcbs demo_kern r) = PROCESS_DEAD" if "r \<notin> set demo_queue" for r
    using that by (simp add: demo_kern_def dead_pcb_def)
  then have "live demo_kern = set demo_queue"
    by (auto simp: live_def MAX_PROCESSES_def MAX_THREADS_def)
  moreover have "stack_ok demo_pmm a" if "a \<in> {0x4000, 0x6000, 0x8000}" for a
    using that by (auto simp: stack_ok_def demo_pmm_free pmm_managed_def) (simp_all add: demo_pmm_def)
  moreover have "stack_base (pcbs demo_kern (Pcb 0)) = 0x4000"
    "stack_base (pcbs demo_kern (Pcb 7)) = 0x6000" "stack_base (pcbs demo_kern (Tcb 0)) = 0x8000"
    by (simp_all add: demo_kern_def demo_pcb_def)
  ultimately show ?thesis
    using q demo_pmm_ready by (simp add: kern_inv_def core_inv_def run_ok_def)
qed

section \<open>Properties\<close>

text \<open>\<open>create_process\<close> succeeds exactly when a slot is dead and a page is left. It then fills
  a dead slot, with the next process number, ready, with a stack page of its own that was free,
  the entry point in the top word of that page, and the slot at the end of the run queue; the
  invariant of the process table holds again. Otherwise nothing changes.\<close>

theorem create_process_correct:
  assumes "kern_inv s xs"
  shows "if can_create s then (\<exists>p t stack. create_process f prio s = Some (Some p, t)
        \<and> kern_inv t (xs @ [p]) \<and> p \<notin> set xs \<and> state (pcbs s p) = PROCESS_DEAD
        \<and> pid (pcbs t p) = next_pid s + 1 \<and> state (pcbs t p) = PROCESS_READY
        \<and> priority (pcbs t p) = prio \<and> stack_base (pcbs t p) = stack
        \<and> unat stack div 4096 \<in> free_set (pm s) \<and> unat stack div 4096 \<notin> free_set (pm t)
        \<and> esp (pcbs t p) = stack + 4092 \<and> ram t = (ram s)(stack + 4092 := f)
        \<and> (\<forall>r. r \<noteq> p \<longrightarrow> state (pcbs t r) = state (pcbs s r)))
    else create_process f prio s = Some (None, s)"
proof (cases "can_create s")
  case True
  from assms have core: "core_inv s xs" and run: "run_ok s xs" by (simp_all add: kern_inv_def)
  obtain p t stack m where t: "create_process f prio s = Some (Some p, t)" "alloc_pcb s = Some p"
    "p \<notin> set xs" "core_inv t (xs @ [p])" "pmm_alloc_page (pm s) = (stack, m)" "stack \<noteq> 0"
    "strip t = strip (upd_pcb p (\<lambda>_. new_pcb (next_pid s + 1) prio stack)
        (s\<lparr>pm := m, ram := (ram s)(stack + STACK_SIZE - 4 := f), next_pid := next_pid s + 1\<rparr>))"
    by (rule create_process_succeeds [OF core True])
  note e = strip_eqD [OF t(7)]
  have run': "run_ok t (xs @ [p])"
    using t(3) e by (intro run_ok_add [OF run]) (auto simp: new_pcb_def)
  have sz: "stack + STACK_SIZE - 4 = stack + 4092" by (simp add: STACK_SIZE_def PAGE_SIZE_def)
  have page: "unat stack div 4096 \<in> free_set (pm s)"
    using pa.alloc_page [of "pm s"] core t(5,6) by (simp add: core_inv_def)
  have mine: "pid (pcbs t p) = next_pid s + 1" "state (pcbs t p) = PROCESS_READY"
    "priority (pcbs t p) = prio" "stack_base (pcbs t p) = stack" "esp (pcbs t p) = stack + 4092"
    using e(1-5) [of p] sz by (simp_all add: new_pcb_def)
  have used: "unat stack div 4096 \<notin> free_set (pm t)"
    using t(4) mine(4) by (auto simp: core_inv_def stack_ok_def)
  have "state (pcbs s p) = PROCESS_DEAD" using alloc_pcb_dead [OF t(2)] by auto
  moreover have "ram t = (ram s)(stack + 4092 := f)" using e(13) sz by simp
  moreover have "\<forall>r. r \<noteq> p \<longrightarrow> state (pcbs t r) = state (pcbs s r)" using e(1) by simp
  ultimately show ?thesis
    using True t(1,3,4) run' mine page used unfolding kern_inv_def if_P [OF True] by blast
next
  case False
  with create_process_fails [of s xs f prio] assms show ?thesis by (simp add: kern_inv_def)
qed

theorem create_process_correct_witness:
  "\<exists>p t. create_process 0x10BEEF 1 demo_kern = Some (Some p, t) \<and> kern_inv t (demo_queue @ [p])"
  using create_process_correct [OF demo_inv, of "0x10BEEF" 1] demo_can_create by auto

text \<open>\<open>scheduler_init\<close> creates the idle process in slot 0 and makes it the current, running
  one, with the invariant of the process table established; without a free page it panics.\<close>

theorem scheduler_init_starts_idle:
  assumes "pmm_ready (pm s)" "run_queue s = None" "\<not> tcb_pool_initialized s"
  shows "if fst (pmm_alloc_page (pm s)) = 0
    then scheduler_init idle s = Some (Inl ''scheduler_init: failed to create idle process'')
    else (\<exists>t. scheduler_init idle s = Some (Inr t) \<and> kern_inv t [Pcb 0]
            \<and> current_pcb t = Some (Pcb 0) \<and> idle_pcb t = Some (Pcb 0)
            \<and> state (pcbs t (Pcb 0)) = PROCESS_RUNNING \<and> pid (pcbs t (Pcb 0)) = next_pid s + 1
            \<and> next_pid t = next_pid s + 1)"
  using assms by (rule scheduler_init_spec)

definition kern_boot :: "pmm \<Rightarrow> kern" where
  "kern_boot m = \<lparr>
     pcbs = (\<lambda>_. \<lparr> pid = 0, state = PROCESS_READY, priority = 0, esp = 0, stack_base = 0,
                   next_pcb = None \<rparr>),
     tcbs = (\<lambda>_. \<lparr> tid = 0, parent = None, wait_next = None \<rparr>),
     tcb_pool_initialized = False, next_pid = 0, next_tid = 0, run_queue = None,
     current_pcb = None, idle_pcb = None, pm = m, ram = (\<lambda>_. 0), cpu_esp = 0, cpu_eip = 0 \<rparr>"

theorem scheduler_init_starts_idle_witness:
  "\<exists>t. scheduler_init 0x101000 (kern_boot demo_pmm) = Some (Inr t) \<and> kern_inv t [Pcb 0]"
  using scheduler_init_starts_idle [of "kern_boot demo_pmm" "0x101000"] demo_pmm_ready demo_page
  by (auto simp: kern_boot_def)

text \<open>When the current process is not the idle one, \<open>process_exit\<close> takes it out of the run
  queue, gives its stack page back, clears its slot for reuse, and continues in the idle process
  where that one left off; every other slot keeps its state and its stack, and the invariant of the
  process table is kept.\<close>

theorem process_exit_frees:
  assumes "kern_inv s xs" "current_pcb s = Some c" "idle_pcb s = Some d" "c \<noteq> d"
  shows "\<exists>t. process_exit s = Some (Switches t) \<and> kern_inv t (remove1 c xs)
     \<and> current_pcb t = Some d \<and> idle_pcb t = Some d
     \<and> state (pcbs t d) = PROCESS_RUNNING \<and> state (pcbs t c) = PROCESS_DEAD \<and> pid (pcbs t c) = 0
     \<and> free_set (pm t) = insert (unat (stack_base (pcbs s c)) div 4096) (free_set (pm s))
     \<and> cpu_eip t = ram s (esp (pcbs s d)) \<and> cpu_esp t = esp (pcbs s d) + 4
     \<and> (\<forall>r. r \<noteq> c \<longrightarrow> stack_base (pcbs t r) = stack_base (pcbs s r)
          \<and> (r \<noteq> d \<longrightarrow> state (pcbs t r) = state (pcbs s r)))"
  using assms by (rule process_exit_spec)

theorem process_exit_frees_witness:
  "\<exists>t. process_exit demo_kern = Some (Switches t) \<and> kern_inv t [Pcb 0, Tcb 0]
     \<and> free_set (pm t) = {1, 3, 6, 35}"
  using process_exit_frees [OF demo_inv, of "Pcb 7" "Pcb 0"]
  by (auto simp: demo_pmm_free insert_commute) (auto simp: demo_kern_def demo_pcb_def insert_commute)

text \<open>The first switch to a created process lands at its entry point with an empty stack, and
  the next switch back resumes the old process at its return address, with its stack pointer
  behind it: \<open>context_switch\<close> saves and restores what a process needs to continue.\<close>

theorem context_switch_round_trip:
  assumes "kern_inv s xs" "create_process f prio s = Some (Some p, t)" "c \<noteq> p"
  shows "cpu_eip (context_switch c p t) = f
    \<and> cpu_esp (context_switch c p t) = stack_base (pcbs t p) + 4096
    \<and> cpu_eip (context_switch p c (context_switch c p t)) = ram t (cpu_esp t)
    \<and> cpu_esp (context_switch p c (context_switch c p t)) = cpu_esp t + 4"
proof -
  from assms have core: "core_inv s xs" by (simp add: kern_inv_def)
  have can: "can_create s" using create_process_fails [OF core] assms(2) by fastforce
  obtain p' t' stack m where "create_process f prio s = Some (Some p', t')"
    "strip t' = strip (upd_pcb p' (\<lambda>_. new_pcb (next_pid s + 1) prio stack)
        (s\<lparr>pm := m, ram := (ram s)(stack + STACK_SIZE - 4 := f), next_pid := next_pid s + 1\<rparr>))"
    by (rule create_process_succeeds [OF core can])
  with assms(2) have e: "strip t = strip (upd_pcb p (\<lambda>_. new_pcb (next_pid s + 1) prio stack)
        (s\<lparr>pm := m, ram := (ram s)(stack + STACK_SIZE - 4 := f), next_pid := next_pid s + 1\<rparr>))"
    by simp
  have "esp (pcbs t p) = stack + STACK_SIZE - 4" "stack_base (pcbs t p) = stack"
    "ram t (stack + STACK_SIZE - 4) = f"
    using strip_eqD(4,5) [OF e, of p] strip_eqD(13) [OF e] by (simp_all add: new_pcb_def)
  then show ?thesis
    using assms(3) by (simp add: context_switch_def Let_def STACK_SIZE_def PAGE_SIZE_def)
qed

theorem context_switch_round_trip_witness:
  "\<exists>p t. create_process 0x10BEEF 1 demo_kern = Some (Some p, t)
     \<and> cpu_eip (context_switch (Pcb 7) p t) = 0x10BEEF"
proof -
  obtain p t where t: "create_process 0x10BEEF 1 demo_kern = Some (Some p, t)" "p \<notin> set demo_queue"
    using create_process_inv [OF demo_inv demo_can_create] by blast
  then show ?thesis using context_switch_round_trip [OF demo_inv t(1), of "Pcb 7"] by auto
qed

end
