(* ===== verification/Thread.thy ===== *)
theory Thread
  imports Process_Table
begin

text \<open>
  Kernel threads (\<^verbatim>\<open>src/thread.c\<close>, \<^verbatim>\<open>include/thread.h\<close>): the pool of thread control blocks,
  initialised on first use, creation, exit and deletion by number. A thread is queued with the
  processes; its \<^verbatim>\<open>tcb_t*\<close> is the index of its slot.
\<close>

definition upd_tcb :: "nat \<Rightarrow> (tcb_ext \<Rightarrow> tcb_ext) \<Rightarrow> kern \<Rightarrow> kern" where
  "upd_tcb i f s = s\<lparr>tcbs := (tcbs s)(i := f (tcbs s i))\<rparr>"

definition ensure_pool_init :: "kern \<Rightarrow> kern" where
  "ensure_pool_init s =
     (if tcb_pool_initialized s then s
      else (fold (\<lambda>i s. upd_tcb i (\<lambda>t. t\<lparr>tid := 0\<rparr>)
                         (upd_pcb (Tcb i) (\<lambda>c. c\<lparr>state := PROCESS_DEAD, pid := 0\<rparr>) s))
              [0..<MAX_THREADS] s)\<lparr>tcb_pool_initialized := True\<rparr>)"

definition alloc_tcb :: "kern \<Rightarrow> nat option \<times> kern" where
  "alloc_tcb s =
     (let s = ensure_pool_init s
      in (find (\<lambda>i. state (pcbs s (Tcb i)) = PROCESS_DEAD) [0..<MAX_THREADS], s))"

definition create_thread ::
  "pcb_ref option \<Rightarrow> uint32_t \<Rightarrow> kern \<Rightarrow> (nat option \<times> kern) option" where
  "create_thread par entry_fn s =
     (case alloc_tcb s of
        (None, s) \<Rightarrow> Some (None, s)
      | (Some i, s) \<Rightarrow>
          (let (stack, m) = pmm_alloc_page (pm s);
               s = s\<lparr>pm := m\<rparr>
           in if stack = 0 then Some (None, s)
              else (let sp = stack + STACK_SIZE - 4;
                        s = s\<lparr>ram := (ram s)(sp := entry_fn), next_tid := next_tid s + 1\<rparr>;
                        s = upd_tcb i (\<lambda>_. \<lparr> tid = next_tid s, parent = par, wait_next = None \<rparr>) s;
                        s = upd_pcb (Tcb i) (\<lambda>_. \<lparr> pid = 0, state = PROCESS_READY,
                              priority = (case par of None \<Rightarrow> 1 | Some q \<Rightarrow> priority (pcbs s q)),
                              esp = sp, stack_base = stack, next_pcb = None \<rparr>) s
                    in map_option (\<lambda>s. (Some i, s)) (scheduler_enqueue (Tcb i) s))))"

definition thread_exit :: "kern \<Rightarrow> kern flow option" where
  "thread_exit s = process_exit s"

definition thread_delete :: "uint32_t \<Rightarrow> kern \<Rightarrow> (int \<times> kern) option" where
  "thread_delete n s =
     (let s = ensure_pool_init s
      in case find (\<lambda>i. tid (tcbs s i) = n \<and> state (pcbs s (Tcb i)) \<noteq> PROCESS_DEAD)
                [0..<MAX_THREADS] of
           None \<Rightarrow> Some (0, s)
         | Some i \<Rightarrow>
             (case scheduler_dequeue (Tcb i) (upd_pcb (Tcb i) (\<lambda>c. c\<lparr>state := PROCESS_DEAD\<rparr>) s) of
                None \<Rightarrow> None
              | Some s \<Rightarrow>
                  (let s = s\<lparr>pm := pmm_free_page (stack_base (pcbs s (Tcb i))) (pm s)\<rparr>;
                       s = upd_pcb (Tcb i) (\<lambda>c. c\<lparr>stack_base := 0\<rparr>) s
                   in Some (1, upd_tcb i (\<lambda>t. t\<lparr>tid := 0\<rparr>) s))))"

section \<open>The pool\<close>

lemma upd_tcb_simps [simp]:
  "pcbs (upd_tcb i f s) = pcbs s" "tcbs (upd_tcb i f s) = (tcbs s)(i := f (tcbs s i))"
  "tcb_pool_initialized (upd_tcb i f s) = tcb_pool_initialized s"
  "next_pid (upd_tcb i f s) = next_pid s" "next_tid (upd_tcb i f s) = next_tid s"
  "run_queue (upd_tcb i f s) = run_queue s" "current_pcb (upd_tcb i f s) = current_pcb s"
  "idle_pcb (upd_tcb i f s) = idle_pcb s" "pm (upd_tcb i f s) = pm s" "ram (upd_tcb i f s) = ram s"
  "cpu_esp (upd_tcb i f s) = cpu_esp s" "cpu_eip (upd_tcb i f s) = cpu_eip s"
  by (simp_all add: upd_tcb_def)

lemma core_inv_upd_tcb [simp]: "core_inv (upd_tcb i f s) xs = core_inv s xs"
  by (simp add: upd_tcb_def)

lemma run_ok_fields [simp]:
  "run_ok (upd_tcb i f s) xs = run_ok s xs" "run_ok (s\<lparr>pm := m\<rparr>) xs = run_ok s xs"
  by (simp_all add: run_ok_def)

lemma fold_pool_init:
  "fold (\<lambda>i s. upd_tcb i (\<lambda>t. t\<lparr>tid := 0\<rparr>)
           (upd_pcb (Tcb i) (\<lambda>c. c\<lparr>state := PROCESS_DEAD, pid := 0\<rparr>) s)) is s
     = s\<lparr>pcbs := (\<lambda>r. if r \<in> Tcb ` set is then (pcbs s r)\<lparr>state := PROCESS_DEAD, pid := 0\<rparr> else pcbs s r),
         tcbs := (\<lambda>i. if i \<in> set is then (tcbs s i)\<lparr>tid := 0\<rparr> else tcbs s i)\<rparr>"
  by (induction "is" arbitrary: s) (auto simp: upd_pcb_def upd_tcb_def fun_eq_iff)

lemma ensure_pool_init_eq:
  "ensure_pool_init s =
     (if tcb_pool_initialized s then s
      else s\<lparr>pcbs := (\<lambda>r. if r \<in> Tcb ` {0..<MAX_THREADS}
                       then (pcbs s r)\<lparr>state := PROCESS_DEAD, pid := 0\<rparr> else pcbs s r),
             tcbs := (\<lambda>i. if i < MAX_THREADS then (tcbs s i)\<lparr>tid := 0\<rparr> else tcbs s i),
             tcb_pool_initialized := True\<rparr>)"
  by (simp add: ensure_pool_init_def fold_pool_init)

lemma ensure_pool_init_fields [simp]:
  "tcb_pool_initialized (ensure_pool_init s)" "pm (ensure_pool_init s) = pm s"
  "current_pcb (ensure_pool_init s) = current_pcb s" "idle_pcb (ensure_pool_init s) = idle_pcb s"
  "run_queue (ensure_pool_init s) = run_queue s" "next_tid (ensure_pool_init s) = next_tid s"
  "ram (ensure_pool_init s) = ram s"
  "stack_base (pcbs (ensure_pool_init s) r) = stack_base (pcbs s r)"
  "next_pcb (pcbs (ensure_pool_init s) r) = next_pcb (pcbs s r)"
  "priority (pcbs (ensure_pool_init s) r) = priority (pcbs s r)"
  by (simp_all add: ensure_pool_init_eq)

lemma ensure_pool_init_live [simp]: "live (ensure_pool_init s) = live s"
proof -
  have "r \<in> live (ensure_pool_init s) \<longleftrightarrow> r \<in> live s" for r
    by (cases r) (auto simp: live_def ensure_pool_init_eq)
  then show ?thesis by blast
qed

lemma ensure_pool_init_state:
  "r \<in> live s \<Longrightarrow> state (pcbs (ensure_pool_init s) r) = state (pcbs s r)"
  by (cases r) (auto simp: live_def ensure_pool_init_eq)

lemma ensure_pool_init_core: "core_inv s xs \<Longrightarrow> core_inv (ensure_pool_init s) xs"
proof -
  assume s: "core_inv s xs"
  have "queue (ensure_pool_init s) xs = queue s xs"
    by (simp add: queue_def) (rule is_list_cong, simp)
  with s show ?thesis
    unfolding core_inv_def ensure_pool_init_live ensure_pool_init_fields by blast
qed

lemma ensure_pool_init_inv: "kern_inv s xs \<Longrightarrow> kern_inv (ensure_pool_init s) xs"
  using ensure_pool_init_core ensure_pool_init_state
  by (auto simp: kern_inv_def run_ok_def core_inv_def)

section \<open>Creating and deleting a thread\<close>

definition can_create_thread :: "kern \<Rightarrow> bool" where
  "can_create_thread s \<longleftrightarrow> fst (alloc_tcb s) \<noteq> None \<and> fst (pmm_alloc_page (pm s)) \<noteq> 0"

definition new_tcb_base :: "pcb_ref option \<Rightarrow> uint32_t \<Rightarrow> kern \<Rightarrow> pcb" where
  "new_tcb_base par stack s = \<lparr> pid = 0, state = PROCESS_READY,
     priority = (case par of None \<Rightarrow> 1 | Some q \<Rightarrow> priority (pcbs s q)),
     esp = stack + STACK_SIZE - 4, stack_base = stack, next_pcb = None \<rparr>"

lemma create_thread_fails:
  assumes "core_inv s xs" "\<not> can_create_thread s"
  shows "create_thread par f s = Some (None, ensure_pool_init s)"
proof (cases "fst (alloc_tcb s)")
  case None
  then show ?thesis by (simp add: create_thread_def alloc_tcb_def Let_def)
next
  case (Some i)
  with assms(2) obtain m where m: "pmm_alloc_page (pm s) = (0, m)"
    by (cases "pmm_alloc_page (pm s)") (auto simp: can_create_thread_def)
  with assms(1) have "m = pm s" by (auto intro: pmm_alloc_null simp: core_inv_def)
  moreover have "(ensure_pool_init s)\<lparr>pm := pm s\<rparr> = ensure_pool_init s"
    using ensure_pool_init_fields(2) [of s] by (metis kern.surjective kern.update_convs(9))
  ultimately show ?thesis using Some m by (simp add: create_thread_def alloc_tcb_def Let_def)
qed

lemma create_thread_succeeds:
  assumes inv: "core_inv s xs" and can: "can_create_thread s"
  obtains i t stack m where "create_thread par f s = Some (Some i, t)" "i < MAX_THREADS"
    "Tcb i \<notin> set xs" "core_inv t (xs @ [Tcb i])" "pmm_alloc_page (pm s) = (stack, m)" "stack \<noteq> 0"
    "strip t = strip (upd_pcb (Tcb i) (\<lambda>_. new_tcb_base par stack s)
        (upd_tcb i (\<lambda>_. \<lparr> tid = next_tid s + 1, parent = par, wait_next = None \<rparr>)
        ((ensure_pool_init s)\<lparr>pm := m, ram := (ram s)(stack + STACK_SIZE - 4 := f),
           next_tid := next_tid s + 1\<rparr>)))"
proof -
  let ?e = "ensure_pool_init s"
  obtain i where i: "alloc_tcb s = (Some i, ?e)"
    using can by (auto simp: can_create_thread_def alloc_tcb_def Let_def)
  then have d: "i < MAX_THREADS" "state (pcbs ?e (Tcb i)) = PROCESS_DEAD"
    by (auto simp: alloc_tcb_def Let_def find_upt_Some_iff)
  obtain stack m where al: "pmm_alloc_page (pm s) = (stack, m)" by fastforce
  have s0: "stack \<noteq> 0" using can al by (simp add: can_create_thread_def)
  have core: "core_inv ?e xs" using inv by (rule ensure_pool_init_core)
  have notin: "Tcb i \<notin> set xs" using core d(2) by (auto simp: core_inv_def live_def)
  let ?s = "upd_tcb i (\<lambda>_. \<lparr> tid = next_tid s + 1, parent = par, wait_next = None \<rparr>)
        (?e\<lparr>ram := (ram s)(stack + STACK_SIZE - 4 := f), next_tid := next_tid s + 1\<rparr>)"
  have "core_inv ?s xs" using core by simp
  from core_add [OF this _ notin, of stack m "new_tcb_base par stack s"] d al s0
  obtain t where t: "enqueue (Tcb i) (upd_pcb (Tcb i) (\<lambda>_. new_tcb_base par stack s) (?s\<lparr>pm := m\<rparr>)) = Some t"
    "core_inv t (xs @ [Tcb i])"
    "strip t = strip (upd_pcb (Tcb i) (\<lambda>_. new_tcb_base par stack s) (?s\<lparr>pm := m\<rparr>))"
    by (auto simp: new_tcb_base_def)
  have eq: "?s\<lparr>pm := m\<rparr> = upd_tcb i (\<lambda>_. \<lparr> tid = next_tid s + 1, parent = par, wait_next = None \<rparr>)
        (?e\<lparr>pm := m, ram := (ram s)(stack + STACK_SIZE - 4 := f), next_tid := next_tid s + 1\<rparr>)"
    by (simp add: upd_tcb_def)
  have "create_thread par f s = Some (Some i, t)"
    using i al s0 t(1) [unfolded eq]
    by (simp add: create_thread_def Let_def new_tcb_base_def scheduler_enqueue_def cong: option.case_cong)
  with d notin t al s0 that show ?thesis unfolding eq by blast
qed

definition thread_target :: "uint32_t \<Rightarrow> kern \<Rightarrow> nat option" where
  "thread_target n s =
     find (\<lambda>i. Tcb i \<in> live s \<and> tid (tcbs s i) = n) [0..<MAX_THREADS]"

lemma thread_target_find:
  "find (\<lambda>i. tid (tcbs (ensure_pool_init s) i) = n
      \<and> state (pcbs (ensure_pool_init s) (Tcb i)) \<noteq> PROCESS_DEAD) [0..<MAX_THREADS]
     = thread_target n s"
  unfolding thread_target_def
  by (rule find_cong) (auto simp: live_def ensure_pool_init_eq)

lemma thread_delete_spec:
  assumes inv: "kern_inv s xs" and cur: "current_pcb s = Some c" and idle: "idle_pcb s = Some d"
  shows "case thread_target n s of
      None \<Rightarrow> thread_delete n s = Some (0, ensure_pool_init s)
    | Some i \<Rightarrow> Tcb i \<noteq> c \<and> Tcb i \<noteq> d \<longrightarrow>
        (\<exists>t. thread_delete n s = Some (1, t) \<and> kern_inv t (remove1 (Tcb i) xs)
           \<and> state (pcbs t (Tcb i)) = PROCESS_DEAD \<and> tid (tcbs t i) = 0
           \<and> free_set (pm t) = insert (unat (stack_base (pcbs s (Tcb i))) div 4096) (free_set (pm s))
           \<and> current_pcb t = Some c \<and> idle_pcb t = Some d
           \<and> (\<forall>r \<in> set xs. r \<noteq> Tcb i \<longrightarrow> stack_base (pcbs t r) = stack_base (pcbs s r)
                \<and> state (pcbs t r) = state (pcbs s r)))"
proof (cases "thread_target n s")
  case None
  then show ?thesis by (simp add: thread_delete_def Let_def thread_target_find)
next
  case (Some i)
  let ?e = "ensure_pool_init s"
  have core: "core_inv ?e xs" and run: "run_ok ?e xs"
    using ensure_pool_init_inv [OF inv] by (simp_all add: kern_inv_def)
  have i: "i < MAX_THREADS" "Tcb i \<in> set xs"
    using Some inv by (auto simp: thread_target_def find_upt_Some_iff kern_inv_def core_inv_def)
  obtain t where t: "dequeue (Tcb i) (upd_pcb (Tcb i) (\<lambda>c. c\<lparr>state := PROCESS_DEAD\<rparr>) ?e) = Some t"
    "strip t = strip (upd_pcb (Tcb i) (\<lambda>c. c\<lparr>state := PROCESS_DEAD\<rparr>) ?e)"
    and fin: "\<And>f. (\<forall>c. state (f c) = state c) \<Longrightarrow>
        core_inv (upd_pcb (Tcb i) f (t\<lparr>pm := pmm_free_page (stack_base (pcbs t (Tcb i))) (pm t)\<rparr>))
          (remove1 (Tcb i) xs)"
    using core_remove [OF core i(2)] by blast
  note e = strip_eqD [OF t(2)]
  let ?u = "upd_pcb (Tcb i) (\<lambda>c. c\<lparr>stack_base := 0\<rparr>)
     (t\<lparr>pm := pmm_free_page (stack_base (pcbs t (Tcb i))) (pm t)\<rparr>)"
  let ?w = "upd_tcb i (\<lambda>t. t\<lparr>tid := 0\<rparr>) ?u"
  have "thread_delete n s = Some (1, ?w)"
    using Some t(1)
    by (simp add: thread_delete_def Let_def thread_target_find scheduler_dequeue_def)
  moreover have "core_inv ?u (remove1 (Tcb i) xs)" by (rule fin) simp
  moreover have "run_ok ?w (remove1 (Tcb i) xs)" if "Tcb i \<noteq> c" "Tcb i \<noteq> d"
  proof -
    have "distinct xs" using core rq.queue_distinct by (auto simp: core_inv_def)
    then have "set (remove1 (Tcb i) xs) = set xs - {Tcb i}" by (simp add: set_remove1_eq)
    with run cur idle that e(1,10,11) show ?thesis by (auto simp: run_ok_def)
  qed
  moreover have "state (pcbs ?w (Tcb i)) = PROCESS_DEAD" using e(1) [of "Tcb i"] by simp
  moreover have "free_set (pm ?w)
      = insert (unat (stack_base (pcbs s (Tcb i))) div 4096) (free_set (pm s))"
  proof -
    have "pmm_ready (pm s)" "stack_ok (pm s) (stack_base (pcbs s (Tcb i)))"
      using inv i(2) by (auto simp: kern_inv_def core_inv_def)
    from stack_ok_release(3) [OF this] show ?thesis using e(5) [of "Tcb i"] e(12) by simp
  qed
  moreover have "current_pcb ?w = Some c" "idle_pcb ?w = Some d" using e(10,11) cur idle by simp_all
  moreover have "stack_base (pcbs ?w r) = stack_base (pcbs s r) \<and> state (pcbs ?w r) = state (pcbs s r)"
    if "r \<in> set xs" "r \<noteq> Tcb i" for r
    using that(2) e(1,5) [of r] ensure_pool_init_state [of r s] that(1) inv
    by (simp add: kern_inv_def core_inv_def)
  ultimately show ?thesis using Some unfolding kern_inv_def by fastforce
qed

section \<open>Properties\<close>

text \<open>\<open>create_thread\<close> succeeds exactly when the pool has a dead slot and a page is left. The
  thread is then queued at the end, ready, with process number 0, the next thread number, the
  priority of its parent, a free stack page of its own with the entry point on top, and the
  invariant of the process table holds; otherwise only the pool may have been initialised.\<close>

theorem create_thread_correct:
  assumes "kern_inv s xs"
  shows "if can_create_thread s then (\<exists>i t stack. create_thread par f s = Some (Some i, t)
        \<and> kern_inv t (xs @ [Tcb i]) \<and> Tcb i \<notin> set xs \<and> i < MAX_THREADS
        \<and> tid (tcbs t i) = next_tid s + 1 \<and> parent (tcbs t i) = par \<and> pid (pcbs t (Tcb i)) = 0
        \<and> state (pcbs t (Tcb i)) = PROCESS_READY
        \<and> priority (pcbs t (Tcb i)) = (case par of None \<Rightarrow> 1 | Some q \<Rightarrow> priority (pcbs s q))
        \<and> stack_base (pcbs t (Tcb i)) = stack \<and> unat stack div 4096 \<in> free_set (pm s)
        \<and> esp (pcbs t (Tcb i)) = stack + 4092 \<and> ram t = (ram s)(stack + 4092 := f))
    else create_thread par f s = Some (None, ensure_pool_init s)"
proof (cases "can_create_thread s")
  case True
  have core: "core_inv s xs" using assms by (simp add: kern_inv_def)
  have run: "run_ok (ensure_pool_init s) xs"
    using ensure_pool_init_inv [OF assms] by (simp add: kern_inv_def)
  obtain i t stack m where t: "create_thread par f s = Some (Some i, t)" "i < MAX_THREADS"
    "Tcb i \<notin> set xs" "core_inv t (xs @ [Tcb i])" "pmm_alloc_page (pm s) = (stack, m)" "stack \<noteq> 0"
    "strip t = strip (upd_pcb (Tcb i) (\<lambda>_. new_tcb_base par stack s)
        (upd_tcb i (\<lambda>_. \<lparr> tid = next_tid s + 1, parent = par, wait_next = None \<rparr>)
        ((ensure_pool_init s)\<lparr>pm := m, ram := (ram s)(stack + STACK_SIZE - 4 := f),
           next_tid := next_tid s + 1\<rparr>)))"
    by (rule create_thread_succeeds [OF core True])
  note e = strip_eqD [OF t(7)]
  have run': "run_ok t (xs @ [Tcb i])"
    using t(3) e by (intro run_ok_add [OF run]) (auto simp: new_tcb_base_def)
  have sz: "stack + STACK_SIZE - 4 = stack + 4092" by (simp add: STACK_SIZE_def PAGE_SIZE_def)
  have page: "unat stack div 4096 \<in> free_set (pm s)"
    using pa.alloc_page [of "pm s"] core t(5,6) by (simp add: core_inv_def)
  have "tid (tcbs t i) = next_tid s + 1" "parent (tcbs t i) = par" "pid (pcbs t (Tcb i)) = 0"
    "state (pcbs t (Tcb i)) = PROCESS_READY" "stack_base (pcbs t (Tcb i)) = stack"
    "priority (pcbs t (Tcb i)) = (case par of None \<Rightarrow> 1 | Some q \<Rightarrow> priority (pcbs s q))"
    "esp (pcbs t (Tcb i)) = stack + 4092" "ram t = (ram s)(stack + 4092 := f)"
    using e(1-5) [of "Tcb i"] e(6,13) sz by (simp_all add: new_tcb_base_def)
  with t(1-4) run' page show ?thesis unfolding kern_inv_def if_P [OF True] by blast
next
  case False
  with create_thread_fails [of s xs par f] assms show ?thesis by (simp add: kern_inv_def)
qed

lemma demo_alloc_tcb: "fst (alloc_tcb demo_kern) = Some 1"
  unfolding alloc_tcb_def Let_def fst_conv find_upt_Some_iff
  by (simp add: ensure_pool_init_eq)
    (simp add: demo_kern_def demo_pcb_def dead_pcb_def MAX_THREADS_def)

theorem create_thread_correct_witness:
  "\<exists>i t. create_thread (Some (Pcb 7)) 0x10CAFE demo_kern = Some (Some i, t)
     \<and> kern_inv t (demo_queue @ [Tcb i])"
  using create_thread_correct [OF demo_inv, of "Some (Pcb 7)" "0x10CAFE"] demo_page
  by (auto simp: can_create_thread_def demo_alloc_tcb)

text \<open>\<open>thread_delete\<close> answers 0 and leaves everything alone when no live thread has the
  number; otherwise, for a thread other than the current one, it answers 1, the thread has left
  the run queue, its slot is dead, its number is cleared, its stack page is free again, the
  other slots are as they were and the invariant of the process table is kept.\<close>

theorem thread_delete_correct:
  assumes "kern_inv s xs" "current_pcb s = Some c" "idle_pcb s = Some d"
  shows "case thread_target n s of
      None \<Rightarrow> thread_delete n s = Some (0, ensure_pool_init s)
    | Some i \<Rightarrow> Tcb i \<noteq> c \<and> Tcb i \<noteq> d \<longrightarrow>
        (\<exists>t. thread_delete n s = Some (1, t) \<and> kern_inv t (remove1 (Tcb i) xs)
           \<and> state (pcbs t (Tcb i)) = PROCESS_DEAD \<and> tid (tcbs t i) = 0
           \<and> free_set (pm t) = insert (unat (stack_base (pcbs s (Tcb i))) div 4096) (free_set (pm s))
           \<and> current_pcb t = Some c \<and> idle_pcb t = Some d
           \<and> (\<forall>r \<in> set xs. r \<noteq> Tcb i \<longrightarrow> stack_base (pcbs t r) = stack_base (pcbs s r)
                \<and> state (pcbs t r) = state (pcbs s r)))"
  using assms by (rule thread_delete_spec)

lemma demo_target: "thread_target 1 demo_kern = Some 0"
proof -
  have "Tcb 0 \<in> live demo_kern" by (simp add: live_def MAX_THREADS_def)
  moreover have "tid (tcbs demo_kern 0) = 1" by (simp add: demo_kern_def)
  ultimately show ?thesis by (simp add: thread_target_def find_upt_Some_iff MAX_THREADS_def)
qed

theorem thread_delete_correct_witness:
  "\<exists>t. thread_delete 1 demo_kern = Some (1, t) \<and> kern_inv t [Pcb 0, Pcb 7]"
  using thread_delete_correct [OF demo_inv, of "Pcb 7" "Pcb 0" 1] by (auto simp: demo_target)

end
