(* ===== verification/Round_Robin.thy ===== *)
theory Round_Robin
  imports Process_Table
begin

text \<open>
  What \<^verbatim>\<open>schedule\<close> decides: the next ready process in the queue behind the current one, with the
  wrap to the head, and the idle process when there is none. Under a sequence of timer ticks
  every runnable process therefore gets the processor in turn.
\<close>

section \<open>The scheduler picks the next ready process in the rotation\<close>

text \<open>The queue from the process behind \<open>c\<close> once around, \<open>c\<close> last.\<close>

definition rotation :: "pcb_ref list \<Rightarrow> pcb_ref \<Rightarrow> pcb_ref list" where
  "rotation xs c = tl (dropWhile (\<lambda>r. r \<noteq> c) xs) @ takeWhile (\<lambda>r. r \<noteq> c) xs @ [c]"

lemma rotation_split: "c \<notin> set as \<Longrightarrow> rotation (as @ c # bs) c = bs @ as @ [c]"
proof -
  assume c: "c \<notin> set as"
  then have "dropWhile (\<lambda>r. r \<noteq> c) (as @ c # bs) = c # bs" by (induction as) auto
  moreover have "takeWhile (\<lambda>r. r \<noteq> c) (as @ c # bs) = as" using c by (induction as) auto
  ultimately show ?thesis by (simp add: rotation_def)
qed

definition ready :: "kern \<Rightarrow> pcb_ref \<Rightarrow> bool" where
  "ready s r \<longleftrightarrow> state (pcbs s r) = PROCESS_READY"

text \<open>The successor in the queue, with the wrap to its head.\<close>

definition succ_in :: "(pcb_ref \<Rightarrow> pcb) \<Rightarrow> pcb_ref option \<Rightarrow> pcb_ref \<Rightarrow> pcb_ref option" where
  "succ_in h rq r = (case next_pcb (h r) of None \<Rightarrow> rq | Some n \<Rightarrow> Some n)"

fun chain :: "(pcb_ref \<Rightarrow> pcb_ref option) \<Rightarrow> pcb_ref list \<Rightarrow> pcb_ref option \<Rightarrow> bool" where
  "chain f [] e \<longleftrightarrow> True"
| "chain f (r # rs) e \<longleftrightarrow> f r = (case rs of [] \<Rightarrow> e | q # _ \<Rightarrow> Some q) \<and> chain f rs e"

lemma chain_append:
  "chain f (us @ vs) e \<longleftrightarrow> chain f us (case vs of [] \<Rightarrow> e | v # _ \<Rightarrow> Some v) \<and> chain f vs e"
  by (induction us) (auto split: list.splits)

lemma is_list_chain: "is_list h p zs \<Longrightarrow> chain (succ_in h rq) zs rq"
proof (induction zs arbitrary: p)
  case (Cons z zs)
  then show ?case by (cases zs) (auto simp: succ_in_def)
qed simp

lemma rotation_chain:
  assumes "is_list h rq (as @ c # bs)"
  shows "succ_in h rq c = Some (hd (bs @ as @ [c]))"
    and "chain (succ_in h rq) (bs @ as @ [c]) (succ_in h rq c)"
proof -
  have rq: "rq = Some (hd (as @ [c]))" using assms by (cases as) auto
  have ch: "chain (succ_in h rq) (as @ c # bs) rq" using assms by (rule is_list_chain)
  then have c: "succ_in h rq c = (case bs of [] \<Rightarrow> rq | b # _ \<Rightarrow> Some b)"
    by (auto simp: chain_append)
  with rq show "succ_in h rq c = Some (hd (bs @ as @ [c]))" by (auto split: list.splits)
  from ch rq show "chain (succ_in h rq) (bs @ as @ [c]) (succ_in h rq c)"
    by (cases as; cases "tl as") (auto simp: chain_append c split: list.splits)
qed

lemma sched_scan_find:
  assumes "chain (succ_in h rq) zs (Some e)" "zs \<noteq> []" "e \<notin> set (tl zs)"
  shows "sched_scan h rq (Some e) (Some (hd zs))
    = Some (find (\<lambda>r. state (h r) = PROCESS_READY) zs)"
  using assms
proof (induction zs)
  case (Cons r rs)
  show ?case
  proof (cases rs)
    case Nil
    with Cons.prems show ?thesis
      by (subst sched_scan.simps) (auto simp: succ_in_def Let_def split: option.splits)
  next
    case (Cons q qs)
    with Cons.prems have "succ_in h rq r = Some q" "q \<noteq> e" by auto
    with Cons.IH Cons.prems Cons show ?thesis
      by (subst sched_scan.simps) (auto simp: succ_in_def Let_def split: option.splits)
  qed
qed simp

lemma queue_split:
  assumes "queue s xs" "c \<in> set xs"
  obtains as bs where "xs = as @ c # bs" "c \<notin> set as" "rotation xs c = bs @ as @ [c]"
    "distinct (bs @ as @ [c])"
proof -
  obtain as bs where xs: "xs = as @ c # bs" "c \<notin> set as"
    using assms(2) by (meson split_list_first)
  moreover have "distinct xs" using rq.queue_distinct [OF assms(1)] .
  ultimately show ?thesis using that [of as bs] rotation_split [of c as bs] by auto
qed

lemma schedule_scan:
  assumes q: "queue s xs" and c: "c \<in> set xs"
  shows "sched_scan (pcbs s) (run_queue s) (succ_in (pcbs s) (run_queue s) c)
           (succ_in (pcbs s) (run_queue s) c) = Some (find (ready s) (rotation xs c))"
proof -
  obtain as bs where
    x: "xs = as @ c # bs" "rotation xs c = bs @ as @ [c]" "distinct (bs @ as @ [c])"
    by (rule queue_split [OF q c])
  let ?zs = "bs @ as @ [c]"
  note ch = rotation_chain [OF q [unfolded queue_def x(1)]]
  have "hd ?zs \<notin> set (tl ?zs)" using x(3) by (cases ?zs) auto
  from sched_scan_find [OF ch(2) [unfolded ch(1)] _ this] show ?thesis
    unfolding ch(1) x(2) ready_def by simp
qed

text \<open>Nobody to switch to: the idle process is the current one, and nothing queued is ready.\<close>

definition settled :: "kern \<Rightarrow> pcb_ref list \<Rightarrow> bool" where
  "settled s xs \<longleftrightarrow> (\<exists>c. current_pcb s = Some c \<and> idle_pcb s = Some c
       \<and> (c \<notin> set xs \<longrightarrow> next_pcb (pcbs s c) = None)) \<and> (\<forall>r \<in> set xs. \<not> ready s r)"

lemma settled_schedule:
  assumes q: "queue s xs" and "settled s xs"
  shows "schedule s = Some (Returns s)"
proof -
  obtain c where c: "current_pcb s = Some c" "idle_pcb s = Some c"
    "c \<notin> set xs \<longrightarrow> next_pcb (pcbs s c) = None" and none: "\<forall>r \<in> set xs. \<not> ready s r"
    using assms(2) by (auto simp: settled_def)
  have scan: "sched_scan (pcbs s) (run_queue s) (succ_in (pcbs s) (run_queue s) r)
      (succ_in (pcbs s) (run_queue s) r) = Some None" if r: "r \<in> set xs" for r
  proof -
    obtain us vs where "xs = us @ r # vs" "rotation xs r = vs @ us @ [r]" by (rule queue_split [OF q r])
    then have "find (ready s) (rotation xs r) = None" using none by (auto simp: find_None_iff)
    with schedule_scan [OF q r] show ?thesis by simp
  qed
  have "sched_scan (pcbs s) (run_queue s) (succ_in (pcbs s) (run_queue s) c)
      (succ_in (pcbs s) (run_queue s) c) = Some None"
  proof (cases "c \<in> set xs")
    case False
    then have succ: "succ_in (pcbs s) (run_queue s) c = run_queue s" using c(3) by (simp add: succ_in_def)
    show ?thesis
    proof (cases xs rule: rev_cases)
      case Nil
      then have "run_queue s = None" using q by (simp add: queue_def)
      then show ?thesis unfolding succ by (subst sched_scan.simps) simp
    next
      case (snoc ys z)
      then have "next_pcb (pcbs s z) = None"
        using q is_list_suffix [of "pcbs s" "run_queue s" ys z "[]"] by (simp add: queue_def)
      then have "succ_in (pcbs s) (run_queue s) z = run_queue s" by (simp add: succ_in_def)
      with scan [of z] snoc show ?thesis unfolding succ by simp
    qed
  qed (rule scan)
  then show ?thesis by (simp add: schedule_def c(1,2) Let_def succ_in_def)
qed
text \<open>The state after the processor went from \<open>c\<close> to \<open>n\<close>.\<close>

definition switch_to :: "pcb_ref \<Rightarrow> pcb_ref \<Rightarrow> kern \<Rightarrow> kern" where
  "switch_to c n s =
     s\<lparr>pcbs := (pcbs s)
         (c := (pcbs s c)\<lparr>state := (if state (pcbs s c) = PROCESS_RUNNING then PROCESS_READY
                                  else state (pcbs s c)), esp := cpu_esp s\<rparr>,
          n := (pcbs s n)\<lparr>state := PROCESS_RUNNING\<rparr>),
       current_pcb := Some n, cpu_eip := ram s (esp (pcbs s n)), cpu_esp := esp (pcbs s n) + 4\<rparr>"

lemma sched_switch_eq:
  "n \<noteq> c \<Longrightarrow> sched_switch c (Some n) s = Some (Switches (switch_to c n s))"
  by (auto simp: sched_switch_def context_switch_def switch_to_def upd_pcb_def Let_def fun_upd_twist)

definition sched_choice :: "kern \<Rightarrow> pcb_ref list \<Rightarrow> pcb_ref \<Rightarrow> pcb_ref \<Rightarrow> pcb_ref" where
  "sched_choice s xs c d = (case find (ready s) (rotation xs c) of Some n \<Rightarrow> n | None \<Rightarrow> d)"

lemma schedule_eq:
  assumes "queue s xs" "current_pcb s = Some c" "idle_pcb s = Some d" "c \<in> set xs"
  shows "schedule s = Some (if sched_choice s xs c d = c then Returns s
    else Switches (switch_to c (sched_choice s xs c d) s))"
proof -
  have sw: "sched_switch c (Some n) s = Some (if n = c then Returns s else Switches (switch_to c n s))" for n
    using sched_switch_eq [of n c s] by (auto simp: sched_switch_def)
  have rd: "find (ready s) (rotation xs c) = Some n \<Longrightarrow> state (pcbs s n) = PROCESS_READY" for n
    by (auto simp: ready_def dest: find_Some_in)
  show ?thesis
    unfolding schedule_def assms(2) option.case Let_def succ_in_def [symmetric]
      schedule_scan [OF assms(1,4)] sched_choice_def
    by (cases "find (ready s) (rotation xs c)") (auto simp: sw assms(3) dest!: rd)
qed

lemma switch_to_core:
  assumes "core_inv s xs" "c \<in> set xs" "n \<in> set xs" "n \<noteq> c"
  shows "core_inv (switch_to c n s) xs"
proof -
  have d: "state (pcbs s c) \<noteq> PROCESS_DEAD" "state (pcbs s n) \<noteq> PROCESS_DEAD"
    using assms(1-3) by (auto simp: core_inv_def live_def)
  have "switch_to c n s = (upd_pcb n (\<lambda>p. p\<lparr>state := PROCESS_RUNNING\<rparr>)
      (upd_pcb c (\<lambda>p. p\<lparr>state := (if state p = PROCESS_RUNNING then PROCESS_READY else state p),
         esp := cpu_esp s\<rparr>) s))
      \<lparr>current_pcb := Some n, cpu_eip := ram s (esp (pcbs s n)), cpu_esp := esp (pcbs s n) + 4\<rparr>"
    using assms(4) by (simp add: switch_to_def upd_pcb_def)
  with assms d show ?thesis by (simp add: core_inv_upd_keep)
qed

lemma switch_to_inv:
  assumes "kern_inv s xs" "current_pcb s = Some c" "n \<in> set xs" "n \<noteq> c"
  shows "kern_inv (switch_to c n s) xs"
proof -
  from assms(1,2) have c: "c \<in> set xs" by (auto simp: kern_inv_def run_ok_def)
  with switch_to_core [of s xs c n] assms have "core_inv (switch_to c n s) xs"
    by (simp add: kern_inv_def)
  moreover have "run_ok (switch_to c n s) xs"
    using assms by (auto simp: kern_inv_def run_ok_def switch_to_def)
  ultimately show ?thesis by (simp add: kern_inv_def)
qed

lemma sched_choice_in:
  assumes "kern_inv s xs" "current_pcb s = Some c" "idle_pcb s = Some d"
  shows "sched_choice s xs c d \<in> set xs"
proof -
  from assms have q: "queue s xs" "c \<in> set xs" "d \<in> set xs"
    by (auto simp: kern_inv_def run_ok_def core_inv_def)
  obtain as bs where "xs = as @ c # bs" "rotation xs c = bs @ as @ [c]"
    by (rule queue_split [OF q(1,2)])
  then have "set (rotation xs c) = set xs" by auto
  with q(3) show ?thesis
    by (auto simp: sched_choice_def split: option.splits dest: find_Some_in)
qed
section \<open>Every runnable process gets the processor in turn\<close>

fun flow_state :: "'a flow \<Rightarrow> 'a" where
  "flow_state (Returns s) = s"
| "flow_state (Switches s) = s"

text \<open>A tick of the timer: the running code has left its stack pointer at \<open>e\<close>.\<close>

definition tick :: "uint32_t \<Rightarrow> kern \<Rightarrow> kern option" where
  "tick e s = map_option flow_state (schedule (s\<lparr>cpu_esp := e\<rparr>))"

fun ticks :: "uint32_t list \<Rightarrow> kern \<Rightarrow> kern option" where
  "ticks [] s = Some s"
| "ticks (e # es) s = Option.bind (tick e s) (ticks es)"

definition is_runnable :: "kern \<Rightarrow> pcb_ref \<Rightarrow> bool" where
  "is_runnable s r \<longleftrightarrow> state (pcbs s r) = PROCESS_READY \<or> state (pcbs s r) = PROCESS_RUNNING"

definition runnable :: "kern \<Rightarrow> pcb_ref list \<Rightarrow> pcb_ref list" where
  "runnable s xs = filter (is_runnable s) xs"

lemma find_filter: "find P xs = (case filter P xs of [] \<Rightarrow> None | x # _ \<Rightarrow> Some x)"
  by (induction xs) auto

lemma kern_inv_esp [simp]: "kern_inv (s\<lparr>cpu_esp := e\<rparr>) xs = kern_inv s xs"
  by (simp add: kern_inv_def run_ok_def)

lemma ready_esp [simp]:
  "ready (s\<lparr>cpu_esp := e\<rparr>) = ready s" "is_runnable (s\<lparr>cpu_esp := e\<rparr>) = is_runnable s"
  by (simp_all add: ready_def is_runnable_def fun_eq_iff)

lemma runnable_cong: "(\<And>r. is_runnable t r = is_runnable s r) \<Longrightarrow> runnable t xs = runnable s xs"
  unfolding runnable_def by (rule filter_cong) simp_all

lemma sched_choice_esp [simp]: "sched_choice (s\<lparr>cpu_esp := e\<rparr>) xs c d = sched_choice s xs c d"
  by (simp add: sched_choice_def)

lemma tick_spec:
  assumes "kern_inv s xs" "current_pcb s = Some c" "idle_pcb s = Some d"
  shows "tick e s = Some (if sched_choice s xs c d = c then s\<lparr>cpu_esp := e\<rparr>
     else switch_to c (sched_choice s xs c d) (s\<lparr>cpu_esp := e\<rparr>))"
proof -
  have "queue (s\<lparr>cpu_esp := e\<rparr>) xs" "c \<in> set xs"
    using assms by (auto simp: kern_inv_def core_inv_def run_ok_def)
  from schedule_eq [OF this(1) _ _ this(2)] assms(2,3) show ?thesis
    by (simp add: tick_def)
qed

lemma sched_choice_runnable:
  assumes inv: "kern_inv s xs" and cur: "current_pcb s = Some c" and idle: "idle_pcb s = Some d"
    and run: "state (pcbs s c) = PROCESS_RUNNING" and d: "is_runnable s d"
    and rn: "runnable s xs = as @ c # bs"
  shows "sched_choice s xs c d = hd (bs @ as @ [c])"
proof -
  have q: "queue s xs" and c: "c \<in> set xs" and dx: "d \<in> set xs"
    and only: "\<And>r. r \<in> set xs \<Longrightarrow> state (pcbs s r) = PROCESS_RUNNING \<Longrightarrow> r = c"
    using inv cur idle by (auto simp: kern_inv_def core_inv_def run_ok_def)
  obtain us vs where x: "xs = us @ c # vs" "c \<notin> set us" "rotation xs c = vs @ us @ [c]"
      "distinct (vs @ us @ [c])"
    by (rule queue_split [OF q c])
  have "runnable s xs = runnable s us @ c # runnable s vs"
    using run by (simp add: x(1) runnable_def is_runnable_def)
  moreover have "c \<notin> set (runnable s us)" "c \<notin> set (runnable s vs)"
    using x(4) by (auto simp: runnable_def)
  ultimately have ab: "as = runnable s us" "bs = runnable s vs"
    using rn append_Cons_eq_iff [of c "runnable s us" "runnable s vs" as bs] by auto
  have rdy: "filter (ready s) zs = runnable s zs" if "set zs \<subseteq> set xs - {c}" for zs
    using that only unfolding runnable_def
    by (intro filter_cong) (auto simp: ready_def is_runnable_def)
  have "filter (ready s) (rotation xs c) = bs @ as"
    using x run by (simp add: rdy ab ready_def)
  moreover have "d \<in> set (as @ c # bs)" using dx d by (simp add: rn [symmetric] runnable_def)
  moreover have "hd (bs @ as @ [c]) = hd ((bs @ as) @ [c])" by simp
  ultimately show ?thesis
    unfolding sched_choice_def find_filter
    by (cases "bs @ as") (auto simp del: append_assoc)
qed

lemma tick_advances:
  assumes inv: "kern_inv s xs" and cur: "current_pcb s = Some c" and idle: "idle_pcb s = Some d"
    and run: "state (pcbs s c) = PROCESS_RUNNING" and d: "is_runnable s d"
    and rn: "runnable s xs = as @ c # bs"
  shows "\<exists>t. tick e s = Some t \<and> kern_inv t xs \<and> runnable t xs = runnable s xs
     \<and> current_pcb t = Some (hd (bs @ as @ [c])) \<and> idle_pcb t = Some d \<and> is_runnable t d
     \<and> state (pcbs t (hd (bs @ as @ [c]))) = PROCESS_RUNNING"
proof -
  let ?n = "hd (bs @ as @ [c])"
  note ch = sched_choice_runnable [OF assms]
  have n: "?n \<in> set xs" using sched_choice_in [OF inv cur idle] ch by simp
  have nr: "is_runnable s ?n"
  proof -
    have "?n \<in> set (runnable s xs)" unfolding rn by (cases bs; cases as) auto
    then show ?thesis by (simp add: runnable_def)
  qed
  show ?thesis
  proof (cases "?n = c")
    case True
    with tick_spec [OF inv cur idle, of e] ch inv cur idle run d show ?thesis
      by (simp add: runnable_cong [of "s\<lparr>cpu_esp := e\<rparr>" s])
  next
    case False
    let ?t = "switch_to c ?n (s\<lparr>cpu_esp := e\<rparr>)"
    have "tick e s = Some ?t" using tick_spec [OF inv cur idle, of e] ch False by simp
    moreover have "kern_inv ?t xs" using inv cur n False by (intro switch_to_inv) simp_all
    moreover have r: "is_runnable ?t r = is_runnable s r" for r
      using run nr by (simp add: switch_to_def is_runnable_def)
    moreover have "runnable ?t xs = runnable s xs" by (rule runnable_cong) (rule r)
    moreover have "current_pcb ?t = Some ?n" "idle_pcb ?t = Some d"
      "state (pcbs ?t ?n) = PROCESS_RUNNING"
      using idle by (simp_all add: switch_to_def)
    ultimately show ?thesis using d by blast
  qed
qed

lemma hd_rotation_nth:
  assumes "zs = as @ c # bs"
  shows "hd (bs @ as @ [c]) = zs ! (Suc (length as) mod length zs)"
  using assms by (cases bs; cases as) (auto simp: nth_append)

lemma ticks_round_robin:
  assumes "kern_inv s xs" "current_pcb s = Some c" "idle_pcb s = Some d"
    and "state (pcbs s c) = PROCESS_RUNNING" "is_runnable s d"
    and "runnable s xs = zs" "i < length zs" "zs ! i = c"
  shows "\<exists>t. ticks es s = Some t \<and> kern_inv t xs \<and> runnable t xs = zs
     \<and> current_pcb t = Some (zs ! ((i + length es) mod length zs))"
  using assms
proof (induction es arbitrary: s c i)
  case Nil
  then show ?case by simp
next
  case (Cons e es)
  have zs: "runnable s xs = take i zs @ c # drop (Suc i) zs"
    using id_take_nth_drop [OF Cons.prems(7)] by (simp only: Cons.prems(6,8))
  let ?n = "hd (drop (Suc i) zs @ take i zs @ [c])"
  let ?j = "Suc i mod length zs"
  from tick_advances [OF Cons.prems(1-5) zs, of e] obtain t where
    t: "tick e s = Some t" "kern_inv t xs" "runnable t xs = zs" "current_pcb t = Some ?n"
      "idle_pcb t = Some d" "is_runnable t d" "state (pcbs t ?n) = PROCESS_RUNNING"
    using Cons.prems(6) by auto
  have n: "?n = zs ! ?j"
    using hd_rotation_nth [OF zs [unfolded Cons.prems(6)]] Cons.prems(7) by simp
  have j: "?j < length zs" using Cons.prems(7) by (cases zs) auto
  have m: "(?j + length es) mod length zs = (i + length (e # es)) mod length zs"
    using mod_add_left_eq [of "Suc i" "length zs" "length es"] by simp
  from Cons.IH [OF t(2,4,5,7,6,3) j n [symmetric]] obtain u where
    "ticks es t = Some u" "kern_inv u xs" "runnable u xs = zs"
    "current_pcb u = Some (zs ! ((i + length (e # es)) mod length zs))"
    unfolding m by blast
  with t(1) show ?case by simp
qed
section \<open>Properties\<close>

text \<open>\<open>schedule\<close> always returns. It chooses the first ready process behind the current one in
  the circular order of the run queue, or the idle process when none is ready, and switches to
  it unless it is the current one already; the old process becomes ready if it was running, the
  new one is the only running one, and the invariant of the process table is kept.\<close>

theorem schedule_chooses_next_ready:
  assumes "kern_inv s xs" "current_pcb s = Some c" "idle_pcb s = Some d"
  shows "schedule s = Some (if sched_choice s xs c d = c then Returns s
      else Switches (switch_to c (sched_choice s xs c d) s))
    \<and> kern_inv (if sched_choice s xs c d = c then s else switch_to c (sched_choice s xs c d) s) xs
    \<and> (\<forall>r \<in> set xs. ready s r \<longrightarrow> ready s (sched_choice s xs c d))"
proof -
  have q: "queue s xs" "c \<in> set xs"
    using assms by (auto simp: kern_inv_def core_inv_def run_ok_def)
  obtain us vs where x: "xs = us @ c # vs" "rotation xs c = vs @ us @ [c]"
    by (rule queue_split [OF q])
  then have r: "set (rotation xs c) = set xs" by auto
  have "ready s (sched_choice s xs c d)" if "r \<in> set xs" "ready s r" for r
  proof -
    have "find (ready s) (rotation xs c) \<noteq> None" using that r by (auto simp: find_None_iff)
    then show ?thesis by (auto simp: sched_choice_def dest: find_Some_in)
  qed
  then show ?thesis
    using schedule_eq [OF q(1) assms(2,3) q(2)] assms(1)
      switch_to_inv [OF assms(1,2) sched_choice_in [OF assms]] by simp
qed

lemma demo_choice: "sched_choice demo_kern demo_queue (Pcb 7) (Pcb 0) = Tcb 0"
  by (simp add: sched_choice_def rotation_def ready_def)

theorem schedule_chooses_next_ready_witness:
  "schedule demo_kern = Some (Switches (switch_to (Pcb 7) (Tcb 0) demo_kern))"
  using schedule_chooses_next_ready [OF demo_inv, of "Pcb 7" "Pcb 0"] by (simp add: demo_choice)

text \<open>C20: round robin: while the timer ticks, the runnable processes get the processor in the
  order of the run queue, each once in every round, whatever their priorities are; after \<open>k\<close>
  ticks the processor is \<open>k\<close> places further, and no runnable process is ever passed over.\<close>

theorem ticks_serve_every_process:
  assumes "kern_inv s xs" "current_pcb s = Some c" "idle_pcb s = Some d"
    and "state (pcbs s c) = PROCESS_RUNNING" "is_runnable s d"
    and "i < length (runnable s xs)" "runnable s xs ! i = c"
  shows "\<exists>t. ticks es s = Some t \<and> kern_inv t xs \<and> runnable t xs = runnable s xs
     \<and> current_pcb t
         = Some (runnable s xs ! ((i + length es) mod length (runnable s xs)))"
  using assms by (intro ticks_round_robin) simp_all

theorem ticks_serve_every_process_witness:
  "\<exists>t. ticks [0x6F00, 0x8F00, 0x4F00, 0x6F00] demo_kern = Some t \<and> current_pcb t = Some (Tcb 0)"
proof -
  have r: "runnable demo_kern demo_queue = demo_queue" by (simp add: runnable_def is_runnable_def)
  show ?thesis
    using ticks_serve_every_process [OF demo_inv, of "Pcb 7" "Pcb 0" 1 "[0x6F00, 0x8F00, 0x4F00, 0x6F00]"]
    unfolding r by (auto simp: is_runnable_def)
qed

end
