(* ===== verification/Mutex.thy ===== *)
theory Mutex
  imports Thread Round_Robin
begin

text \<open>
  The mutex (\<^verbatim>\<open>src/mutex.c\<close>, \<^verbatim>\<open>include/mutex.h\<close>). A waiter is the index of its \<^verbatim>\<open>tcb_t\<close>; a
  plain process that has to wait is cast to \<^verbatim>\<open>tcb_t*\<close> and written behind its end, which has no
  defined outcome: \<open>None\<close>. The first part gives the functions; the second part cuts them at the
  points where an interrupt can switch to another thread and lets any number of threads
  contend for one mutex.
\<close>

record mutex =
  lock :: uint32_t
  waiters :: "nat option"

definition test_and_set :: "mutex \<Rightarrow> uint32_t \<times> mutex" where
  "test_and_set m = (lock m, m\<lparr>lock := 1\<rparr>)"

definition mutex_init :: "mutex \<Rightarrow> mutex" where
  "mutex_init m = m\<lparr>lock := 0, waiters := None\<rparr>"

text \<open>The two statements of \<^verbatim>\<open>mutex_lock\<close> that put the current thread on the wait list.\<close>

definition mark_blocked :: "pcb_ref \<Rightarrow> kern \<Rightarrow> kern" where
  "mark_blocked cur s = upd_pcb cur (\<lambda>c. c\<lparr>state := PROCESS_BLOCKED\<rparr>) s"

definition push_waiter :: "pcb_ref \<Rightarrow> mutex \<Rightarrow> kern \<Rightarrow> (mutex \<times> kern) option" where
  "push_waiter cur m s =
     (case cur of
        Pcb _ \<Rightarrow> None
      | Tcb i \<Rightarrow> Some (m\<lparr>waiters := Some i\<rparr>, upd_tcb i (\<lambda>t. t\<lparr>wait_next := waiters m\<rparr>) s))"

datatype lock_result = Acquired mutex kern | Suspended mutex kern

text \<open>
  The loop of \<^verbatim>\<open>mutex_lock\<close>. When \<^verbatim>\<open>schedule\<close> switches, the caller is suspended and runs the loop
  again when it is resumed; when it returns, the loop goes on at once.
\<close>

partial_function (option) mutex_lock :: "mutex \<Rightarrow> kern \<Rightarrow> lock_result option" where
  "mutex_lock m s =
     (let (old, m) = test_and_set m
      in if old = 0 then Some (Acquired m s)
         else Option.bind
                (case get_current_process s of
                   None \<Rightarrow> Some (m, s)
                 | Some cur \<Rightarrow> push_waiter cur m (mark_blocked cur s))
                (\<lambda>(m, s). Option.bind (schedule s)
                   (\<lambda>fl. case fl of
                           Returns s \<Rightarrow> mutex_lock m s
                         | Switches s \<Rightarrow> Some (Suspended m s))))"

declare mutex_lock.simps [code]

text \<open>The part of \<^verbatim>\<open>mutex_unlock\<close> behind the release of the lock.\<close>

definition wake_one :: "mutex \<Rightarrow> kern \<Rightarrow> mutex \<times> kern" where
  "wake_one m s =
     (case waiters m of
        None \<Rightarrow> (m, s)
      | Some w \<Rightarrow>
          (m\<lparr>waiters := wait_next (tcbs s w)\<rparr>,
           upd_pcb (Tcb w) (\<lambda>c. c\<lparr>state := PROCESS_READY\<rparr>)
             (upd_tcb w (\<lambda>t. t\<lparr>wait_next := None\<rparr>) s)))"

definition mutex_unlock :: "mutex \<Rightarrow> kern \<Rightarrow> mutex \<times> kern" where
  "mutex_unlock m s = wake_one (m\<lparr>lock := 0\<rparr>) s"

section \<open>The wait list\<close>

fun wait_list :: "(nat \<Rightarrow> tcb_ext) \<Rightarrow> nat option \<Rightarrow> nat list \<Rightarrow> bool" where
  "wait_list h p [] \<longleftrightarrow> p = None"
| "wait_list h p (i # is) \<longleftrightarrow> p = Some i \<and> wait_list h (wait_next (h i)) is"

lemma wait_list_upd: "i \<notin> set is \<Longrightarrow> wait_list (h(i := t)) p is = wait_list h p is"
  by (induction "is" arbitrary: p) auto

lemma wait_list_Some: "wait_list h (Some i) is \<longleftrightarrow> (\<exists>js. is = i # js \<and> wait_list h (wait_next (h i)) js)"
  by (cases "is") auto

lemma wait_list_unique: "wait_list h p is \<Longrightarrow> wait_list h p js \<Longrightarrow> is = js"
  by (induction "is" arbitrary: p js) (auto simp: wait_list_Some elim: wait_list.elims)

lemma wait_list_suffix: "wait_list h p (is @ i # js) \<Longrightarrow> wait_list h (Some i) (i # js)"
  by (induction "is" arbitrary: p) auto

lemma wait_list_head: "wait_list h (Some i) (i # js) \<Longrightarrow> i \<notin> set js"
proof
  assume l: "wait_list h (Some i) (i # js)" and "i \<in> set js"
  then obtain us vs where js: "js = us @ i # vs" by (auto dest: split_list)
  from l have "wait_list h (Some i) ((i # us) @ i # vs)" by (simp add: js)
  then have "wait_list h (Some i) (i # vs)" by (rule wait_list_suffix)
  from wait_list_unique [OF l this] show False by (simp add: js)
qed

section \<open>Locking and unlocking\<close>

lemma mark_blocked_kern_inv:
  assumes "kern_inv s xs" "r \<in> set xs"
  shows "kern_inv (mark_blocked r s) xs"
proof -
  have "state (pcbs s r) \<noteq> PROCESS_DEAD"
    using assms by (auto simp: kern_inv_def core_inv_def live_def)
  with assms show ?thesis
    by (auto simp: kern_inv_def mark_blocked_def core_inv_upd_keep run_ok_def)
qed

lemma kern_inv_upd_tcb [simp]: "kern_inv (upd_tcb i f s) xs = kern_inv s xs"
  by (simp add: kern_inv_def)

lemma mutex_lock_contended:
  assumes inv: "kern_inv s xs" and cur: "current_pcb s = Some (Tcb i)" and idle: "idle_pcb s = Some d"
    and ne: "d \<noteq> Tcb i" and held: "lock m \<noteq> 0" and ws: "wait_list (tcbs s) (waiters m) ws"
    and fresh: "i \<notin> set ws"
  shows "\<exists>m' t. mutex_lock m s = Some (Suspended m' t) \<and> lock m' = 1
     \<and> wait_list (tcbs t) (waiters m') (i # ws) \<and> kern_inv t xs
     \<and> state (pcbs t (Tcb i)) = PROCESS_BLOCKED \<and> current_pcb t \<noteq> Some (Tcb i)"
proof -
  let ?m = "m\<lparr>lock := 1, waiters := Some i\<rparr>"
  let ?s = "upd_tcb i (\<lambda>t. t\<lparr>wait_next := waiters m\<rparr>) (mark_blocked (Tcb i) s)"
  have iq: "Tcb i \<in> set xs" using inv cur by (auto simp: kern_inv_def run_ok_def)
  have kinv: "kern_inv ?s xs" using mark_blocked_kern_inv [OF inv iq] by simp
  have c: "current_pcb ?s = Some (Tcb i)" and d: "idle_pcb ?s = Some d"
    using cur idle by (simp_all add: mark_blocked_def)
  have blocked: "state (pcbs ?s (Tcb i)) = PROCESS_BLOCKED" by (simp add: mark_blocked_def)
  let ?n = "sched_choice ?s xs (Tcb i) d"
  have n: "?n \<noteq> Tcb i"
    using blocked ne by (auto simp: sched_choice_def ready_def split: option.splits dest: find_Some_in)
  have "queue ?s xs" using kinv by (simp add: kern_inv_def core_inv_def)
  from schedule_eq [OF this c d iq] n
  have sch: "schedule ?s = Some (Switches (switch_to (Tcb i) ?n ?s))" by simp
  have "mutex_lock m s = Some (Suspended ?m (switch_to (Tcb i) ?n ?s))"
    using held cur sch
    by (subst mutex_lock.simps)
      (simp add: test_and_set_def get_current_process_def push_waiter_def)
  moreover have "kern_inv (switch_to (Tcb i) ?n ?s) xs"
    by (rule switch_to_inv [OF kinv c sched_choice_in [OF kinv c d] n])
  moreover have "wait_list (tcbs (switch_to (Tcb i) ?n ?s)) (Some i) (i # ws)"
    using ws fresh by (simp add: switch_to_def mark_blocked_def wait_list_upd)
  moreover have "state (pcbs (switch_to (Tcb i) ?n ?s) (Tcb i)) = PROCESS_BLOCKED"
    using blocked n by (auto simp: switch_to_def)
  moreover have "current_pcb (switch_to (Tcb i) ?n ?s) \<noteq> Some (Tcb i)"
    using n by (simp add: switch_to_def)
  ultimately show ?thesis by (intro exI [of _ ?m]) auto
qed

lemma mutex_unlock_wakes:
  assumes inv: "kern_inv s xs" and ws: "wait_list (tcbs s) (waiters m) (w # ws)"
    and w: "Tcb w \<in> set xs" "current_pcb s \<noteq> Some (Tcb w)"
  shows "\<exists>m' t. mutex_unlock m s = (m', t) \<and> lock m' = 0 \<and> wait_list (tcbs t) (waiters m') ws
     \<and> ready t (Tcb w) \<and> kern_inv t xs
     \<and> (\<forall>r. r \<noteq> Tcb w \<longrightarrow> state (pcbs t r) = state (pcbs s r))"
proof -
  let ?u = "upd_tcb w (\<lambda>t. t\<lparr>wait_next := None\<rparr>) s"
  let ?t = "upd_pcb (Tcb w) (\<lambda>c. c\<lparr>state := PROCESS_READY\<rparr>) ?u"
  let ?m = "m\<lparr>lock := 0, waiters := wait_next (tcbs s w)\<rparr>"
  have "mutex_unlock m s = (?m, ?t)"
    using ws by (simp add: mutex_unlock_def wake_one_def)
  moreover have "w \<notin> set ws" using ws wait_list_head [of "tcbs s" w ws] by simp
  then have "wait_list (tcbs ?t) (waiters ?m) ws" using ws by (simp add: wait_list_upd)
  moreover have "kern_inv ?t xs"
  proof -
    have "state (pcbs s (Tcb w)) \<noteq> PROCESS_DEAD"
      using inv w by (auto simp: kern_inv_def core_inv_def live_def)
    then show ?thesis
      using inv by (auto simp: kern_inv_def core_inv_upd_keep run_ok_def)
  qed
  ultimately show ?thesis by (auto simp: ready_def)
qed

section \<open>Threads that contend for a mutex, with interrupts in between\<close>

text \<open>
  Where a thread is, one place in front of each statement of the two functions: outside; before the exchange
  of \<open>mutex_lock\<close>; before marking itself blocked, before linking itself to the first waiter, before becoming
  the first waiter and before \<^verbatim>\<open>schedule\<close>; inside the critical section; in \<open>mutex_unlock\<close> behind the
  release of the lock before the test of \<^verbatim>\<open>m->waiters\<close>, before reading it into \<^verbatim>\<open>waiter\<close>, and with that local
  variable before each of the three assignments that take the waiter off the list and wake it.
\<close>

datatype mutex_pc =
    Outside | Trying | Marking | Linking | Pushing | Yielding
  | Inside | Waking | Picking | Popping "nat option" | Erasing nat | Readying nat

record msys =
  mtx :: mutex
  ker :: kern
  mpc :: "pcb_ref \<Rightarrow> mutex_pc"

text \<open>
  The actions: the current thread does its next statement (it chooses to lock or to unlock where
  the code of the thread would), or the timer interrupts it and the scheduler runs. A statement
  that writes behind the end of a plain process, or reads through \<^verbatim>\<open>waiter\<close> when that is NULL, has no
  defined outcome: \<open>None\<close>.
\<close>

datatype mutex_action = Step | Tick uint32_t

fun mutex_step :: "pcb_ref \<Rightarrow> msys \<Rightarrow> msys option" where
  "mutex_step c s =
     (case mpc s c of
        Outside \<Rightarrow> Some (s\<lparr>mpc := (mpc s)(c := Trying)\<rparr>)
      | Trying \<Rightarrow>
          (let (old, m) = test_and_set (mtx s)
           in Some (s\<lparr>mtx := m, mpc := (mpc s)(c := (if old = 0 then Inside else Marking))\<rparr>))
      | Marking \<Rightarrow> Some (s\<lparr>ker := mark_blocked c (ker s), mpc := (mpc s)(c := Linking)\<rparr>)
      | Linking \<Rightarrow>
          (case c of
             Pcb _ \<Rightarrow> None
           | Tcb i \<Rightarrow> Some (s\<lparr>ker := upd_tcb i (\<lambda>t. t\<lparr>wait_next := waiters (mtx s)\<rparr>) (ker s),
                              mpc := (mpc s)(c := Pushing)\<rparr>))
      | Pushing \<Rightarrow>
          (case c of
             Pcb _ \<Rightarrow> None
           | Tcb i \<Rightarrow> Some (s\<lparr>mtx := (mtx s)\<lparr>waiters := Some i\<rparr>, mpc := (mpc s)(c := Yielding)\<rparr>))
      | Yielding \<Rightarrow>
          map_option (\<lambda>fl. s\<lparr>ker := flow_state fl, mpc := (mpc s)(c := Trying)\<rparr>)
            (schedule (ker s))
      | Inside \<Rightarrow> Some (s\<lparr>mtx := (mtx s)\<lparr>lock := 0\<rparr>, mpc := (mpc s)(c := Waking)\<rparr>)
      | Waking \<Rightarrow>
          Some (s\<lparr>mpc := (mpc s)(c := (if waiters (mtx s) = None then Outside else Picking))\<rparr>)
      | Picking \<Rightarrow> Some (s\<lparr>mpc := (mpc s)(c := Popping (waiters (mtx s)))\<rparr>)
      | Popping w \<Rightarrow>
          map_option (\<lambda>i. s\<lparr>mtx := (mtx s)\<lparr>waiters := wait_next (tcbs (ker s) i)\<rparr>,
                            mpc := (mpc s)(c := Erasing i)\<rparr>) w
      | Erasing i \<Rightarrow>
          Some (s\<lparr>ker := upd_tcb i (\<lambda>t. t\<lparr>wait_next := None\<rparr>) (ker s), mpc := (mpc s)(c := Readying i)\<rparr>)
      | Readying i \<Rightarrow>
          Some (s\<lparr>ker := upd_pcb (Tcb i) (\<lambda>c. c\<lparr>state := PROCESS_READY\<rparr>) (ker s),
                  mpc := (mpc s)(c := Outside)\<rparr>))"

declare mutex_step.simps [simp del]

fun mutex_act :: "mutex_action \<Rightarrow> msys \<Rightarrow> msys option" where
  "mutex_act Step s = Option.bind (current_pcb (ker s)) (\<lambda>c. mutex_step c s)"
| "mutex_act (Tick e) s = map_option (\<lambda>k. s\<lparr>ker := k\<rparr>) (tick e (ker s))"

inductive mutex_reach :: "msys \<Rightarrow> msys \<Rightarrow> bool" for s0 where
  start: "mutex_reach s0 s0"
| action: "mutex_reach s0 s \<Longrightarrow> mutex_act a s = Some t \<Longrightarrow> mutex_reach s0 t"

fun mutex_acts :: "mutex_action list \<Rightarrow> msys \<Rightarrow> msys option" where
  "mutex_acts [] s = Some s"
| "mutex_acts (a # as) s = Option.bind (mutex_act a s) (mutex_acts as)"

lemma mutex_reach_step:
  assumes "mutex_act a s = Some s'" "mutex_reach s' t"
  shows "mutex_reach s t"
  using assms(2) assms(1)
  by (induction rule: mutex_reach.induct) (auto intro: mutex_reach.intros)

lemma mutex_acts_reach: "mutex_acts as s = Some t \<Longrightarrow> mutex_reach s t"
proof (induction as arbitrary: s)
  case Nil
  then show ?case by (simp add: mutex_reach.start)
next
  case (Cons a as)
  then obtain s' where "mutex_act a s = Some s'" "mutex_acts as s' = Some t"
    by (auto simp: bind_eq_Some_conv)
  with Cons.IH show ?case using mutex_reach_step by blast
qed

text \<open>The lock word says whether a thread is inside, and no two threads are.\<close>

definition exclusive :: "msys \<Rightarrow> bool" where
  "exclusive s \<longleftrightarrow> (\<forall>r q. mpc s r = Inside \<and> mpc s q = Inside \<longrightarrow> r = q)
     \<and> (lock (mtx s) = 0 \<longleftrightarrow> (\<forall>r. mpc s r \<noteq> Inside))"

lemma exclusive_same:
  assumes "exclusive s" "mpc s c \<noteq> Inside" "mpc t = (mpc s)(c := x)" "x \<noteq> Inside"
    and "lock (mtx t) = 0 \<longleftrightarrow> lock (mtx s) = 0"
  shows "exclusive t"
proof -
  have "mpc t r = Inside \<longleftrightarrow> mpc s r = Inside" for r using assms(2-4) by auto
  with assms(1,5) show ?thesis by (simp add: exclusive_def)
qed

lemma mutex_step_exclusive:
  assumes "exclusive s" "mutex_step c s = Some t"
  shows "exclusive t"
proof (cases "mpc s c")
  case Trying
  show ?thesis
  proof (cases "lock (mtx s) = 0")
    case True
    with assms Trying have "mpc t r = Inside \<longleftrightarrow> r = c" "lock (mtx t) = 1" for r
      by (auto simp: mutex_step.simps test_and_set_def exclusive_def split: if_splits)
    then show ?thesis by (simp add: exclusive_def)
  next
    case False
    with assms Trying show ?thesis
      by (intro exclusive_same [of s c t Marking]) (auto simp: mutex_step.simps test_and_set_def)
  qed
next
  case Inside
  with assms have "mpc t r \<noteq> Inside" "lock (mtx t) = 0" for r
    by (auto simp: mutex_step.simps exclusive_def split: if_splits)
  then show ?thesis by (simp add: exclusive_def)
next
  case Outside
  with assms show ?thesis
    by (intro exclusive_same [of s c t Trying]) (auto simp: mutex_step.simps)
next
  case Marking
  with assms show ?thesis
    by (intro exclusive_same [of s c t Linking]) (auto simp: mutex_step.simps)
next
  case Linking
  with assms show ?thesis
    by (intro exclusive_same [of s c t Pushing]) (auto simp: mutex_step.simps split: pcb_ref.splits)
next
  case Pushing
  with assms show ?thesis
    by (intro exclusive_same [of s c t Yielding]) (auto simp: mutex_step.simps split: pcb_ref.splits)
next
  case Yielding
  with assms show ?thesis
    by (intro exclusive_same [of s c t Trying]) (auto simp: mutex_step.simps)
next
  case Waking
  with assms show ?thesis
    by (intro exclusive_same [of s c t "mpc t c"]) (auto simp: mutex_step.simps split: if_splits)
next
  case Picking
  with assms show ?thesis
    by (intro exclusive_same [of s c t "mpc t c"]) (auto simp: mutex_step.simps)
next
  case (Popping w)
  with assms show ?thesis
    by (intro exclusive_same [of s c t "mpc t c"]) (auto simp: mutex_step.simps)
next
  case (Erasing i)
  with assms show ?thesis
    by (intro exclusive_same [of s c t "Readying i"]) (auto simp: mutex_step.simps)
next
  case (Readying i)
  with assms show ?thesis
    by (intro exclusive_same [of s c t Outside]) (auto simp: mutex_step.simps)
qed

lemma mutex_act_exclusive: "exclusive s \<Longrightarrow> mutex_act a s = Some t \<Longrightarrow> exclusive t"
proof (cases a)
  case (Tick e)
  moreover assume "exclusive s" "mutex_act a s = Some t"
  ultimately show ?thesis by (auto simp: exclusive_def)
qed (auto simp: bind_eq_Some_conv intro: mutex_step_exclusive)

lemma mutex_reach_exclusive: "mutex_reach s0 s \<Longrightarrow> exclusive s0 \<Longrightarrow> exclusive s"
  by (induction rule: mutex_reach.induct) (auto intro: mutex_act_exclusive)

text \<open>The same statements, run without an interrupt, are the functions of the code.\<close>

lemma mutex_step_unlock:
  assumes "mpc s c = Inside" "current_pcb (ker s) = Some c"
  shows "mutex_acts (replicate (if waiters (mtx s) = None then 2 else 6) Step) s =
    (let (m, k) = mutex_unlock (mtx s) (ker s) in Some (s\<lparr>mtx := m, ker := k, mpc := (mpc s)(c := Outside)\<rparr>))"
  using assms
  by (cases "waiters (mtx s)")
    (simp_all add: mutex_step.simps mutex_unlock_def wake_one_def numeral_eq_Suc)

lemma mutex_step_wait:
  assumes "mpc s (Tcb i) = Trying" "current_pcb (ker s) = Some (Tcb i)" "lock (mtx s) \<noteq> 0"
    and "push_waiter (Tcb i) (snd (test_and_set (mtx s))) (mark_blocked (Tcb i) (ker s)) = Some (m, k)"
  shows "mutex_acts (replicate 4 Step) s = Some (s\<lparr>mtx := m, ker := k, mpc := (mpc s)(Tcb i := Yielding)\<rparr>)"
  using assms
  by (auto simp: mutex_step.simps test_and_set_def push_waiter_def mark_blocked_def numeral_eq_Suc)

text \<open>The interleaved statements keep the process table and the links of the wait list sound.\<close>

definition waits_live :: "msys \<Rightarrow> pcb_ref list \<Rightarrow> bool" where
  "waits_live s xs \<longleftrightarrow> (\<forall>w. waiters (mtx s) = Some w \<longrightarrow> Tcb w \<in> set xs)
     \<and> (\<forall>i w. wait_next (tcbs (ker s) i) = Some w \<longrightarrow> Tcb w \<in> set xs)
     \<and> (\<forall>r w. mpc s r \<in> {Popping (Some w), Erasing w, Readying w} \<longrightarrow> Tcb w \<in> set xs)"

definition msys_inv :: "msys \<Rightarrow> pcb_ref list \<Rightarrow> bool" where
  "msys_inv s xs \<longleftrightarrow> kern_inv (ker s) xs \<and> waits_live s xs"

lemma kern_inv_wake:
  assumes "kern_inv s xs" "Tcb w \<in> set xs"
  shows "kern_inv (upd_pcb (Tcb w) (\<lambda>c. c\<lparr>state := PROCESS_READY\<rparr>) s) xs"
proof -
  have "state (pcbs s (Tcb w)) \<noteq> PROCESS_DEAD"
    using assms by (auto simp: kern_inv_def core_inv_def live_def)
  with assms show ?thesis by (auto simp: kern_inv_def core_inv_upd_keep run_ok_def)
qed

lemma schedule_state:
  assumes "kern_inv s xs" "schedule s = Some fl"
  shows "kern_inv (flow_state fl) xs" "tcbs (flow_state fl) = tcbs s"
    and "idle_pcb (flow_state fl) = idle_pcb s"
    and "idle_pcb s \<noteq> Some r \<Longrightarrow> state (pcbs s r) = PROCESS_BLOCKED \<Longrightarrow>
           state (pcbs (flow_state fl) r) = PROCESS_BLOCKED"
proof -
  from assms(1) obtain c d where cd: "current_pcb s = Some c" "idle_pcb s = Some d" "c \<in> set xs"
    and q: "queue s xs" by (auto simp: kern_inv_def run_ok_def core_inv_def)
  let ?n = "sched_choice s xs c d"
  have fl: "flow_state fl = (if ?n = c then s else switch_to c ?n s)"
    using schedule_eq [OF q cd(1,2,3)] assms(2) by auto
  show "kern_inv (flow_state fl) xs"
    using assms(1) switch_to_inv [OF assms(1) cd(1) sched_choice_in [OF assms(1) cd(1,2)]] fl by simp
  show "tcbs (flow_state fl) = tcbs s" "idle_pcb (flow_state fl) = idle_pcb s"
    using fl by (simp_all add: switch_to_def)
  show "state (pcbs (flow_state fl) r) = PROCESS_BLOCKED"
    if "idle_pcb s \<noteq> Some r" "state (pcbs s r) = PROCESS_BLOCKED"
  proof -
    have "?n \<noteq> r"
      using that cd(2) by (auto simp: sched_choice_def ready_def split: option.splits dest: find_Some_in)
    with that fl show ?thesis by (cases "r = c") (auto simp: switch_to_def)
  qed
qed

lemma schedule_total: "kern_inv s xs \<Longrightarrow> \<exists>fl. schedule s = Some fl"
  using schedule_eq [of s xs] by (auto simp: kern_inv_def run_ok_def core_inv_def)

lemma tick_state:
  assumes "kern_inv s xs" "tick e s = Some t"
  shows "kern_inv t xs" "tcbs t = tcbs s" "idle_pcb t = idle_pcb s"
    and "idle_pcb s \<noteq> Some r \<Longrightarrow> state (pcbs s r) = PROCESS_BLOCKED \<Longrightarrow>
           state (pcbs t r) = PROCESS_BLOCKED"
proof -
  obtain fl where fl: "schedule (s\<lparr>cpu_esp := e\<rparr>) = Some fl" "t = flow_state fl"
    using assms(2) by (auto simp: tick_def)
  have k: "kern_inv (s\<lparr>cpu_esp := e\<rparr>) xs" using assms(1) by simp
  note st = schedule_state [OF k fl(1)]
  show "kern_inv t xs" "tcbs t = tcbs s" "idle_pcb t = idle_pcb s" using st fl(2) by simp_all
  show "idle_pcb s \<noteq> Some r \<Longrightarrow> state (pcbs s r) = PROCESS_BLOCKED \<Longrightarrow>
           state (pcbs t r) = PROCESS_BLOCKED" using st(4) [of r] fl(2) by simp
qed

lemma ticks_blocked:
  assumes "kern_inv s xs" "idle_pcb s \<noteq> Some r" "state (pcbs s r) = PROCESS_BLOCKED"
    and "ticks es s = Some t"
  shows "state (pcbs t r) = PROCESS_BLOCKED"
  using assms
proof (induction es arbitrary: s)
  case (Cons e es)
  then obtain s1 where s1: "tick e s = Some s1" "ticks es s1 = Some t"
    by (auto simp: bind_eq_Some_conv)
  from tick_state [OF Cons.prems(1) s1(1)] Cons.IH [OF _ _ _ s1(2)] Cons.prems(2,3) show ?case by simp
qed simp

lemma mutex_step_inv:
  assumes inv: "msys_inv s xs" and c: "current_pcb (ker s) = Some c" and t: "mutex_step c s = Some t"
  shows "msys_inv t xs"
proof -
  have k: "kern_inv (ker s) xs" and w: "waits_live s xs" using inv by (simp_all add: msys_inv_def)
  have cx: "c \<in> set xs" using k c by (auto simp: kern_inv_def run_ok_def)
  show ?thesis
  proof (cases "mpc s c")
    case Marking
    with t k w mark_blocked_kern_inv [OF k cx] show ?thesis
      by (auto simp: mutex_step.simps msys_inv_def waits_live_def mark_blocked_def split: if_splits)
  next
    case Linking
    with t k w cx show ?thesis
      by (auto simp: mutex_step.simps msys_inv_def waits_live_def split: pcb_ref.splits if_splits)
  next
    case Pushing
    with t k w cx show ?thesis
      by (auto simp: mutex_step.simps msys_inv_def waits_live_def split: pcb_ref.splits if_splits)
  next
    case Yielding
    with t obtain fl where "schedule (ker s) = Some fl"
      and "t = s\<lparr>ker := flow_state fl, mpc := (mpc s)(c := Trying)\<rparr>"
      by (auto simp: mutex_step.simps)
    with schedule_state [OF k] w show ?thesis
      by (auto simp: msys_inv_def waits_live_def split: if_splits)
  next
    case (Popping v)
    with w have "\<forall>i. v = Some i \<longrightarrow> Tcb i \<in> set xs" by (auto simp: waits_live_def)
    with Popping t k w show ?thesis
      by (auto simp: mutex_step.simps msys_inv_def waits_live_def split: if_splits)
  next
    case (Erasing i)
    with w have "Tcb i \<in> set xs" by (auto simp: waits_live_def)
    with Erasing t k w show ?thesis
      by (auto simp: mutex_step.simps msys_inv_def waits_live_def split: if_splits)
  next
    case (Readying i)
    with w have "Tcb i \<in> set xs" by (auto simp: waits_live_def)
    from kern_inv_wake [OF k this] Readying t w show ?thesis
      by (auto simp: mutex_step.simps msys_inv_def waits_live_def split: if_splits)
  qed (use t k w in \<open>auto simp: mutex_step.simps test_and_set_def msys_inv_def waits_live_def
      split: if_splits\<close>)
qed

lemma mutex_act_inv:
  assumes "msys_inv s xs" "mutex_act a s = Some t"
  shows "msys_inv t xs"
proof (cases a)
  case Step
  with assms show ?thesis by (auto simp: bind_eq_Some_conv intro: mutex_step_inv)
next
  case (Tick e)
  with assms(2) obtain k where "tick e (ker s) = Some k" "t = s\<lparr>ker := k\<rparr>" by auto
  with tick_state [of "ker s" xs e k] assms(1) show ?thesis
    by (simp add: msys_inv_def waits_live_def)
qed

lemma mutex_reach_inv: "mutex_reach s0 s \<Longrightarrow> msys_inv s0 xs \<Longrightarrow> msys_inv s xs"
  by (induction rule: mutex_reach.induct) (auto intro: mutex_act_inv)

lemma mutex_step_total:
  assumes "kern_inv (ker s) xs" "mpc s (Tcb i) \<noteq> Popping None"
  shows "\<exists>t. mutex_step (Tcb i) s = Some t"
  using schedule_total [OF assms(1)] assms(2)
  by (cases "mpc s (Tcb i)") (auto simp: mutex_step.simps test_and_set_def)

section \<open>Properties\<close>

text \<open>A thread that finds the mutex free gets it at once and nothing else changes; one that
  finds it held is suspended: it is blocked, first on the wait list, another process runs, the
  lock stays held and the invariant of the process table is kept. \<open>mutex_lock\<close> never loops
  without giving the processor away.\<close>

theorem mutex_lock_correct:
  assumes "kern_inv s xs" "current_pcb s = Some (Tcb i)" "idle_pcb s = Some d" "d \<noteq> Tcb i"
    and "wait_list (tcbs s) (waiters m) ws" "i \<notin> set ws"
  shows "if lock m = 0 then mutex_lock m s = Some (Acquired (m\<lparr>lock := 1\<rparr>) s)
    else (\<exists>m' t. mutex_lock m s = Some (Suspended m' t) \<and> lock m' = 1
       \<and> wait_list (tcbs t) (waiters m') (i # ws) \<and> kern_inv t xs
       \<and> state (pcbs t (Tcb i)) = PROCESS_BLOCKED \<and> current_pcb t \<noteq> Some (Tcb i))"
  using mutex_lock_contended [OF assms(1-4) _ assms(5,6)]
  by (auto simp: mutex_lock.simps [of m s] test_and_set_def)

definition demo_thread_runs :: kern where
  "demo_thread_runs = switch_to (Pcb 7) (Tcb 0) demo_kern"

lemma demo_thread_runs_inv: "kern_inv demo_thread_runs demo_queue"
  unfolding demo_thread_runs_def by (rule switch_to_inv [OF demo_inv]) simp_all

lemma demo_thread_runs_current [simp]:
  "current_pcb demo_thread_runs = Some (Tcb 0)" "idle_pcb demo_thread_runs = Some (Pcb 0)"
  by (simp_all add: demo_thread_runs_def switch_to_def)

theorem mutex_lock_correct_witness:
  "\<exists>m' t. mutex_lock \<lparr> lock = 1, waiters = None \<rparr> demo_thread_runs = Some (Suspended m' t)
     \<and> state (pcbs t (Tcb 0)) = PROCESS_BLOCKED"
  using mutex_lock_correct [OF demo_thread_runs_inv, of 0 "Pcb 0" "\<lparr> lock = 1, waiters = None \<rparr>" "[]"]
  by auto

text \<open>\<open>mutex_unlock\<close> frees the lock and makes the thread that blocked last ready again, taking
  it off the wait list; the states of all other threads and the invariant are kept.\<close>

theorem mutex_unlock_correct:
  assumes "kern_inv s xs" "wait_list (tcbs s) (waiters m) (w # ws)"
    and "Tcb w \<in> set xs" "current_pcb s \<noteq> Some (Tcb w)"
  shows "\<exists>m' t. mutex_unlock m s = (m', t) \<and> lock m' = 0 \<and> wait_list (tcbs t) (waiters m') ws
     \<and> ready t (Tcb w) \<and> kern_inv t xs
     \<and> (\<forall>r. r \<noteq> Tcb w \<longrightarrow> state (pcbs t r) = state (pcbs s r))"
  using assms by (rule mutex_unlock_wakes)

theorem mutex_unlock_correct_witness:
  "\<exists>m' t. mutex_unlock \<lparr> lock = 1, waiters = Some 0 \<rparr> (mark_blocked (Tcb 0) demo_kern) = (m', t)
     \<and> ready t (Tcb 0)"
proof -
  have "kern_inv (mark_blocked (Tcb 0) demo_kern) demo_queue"
    by (rule mark_blocked_kern_inv [OF demo_inv]) simp
  from mutex_unlock_correct [OF this, of "\<lparr> lock = 1, waiters = Some 0 \<rparr>" 0 "[]"] show ?thesis
    by (auto simp: mark_blocked_def demo_kern_def)
qed

text \<open>C23: mutual exclusion: however many threads use the mutex, and wherever timer interrupts
  switch between them, between any two statements of \<open>mutex_lock\<close> and \<open>mutex_unlock\<close>, at most one
  thread is ever inside the critical section, and the lock word is 0 exactly when none is. The
  exchange is one instruction of the processor.\<close>

theorem mutex_mutual_exclusion:
  assumes "mutex_reach s0 s" "exclusive s0"
  shows "(mpc s r = Inside \<and> mpc s q = Inside \<longrightarrow> r = q)
    \<and> (lock (mtx s) = 0 \<longleftrightarrow> (\<forall>r. mpc s r \<noteq> Inside))"
  using mutex_reach_exclusive [OF assms] unfolding exclusive_def by blast

text \<open>Two threads and the idle process; thread 0 runs.\<close>

definition duel_kern :: "pmm \<Rightarrow> kern" where
  "duel_kern m = \<lparr>
     pcbs = (\<lambda>_. dead_pcb)
       (Pcb 0 := demo_pcb 1 PROCESS_READY 0x4000 (Some (Tcb 0)),
        Tcb 0 := demo_pcb 0 PROCESS_RUNNING 0x6000 (Some (Tcb 5)),
        Tcb 5 := demo_pcb 0 PROCESS_READY 0x8000 None),
     tcbs = (\<lambda>_. \<lparr> tid = 1, parent = Some (Pcb 0), wait_next = None \<rparr>),
     tcb_pool_initialized = True, next_pid = 1, next_tid = 2, run_queue = Some (Pcb 0),
     current_pcb = Some (Tcb 0), idle_pcb = Some (Pcb 0), pm = m, ram = (\<lambda>_. 0x100000),
     cpu_esp = 0x6F00, cpu_eip = 0x100000 \<rparr>"

definition duel :: "pmm \<Rightarrow> msys" where
  "duel m = \<lparr> mtx = \<lparr> lock = 0, waiters = None \<rparr>, ker = duel_kern m, mpc = (\<lambda>_. Outside) \<rparr>"

lemma duel_exclusive: "exclusive (duel m)"
  by (simp add: exclusive_def duel_def)

lemma duel_inv: "msys_inv (duel demo_pmm) [Pcb 0, Tcb 0, Tcb 5]"
proof -
  let ?k = "duel_kern demo_pmm" and ?q = "[Pcb 0, Tcb 0, Tcb 5]"
  have q: "queue ?k ?q" by (simp add: queue_def duel_kern_def demo_pcb_def)
  have st: "state (pcbs ?k (Pcb 0)) = PROCESS_READY" "state (pcbs ?k (Tcb 0)) = PROCESS_RUNNING"
    "state (pcbs ?k (Tcb 5)) = PROCESS_READY"
    and init: "tcb_pool_initialized ?k"
    by (simp_all add: duel_kern_def demo_pcb_def)
  have dead: "state (pcbs ?k r) = PROCESS_DEAD" if "r \<notin> set ?q" for r
    using that by (simp add: duel_kern_def dead_pcb_def)
  have "live ?k = set ?q"
    using st init dead by (auto simp: live_def MAX_PROCESSES_def MAX_THREADS_def)
  moreover have "stack_ok demo_pmm a" if "a \<in> {0x4000, 0x6000, 0x8000}" for a
    using that by (auto simp: stack_ok_def demo_pmm_free pmm_managed_def) (simp_all add: demo_pmm_def)
  moreover have "stack_base (pcbs ?k (Pcb 0)) = 0x4000"
    "stack_base (pcbs ?k (Tcb 0)) = 0x6000" "stack_base (pcbs ?k (Tcb 5)) = 0x8000"
    "pm ?k = demo_pmm" "current_pcb ?k = Some (Tcb 0)" "idle_pcb ?k = Some (Pcb 0)"
    by (simp_all add: duel_kern_def demo_pcb_def)
  ultimately have "kern_inv ?k ?q"
    using q st demo_pmm_ready by (simp add: kern_inv_def core_inv_def run_ok_def)
  then show ?thesis by (simp add: msys_inv_def duel_def waits_live_def duel_kern_def)
qed

text \<open>Thread 0 is inside when the timer lets thread 5 try; thread 5 fails, is about to mark itself
  blocked, and is not inside.\<close>

definition contended :: "mutex_action list" where
  "contended = [Step, Step, Tick 0x6F00, Step, Step]"

lemma contended_run:
  "map_option (\<lambda>s. (lock (mtx s), mpc s (Tcb 0), mpc s (Tcb 5))) (mutex_acts contended (duel m))
   = Some (1, Inside, Marking)"
  by code_simp

theorem mutex_mutual_exclusion_witness:
  "\<exists>s. mutex_acts contended (duel demo_pmm) = Some s \<and> mpc s (Tcb 0) = Inside \<and> mpc s (Tcb 5) = Marking
     \<and> lock (mtx s) \<noteq> 0 \<and> (\<forall>q. mpc s q = Inside \<longrightarrow> q = Tcb 0)"
proof -
  obtain s where s: "mutex_acts contended (duel demo_pmm) = Some s" "mpc s (Tcb 0) = Inside"
    "mpc s (Tcb 5) = Marking"
    using contended_run [of demo_pmm] by (auto simp only: map_option_eq_Some prod.inject)
  note ex = mutex_mutual_exclusion [OF mutex_acts_reach [OF s(1)] duel_exclusive]
  have "q = Tcb 0" if "mpc s q = Inside" for q using ex [of q "Tcb 0"] that s(2) by blast
  moreover have "lock (mtx s) \<noteq> 0" using ex s(2) by blast
  ultimately show ?thesis using s by blast
qed

text \<open>Under every interleaving the process table stays sound, the wait list holds queued
  threads only, and a thread can do its next statement unless that reads through a NULL \<^verbatim>\<open>waiter\<close>:
  \<open>mutex_unlock\<close> tests \<^verbatim>\<open>m->waiters\<close> and reads it again in the next statement, and another thread may have taken the
  last waiter in between.\<close>

theorem mutex_interleaving_sound:
  assumes "mutex_reach s0 s" "msys_inv s0 xs"
  shows "kern_inv (ker s) xs
    \<and> (\<forall>w. waiters (mtx s) = Some w \<longrightarrow> Tcb w \<in> set xs)
    \<and> (mpc s (Tcb i) \<noteq> Popping None \<longrightarrow> (\<exists>t. mutex_step (Tcb i) s = Some t))
    \<and> (\<exists>t. mutex_act (Tick e) s = Some t)"
proof -
  have "msys_inv s xs" using mutex_reach_inv assms by blast
  then have k: "kern_inv (ker s) xs" and w: "waits_live s xs" by (simp_all add: msys_inv_def)
  have "kern_inv ((ker s)\<lparr>cpu_esp := e\<rparr>) xs" using k by simp
  from schedule_total [OF this] have "\<exists>t. mutex_act (Tick e) s = Some t" by (auto simp: tick_def)
  with k w mutex_step_total [OF k] show ?thesis by (auto simp: waits_live_def)
qed

theorem mutex_interleaving_sound_witness:
  "kern_inv (ker (duel demo_pmm)) [Pcb 0, Tcb 0, Tcb 5]"
  using mutex_interleaving_sound [OF mutex_reach.start duel_inv] by blast

text \<open>Three threads get there: thread 5 waits for thread 0, which unlocks and is interrupted behind its
  test; thread 9 locks, unlocks and wakes thread 5; thread 0 then reads NULL.\<close>

definition trio :: "pmm \<Rightarrow> msys" where
  "trio m = (duel m)\<lparr>ker := (duel_kern m)\<lparr>pcbs := (pcbs (duel_kern m))
     (Tcb 5 := demo_pcb 0 PROCESS_READY 0x8000 (Some (Tcb 9)),
      Tcb 9 := demo_pcb 0 PROCESS_READY 0xA000 None)\<rparr>\<rparr>"

definition null_race :: "mutex_action list" where
  "null_race = [Step, Step, Tick 0x6F00] @ replicate 5 Step @ [Step]
     @ [Tick 0xAF00, Tick 0x4F00] @ [Step, Step]
     @ [Tick 0x6F00] @ replicate 2 Step @ replicate 6 Step
     @ [Tick 0xAF00, Tick 0x4F00, Step]"

lemma null_race_run:
  "map_option (\<lambda>s. (current_pcb (ker s), mpc s (Tcb 0), waiters (mtx s))) (mutex_acts null_race (trio m))
   = Some (Some (Tcb 0), Popping None, None)"
  by code_simp

theorem mutex_unlock_reads_null:
  "\<exists>s. mutex_reach (trio m) s \<and> current_pcb (ker s) = Some (Tcb 0) \<and> mpc s (Tcb 0) = Popping None
     \<and> mutex_act Step s = None"
proof -
  obtain s where s: "mutex_acts null_race (trio m) = Some s" "current_pcb (ker s) = Some (Tcb 0)"
    "mpc s (Tcb 0) = Popping None"
    using null_race_run [of m] by (auto simp only: map_option_eq_Some prod.inject)
  then have "mutex_act Step s = None" by (simp add: mutex_step.simps)
  with s mutex_acts_reach [OF s(1)] show ?thesis by blast
qed

text \<open>A wake-up that is lost: thread 5 is interrupted between the failed exchange and the three
  statements that put it on the wait list, and thread 0 unlocks in between.\<close>

definition lost_wakeup :: "mutex_action list" where
  "lost_wakeup =
    [Step, Step, Tick 0x6F00, Step, Step, Tick 0x8F00, Tick 0x4F00, Step, Step, Tick 0x6F00,
     Step, Step, Step, Step]"

lemma lost_wakeup_run:
  "map_option (\<lambda>s. (lock (mtx s), mpc s (Pcb 0), mpc s (Tcb 0), mpc s (Tcb 5),
       state (pcbs (ker s) (Tcb 5)), idle_pcb (ker s))) (mutex_acts lost_wakeup (duel m))
   = Some (0, Outside, Outside, Trying, PROCESS_BLOCKED, Some (Pcb 0))"
  by code_simp

text \<open>C34: a wake-up can be lost: there is an interleaving of two threads after which nobody is
  inside the mutex and the lock is free, and yet one thread is blocked in \<open>mutex_lock\<close>, and
  stays blocked under any number of further timer ticks.\<close>

theorem mutex_wakeup_can_be_lost:
  "\<exists>s. mutex_reach (duel demo_pmm) s \<and> lock (mtx s) = 0 \<and> mpc s (Tcb 0) = Outside
     \<and> mpc s (Tcb 5) = Trying \<and> state (pcbs (ker s) (Tcb 5)) = PROCESS_BLOCKED
     \<and> (\<forall>es t. ticks es (ker s) = Some t \<longrightarrow> state (pcbs t (Tcb 5)) = PROCESS_BLOCKED)"
proof -
  obtain s where s: "mutex_acts lost_wakeup (duel demo_pmm) = Some s" "lock (mtx s) = 0"
    "mpc s (Tcb 0) = Outside" "mpc s (Tcb 5) = Trying" "state (pcbs (ker s) (Tcb 5)) = PROCESS_BLOCKED"
    "idle_pcb (ker s) = Some (Pcb 0)"
    using lost_wakeup_run [of demo_pmm] by (auto simp only: map_option_eq_Some prod.inject)
  have r: "mutex_reach (duel demo_pmm) s" using s(1) by (rule mutex_acts_reach)
  have k: "kern_inv (ker s) [Pcb 0, Tcb 0, Tcb 5]"
    using mutex_reach_inv [OF r duel_inv] by (simp only: msys_inv_def)
  have "idle_pcb (ker s) \<noteq> Some (Tcb 5)" using s(6) by simp
  from ticks_blocked [OF k this s(5)] r s show ?thesis by blast
qed

theorem mutex_wakeup_can_be_lost_witness:
  "\<exists>s. mutex_reach (duel demo_pmm) s \<and> state (pcbs (ker s) (Tcb 5)) = PROCESS_BLOCKED"
  using mutex_wakeup_can_be_lost by blast

end
