(* ===== verification/Machine.thy ===== *)
theory Machine
  imports Gdt Idt Pic Pit Serial Keyboard Vga Mutex
begin

text \<open>
  The machine: the state of all components side by side, the devices it talks to, the panic
  handler (\<^verbatim>\<open>src/kernel.c\<close>) and the common interrupt handler with the timer and keyboard handlers
  (\<^verbatim>\<open>src/idt.c\<close>, \<^verbatim>\<open>src/pit.c\<close>, \<^verbatim>\<open>src/keyboard.c\<close>).
\<close>

text \<open>The functions that the kernel registers as IRQ handlers.\<close>

datatype irq_fn = timer_handler_fn | keyboard_handler_fn

record devices =
  uart :: device
  crt :: device
  ps2 :: device

record machine =
  mgdt :: gdt_state
  midt :: "irq_fn idt_state"
  mpic :: io_log
  mpit :: pit
  mserial :: serial
  mkbd :: kbd
  mvga :: vga
  mkern :: kern
  mif :: bool
  mctl :: io_log

text \<open>
  How a function that may not come back ends: normally, by leaving the processor to another
  process (the rest of the function runs when the old process is resumed), or by stopping for
  good. A function that polls a device forever is \<open>None\<close>.
\<close>

datatype outcome = Done machine | Away machine | Stopped machine

fun outcome_state :: "outcome \<Rightarrow> machine" where
  "outcome_state (Done m) = m"
| "outcome_state (Away m) = m"
| "outcome_state (Stopped m) = m"

section \<open>Panic\<close>

definition PANIC_COLOR :: uint8_t where "PANIC_COLOR = 0x4F"

definition kernel_panic :: "devices \<Rightarrow> string \<Rightarrow> machine \<Rightarrow> outcome option" where
  "kernel_panic d message m =
     (let m = m\<lparr>mif := False\<rparr>;
          v = vga_print_color (CHR 0x0A # ''*** KERNEL PANIC: '') PANIC_COLOR (mvga m);
          v = vga_print_color message PANIC_COLOR v;
          v = vga_print_color ('' ***'' @ [CHR 0x0A]) PANIC_COLOR v;
          m = m\<lparr>mvga := v\<rparr>
      in if serial_ready (mserial m) \<noteq> 0
         then map_option (\<lambda>s. Stopped (m\<lparr>mserial := s\<rparr>))
                (Option.bind (serial_print (uart d) (CHR 0x0A # ''*** KERNEL PANIC: '') (mserial m))
                  (\<lambda>s. Option.bind (serial_print (uart d) message s)
                    (serial_print (uart d) ('' ***'' @ [CHR 0x0A]))))
         else Some (Stopped m))"

definition panic_text :: "string \<Rightarrow> string" where
  "panic_text message = CHR 0x0A # ''*** KERNEL PANIC: '' @ message @ '' ***'' @ [CHR 0x0A]"

lemma vga_print_color_append:
  assumes "c_string s"
  shows "vga_print_color t k (vga_print_color s k v) = vga_print_color (s @ t) k v"
proof -
  have same: "vga_color w = k \<Longrightarrow> w\<lparr>vga_color := k\<rparr> = w" for w :: vga by (cases w) simp
  have "vga_color (vc.puts s (v\<lparr>vga_color := k\<rparr>)) = k" by (simp add: vc.puts_colour)
  with assms show ?thesis
    by (simp add: vga_print_color_puts vc.puts_in_def c_string_def vc.puts_append same)
qed

lemma vga_print_color_outside:
  assumes "cursor_ok v" "unat i < 80 \<or> 2000 \<le> unat i"
  shows "vram (vga_print_color s k v) i = vram v i"
  using fun_cong [OF vga_print_facts(5) [OF assms(1)], of s k i] assms(2)
  by (auto simp: vga_frame_def shell_cell_def split: if_splits)

lemma serial_print_append:
  "c_string s \<Longrightarrow> serial_print dev (s @ t) st = Option.bind (serial_print dev s st) (serial_print dev t)"
  by (induction s arbitrary: st) (auto split: option.splits)

lemma kernel_panic_eq:
  assumes "c_string message"
  shows "kernel_panic d message m =
     (if serial_ready (mserial m) \<noteq> 0
      then map_option (\<lambda>s. Stopped (m\<lparr>mif := False,
               mvga := vga_print_color (panic_text message) PANIC_COLOR (mvga m), mserial := s\<rparr>))
             (serial_print (uart d) (panic_text message) (mserial m))
      else Some (Stopped (m\<lparr>mif := False,
               mvga := vga_print_color (panic_text message) PANIC_COLOR (mvga m)\<rparr>)))"
proof -
  let ?a = "CHR 0x0A # ''*** KERNEL PANIC: ''" and ?z = "'' ***'' @ [CHR 0x0A]"
  have a: "c_string ?a" by (simp add: c_string_def)
  have t: "panic_text message = (?a @ message) @ ?z" by (simp add: panic_text_def)
  have v: "vga_print_color ?z k (vga_print_color message k (vga_print_color ?a k w))
      = vga_print_color (panic_text message) k w" for k w
    using a assms by (simp only: t vga_print_color_append c_string_simps simp_thms)
  have s: "serial_print dev (panic_text message) st =
      Option.bind (serial_print dev ?a st) (\<lambda>st. Option.bind (serial_print dev message st)
        (serial_print dev ?z))" for dev st
    using a assms by (simp only: t serial_print_append c_string_simps simp_thms) (simp add: bind_assoc)
  show ?thesis
    unfolding kernel_panic_def Let_def v s by simp
qed

section \<open>Interrupts\<close>

definition timer_handler :: "machine \<Rightarrow> outcome option" where
  "timer_handler m =
     (let m = m\<lparr>mpit := count_tick (mpit m)\<rparr>
      in map_option (\<lambda>fl. case fl of
             Returns k \<Rightarrow> Done (m\<lparr>mkern := k\<rparr>)
           | Switches k \<Rightarrow> Away (m\<lparr>mkern := k\<rparr>)) (schedule (mkern m)))"

lemma timer_handler_done:
  assumes "timer_handler m = Some (Done r)"
  shows "\<exists>k. r = m\<lparr>mpit := count_tick (mpit m), mkern := k\<rparr>"
proof -
  from assms obtain z where "(case z of Returns k \<Rightarrow> Done (m\<lparr>mpit := count_tick (mpit m), mkern := k\<rparr>)
      | Switches k \<Rightarrow> Away (m\<lparr>mpit := count_tick (mpit m), mkern := k\<rparr>)) = Done r"
    by (auto simp: timer_handler_def Let_def)
  then show ?thesis by (cases z) auto
qed

fun irq_call :: "devices \<Rightarrow> irq_fn \<Rightarrow> machine \<Rightarrow> outcome option" where
  "irq_call d timer_handler_fn m = timer_handler m"
| "irq_call d keyboard_handler_fn m = Some (Done (m\<lparr>mkbd := keyboard_handler (ps2 d) (mkbd m)\<rparr>))"

definition common_isr_handler :: "devices \<Rightarrow> registers \<Rightarrow> machine \<Rightarrow> outcome option" where
  "common_isr_handler d regs m =
     (let vec = int_no regs
      in if vec < 32 then kernel_panic d (exception_names ! unat vec) m
         else if vec < 48 then
           (let irq = ucast (vec - 32) :: uint8_t;
                eoi = (\<lambda>m. Done (m\<lparr>mpic := pic_send_eoi irq (mpic m)\<rparr>))
            in case irq_handlers (midt m) ! unat irq of
                 None \<Rightarrow> Some (eoi m)
               | Some h \<Rightarrow>
                   map_option (\<lambda>r. case r of Done m \<Rightarrow> eoi m | Away m \<Rightarrow> Away m | Stopped m \<Rightarrow> Stopped m)
                     (irq_call d h m))
         else Some (Done m))"

section \<open>Properties\<close>

text \<open>A processor exception always panics: interrupts are off, the name of the exception
  appears on the console in the panic colour with the status bar intact, the same text goes out
  on the serial line when it is ready, and the machine stops.\<close>

theorem exceptions_panic:
  assumes "int_no regs < 32" "uart_live (uart d)" "serial_ready (mserial m) \<noteq> 0"
    and "cursor_ok (mvga m)"
  shows "\<exists>t. common_isr_handler d regs m = Some (Stopped t) \<and> \<not> mif t
    \<and> mvga t = vga_print_color (panic_text (exception_names ! unat (int_no regs))) PANIC_COLOR (mvga m)
    \<and> written COM1_BASE (serial_io (mserial t)) = written COM1_BASE (serial_io (mserial m))
        @ map of_char (panic_text (exception_names ! unat (int_no regs)))
    \<and> (\<forall>i. unat i < 80 \<longrightarrow> vram (mvga t) i = vram (mvga m) i) \<and> mkern t = mkern m"
proof -
  let ?msg = "exception_names ! unat (int_no regs)"
  have "unat (int_no regs) < length exception_names" using assms(1) by (simp add: word_less_nat_alt)
  then have "?msg \<in> set exception_names" by (rule nth_mem)
  moreover have "list_all c_string exception_names" by (simp add: exception_names_def c_string_def)
  ultimately have cs: "c_string ?msg" by (simp add: list_all_iff)
  then have "c_string (panic_text ?msg)" by (simp add: panic_text_def c_string_def)
  from serial_print_returns [OF assms(2) this] obtain s where
    s: "serial_print (uart d) (panic_text ?msg) (mserial m) = Some s"
      "written COM1_BASE (serial_io s)
         = written COM1_BASE (serial_io (mserial m)) @ map of_char (panic_text ?msg)" by blast
  have "vram (vga_print_color (panic_text ?msg) PANIC_COLOR (mvga m)) i = vram (mvga m) i"
    if "unat i < 80" for i
    using vga_print_color_outside [OF assms(4)] that by blast
  with s assms(1,3) show ?thesis
    by (simp add: common_isr_handler_def Let_def kernel_panic_eq [OF cs])
qed

definition demo_machine :: machine where
  "demo_machine = \<lparr> mgdt = gdt_boot,
     midt = irq_register_handler 1 keyboard_handler_fn
              (irq_register_handler 0 timer_handler_fn (idt_init (\<lambda>i. 0x100000 + of_nat i) 0x5000 idt_boot)),
     mpic = [], mpit = \<lparr> tick_count = 99, pit_io = [] \<rparr>,
     mserial = \<lparr> serial_ready = 1, serial_io = [] \<rparr>, mkbd = keyboard_init kbd_boot,
     mvga = vga_start, mkern = demo_kern, mif = True, mctl = [] \<rparr>"

definition demo_devices :: devices where
  "demo_devices = \<lparr> uart = busy_uart, crt = (\<lambda>_ _. 0), ps2 = (\<lambda>_ _. 0x1E) \<rparr>"

definition demo_regs :: "uint32_t \<Rightarrow> registers" where
  "demo_regs n = \<lparr> reg_ds = 0x10, reg_edi = 0, reg_esi = 0, reg_ebp = 0, reg_esp_dummy = 0,
     reg_ebx = 0, reg_edx = 0, reg_ecx = 0, reg_eax = 0, int_no = n, err_code = 0,
     reg_eip = 0x100500, reg_cs = 8, reg_eflags = 0x202 \<rparr>"

theorem exceptions_panic_witness:
  "\<exists>t. common_isr_handler demo_devices (demo_regs 14) demo_machine = Some (Stopped t) \<and> \<not> mif t"
  using exceptions_panic [of "demo_regs 14" demo_devices demo_machine] busy_uart_live vga_start_ok
  by (auto simp: demo_regs_def demo_devices_def demo_machine_def)

text \<open>A hardware interrupt that comes back is acknowledged exactly once: the master controller
  gets one end-of-interrupt command, the slave one exactly for the lines 8 to 15. Lines without
  a handler do nothing else; the keyboard line feeds the scancode to the driver. Vectors from 48
  on change nothing.\<close>

theorem hardware_irqs_acknowledged:
  assumes "32 \<le> int_no regs" "common_isr_handler d regs m = Some (Done t)"
  shows "if int_no regs < 48 then
      written PIC_MASTER_CMD (mpic t) = written PIC_MASTER_CMD (mpic m) @ [PIC_EOI]
      \<and> written PIC_SLAVE_CMD (mpic t)
          = written PIC_SLAVE_CMD (mpic m) @ (if 40 \<le> int_no regs then [PIC_EOI] else [])
      \<and> (case irq_handlers (midt m) ! unat (int_no regs - 32) of
           None \<Rightarrow> t = m\<lparr>mpic := mpic t\<rparr>
         | Some keyboard_handler_fn \<Rightarrow>
             t = m\<lparr>mkbd := keyboard_handler (ps2 d) (mkbd m), mpic := mpic t\<rparr>
         | Some timer_handler_fn \<Rightarrow> tick_count (mpit t) = tick_count (mpit m) + 1)
    else t = m"
proof (cases "int_no regs < 48")
  case True
  let ?v = "int_no regs" and ?irq = "ucast (int_no regs - 32) :: uint8_t"
  have n: "unat (?v - 32) = unat ?v - 32" "unat ?v < 48" "32 \<le> unat ?v"
    using assms(1) True by (simp_all add: unat_sub word_le_nat_alt word_less_nat_alt)
  have u: "unat ?irq = unat (?v - 32)"
    using n by (simp add: unsigned_ucast_eq take_bit_eq_mod)
  have i8: "8 \<le> ?irq \<longleftrightarrow> 40 \<le> ?v"
    using n u by (auto simp: word_le_nat_alt)
  have nl: "\<not> ?v < 32" using assms(1) by simp
  show ?thesis
  proof (cases "irq_handlers (midt m) ! unat ?irq")
    case None
    with assms(2) True nl have "t = m\<lparr>mpic := pic_send_eoi ?irq (mpic m)\<rparr>"
      by (simp add: common_isr_handler_def Let_def)
    with None True i8 show ?thesis by (simp add: pic_send_eoi_written u [symmetric])
  next
    case (Some h)
    with assms(2) True nl obtain z where z: "irq_call d h m = Some z"
      "(case z of Done m \<Rightarrow> Done (m\<lparr>mpic := pic_send_eoi ?irq (mpic m)\<rparr>) | Away m \<Rightarrow> Away m
        | Stopped m \<Rightarrow> Stopped m) = Done t"
      by (auto simp: common_isr_handler_def Let_def)
    then obtain r where r: "irq_call d h m = Some (Done r)"
      "t = r\<lparr>mpic := pic_send_eoi ?irq (mpic r)\<rparr>"
      by (cases z) auto
    have "mpic r = mpic m \<and> (case h of
           keyboard_handler_fn \<Rightarrow> r = m\<lparr>mkbd := keyboard_handler (ps2 d) (mkbd m)\<rparr>
         | timer_handler_fn \<Rightarrow> tick_count (mpit r) = tick_count (mpit m) + 1)"
      using r(1) by (cases h) (auto simp: count_tick_def dest!: timer_handler_done)
    with Some True i8 r(2) show ?thesis
      by (auto simp: pic_send_eoi_written u [symmetric] split: irq_fn.splits)
  qed
next
  case False
  have "\<not> int_no regs < 32" using assms(1) by simp
  with False assms(2) have "t = m" by (simp add: common_isr_handler_def)
  with False show ?thesis by simp
qed

lemma demo_irq_keyboard: "irq_handlers (midt demo_machine) ! 1 = Some keyboard_handler_fn"
  by (simp add: demo_machine_def irq_register_handler_def idt_init_def Let_def IRQ_COUNT_def)

lemma demo_keyboard_irq:
  "common_isr_handler demo_devices (demo_regs 33) demo_machine =
     Some (Done (demo_machine\<lparr>mkbd := keyboard_handler (ps2 demo_devices) (mkbd demo_machine),
       mpic := pic_send_eoi 1 (mpic demo_machine)\<rparr>))"
  using demo_irq_keyboard by (simp add: common_isr_handler_def Let_def demo_regs_def)

theorem hardware_irqs_acknowledged_witness:
  "\<exists>t. common_isr_handler demo_devices (demo_regs 33) demo_machine = Some (Done t)
     \<and> written PIC_MASTER_CMD (mpic t) = [PIC_EOI]"
  using hardware_irqs_acknowledged [OF _ demo_keyboard_irq] demo_keyboard_irq
  by (auto simp: demo_regs_def demo_machine_def)

text \<open>The timer interrupt counts the tick and runs the scheduler. When the interrupted process
  keeps the processor, the interrupt is acknowledged and returns; when another one is chosen, the
  processor goes there before the acknowledgement, which is sent only when the interrupted
  process is resumed: a process that runs for the first time starts with the timer line still
  in service.\<close>

theorem timer_irq_schedules:
  assumes "kern_inv (mkern m) xs" "current_pcb (mkern m) = Some c" "idle_pcb (mkern m) = Some e"
    and "irq_handlers (midt m) ! 0 = Some timer_handler_fn" "int_no regs = 32"
  shows "\<exists>t. common_isr_handler d regs m = Some (if sched_choice (mkern m) xs c e = c then Done t else Away t)
    \<and> tick_count (mpit t) = tick_count (mpit m) + 1 \<and> kern_inv (mkern t) xs
    \<and> mkern t = (if sched_choice (mkern m) xs c e = c then mkern m
                 else switch_to c (sched_choice (mkern m) xs c e) (mkern m))
    \<and> mpic t = (if sched_choice (mkern m) xs c e = c then pic_send_eoi 0 (mpic m) else mpic m)"
proof -
  let ?n = "sched_choice (mkern m) xs c e"
  have q: "queue (mkern m) xs" "c \<in> set xs"
    using assms(1,2) by (auto simp: kern_inv_def core_inv_def run_ok_def)
  note s = schedule_eq [OF q(1) assms(2,3) q(2)]
  show ?thesis
  proof (cases "?n = c")
    case True
    with s assms show ?thesis
      by (simp add: common_isr_handler_def timer_handler_def Let_def count_tick_def)
  next
    case False
    have "kern_inv (switch_to c ?n (mkern m)) xs"
      using switch_to_inv [OF assms(1,2) sched_choice_in [OF assms(1-3)] False] .
    with False s assms show ?thesis
      by (simp add: common_isr_handler_def timer_handler_def Let_def count_tick_def)
  qed
qed

theorem timer_irq_schedules_witness:
  "\<exists>t. common_isr_handler demo_devices (demo_regs 32) demo_machine = Some (Away t)
     \<and> tick_count (mpit t) = 100 \<and> written PIC_MASTER_CMD (mpic t) = []"
proof -
  have h: "irq_handlers (midt demo_machine) ! 0 = Some timer_handler_fn"
    by (simp add: demo_machine_def irq_register_handler_def idt_init_def Let_def IRQ_COUNT_def)
  have k: "mkern demo_machine = demo_kern" by (simp add: demo_machine_def)
  show ?thesis
    using timer_irq_schedules [of demo_machine demo_queue "Pcb 7" "Pcb 0" "demo_regs 32" demo_devices]
      demo_inv h
    unfolding k demo_choice by (auto simp: demo_regs_def demo_machine_def)
qed

end
