(* ===== verification/Shell_Parse.thy ===== *)
theory Shell_Parse
  imports Cstring
begin

text \<open>
  The command line parser of \<^verbatim>\<open>src/shell.c\<close> (\<^verbatim>\<open>shell_parse\<close>). It cuts the line buffer in place: a
  pointer into the buffer is an index, the blank behind a word is overwritten with NUL, and the
  argument vector holds the indices of the words. It is shown to compute the first sixteen
  words of the line.
\<close>

definition MAX_ARGS :: nat where "MAX_ARGS = 16"
definition MAX_LINE :: nat where "MAX_LINE = 256"

abbreviation SPACE :: char where
  "SPACE \<equiv> CHR '' ''"

text \<open>\<^verbatim>\<open>*p\<close> for an index into the buffer, and the string that starts there.\<close>

definition char_at :: "string \<Rightarrow> nat \<Rightarrow> char" where
  "char_at b p = (if p < length b then b ! p else NUL)"

definition cstr_at :: "string \<Rightarrow> nat \<Rightarrow> string" where
  "cstr_at b p = takeWhile (\<lambda>c. c \<noteq> NUL) (drop p b)"

lemma char_at_bound: "char_at b p \<noteq> NUL \<Longrightarrow> p < length b"
  by (auto simp: char_at_def split: if_splits)

function skip_spaces :: "string \<Rightarrow> nat \<Rightarrow> nat" where
  "skip_spaces b p = (if char_at b p = SPACE then skip_spaces b (p + 1) else p)"
  by pat_completeness auto
termination
  by (relation "measure (\<lambda>(b, p). length b - p)")
    (auto simp: char_at_def split: if_splits)

declare skip_spaces.simps [simp del]

function skip_word :: "string \<Rightarrow> nat \<Rightarrow> nat" where
  "skip_word b p =
     (if char_at b p \<noteq> NUL \<and> char_at b p \<noteq> SPACE then skip_word b (p + 1) else p)"
  by pat_completeness auto
termination
  by (relation "measure (\<lambda>(b, p). length b - p)")
    (auto simp: char_at_def split: if_splits)

declare skip_word.simps [simp del]

function parse_loop :: "string \<Rightarrow> nat \<Rightarrow> nat list \<Rightarrow> string \<times> nat list" where
  "parse_loop b p argv =
     (if char_at b p \<noteq> NUL \<and> length argv < MAX_ARGS
      then (let p1 = skip_spaces b p
            in if char_at b p1 = NUL then (b, argv)
               else (let argv1 = argv @ [p1];
                         p2 = skip_word b p1
                     in if char_at b p2 \<noteq> NUL then parse_loop (b[p2 := NUL]) (p2 + 1) argv1
                        else parse_loop b p2 argv1))
      else (b, argv))"
  by pat_completeness auto
termination
  by (relation "measure (\<lambda>(b, p, argv). MAX_ARGS - length argv)") auto

declare parse_loop.simps [simp del]

text \<open>
  The buffer afterwards and the arguments that \<^verbatim>\<open>shell_parse\<close> hands to the dispatcher; a blank line
  hands over nothing.
\<close>

definition shell_parse :: "string \<Rightarrow> string \<times> string list option" where
  "shell_parse b =
     (let p = skip_spaces b 0
      in if char_at b p = NUL then (b, None)
         else (let (b, argv) = parse_loop b p [] in (b, Some (map (cstr_at b) argv))))"

section \<open>The words of a line\<close>

function words_of :: "string \<Rightarrow> string list" where
  "words_of s =
     (let s = dropWhile (\<lambda>c. c = SPACE) s
      in if s = [] then []
         else takeWhile (\<lambda>c. c \<noteq> SPACE) s # words_of (dropWhile (\<lambda>c. c \<noteq> SPACE) s))"
  by pat_completeness auto
termination
proof (relation "measure length", goal_cases)
  case (2 s t)
  then obtain c cs where c: "t = c # cs" "c \<noteq> SPACE"
    by (metis (full_types) hd_dropWhile neq_Nil_conv list.sel(1))
  have "length (dropWhile (\<lambda>c. c \<noteq> SPACE) t) \<le> length cs"
    using c by (simp add: length_dropWhile_le)
  also have "\<dots> < length t" using c by simp
  also have "\<dots> \<le> length s" using 2 by (simp add: length_dropWhile_le)
  finally show ?case by simp
qed simp

declare words_of.simps [simp del]

lemma char_at_middle: "char_at (pre @ s @ t) (length pre) = (case s @ t of [] \<Rightarrow> NUL | c # _ \<Rightarrow> c)"
  by (cases "s @ t") (auto simp: char_at_def nth_append)

lemma skip_spaces_eq:
  "c_string s \<Longrightarrow> skip_spaces (pre @ s @ NUL # r) (length pre)
     = length pre + length (takeWhile (\<lambda>c. c = SPACE) s)"
proof (induction s arbitrary: pre)
  case Nil
  then show ?case by (subst skip_spaces.simps) (simp add: char_at_def)
next
  case (Cons c s)
  from Cons.IH [of "pre @ [c]"] Cons.prems show ?case
    by (subst skip_spaces.simps) (auto simp: char_at_def nth_append)
qed

lemma skip_word_eq:
  "c_string s \<Longrightarrow> skip_word (pre @ s @ NUL # r) (length pre)
     = length pre + length (takeWhile (\<lambda>c. c \<noteq> SPACE) s)"
proof (induction s arbitrary: pre)
  case Nil
  then show ?case by (subst skip_word.simps) (simp add: char_at_def)
next
  case (Cons c s)
  from Cons.IH [of "pre @ [c]"] Cons.prems show ?case
    by (subst skip_word.simps) (simp add: char_at_def nth_append)
qed

lemma takeWhile_NUL: "NUL \<notin> set w \<Longrightarrow> takeWhile (\<lambda>c. c \<noteq> NUL) (w @ NUL # r) = w"
  by (induction w) auto

lemma words_of_blank: "dropWhile (\<lambda>c. c = SPACE) s = [] \<Longrightarrow> words_of s = []"
  by (subst words_of.simps) simp

lemma words_of_split:
  assumes "set sp \<subseteq> {SPACE}" "w \<noteq> []" "SPACE \<notin> set w" "t = [] \<or> hd t = SPACE"
  shows "words_of (sp @ w @ t) = w # words_of t"
proof -
  have d: "dropWhile (\<lambda>c. c = SPACE) (sp @ w @ t) = w @ t"
    using assms(1-3) by (induction sp) (auto simp: neq_Nil_conv)
  have "takeWhile (\<lambda>c. c \<noteq> SPACE) t = [] \<and> dropWhile (\<lambda>c. c \<noteq> SPACE) t = t"
    using assms(4) by (cases t) auto
  then have "takeWhile (\<lambda>c. c \<noteq> SPACE) (w @ t) = w \<and> dropWhile (\<lambda>c. c \<noteq> SPACE) (w @ t) = t"
    using assms(3) by (induction w) auto
  with d assms(2) show ?thesis by (subst words_of.simps) (simp add: Let_def)
qed

lemma words_of_space: "words_of (SPACE # t) = words_of t"
  by (subst (1 2) words_of.simps) simp

text \<open>Every string is its leading blanks, one word, and a rest that starts with a blank.\<close>

lemma string_cases:
  obtains (blank) "dropWhile (\<lambda>c. c = SPACE) s = []"
  | (word) sp w t where "s = sp @ w @ t" "set sp \<subseteq> {SPACE}" "w \<noteq> []" "SPACE \<notin> set w"
      "t = [] \<or> hd t = SPACE" "takeWhile (\<lambda>c. c = SPACE) s = sp"
      "takeWhile (\<lambda>c. c \<noteq> SPACE) (w @ t) = w"
proof (cases "dropWhile (\<lambda>c. c = SPACE) s")
  case Nil
  then show ?thesis by (rule blank)
next
  case (Cons c cs)
  let ?sp = "takeWhile (\<lambda>c. c = SPACE) s" and ?r = "dropWhile (\<lambda>c. c = SPACE) s"
  let ?w = "takeWhile (\<lambda>c. c \<noteq> SPACE) ?r" and ?t = "dropWhile (\<lambda>c. c \<noteq> SPACE) ?r"
  have "c \<noteq> SPACE" using Cons hd_dropWhile [of "\<lambda>c. c = SPACE" s] by simp
  then have w: "?w \<noteq> []" using Cons by simp
  have "?t = [] \<or> hd ?t = SPACE" using hd_dropWhile [of "\<lambda>c. c \<noteq> SPACE" ?r] by blast
  moreover have "set ?sp \<subseteq> {SPACE}" by (auto dest: set_takeWhileD)
  moreover have "SPACE \<notin> set ?w" by (auto dest: set_takeWhileD)
  moreover have "s = ?sp @ ?w @ ?t" by simp
  ultimately show ?thesis using w by (intro word [of ?sp ?w ?t]) auto
qed

text \<open>
  The loop at index \<open>length pre\<close> of the buffer \<open>pre @ s @ NUL # r\<close> appends the indices of the
  first words of \<open>s\<close> and writes only at or behind that index.
\<close>

text \<open>One word and, unless the line ends with it, the blank behind it.\<close>

lemma parse_loop_word:
  assumes s: "c_string s" "s = sp @ w @ t" "w \<noteq> []" "t = [] \<or> hd t = SPACE"
      "takeWhile (\<lambda>c. c = SPACE) s = sp" "takeWhile (\<lambda>c. c \<noteq> SPACE) (w @ t) = w"
    and b: "b = pre @ s @ NUL # r" and more: "length argv < MAX_ARGS"
  shows "parse_loop b (length pre) argv =
    (if t = [] then (b, argv @ [length (pre @ sp)])
     else parse_loop (b[length (pre @ sp @ w) := NUL]) (length (pre @ sp @ w @ [NUL]))
            (argv @ [length (pre @ sp)]))"
proof -
  let ?q = "length (pre @ sp)" and ?e = "length (pre @ sp @ w)"
  have cs: "c_string sp" "c_string w" "c_string t" using s(1) unfolding s(2) by simp_all
  have "s \<noteq> []" using s(2,3) by simp
  then have ne: "char_at b (length pre) \<noteq> NUL"
    using s(1) b by (cases s) (auto simp: char_at_def nth_append)
  have p1: "skip_spaces b (length pre) = ?q"
    using skip_spaces_eq [OF s(1), of pre r] s(5) by (simp add: b)
  have b': "b = (pre @ sp) @ (w @ t) @ NUL # r" by (simp add: b s(2))
  have c1: "char_at b ?q \<noteq> NUL"
    using s(3) cs(2) unfolding b' by (cases w) (auto simp: char_at_def nth_append)
  have p2: "skip_word b ?q = ?e"
    using skip_word_eq [of "w @ t" "pre @ sp" r] cs(2,3) s(6) unfolding b' by simp
  show ?thesis
  proof (cases t)
    case Nil
    have c2: "char_at b ?e = NUL" unfolding b' Nil by (simp add: char_at_def nth_append)
    have "parse_loop b (length pre) argv = parse_loop b ?e (argv @ [?q])"
      using ne more c1 c2 p1 p2 by (subst parse_loop.simps) (simp add: Let_def)
    also have "\<dots> = (b, argv @ [?q])" using c2 by (subst parse_loop.simps) simp
    finally show ?thesis by (simp add: Nil)
  next
    case (Cons c t')
    have c2: "char_at b ?e \<noteq> NUL" using s(4) unfolding b' Cons by (simp add: char_at_def nth_append)
    show ?thesis
      using ne more c1 c2 p1 p2 Cons by (subst parse_loop.simps) (simp add: Let_def)
  qed
qed

lemma parse_loop_words:
  assumes "c_string s" "b = pre @ s @ NUL # r" "length argv \<le> MAX_ARGS"
  shows "\<exists>b' new. parse_loop b (length pre) argv = (b', argv @ new) \<and> length b' = length b
     \<and> take (length pre) b' = pre \<and> map (cstr_at b') new = take (MAX_ARGS - length argv) (words_of s)"
  using assms
proof (induction "MAX_ARGS - length argv" arbitrary: s b pre argv)
  case 0
  then show ?case by (subst parse_loop.simps) simp
next
  case (Suc n)
  from Suc.hyps(2) have more: "length argv < MAX_ARGS" by simp
  show ?case
  proof (cases "s = []")
    case True
    with Suc.prems show ?thesis
      by (subst parse_loop.simps) (simp add: char_at_def words_of.simps)
  next
    case s: False
    then have ne: "char_at b (length pre) \<noteq> NUL"
      using Suc.prems(1,2) by (cases s) (auto simp: char_at_def nth_append)
    show ?thesis
    proof (cases rule: string_cases [of s])
      case blank
      have "skip_spaces b (length pre) = length (pre @ s)"
        using skip_spaces_eq [OF Suc.prems(1), of pre r] blank Suc.prems(2)
        by (metis append.right_neutral length_append takeWhile_dropWhile_id)
      then have "char_at b (skip_spaces b (length pre)) = NUL"
        by (simp add: Suc.prems(2) char_at_def nth_append)
      with ne more Suc.prems(2) blank show ?thesis
        by (subst parse_loop.simps) (simp add: words_of_blank)
    next
      case (word sp w t)
      let ?q = "length (pre @ sp)" and ?pre = "pre @ sp @ w @ [NUL]"
      note step = parse_loop_word [OF Suc.prems(1) word(1,3,5-7) Suc.prems(2) more]
      have cs: "c_string w" "c_string t" using Suc.prems(1) unfolding word(1) by simp_all
      have b: "b = pre @ sp @ w @ t @ NUL # r" by (simp add: Suc.prems(2) word(1))
      have ws: "words_of s = w # words_of t"
        unfolding word(1) by (rule words_of_split [OF word(2-5)])
      show ?thesis
      proof (cases t)
        case Nil
        have "cstr_at b ?q = w" using cs(1) by (simp add: cstr_at_def b Nil c_string_def takeWhile_NUL)
        then show ?thesis
          using more ws step by (auto simp: b Nil words_of.simps [of "[]"] take_Cons' Suc.prems(2))
      next
        case (Cons c t')
        then have c: "c = SPACE" using word(5) by simp
        have b1: "b[length (pre @ sp @ w) := NUL] = ?pre @ t' @ NUL # r"
          by (simp add: b Cons list_update_append)
        have n: "n = MAX_ARGS - length (argv @ [?q])" using Suc.hyps(2) by simp
        have "c_string t'" using cs(2) Cons by simp
        from Suc.hyps(1) [OF n this b1] more obtain b' new where
          r: "parse_loop (b[length (pre @ sp @ w) := NUL]) (length ?pre) (argv @ [?q]) = (b', (argv @ [?q]) @ new)"
            "length b' = length b" "take (length ?pre) b' = ?pre"
            "map (cstr_at b') new = take (MAX_ARGS - length (argv @ [?q])) (words_of t')"
          by auto
        have split: "b' = ?pre @ drop (length ?pre) b'" using r(3) by (metis append_take_drop_id)
        have "cstr_at b' ?q = w"
          using cs(1) by (subst split) (simp add: cstr_at_def c_string_def takeWhile_NUL)
        moreover have "take (length pre) b' = pre" by (subst split) simp
        moreover have "words_of t = words_of t'" by (simp add: Cons c words_of_space)
        moreover have "MAX_ARGS - length argv = Suc (MAX_ARGS - length (argv @ [?q]))"
          using more by simp
        ultimately show ?thesis using r step ws Cons by (intro exI [of _ b'] exI [of _ "?q # new"]) simp
      qed
    qed
  qed
qed

lemma shell_parse_words:
  assumes "c_string s"
  shows "length (fst (shell_parse (s @ NUL # r))) = length (s @ NUL # r)
    \<and> snd (shell_parse (s @ NUL # r)) =
         (if words_of s = [] then None else Some (take MAX_ARGS (words_of s)))"
proof -
  let ?b = "s @ NUL # r"
  have sk: "skip_spaces ?b 0 = length (takeWhile (\<lambda>c. c = SPACE) s)"
    using skip_spaces_eq [OF assms, of "[]" r] by simp
  show ?thesis
  proof (cases rule: string_cases [of s])
    case blank
    have "takeWhile (\<lambda>c. c = SPACE) s = s"
      using blank by (metis append.right_neutral takeWhile_dropWhile_id)
    with sk have "char_at ?b (skip_spaces ?b 0) = NUL" by (simp add: char_at_def nth_append)
    with blank show ?thesis by (simp add: shell_parse_def words_of_blank)
  next
    case (word sp w t)
    have q: "skip_spaces ?b 0 = length sp" using sk word(6) by simp
    have b: "?b = sp @ (w @ t) @ NUL # r" by (simp add: word(1))
    have cs: "c_string (w @ t)" using assms unfolding word(1) by simp
    have c1: "char_at ?b (length sp) \<noteq> NUL"
      using word(3) cs unfolding b by (cases w) (auto simp: char_at_def nth_append)
    have ws: "words_of s = words_of (w @ t)" "words_of s \<noteq> []"
      using words_of_split [OF word(2-5)] words_of_split [OF _ word(3-5), of "[]"]
      by (simp_all add: word(1))
    obtain b' new where r: "parse_loop ?b (length sp) [] = (b', new)" "length b' = length ?b"
      "map (cstr_at b') new = take MAX_ARGS (words_of (w @ t))"
      using parse_loop_words [OF cs b, of "[]"] by auto
    have "shell_parse ?b = (b', Some (take MAX_ARGS (words_of s)))"
      using c1 r(1,3) by (simp add: shell_parse_def Let_def q ws(1))
    with ws r(2) show ?thesis by simp
  qed
qed

section \<open>Properties\<close>

text \<open>C35: for every line without NUL the parser hands exactly the first sixteen words of the line
  to the dispatcher, in order and cut where the blanks were; a line of blanks hands over nothing.
  It stays inside the buffer, whose size it keeps.\<close>

theorem shell_parse_splits_words:
  assumes "c_string s"
  shows "length (fst (shell_parse (s @ NUL # r))) = length (s @ NUL # r)
    \<and> snd (shell_parse (s @ NUL # r)) =
         (if words_of s = [] then None else Some (take MAX_ARGS (words_of s)))"
  using assms by (rule shell_parse_words)

theorem shell_parse_splits_words_witness:
  "snd (shell_parse ('' echo  a bc '' @ NUL # ''junk'')) = Some [''echo'', ''a'', ''bc'']"
proof -
  have "words_of '' echo  a bc '' = [''echo'', ''a'', ''bc'']" by code_simp
  then show ?thesis
    using shell_parse_splits_words [of "'' echo  a bc ''" "''junk''"]
    by (simp add: c_string_def MAX_ARGS_def)
qed

end
