(* ===== verification/Shell_Commands.thy ===== *)
theory Shell_Commands
  imports Machine Shell_Parse
begin

text \<open>
  The commands of the shell (\<^verbatim>\<open>src/shell.c\<close>), the command table and the dispatcher. The fixed
  texts are the string literals of the source; a print in a colour is a pair with \<open>Some\<close>. The
  listings walk the linked run queue as the code does; a walk that never ends, or the cast of a
  plain process to a thread, is \<open>None\<close>.
\<close>

abbreviation LF :: char where
  "LF \<equiv> CHR 0x0A"

text \<open>The addresses that the linker chooses.\<close>

record image =
  gdt_addr :: uint32_t
  idt_addr :: uint32_t
  isr_addr :: "nat \<Rightarrow> uint32_t"
  kernel_end_addr :: uint32_t
  idle_task_addr :: uint32_t
  counter_process_addr :: uint32_t

fun say :: "(uint8_t option \<times> string) list \<Rightarrow> vga \<Rightarrow> vga" where
  "say [] v = v"
| "say ((None, s) # xs) v = say xs (vga_print s v)"
| "say ((Some k, s) # xs) v = say xs (vga_print_color s k v)"

definition on_vga :: "(vga \<Rightarrow> vga) \<Rightarrow> machine \<Rightarrow> machine" where
  "on_vga f m = m\<lparr>mvga := f (mvga m)\<rparr>"

section \<open>Commands that only print\<close>

definition help_text :: "(uint8_t option \<times> string) list" where
  "help_text =
     [(Some 0x0B, [LF] @ ''=== Vamos OS Commands ==='' @ [LF]),
      (Some 0x0E, ''  help              ''),
      (None, ''Show this help list'' @ [LF]),
      (Some 0x0E, ''  clear             ''),
      (None, ''Clear the screen'' @ [LF]),
      (Some 0x0E, ''  echo <text>       ''),
      (None, ''Print text to screen'' @ [LF]),
      (Some 0x0E, ''  ls                ''),
      (None, ''List running processes and threads'' @ [LF]),
      (Some 0x0E, ''  time              ''),
      (None, ''Show system uptime'' @ [LF]),
      (Some 0x0E, ''  ps                ''),
      (None, ''List running processes'' @ [LF]),
      (Some 0x0E, ''  threads           ''),
      (None, ''List kernel threads'' @ [LF]),
      (Some 0x0E, ''  meminfo           ''),
      (None, ''Show memory usage'' @ [LF]),
      (Some 0x0E, ''  newprocess        ''),
      (None, ''Create a new process (visible in ps/ls)'' @ [LF]),
      (Some 0x0E, ''  killprocess <pid> ''),
      (None, ''Delete a process by PID'' @ [LF]),
      (Some 0x0E, ''  reboot            ''),
      (None, ''Reboot the system'' @ [LF]),
      (Some 0x0E, ''  exit              ''),
      (None, ''Shut down Vamos OS'' @ [LF]),
      (Some 0x0E, ''  about             ''),
      (None, ''About Vamos OS'' @ [LF]),
      (Some 0x0E, ''  banner            ''),
      (None, ''Show OS banner'' @ [LF]),
      (None, [LF])]"

definition cmd_help :: "machine \<Rightarrow> machine" where
  "cmd_help m = on_vga (say help_text) m"

definition cmd_clear :: "machine \<Rightarrow> machine" where
  "cmd_clear m =
     on_vga (\<lambda>v. vga_draw_statusbar (get_tick_count (mpit m)) (vga_clear v)) m"

text \<open>\<open>echo_args\<close> runs over \<^verbatim>\<open>argv[1..argc-1]\<close>; a blank goes between two of them.\<close>

fun echo_args :: "string list \<Rightarrow> vga \<Rightarrow> vga" where
  "echo_args [] v = v"
| "echo_args [a] v = vga_print a v"
| "echo_args (a # as) v = echo_args as (vga_putchar SPACE (vga_print a v))"

definition cmd_echo :: "string list \<Rightarrow> machine \<Rightarrow> machine" where
  "cmd_echo argv m = on_vga (\<lambda>v. vga_putchar LF (echo_args (tl argv) v)) m"

definition cmd_time :: "machine \<Rightarrow> machine" where
  "cmd_time m =
     (let ticks = get_tick_count (mpit m);
          secs = ticks div 100;
          mins = secs div 60;
          hrs = mins div 60;
          secs = secs mod 60;
          mins = mins mod 60
      in on_vga (say
           [(Some 0x0B, ''Uptime: ''), (None, sh_itoa hrs), (None, ''h ''),
            (None, sh_itoa mins), (None, ''m ''), (None, sh_itoa secs), (None, ''s''),
            (Some 0x08, ''  (''), (Some 0x08, sh_itoa ticks),
            (Some 0x08, ('' ticks @ 100Hz)'' @ [LF]))]) m)"

definition cmd_about :: "machine \<Rightarrow> machine" where
  "cmd_about m = on_vga (say
     [(Some 0x0B, [LF] @ ''  Vamos OS v1.0'' @ [LF]),
      (None, ''  A minimal x86 kernel written in C and Assembly.'' @ [LF]),
      (None, ''  Architecture : x86 (i686) protected mode'' @ [LF]),
      (None, ''  Bootloader   : GRUB Multiboot'' @ [LF]),
      (None, ''  Memory       : Manual bitmap allocator (4KB pages)'' @ [LF]),
      (None, ''  Scheduler    : Preemptive round-robin (100Hz)'' @ [LF]),
      (None, ''  Shell        : Built-in kernel-space shell'' @ [LF, LF])]) m"

definition cmd_banner :: "machine \<Rightarrow> machine" where
  "cmd_banner m = on_vga (say
     [(Some 0x0B, [LF] @ ''__     __                              ___  ____  '' @ [LF]),
      (Some 0x0B, [CHR 0x5C] @ '' '' @ [CHR 0x5C] @ ''   / /__ _ _ __ ___   ___  ___    / _ '' @ [CHR 0x5C] @ ''/ ___| '' @ [LF]),
      (Some 0x0B, '' '' @ [CHR 0x5C] @ '' '' @ [CHR 0x5C] @ '' / / _'' @ [CHR 0x60] @ '' | '' @ [CHR 0x27] @ ''_ '' @ [CHR 0x60] @ '' _ '' @ [CHR 0x5C] @ '' / _ '' @ [CHR 0x5C] @ ''/ __|  | | | '' @ [CHR 0x5C] @ ''___ '' @ [CHR 0x5C] @ '' '' @ [LF]),
      (Some 0x0B, ''  '' @ [CHR 0x5C] @ '' V / (_| | | | | | | (_) '' @ [CHR 0x5C] @ ''__ '' @ [CHR 0x5C] @ ''  | |_| |___) |'' @ [LF]),
      (Some 0x0B, ''   '' @ [CHR 0x5C] @ ''_/ '' @ [CHR 0x5C] @ ''__,_|_| |_| |_|'' @ [CHR 0x5C] @ ''___/|___/   '' @ [CHR 0x5C] @ ''___/|____/ '' @ [LF]),
      (Some 0x0E, ''           Vamos OS v1.0'' @ [LF, LF])]) m"

definition cmd_meminfo :: "machine \<Rightarrow> machine" where
  "cmd_meminfo m =
     (let free_p = pmm_get_free_page_count (pm (mkern m));
          total_p = 32768;
          used_p = total_p - free_p
      in on_vga (say
           [(Some 0x0B, ([LF] @ ''=== Memory Info ==='' @ [LF])),
            (None, ''  Total : ''), (None, sh_itoa (total_p * 4)), (None, ('' KB'' @ [LF])),
            (None, ''  Used  : ''), (None, sh_itoa (used_p * 4)), (None, ('' KB'' @ [LF])),
            (Some 0x0A, ''  Free  : ''), (Some 0x0A, sh_itoa (free_p * 4)),
            (Some 0x0A, ('' KB'' @ [LF, LF]))]) m)"

section \<open>Listings of the run queue\<close>

fun state_name :: "process_state_t \<Rightarrow> string" where
  "state_name PROCESS_READY = ''READY  ''"
| "state_name PROCESS_RUNNING = ''RUNNING''"
| "state_name PROCESS_BLOCKED = ''BLOCKED''"
| "state_name PROCESS_DEAD = ''DEAD   ''"

text \<open>What each loop prints for one element, and whether it prints anything.\<close>

definition ps_row :: "kern \<Rightarrow> pcb_ref \<Rightarrow> (uint8_t option \<times> string) list option" where
  "ps_row s p =
     (let c = pcbs s p
      in Some (if pid c \<noteq> 0
               then [(None, sh_itoa (pid c)), (None, ''    ''), (Some 0x0A, state_name (state c)),
                     (None, ''  ''), (None, sh_itoa (ucast (priority c))), (None, (''    kernel'' @ [LF]))]
               else []))"

definition parent_text :: "kern \<Rightarrow> nat \<Rightarrow> string" where
  "parent_text s i =
     (case parent (tcbs s i) of Some q \<Rightarrow> sh_itoa (pid (pcbs s q)) | None \<Rightarrow> ''none'')"

definition threads_row :: "kern \<Rightarrow> pcb_ref \<Rightarrow> (uint8_t option \<times> string) list option" where
  "threads_row s p =
     (let c = pcbs s p
      in if pid c = 0
         then (case p of
                 Pcb _ \<Rightarrow> None
               | Tcb i \<Rightarrow> Some [(None, sh_itoa (tid (tcbs s i))), (None, ''    ''),
                     (Some 0x0A, state_name (state c)), (None, ''  ''), (None, parent_text s i),
                     (None, [LF])])
         else Some [])"

definition ls_process_row :: "kern \<Rightarrow> pcb_ref \<Rightarrow> (uint8_t option \<times> string) list option" where
  "ls_process_row s p =
     (let c = pcbs s p
      in Some (if pid c \<noteq> 0
               then [(None, ''  ''), (None, sh_itoa (pid c)), (None, ''     ''),
                     (Some 0x0A, state_name (state c)), (None, (''  kernel'' @ [LF]))]
               else []))"

definition ls_thread_row :: "kern \<Rightarrow> pcb_ref \<Rightarrow> (uint8_t option \<times> string) list option" where
  "ls_thread_row s p =
     (let c = pcbs s p
      in if pid c = 0
         then (case p of
                 Pcb _ \<Rightarrow> None
               | Tcb i \<Rightarrow> Some [(None, ''  ''), (None, sh_itoa (tid (tcbs s i))), (None, ''     ''),
                     (Some 0x0A, state_name (state c)), (None, ''  pid=''), (None, parent_text s i),
                     (None, [LF])])
         else Some [])"

text \<open>
  The loop \<^verbatim>\<open>while (p) { ...; p = p->next; }\<close> around a row. The result counts the rows printed.
\<close>

partial_function (option) list_rows ::
  "(pcb_ref \<Rightarrow> (uint8_t option \<times> string) list option) \<Rightarrow> (pcb_ref \<Rightarrow> pcb) \<Rightarrow> pcb_ref option
     \<Rightarrow> nat \<Rightarrow> vga \<Rightarrow> (nat \<times> vga) option" where
  "list_rows row h p n v =
     (case p of
        None \<Rightarrow> Some (n, v)
      | Some r \<Rightarrow> Option.bind (row r)
          (\<lambda>xs. list_rows row h (next_pcb (h r)) (if xs = [] then n else n + 1) (say xs v)))"

declare list_rows.simps [code]

definition rows :: "(kern \<Rightarrow> pcb_ref \<Rightarrow> (uint8_t option \<times> string) list option) \<Rightarrow> kern \<Rightarrow> vga
     \<Rightarrow> (nat \<times> vga) option" where
  "rows row s v = list_rows (row s) (pcbs s) (run_queue s) 0 v"

definition cmd_ps :: "machine \<Rightarrow> machine option" where
  "cmd_ps m =
     map_option (\<lambda>(n, v). m\<lparr>mvga := vga_putchar LF v\<rparr>)
       (rows ps_row (mkern m)
         (say [(Some 0x0B, ([LF] @ ''PID  STATE    PRI  NAME'' @ [LF])),
               (Some 0x08, (''---  -------  ---  ----'' @ [LF]))] (mvga m)))"

definition cmd_threads :: "machine \<Rightarrow> machine option" where
  "cmd_threads m =
     map_option (\<lambda>(n, v). m\<lparr>mvga := vga_putchar LF v\<rparr>)
       (rows threads_row (mkern m)
         (say [(Some 0x0B, ([LF] @ ''TID  STATE    PARENT'' @ [LF])),
               (Some 0x08, (''---  -------  ------'' @ [LF]))] (mvga m)))"

definition cmd_ls :: "machine \<Rightarrow> machine option" where
  "cmd_ls m =
     Option.bind (rows ls_process_row (mkern m)
         (say [(Some 0x0B, ([LF] @ ''Processes:'' @ [LF])), (Some 0x08, (''  PID   STATE     NAME'' @ [LF]))] (mvga m)))
       (\<lambda>(n, v).
          let v = (if n = 0 then vga_print (''  (none)'' @ [LF]) v else v);
              v = say [(Some 0x0B, ([LF] @ ''Threads:'' @ [LF])), (Some 0x08, (''  TID   STATE     PARENT'' @ [LF]))] v
          in map_option (\<lambda>(k, v).
               let v = (if k = 0 then vga_print (''  (none)'' @ [LF]) v else v)
               in m\<lparr>mvga := vga_putchar LF v\<rparr>) (rows ls_thread_row (mkern m) v))"

section \<open>Commands that change the process table\<close>

definition newprocess_text :: "uint32_t \<Rightarrow> (uint8_t option \<times> string) list" where
  "newprocess_text n =
     [(Some 0x0A, ''Process created  PID=''), (Some 0x0A, sh_itoa n),
      (Some 0x07, (''  STATE=BLOCKED'' @ [LF])),
      (Some 0x08, (''Run '' @ [CHR 0x27] @ ''ps'' @ [CHR 0x27] @ '' or '' @ [CHR 0x27] @ ''ls'' @ [CHR 0x27] @ '' to see it.  '')), (Some 0x08, ''killprocess ''),
      (Some 0x08, sh_itoa n), (Some 0x08, ('' to remove.'' @ [LF]))]"

definition cmd_newprocess :: "image \<Rightarrow> machine \<Rightarrow> machine option" where
  "cmd_newprocess im m =
     map_option (\<lambda>(r, s).
         case r of
           Some p \<Rightarrow>
             (let s = upd_pcb p (\<lambda>c. c\<lparr>state := PROCESS_BLOCKED\<rparr>) s
              in on_vga (say (newprocess_text (pid (pcbs s p)))) (m\<lparr>mkern := s\<rparr>))
         | None \<Rightarrow>
             on_vga (vga_print_color (''Failed: out of memory or process pool full'' @ [LF]) 0x0C)
               (m\<lparr>mkern := s\<rparr>))
       (create_process (counter_process_addr im) 1 (mkern m))"

partial_function (option) find_pid ::
  "(pcb_ref \<Rightarrow> pcb) \<Rightarrow> uint32_t \<Rightarrow> pcb_ref option \<Rightarrow> pcb_ref option option" where
  "find_pid h target p =
     (case p of
        None \<Rightarrow> Some None
      | Some r \<Rightarrow> if pid (h r) = target then Some (Some r) else find_pid h target (next_pcb (h r)))"

declare find_pid.simps [code]

text \<open>The body of the loop for the process found.\<close>

definition kill_pcb :: "pcb_ref \<Rightarrow> kern \<Rightarrow> kern option" where
  "kill_pcb p s =
     map_option (\<lambda>s.
         let s = s\<lparr>pm := pmm_free_page (stack_base (pcbs s p)) (pm s)\<rparr>
         in upd_pcb p (\<lambda>c. c\<lparr>stack_base := 0, pid := 0\<rparr>) s)
       (scheduler_dequeue p (upd_pcb p (\<lambda>c. c\<lparr>state := PROCESS_DEAD\<rparr>) s))"

definition cmd_killprocess :: "string list \<Rightarrow> machine \<Rightarrow> machine option" where
  "cmd_killprocess argv m =
     (if length argv < 2 then Some (on_vga (vga_print (''Usage: killprocess <pid>'' @ [LF])) m)
      else
        (let target = parse_dec 0 (argv ! 1);
             s = mkern m
         in case find_pid (pcbs s) target (run_queue s) of
              None \<Rightarrow> None
            | Some (Some p) \<Rightarrow>
                map_option (\<lambda>s. on_vga (\<lambda>v. vga_putchar LF (say
                    [(Some 0x0A, ''Process deleted: pid=''), (Some 0x0A, sh_itoa target)] v))
                    (m\<lparr>mkern := s\<rparr>)) (kill_pcb p s)
            | Some None \<Rightarrow>
                Some (on_vga (\<lambda>v. vga_putchar LF (say
                    [(None, ''No such process: ''), (None, sh_itoa target)] v)) m)))"

section \<open>Commands that do not come back\<close>

text \<open>At most \<open>n\<close> reads of the status port of the keyboard controller, until its buffer is empty.\<close>

fun kbc_wait :: "device \<Rightarrow> nat \<Rightarrow> io_log \<Rightarrow> io_log" where
  "kbc_wait dev 0 l = l"
| "kbc_wait dev (Suc n) l =
     (let (s, l) = inb dev 0x64 l
      in if s AND 0x02 = 0 then l else kbc_wait dev n l)"

definition cmd_reboot :: "devices \<Rightarrow> machine \<Rightarrow> outcome" where
  "cmd_reboot d m =
     (let m = on_vga (vga_print_color (''Rebooting...'' @ [LF]) 0x0C) m;
          m = m\<lparr>mif := False\<rparr>
      in Stopped (m\<lparr>mctl := outb 0x64 0xFE (kbc_wait (ps2 d) 100000 (mctl m))\<rparr>))"

definition cmd_exit :: "devices \<Rightarrow> machine \<Rightarrow> outcome" where
  "cmd_exit d m =
     (let m = on_vga (vga_print_color ([LF] @ ''Shutting down Vamos OS...'' @ [LF]) 0x0C) m;
          m = m\<lparr>mctl := outw 0x604 0x2000 (mctl m)\<rparr>;
          m = m\<lparr>mif := False\<rparr>
      in Stopped (m\<lparr>mctl := outb 0x64 0xFE (kbc_wait (ps2 d) 100000 (mctl m))\<rparr>))"

section \<open>The command table and the dispatcher\<close>

datatype shell_cmd =
    Help | Clear | Echo | Ls | Time | Ps | Threads | Meminfo | Newprocess | Killprocess
  | Reboot | Exit | About | Banner

definition command_table :: "(string \<times> shell_cmd) list" where
  "command_table =
     [(''help'', Help), (''clear'', Clear), (''echo'', Echo), (''ls'', Ls), (''time'', Time),
      (''ps'', Ps), (''threads'', Threads), (''meminfo'', Meminfo), (''newprocess'', Newprocess),
      (''killprocess'', Killprocess), (''reboot'', Reboot), (''exit'', Exit), (''about'', About),
      (''banner'', Banner)]"

fun run_cmd :: "devices \<Rightarrow> image \<Rightarrow> shell_cmd \<Rightarrow> string list \<Rightarrow> machine \<Rightarrow> outcome option" where
  "run_cmd d im Help argv m = Some (Done (cmd_help m))"
| "run_cmd d im Clear argv m = Some (Done (cmd_clear m))"
| "run_cmd d im Echo argv m = Some (Done (cmd_echo argv m))"
| "run_cmd d im Ls argv m = map_option Done (cmd_ls m)"
| "run_cmd d im Time argv m = Some (Done (cmd_time m))"
| "run_cmd d im Ps argv m = map_option Done (cmd_ps m)"
| "run_cmd d im Threads argv m = map_option Done (cmd_threads m)"
| "run_cmd d im Meminfo argv m = Some (Done (cmd_meminfo m))"
| "run_cmd d im Newprocess argv m = map_option Done (cmd_newprocess im m)"
| "run_cmd d im Killprocess argv m = map_option Done (cmd_killprocess argv m)"
| "run_cmd d im Reboot argv m = Some (cmd_reboot d m)"
| "run_cmd d im Exit argv m = Some (cmd_exit d m)"
| "run_cmd d im About argv m = Some (Done (cmd_about m))"
| "run_cmd d im Banner argv m = Some (Done (cmd_banner m))"

fun find_command :: "string \<Rightarrow> (string \<times> shell_cmd) list \<Rightarrow> shell_cmd option" where
  "find_command name [] = None"
| "find_command name ((n, c) # cs) =
     (if sh_strcmp name n = 0 then Some c else find_command name cs)"

definition shell_dispatch :: "devices \<Rightarrow> image \<Rightarrow> string list \<Rightarrow> machine \<Rightarrow> outcome option" where
  "shell_dispatch d im argv m =
     (if argv = [] then Some (Done m)
      else case find_command (hd argv) command_table of
             Some c \<Rightarrow> run_cmd d im c argv m
           | None \<Rightarrow> Some (Done (on_vga (say
               [(Some 0x0C, ''Unknown command: ''), (None, hd argv),
                (None, (''  (type '' @ [CHR 0x27] @ ''help'' @ [CHR 0x27] @ '' for commands)'' @ [LF]))]) m)))"

end
