(* ===== verification/Command_Facts.thy ===== *)
theory Command_Facts
  imports Shell_Commands
begin

text \<open>
  What the commands of the shell do: their output stays in the shell's part of the screen, the
  listings show the run queue, and only \<^verbatim>\<open>newprocess\<close> and \<^verbatim>\<open>killprocess\<close> change the process table.
\<close>

section \<open>What the commands print stays in the shell's part of the screen\<close>

lemma say_append: "say (xs @ ys) v = say ys (say xs v)"
  by (induction xs v rule: say.induct) simp_all

lemma say_console:
  "cursor_ok v \<Longrightarrow> cursor_ok (say xs v) \<and> vga_frame (say xs v) = vga_frame v
     \<and> vga_color (say xs v) = vga_color v"
proof (induction xs v rule: say.induct)
  case (2 s xs v)
  from "2.IH" vga_print_facts(1,2) [OF "2.prems", of s] vga_print_facts(3) [of s v] show ?case by simp
next
  case (3 k s xs v)
  from "3.IH" vga_print_facts(4,5) [OF "3.prems", of s k] vga_print_facts(6) [of s k v] show ?case
    by simp
qed simp

text \<open>The console is in order, its frame (status bar and other memory) and colour are kept.\<close>

definition console_kept :: "vga \<Rightarrow> vga \<Rightarrow> bool" where
  "console_kept v w \<longleftrightarrow> cursor_ok w \<and> vga_frame w = vga_frame v \<and> vga_color w = vga_color v"

lemma console_kept_refl: "cursor_ok v \<Longrightarrow> console_kept v v"
  by (simp add: console_kept_def)

lemma console_kept_trans: "console_kept u v \<Longrightarrow> console_kept v w \<Longrightarrow> console_kept u w"
  by (simp add: console_kept_def)

lemma say_kept: "console_kept u v \<Longrightarrow> console_kept u (say xs v)"
  using say_console [of v xs] by (auto simp: console_kept_def)

lemma putchar_kept: "console_kept u v \<Longrightarrow> console_kept u (vga_putchar c v)"
  using vc.put_invar [of v c] vc.put_frame [of v c] by (auto simp: console_kept_def)

lemma print_kept: "console_kept u v \<Longrightarrow> console_kept u (vga_print s v)"
  using say_kept [of u v "[(None, s)]"] by simp

lemma print_color_kept: "console_kept u v \<Longrightarrow> console_kept u (vga_print_color s k v)"
  using say_kept [of u v "[(Some k, s)]"] by simp

lemma echo_kept: "console_kept u v \<Longrightarrow> console_kept u (echo_args as v)"
  by (induction "as" v rule: echo_args.induct) (auto intro: print_kept putchar_kept)

lemmas kept_intros = say_kept putchar_kept print_kept print_color_kept echo_kept

section \<open>The listings\<close>

lemma list_rows_queue:
  assumes "is_list h p xs" "\<And>r. r \<in> set xs \<Longrightarrow> row r = Some (out r)"
  shows "list_rows row h p n v
     = Some (n + length (filter (\<lambda>r. out r \<noteq> []) xs), say (concat (map out xs)) v)"
  using assms
proof (induction xs arbitrary: p n v)
  case Nil
  then show ?case by (subst list_rows.simps) simp
next
  case (Cons r xs)
  then show ?case by (subst list_rows.simps) (auto simp: say_append)
qed

lemma rows_queue:
  assumes "queue s xs" "\<And>r. r \<in> set xs \<Longrightarrow> row s r = Some (out r)"
  shows "rows row s v = Some (length (filter (\<lambda>r. out r \<noteq> []) xs), say (concat (map out xs)) v)"
  using list_rows_queue [of "pcbs s" "run_queue s" xs "row s" out 0 v] assms
  by (simp add: rows_def queue_def)

lemma find_pid_queue:
  "is_list h p xs \<Longrightarrow> find_pid h n p = Some (find (\<lambda>r. pid (h r) = n) xs)"
proof (induction xs arbitrary: p)
  case Nil
  then show ?case by (subst find_pid.simps) simp
next
  case (Cons r xs)
  then show ?case by (subst find_pid.simps) simp
qed

text \<open>A queue in which exactly the threads have the process number 0.\<close>

definition pids_ok :: "kern \<Rightarrow> pcb_ref list \<Rightarrow> bool" where
  "pids_ok s xs \<longleftrightarrow> (\<forall>r \<in> set xs. (pid (pcbs s r) = 0) = is_thread r)"

lemma rows_defined:
  assumes "pids_ok s xs" "r \<in> set xs"
  shows "ps_row s r = Some (the (ps_row s r))" "threads_row s r = Some (the (threads_row s r))"
    "ls_process_row s r = Some (the (ls_process_row s r))"
    "ls_thread_row s r = Some (the (ls_thread_row s r))"
    "the (ps_row s r) \<noteq> [] \<longleftrightarrow> \<not> is_thread r" "the (threads_row s r) \<noteq> [] \<longleftrightarrow> is_thread r"
    "the (ls_process_row s r) \<noteq> [] \<longleftrightarrow> \<not> is_thread r" "the (ls_thread_row s r) \<noteq> [] \<longleftrightarrow> is_thread r"
  using assms
  by (cases r; auto simp: pids_ok_def ps_row_def threads_row_def ls_process_row_def ls_thread_row_def
      Let_def)+

lemma cmd_ls_eq:
  assumes "queue (mkern m) xs" "pids_ok (mkern m) xs"
  shows "\<exists>v. cmd_ls m = Some (m\<lparr>mvga := v\<rparr>) \<and> (cursor_ok (mvga m) \<longrightarrow> console_kept (mvga m) v)"
proof -
  note r = rows_defined [OF assms(2)]
  have p: "rows ls_process_row (mkern m) v = Some (length (filter (\<lambda>r. the (ls_process_row (mkern m) r) \<noteq> []) xs),
      say (concat (map (\<lambda>r. the (ls_process_row (mkern m) r)) xs)) v)" for v
    by (rule rows_queue [OF assms(1)]) (rule r(3))
  have t: "rows ls_thread_row (mkern m) v = Some (length (filter (\<lambda>r. the (ls_thread_row (mkern m) r) \<noteq> []) xs),
      say (concat (map (\<lambda>r. the (ls_thread_row (mkern m) r)) xs)) v)" for v
    by (rule rows_queue [OF assms(1)]) (rule r(4))
  show ?thesis
    unfolding cmd_ls_def p t bind.bind_lunit option.map prod.case Let_def
    by (intro exI conjI refl impI) (intro kept_intros | auto intro!: kept_intros console_kept_refl)+
qed


section \<open>Killing and creating processes from the shell\<close>

lemma kill_pcb_spec:
  assumes core: "core_inv s xs" and r: "r \<in> set xs"
  shows "\<exists>k. kill_pcb r s = Some k \<and> core_inv k (remove1 r xs) \<and> state (pcbs k r) = PROCESS_DEAD
     \<and> pid (pcbs k r) = 0 \<and> current_pcb k = current_pcb s \<and> idle_pcb k = idle_pcb s
     \<and> next_pid k = next_pid s
     \<and> free_set (pm k) = insert (unat (stack_base (pcbs s r)) div 4096) (free_set (pm s))
     \<and> (\<forall>q. q \<noteq> r \<longrightarrow> state (pcbs k q) = state (pcbs s q) \<and> pid (pcbs k q) = pid (pcbs s q))"
proof -
  obtain t where t: "dequeue r (upd_pcb r (\<lambda>c. c\<lparr>state := PROCESS_DEAD\<rparr>) s) = Some t"
    "strip t = strip (upd_pcb r (\<lambda>c. c\<lparr>state := PROCESS_DEAD\<rparr>) s)"
    and fin: "\<And>f. (\<forall>c. state (f c) = state c) \<Longrightarrow>
        core_inv (upd_pcb r f (t\<lparr>pm := pmm_free_page (stack_base (pcbs t r)) (pm t)\<rparr>)) (remove1 r xs)"
    using core_remove [OF core r] by blast
  note e = strip_eqD [OF t(2)]
  let ?k = "upd_pcb r (\<lambda>c. c\<lparr>stack_base := 0, pid := 0\<rparr>)
     (t\<lparr>pm := pmm_free_page (stack_base (pcbs t r)) (pm t)\<rparr>)"
  have "kill_pcb r s = Some ?k" using t(1) by (simp add: kill_pcb_def scheduler_dequeue_def Let_def)
  moreover have "core_inv ?k (remove1 r xs)" by (rule fin) simp
  moreover have "free_set (pm ?k) = insert (unat (stack_base (pcbs s r)) div 4096) (free_set (pm s))"
  proof -
    have "pmm_ready (pm s)" "stack_ok (pm s) (stack_base (pcbs s r))"
      using core r by (auto simp: core_inv_def)
    from stack_ok_release(3) [OF this] show ?thesis using e(5) [of r] e(12) by simp
  qed
  moreover have "state (pcbs ?k r) = PROCESS_DEAD" "\<forall>q. q \<noteq> r \<longrightarrow> state (pcbs ?k q) = state (pcbs s q) \<and> pid (pcbs ?k q) = pid (pcbs s q)"
    "current_pcb ?k = current_pcb s" "idle_pcb ?k = idle_pcb s" "pid (pcbs ?k r) = 0"
    "next_pid ?k = next_pid s"
    using e(1,2) e(8,10,11) by simp_all
  ultimately show ?thesis by blast
qed

lemma kill_pcb_links:
  assumes q: "queue s xs" and x: "x \<in> set xs" and k: "kill_pcb x s = Some t"
  shows "r \<notin> set xs \<or> r = x \<Longrightarrow> next_pcb (pcbs t r) = (if r = x then None else next_pcb (pcbs s r))"
proof -
  let ?s = "upd_pcb x (\<lambda>c. c\<lparr>state := PROCESS_DEAD\<rparr>) s"
  obtain u where u: "dequeue x ?s = Some u" "pcbs t = (pcbs u)(x := (pcbs u x)\<lparr>stack_base := 0, pid := 0\<rparr>)"
    using k by (auto simp: kill_pcb_def scheduler_dequeue_def Let_def)
  have "queue ?s xs" using q by (simp add: queue_upd_keep)
  note l = dequeue_links [OF this u(1)]
  show "next_pcb (pcbs t r) = (if r = x then None else next_pcb (pcbs s r))" if "r \<notin> set xs \<or> r = x"
    using that l(1) [of r] l(2) [OF x] u(2) by auto
qed

lemma kill_pcb_inv:
  assumes inv: "kern_inv s xs" and r: "r \<in> set xs"
    and ne: "current_pcb s \<noteq> Some r" "idle_pcb s \<noteq> Some r"
  shows "\<exists>k. kill_pcb r s = Some k \<and> kern_inv k (remove1 r xs) \<and> state (pcbs k r) = PROCESS_DEAD
     \<and> free_set (pm k) = insert (unat (stack_base (pcbs s r)) div 4096) (free_set (pm s))
     \<and> (\<forall>q. q \<noteq> r \<longrightarrow> state (pcbs k q) = state (pcbs s q) \<and> pid (pcbs k q) = pid (pcbs s q))"
proof -
  have core: "core_inv s xs" and run: "run_ok s xs" using inv by (simp_all add: kern_inv_def)
  obtain k where k: "kill_pcb r s = Some k" "core_inv k (remove1 r xs)" "state (pcbs k r) = PROCESS_DEAD"
    "current_pcb k = current_pcb s" "idle_pcb k = idle_pcb s"
    "free_set (pm k) = insert (unat (stack_base (pcbs s r)) div 4096) (free_set (pm s))"
    "\<forall>q. q \<noteq> r \<longrightarrow> state (pcbs k q) = state (pcbs s q) \<and> pid (pcbs k q) = pid (pcbs s q)"
    using kill_pcb_spec [OF core r] by blast
  have "set (remove1 r xs) = set xs - {r}"
    using core rq.queue_distinct by (auto simp: core_inv_def set_remove1_eq)
  with run ne k have "run_ok k (remove1 r xs)" by (auto simp: run_ok_def)
  with k show ?thesis by (auto simp: kern_inv_def)
qed

lemma cmd_killprocess_eq:
  assumes "queue (mkern m) xs" "2 \<le> length argv"
  shows "cmd_killprocess argv m =
    (case find (\<lambda>r. pid (pcbs (mkern m) r) = parse_dec 0 (argv ! 1)) xs of
       Some p \<Rightarrow> map_option (\<lambda>s. m\<lparr>mkern := s, mvga := vga_putchar LF (say
           [(Some 0x0A, ''Process deleted: pid=''), (Some 0x0A, sh_itoa (parse_dec 0 (argv ! 1)))] (mvga m))\<rparr>)
           (kill_pcb p (mkern m))
     | None \<Rightarrow> Some (m\<lparr>mvga := vga_putchar LF (say
           [(None, ''No such process: ''), (None, sh_itoa (parse_dec 0 (argv ! 1)))] (mvga m))\<rparr>))"
  using assms find_pid_queue [of "pcbs (mkern m)" "run_queue (mkern m)" xs]
  by (simp add: cmd_killprocess_def Let_def queue_def on_vga_def split: option.splits)

lemma newprocess_core:
  assumes core: "core_inv (mkern m) xs" and can: "can_create (mkern m)"
  obtains k p where
    "cmd_newprocess im m = Some (m\<lparr>mkern := k,
       mvga := say (newprocess_text (next_pid (mkern m) + 1)) (mvga m)\<rparr>)"
    "p \<notin> set xs" "\<not> is_thread p" "core_inv k (xs @ [p])" "state (pcbs k p) = PROCESS_BLOCKED"
    "pid (pcbs k p) = next_pid (mkern m) + 1" "current_pcb k = current_pcb (mkern m)"
    "idle_pcb k = idle_pcb (mkern m)" "next_pid k = next_pid (mkern m) + 1"
    "\<forall>r. r \<noteq> p \<longrightarrow> pid (pcbs k r) = pid (pcbs (mkern m) r)
       \<and> state (pcbs k r) = state (pcbs (mkern m) r)"
    "\<forall>r. r \<notin> set xs \<longrightarrow> r \<noteq> p \<longrightarrow> next_pcb (pcbs k r) = next_pcb (pcbs (mkern m) r)"
proof -
  obtain p t stack k where t: "create_process (counter_process_addr im) 1 (mkern m) = Some (Some p, t)"
    "alloc_pcb (mkern m) = Some p" "p \<notin> set xs" "core_inv t (xs @ [p])"
    "strip t = strip (upd_pcb p (\<lambda>_. new_pcb (next_pid (mkern m) + 1) 1 stack)
        ((mkern m)\<lparr>pm := k, ram := (ram (mkern m))(stack + STACK_SIZE - 4 := counter_process_addr im),
           next_pid := next_pid (mkern m) + 1\<rparr>))"
    by (rule create_process_succeeds [OF core can])
  note e = strip_eqD [OF t(5)]
  have ready: "state (pcbs t p) = PROCESS_READY" using e(1) [of p] by (simp add: new_pcb_def)
  have k: "core_inv (mark_blocked p t) (xs @ [p])"
    using t(4) ready unfolding mark_blocked_def by (subst core_inv_upd_keep) simp_all
  have pid: "pid (pcbs t p) = next_pid (mkern m) + 1" using e(2) [of p] by (simp add: new_pcb_def)
  have "cmd_newprocess im m = Some (m\<lparr>mkern := mark_blocked p t,
      mvga := say (newprocess_text (next_pid (mkern m) + 1)) (mvga m)\<rparr>)"
    using t(1) pid by (simp add: cmd_newprocess_def on_vga_def Let_def mark_blocked_def)
  moreover have "\<not> is_thread p" using alloc_pcb_dead [OF t(2)] by auto
  moreover have "next_pcb (pcbs t r) = next_pcb (pcbs (mkern m) r)" if "r \<notin> set xs" "r \<noteq> p" for r
    using create_process_links [OF _ t(1,3) that] core by (simp add: core_inv_def)
  ultimately show ?thesis
    using k t(3) pid e(1,2) e(8,10,11)
    by (intro that [of "mark_blocked p t" p]) (simp_all add: mark_blocked_def)
qed

lemma newprocess_creates:
  assumes inv: "kern_inv (mkern m) xs" and can: "can_create (mkern m)"
  obtains k p where
    "cmd_newprocess im m = Some (m\<lparr>mkern := k,
       mvga := say (newprocess_text (next_pid (mkern m) + 1)) (mvga m)\<rparr>)"
    "p \<notin> set xs" "\<not> is_thread p" "kern_inv k (xs @ [p])" "state (pcbs k p) = PROCESS_BLOCKED"
    "pid (pcbs k p) = next_pid (mkern m) + 1" "current_pcb k = current_pcb (mkern m)"
    "idle_pcb k = idle_pcb (mkern m)"
    "\<forall>r. r \<noteq> p \<longrightarrow> pid (pcbs k r) = pid (pcbs (mkern m) r)
       \<and> state (pcbs k r) = state (pcbs (mkern m) r)"
proof -
  have core: "core_inv (mkern m) xs" and run: "run_ok (mkern m) xs"
    using inv by (simp_all add: kern_inv_def)
  obtain k p where k: "cmd_newprocess im m = Some (m\<lparr>mkern := k,
       mvga := say (newprocess_text (next_pid (mkern m) + 1)) (mvga m)\<rparr>)"
    "p \<notin> set xs" "\<not> is_thread p" "core_inv k (xs @ [p])" "state (pcbs k p) = PROCESS_BLOCKED"
    "pid (pcbs k p) = next_pid (mkern m) + 1" "current_pcb k = current_pcb (mkern m)"
    "idle_pcb k = idle_pcb (mkern m)"
    "\<forall>r. r \<noteq> p \<longrightarrow> pid (pcbs k r) = pid (pcbs (mkern m) r)
       \<and> state (pcbs k r) = state (pcbs (mkern m) r)"
    by (rule newprocess_core [OF core can])
  have "run_ok k (xs @ [p])" using k(2,5,7-9) by (intro run_ok_add [OF run]) auto
  with k show ?thesis by (intro that [of k p]) (simp_all add: kern_inv_def)
qed

lemma newprocess_fails:
  assumes "core_inv (mkern m) xs" "\<not> can_create (mkern m)"
  shows "cmd_newprocess im m = Some (on_vga
     (vga_print_color (''Failed: out of memory or process pool full'' @ [LF]) 0x0C) m)"
  using create_process_fails [OF assms] by (simp add: cmd_newprocess_def)

text \<open>A blocked process is never chosen by the scheduler.\<close>

lemma schedule_avoids_blocked:
  assumes "kern_inv s xs" "schedule s = Some fl" "idle_pcb s \<noteq> Some r"
    and "state (pcbs s r) = PROCESS_BLOCKED" "current_pcb s \<noteq> Some r"
  shows "current_pcb (flow_state fl) \<noteq> Some r"
proof -
  from assms(1) obtain c d where cd: "current_pcb s = Some c" "idle_pcb s = Some d" "c \<in> set xs"
    and q: "queue s xs" by (auto simp: kern_inv_def run_ok_def core_inv_def)
  have "sched_choice s xs c d \<noteq> r"
    using assms(3-5) cd(1,2)
    by (auto simp: sched_choice_def ready_def split: option.splits dest: find_Some_in)
  moreover have "flow_state fl = (if sched_choice s xs c d = c then s
      else switch_to c (sched_choice s xs c d) s)"
    using schedule_eq [OF q cd(1,2,3)] assms(2) by auto
  ultimately show ?thesis using assms(5) by (auto simp: switch_to_def)
qed

lemma ticks_avoid_blocked:
  assumes "kern_inv s xs" "idle_pcb s \<noteq> Some r" "state (pcbs s r) = PROCESS_BLOCKED"
    and "current_pcb s \<noteq> Some r"
  shows "\<exists>t. ticks es s = Some t \<and> kern_inv t xs \<and> state (pcbs t r) = PROCESS_BLOCKED
     \<and> current_pcb t \<noteq> Some r"
  using assms
proof (induction es arbitrary: s)
  case (Cons e es)
  have k: "kern_inv (s\<lparr>cpu_esp := e\<rparr>) xs" using Cons.prems(1) by simp
  obtain fl where fl: "schedule (s\<lparr>cpu_esp := e\<rparr>) = Some fl" using schedule_total [OF k] by blast
  then have t: "tick e s = Some (flow_state fl)" by (simp add: tick_def)
  from schedule_avoids_blocked [OF k fl, of r] Cons.prems(2-4)
  have "current_pcb (flow_state fl) \<noteq> Some r" by simp
  with tick_state [OF Cons.prems(1) t] Cons.prems Cons.IH [of "flow_state fl"] t show ?case by simp
qed simp

section \<open>Stopping the machine\<close>

text \<open>The polls of a waiting loop, and when it gives up.\<close>

definition kbc_polls :: "nat \<Rightarrow> io_log \<Rightarrow> bool" where
  "kbc_polls n es \<longleftrightarrow> length es \<le> n \<and> (\<forall>e \<in> set es. \<exists>v. e = In 0x64 v)
     \<and> (\<forall>v. In 0x64 v \<in> set (butlast es) \<longrightarrow> v AND 0x02 \<noteq> 0)
     \<and> (length es < n \<longrightarrow> (\<exists>v. es \<noteq> [] \<and> last es = In 0x64 v \<and> v AND 0x02 = 0))"

lemma kbc_wait_polls: "\<exists>es. kbc_wait dev n l = l @ es \<and> kbc_polls n es"
proof (induction n arbitrary: l)
  case 0
  then show ?case by (simp add: kbc_polls_def)
next
  case (Suc n)
  let ?v = "dev l 0x64"
  have l: "inb dev 0x64 l = (?v, l @ [In 0x64 ?v])" by (simp add: inb_def Let_def)
  show ?case
  proof (cases "?v AND 0x02 = 0")
    case True
    then show ?thesis by (intro exI [of _ "[In 0x64 ?v]"]) (simp add: l kbc_polls_def)
  next
    case False
    from Suc.IH [of "l @ [In 0x64 ?v]"] obtain es where
      es: "kbc_wait dev n (l @ [In 0x64 ?v]) = (l @ [In 0x64 ?v]) @ es" "kbc_polls n es" by blast
    have "kbc_polls (Suc n) (In 0x64 ?v # es)"
      using es(2) False by (auto simp: kbc_polls_def)
    with False es(1) show ?thesis by (intro exI [of _ "In 0x64 ?v # es"]) (simp add: l)
  qed
qed

section \<open>The dispatcher\<close>

lemma find_command_map_of:
  "c_string name \<Longrightarrow> list_all (\<lambda>(n, c). c_string n) cs \<Longrightarrow> find_command name cs = map_of cs name"
  by (induction cs) (auto simp: sh_strcmp_eq_0_iff)

lemma command_table_names: "list_all (\<lambda>(n, c). c_string n) command_table"
  by (simp add: command_table_def c_string_def)

section \<open>What the listings print\<close>

text \<open>The lines that describe one process and one thread, and the three listings as texts.\<close>

definition process_line :: "kern \<Rightarrow> pcb_ref \<Rightarrow> (uint8_t option \<times> string) list" where
  "process_line s r =
     [(None, dec_digits (unat (pid (pcbs s r)))), (None, ''    ''),
      (Some 0x0A, state_name (state (pcbs s r))), (None, ''  ''),
      (None, dec_digits (unat (priority (pcbs s r)))), (None, ''    kernel'' @ [LF])]"

definition parent_digits :: "kern \<Rightarrow> nat \<Rightarrow> string" where
  "parent_digits s i =
     (case parent (tcbs s i) of None \<Rightarrow> ''none'' | Some q \<Rightarrow> dec_digits (unat (pid (pcbs s q))))"

fun thread_line :: "kern \<Rightarrow> pcb_ref \<Rightarrow> (uint8_t option \<times> string) list" where
  "thread_line s (Tcb i) =
     [(None, dec_digits (unat (tid (tcbs s i)))), (None, ''    ''),
      (Some 0x0A, state_name (state (pcbs s (Tcb i)))), (None, ''  ''),
      (None, parent_digits s i), (None, [LF])]"
| "thread_line s (Pcb i) = []"

definition ps_text :: "kern \<Rightarrow> pcb_ref list \<Rightarrow> (uint8_t option \<times> string) list" where
  "ps_text s xs =
     [(Some 0x0B, [LF] @ ''PID  STATE    PRI  NAME'' @ [LF]),
      (Some 0x08, ''---  -------  ---  ----'' @ [LF])]
     @ concat (map (process_line s) (filter (\<lambda>r. \<not> is_thread r) xs)) @ [(None, [LF])]"

definition threads_text :: "kern \<Rightarrow> pcb_ref list \<Rightarrow> (uint8_t option \<times> string) list" where
  "threads_text s xs =
     [(Some 0x0B, [LF] @ ''TID  STATE    PARENT'' @ [LF]),
      (Some 0x08, ''---  -------  ------'' @ [LF])]
     @ concat (map (thread_line s) (filter is_thread xs)) @ [(None, [LF])]"

lemma concat_map_filter:
  "(\<And>x. x \<in> set xs \<Longrightarrow> f x = (if P x then g x else [])) \<Longrightarrow>
     concat (map f xs) = concat (map g (filter P xs))"
  by (induction xs) simp_all

lemma unat_ucast_8_32: "unat (ucast (w :: uint8_t) :: uint32_t) = unat w"
  using unat8_bound [of w] by (simp del: unat8_bound add: unsigned_ucast_eq take_bit_eq_mod)

lemma vga_print_char [simp]: "c \<noteq> NUL \<Longrightarrow> vga_print [c] v = vga_putchar c v"
  by (simp only: vga_print.simps if_False simp_thms)

lemma ps_rows_text:
  assumes "pids_ok s xs"
  shows "concat (map (\<lambda>r. the (ps_row s r)) xs) = concat (map (process_line s) (filter (\<lambda>r. \<not> is_thread r) xs))"
proof (rule concat_map_filter)
  fix r assume "r \<in> set xs"
  with assms show "the (ps_row s r) = (if \<not> is_thread r then process_line s r else [])"
    by (cases r) (auto simp: pids_ok_def ps_row_def process_line_def Let_def sh_itoa_digits unat_ucast_8_32)
qed

lemma parent_text_digits: "parent_text s i = parent_digits s i"
  by (simp add: parent_text_def parent_digits_def sh_itoa_digits split: option.splits)

lemma threads_rows_text:
  assumes "pids_ok s xs"
  shows "concat (map (\<lambda>r. the (threads_row s r)) xs) = concat (map (thread_line s) (filter is_thread xs))"
proof (rule concat_map_filter)
  fix r assume "r \<in> set xs"
  with assms show "the (threads_row s r) = (if is_thread r then thread_line s r else [])"
    by (cases r) (auto simp: pids_ok_def threads_row_def Let_def sh_itoa_digits parent_text_digits)
qed

lemma cmd_ps_eq:
  assumes "queue (mkern m) xs" "pids_ok (mkern m) xs"
  shows "cmd_ps m = Some (m\<lparr>mvga := say (ps_text (mkern m) xs) (mvga m)\<rparr>)"
proof -
  have r: "rows ps_row (mkern m) v = Some (length (filter (\<lambda>r. the (ps_row (mkern m) r) \<noteq> []) xs),
      say (concat (map (\<lambda>r. the (ps_row (mkern m) r)) xs)) v)" for v
    by (rule rows_queue [OF assms(1)]) (rule rows_defined(1) [OF assms(2)])
  show ?thesis
    by (simp add: cmd_ps_def r ps_rows_text [OF assms(2)] ps_text_def say_append)
qed

lemma cmd_threads_eq:
  assumes "queue (mkern m) xs" "pids_ok (mkern m) xs"
  shows "cmd_threads m = Some (m\<lparr>mvga := say (threads_text (mkern m) xs) (mvga m)\<rparr>)"
proof -
  have r: "rows threads_row (mkern m) v = Some (length (filter (\<lambda>r. the (threads_row (mkern m) r) \<noteq> []) xs),
      say (concat (map (\<lambda>r. the (threads_row (mkern m) r)) xs)) v)" for v
    by (rule rows_queue [OF assms(1)]) (rule rows_defined(2) [OF assms(2)])
  show ?thesis
    by (simp add: cmd_threads_def r threads_rows_text [OF assms(2)] threads_text_def say_append)
qed

section \<open>The invariant the shell works under\<close>

text \<open>
  Every slot that is not in the queue may hold any number, but in the queue exactly the threads
  have the process number 0; and the console is in order.
\<close>

definition shell_inv :: "machine \<Rightarrow> pcb_ref list \<Rightarrow> bool" where
  "shell_inv m xs \<longleftrightarrow> kern_inv (mkern m) xs \<and> pids_ok (mkern m) xs \<and> cursor_ok (mvga m)"

text \<open>What a command changes besides the console.\<close>

definition only_screen :: "machine \<Rightarrow> machine \<Rightarrow> bool" where
  "only_screen m n \<longleftrightarrow> (\<exists>v. n = m\<lparr>mvga := v\<rparr> \<and> console_kept (mvga m) v)"

lemma only_screen_on_vga:
  "console_kept (mvga m) (f (mvga m)) \<Longrightarrow> only_screen m (on_vga f m)"
  by (auto simp: only_screen_def on_vga_def)

lemma only_screen_inv: "shell_inv m xs \<Longrightarrow> only_screen m n \<Longrightarrow> shell_inv n xs \<and> mkern n = mkern m"
  by (auto simp: shell_inv_def only_screen_def console_kept_def)

lemma printing_commands:
  assumes "cursor_ok (mvga m)"
  shows "only_screen m (cmd_help m)" "only_screen m (cmd_echo argv m)" "only_screen m (cmd_time m)"
    "only_screen m (cmd_about m)" "only_screen m (cmd_banner m)" "only_screen m (cmd_meminfo m)"
    "only_screen m (on_vga (say ts) m)"
  unfolding cmd_help_def cmd_echo_def cmd_time_def cmd_about_def cmd_banner_def cmd_meminfo_def Let_def
  by (intro only_screen_on_vga kept_intros console_kept_refl assms)+

lemma listing_commands:
  assumes "shell_inv m xs"
  shows "\<exists>n. cmd_ps m = Some n \<and> only_screen m n" "\<exists>n. cmd_threads m = Some n \<and> only_screen m n"
    "\<exists>n. cmd_ls m = Some n \<and> only_screen m n"
proof -
  have a: "queue (mkern m) xs" "pids_ok (mkern m) xs" "cursor_ok (mvga m)"
    using assms by (simp_all add: shell_inv_def kern_inv_def core_inv_def)
  show "\<exists>n. cmd_ps m = Some n \<and> only_screen m n" "\<exists>n. cmd_threads m = Some n \<and> only_screen m n"
    unfolding cmd_ps_eq [OF a(1,2)] cmd_threads_eq [OF a(1,2)] only_screen_def
    using a(3) by (auto intro!: say_kept console_kept_refl)
  show "\<exists>n. cmd_ls m = Some n \<and> only_screen m n"
    using cmd_ls_eq [OF a(1,2)] a(3) by (auto simp: only_screen_def)
qed

section \<open>Killing and creating under the invariant\<close>

lemma shell_inv_newprocess:
  assumes "shell_inv m xs" "next_pid (mkern m) + 1 \<noteq> 0"
  shows "\<exists>n ys. cmd_newprocess im m = Some n \<and> shell_inv n ys
     \<and> n = m\<lparr>mkern := mkern n, mvga := mvga n\<rparr> \<and> console_kept (mvga m) (mvga n)"
proof (cases "can_create (mkern m)")
  case True
  have inv: "kern_inv (mkern m) xs" and pids: "pids_ok (mkern m) xs" and cur: "cursor_ok (mvga m)"
    using assms(1) by (simp_all add: shell_inv_def)
  let ?v = "say (newprocess_text (next_pid (mkern m) + 1)) (mvga m)"
  obtain k p where n: "cmd_newprocess im m = Some (m\<lparr>mkern := k, mvga := ?v\<rparr>)"
    "p \<notin> set xs" "\<not> is_thread p" "kern_inv k (xs @ [p])"
    "pid (pcbs k p) = next_pid (mkern m) + 1"
    "\<forall>r. r \<noteq> p \<longrightarrow> pid (pcbs k r) = pid (pcbs (mkern m) r) \<and> state (pcbs k r) = state (pcbs (mkern m) r)"
    by (rule newprocess_creates [OF inv True])
  have "pids_ok k (xs @ [p])"
    unfolding pids_ok_def
  proof
    fix r assume "r \<in> set (xs @ [p])"
    then show "(pid (pcbs k r) = 0) = is_thread r"
      using pids n(2,3,5,6) assms(2) by (cases "r = p") (auto simp: pids_ok_def)
  qed
  moreover have "console_kept (mvga m) ?v" by (intro say_kept console_kept_refl cur)
  ultimately show ?thesis using n(1,4)
    by (intro exI [of _ "m\<lparr>mkern := k, mvga := ?v\<rparr>"] exI [of _ "xs @ [p]"])
      (simp add: shell_inv_def console_kept_def)
next
  case False
  let ?n = "on_vga (vga_print_color (''Failed: out of memory or process pool full'' @ [LF]) 0x0C) m"
  have "core_inv (mkern m) xs" using assms(1) by (simp add: shell_inv_def kern_inv_def)
  note newprocess_fails [OF this False, of im]
  moreover have "only_screen m ?n"
    using assms(1) by (intro only_screen_on_vga print_color_kept console_kept_refl) (simp add: shell_inv_def)
  then have "console_kept (mvga m) (mvga ?n)" by (auto simp: only_screen_def)
  ultimately show ?thesis using assms(1)
    by (intro exI [of _ ?n] exI [of _ xs]) (simp add: shell_inv_def on_vga_def console_kept_def)
qed

definition killed_text :: "uint32_t \<Rightarrow> (uint8_t option \<times> string) list" where
  "killed_text n = [(Some 0x0A, ''Process deleted: pid=''), (Some 0x0A, dec_digits (unat n)), (None, [LF])]"

definition not_killed_text :: "uint32_t \<Rightarrow> (uint8_t option \<times> string) list" where
  "not_killed_text n = [(None, ''No such process: ''), (None, dec_digits (unat n)), (None, [LF])]"

definition kill_victim :: "kern \<Rightarrow> pcb_ref list \<Rightarrow> uint32_t \<Rightarrow> pcb_ref option" where
  "kill_victim s xs n = find (\<lambda>r. pid (pcbs s r) = n) xs"

lemma cmd_killprocess_cases:
  assumes "queue (mkern m) xs" "2 \<le> length argv" "parse_dec 0 (argv ! 1) = n"
  shows "cmd_killprocess argv m =
    (case kill_victim (mkern m) xs n of
       Some p \<Rightarrow> map_option (\<lambda>s. m\<lparr>mkern := s, mvga := say (killed_text n) (mvga m)\<rparr>) (kill_pcb p (mkern m))
     | None \<Rightarrow> Some (m\<lparr>mvga := say (not_killed_text n) (mvga m)\<rparr>))"
  unfolding cmd_killprocess_eq [OF assms(1,2)] assms(3)
  by (simp add: kill_victim_def killed_text_def not_killed_text_def sh_itoa_digits split: option.splits)

lemma kill_victim_in: "kill_victim s xs n = Some r \<Longrightarrow> r \<in> set xs \<and> pid (pcbs s r) = n"
  by (auto simp: kill_victim_def find_Some_iff)

lemma shell_inv_killprocess:
  assumes inv: "shell_inv m xs"
    and safe: "2 \<le> length argv \<Longrightarrow> kill_victim (mkern m) xs (parse_dec 0 (argv ! 1))
        \<notin> {Some c | c. current_pcb (mkern m) = Some c \<or> idle_pcb (mkern m) = Some c}"
  shows "\<exists>n ys. cmd_killprocess argv m = Some n \<and> shell_inv n ys
     \<and> n = m\<lparr>mkern := mkern n, mvga := mvga n\<rparr> \<and> console_kept (mvga m) (mvga n)"
proof (cases "2 \<le> length argv")
  case False
  have "cmd_killprocess argv m = Some (on_vga (vga_print (''Usage: killprocess <pid>'' @ [LF])) m)"
    using False by (simp add: cmd_killprocess_def)
  moreover have "only_screen m (on_vga (vga_print (''Usage: killprocess <pid>'' @ [LF])) m)"
    using inv by (intro only_screen_on_vga print_kept console_kept_refl) (simp add: shell_inv_def)
  ultimately show ?thesis using inv by (auto simp: only_screen_def shell_inv_def console_kept_def)
next
  case True
  let ?n = "parse_dec 0 (argv ! 1)"
  have k: "kern_inv (mkern m) xs" and cur: "cursor_ok (mvga m)" and pids: "pids_ok (mkern m) xs"
    using inv by (simp_all add: shell_inv_def)
  have q: "queue (mkern m) xs" using k by (simp add: kern_inv_def core_inv_def)
  note eq = cmd_killprocess_cases [OF q True refl]
  have kept: "console_kept (mvga m) (say ts (mvga m))" for ts
    by (intro say_kept console_kept_refl cur)
  show ?thesis
  proof (cases "kill_victim (mkern m) xs ?n")
    case None
    then show ?thesis using inv kept [of "not_killed_text ?n"]
      by (auto simp: eq shell_inv_def console_kept_def)
  next
    case (Some r)
    have r: "r \<in> set xs" using kill_victim_in [OF Some] by simp
    have "current_pcb (mkern m) \<noteq> Some r" "idle_pcb (mkern m) \<noteq> Some r"
      using safe [OF True] Some by auto
    from kill_pcb_inv [OF k r this] obtain s where s: "kill_pcb r (mkern m) = Some s"
      "kern_inv s (remove1 r xs)"
      "\<forall>q. q \<noteq> r \<longrightarrow> state (pcbs s q) = state (pcbs (mkern m) q) \<and> pid (pcbs s q) = pid (pcbs (mkern m) q)"
      by blast
    have "distinct xs" using q rq.queue_distinct by blast
    then have "pids_ok s (remove1 r xs)" using pids s(3) by (simp add: pids_ok_def)
    with s(1,2) kept [of "killed_text ?n"] show ?thesis
      by (intro exI [of _ "m\<lparr>mkern := s, mvga := say (killed_text ?n) (mvga m)\<rparr>"]
          exI [of _ "remove1 r xs"]) (simp add: eq [simplified] Some [simplified] shell_inv_def console_kept_def)
  qed
qed

text \<open>The two command lines after which the machine is not what it was: the killing of the running or the
  idle process, and a new process when the process numbers have been used up.\<close>

definition kills_needed :: "kern \<Rightarrow> pcb_ref list \<Rightarrow> string \<Rightarrow> string list \<Rightarrow> bool" where
  "kills_needed k xs name args \<longleftrightarrow> name = ''killprocess'' \<and> args \<noteq> []
     \<and> (\<exists>r. kill_victim k xs (parse_dec 0 (hd args)) = Some r
          \<and> (current_pcb k = Some r \<or> idle_pcb k = Some r))"

definition numbers_used_up :: "kern \<Rightarrow> string \<Rightarrow> bool" where
  "numbers_used_up k name \<longleftrightarrow> name = ''newprocess'' \<and> next_pid k + 1 = 0"

lemma kill_needed:
  assumes inv: "kern_inv k xs" and r: "r \<in> set xs" "current_pcb k = Some r \<or> idle_pcb k = Some r"
  shows "\<exists>s. kill_pcb r k = Some s \<and> core_inv s (remove1 r xs) \<and> state (pcbs s r) = PROCESS_DEAD
    \<and> current_pcb s = current_pcb k
    \<and> free_set (pm s) = insert (unat (stack_base (pcbs k r)) div 4096) (free_set (pm k))
    \<and> (\<forall>ys. \<not> kern_inv s ys)"
proof -
  have core: "core_inv k xs" using inv by (simp add: kern_inv_def)
  obtain s where s: "kill_pcb r k = Some s" "core_inv s (remove1 r xs)" "state (pcbs s r) = PROCESS_DEAD"
    "current_pcb s = current_pcb k" "idle_pcb s = idle_pcb k"
    "free_set (pm s) = insert (unat (stack_base (pcbs k r)) div 4096) (free_set (pm k))"
    using kill_pcb_spec [OF core r(1)] by blast
  have "\<not> kern_inv s ys" for ys
  proof
    assume k: "kern_inv s ys"
    then have "r \<in> set ys" using s(4,5) r(2) by (auto simp: kern_inv_def run_ok_def)
    moreover have "set ys = live s" using k by (simp only: kern_inv_def core_inv_def)
    ultimately show False using s(3) by (auto simp: live_def)
  qed
  with s show ?thesis by blast
qed

lemma killprocess_needed:
  assumes inv: "shell_inv m xs" and k: "kills_needed (mkern m) xs name args"
  shows "\<exists>n. cmd_killprocess (name # args) m = Some n \<and> (\<forall>ys. \<not> kern_inv (mkern n) ys)
     \<and> n = m\<lparr>mkern := mkern n, mvga := mvga n\<rparr> \<and> console_kept (mvga m) (mvga n)"
proof -
  obtain r where r: "kill_victim (mkern m) xs (parse_dec 0 (hd args)) = Some r"
    "current_pcb (mkern m) = Some r \<or> idle_pcb (mkern m) = Some r" and args: "args \<noteq> []"
    using k by (auto simp: kills_needed_def)
  have ki: "kern_inv (mkern m) xs" and cur: "cursor_ok (mvga m)" using inv by (simp_all add: shell_inv_def)
  have rx: "r \<in> set xs" using kill_victim_in [OF r(1)] by simp
  obtain s where s: "kill_pcb r (mkern m) = Some s" "\<forall>ys. \<not> kern_inv s ys"
    using kill_needed [OF ki rx r(2)] by blast
  have q: "queue (mkern m) xs" using ki by (simp add: kern_inv_def core_inv_def)
  have "2 \<le> length (name # args)" "parse_dec 0 ((name # args) ! 1) = parse_dec 0 (hd args)"
    using args by (cases args; simp)+
  note eq = cmd_killprocess_cases [OF q this]
  let ?v = "say (killed_text (parse_dec 0 (hd args))) (mvga m)"
  have "console_kept (mvga m) ?v" by (intro say_kept console_kept_refl cur)
  then show ?thesis using s
    by (intro exI [of _ "m\<lparr>mkern := s, mvga := ?v\<rparr>"]) (simp add: eq r(1))
qed

lemma newprocess_used_up:
  assumes inv: "shell_inv m xs"
  shows "\<exists>n ys. cmd_newprocess im m = Some n \<and> kern_inv (mkern n) ys
     \<and> n = m\<lparr>mkern := mkern n, mvga := mvga n\<rparr> \<and> console_kept (mvga m) (mvga n)"
proof (cases "can_create (mkern m)")
  case True
  have ki: "kern_inv (mkern m) xs" and cur: "cursor_ok (mvga m)" using inv by (simp_all add: shell_inv_def)
  let ?v = "say (newprocess_text (next_pid (mkern m) + 1)) (mvga m)"
  obtain k p where n: "cmd_newprocess im m = Some (m\<lparr>mkern := k, mvga := ?v\<rparr>)" "kern_inv k (xs @ [p])"
    by (rule newprocess_creates [OF ki True])
  have "console_kept (mvga m) ?v" by (intro say_kept console_kept_refl cur)
  then show ?thesis using n by (intro exI [of _ "m\<lparr>mkern := k, mvga := ?v\<rparr>"]) auto
next
  case False
  let ?n = "on_vga (vga_print_color (''Failed: out of memory or process pool full'' @ [LF]) 0x0C) m"
  have ki: "kern_inv (mkern m) xs" using inv by (simp add: shell_inv_def)
  then have "core_inv (mkern m) xs" by (simp add: kern_inv_def)
  note newprocess_fails [OF this False, of im]
  moreover have "only_screen m ?n"
    using inv by (intro only_screen_on_vga print_color_kept console_kept_refl) (simp add: shell_inv_def)
  ultimately show ?thesis using ki by (intro exI [of _ ?n] exI [of _ xs]) (auto simp: only_screen_def)
qed

section \<open>Stopping the machine\<close>

lemma reboot_stops:
  assumes "cursor_ok (mvga m)"
  shows "\<exists>t. cmd_reboot d m = Stopped t \<and> \<not> mif t \<and> mkern t = mkern m \<and> console_kept (mvga m) (mvga t)"
  using assms by (auto simp: cmd_reboot_def Let_def on_vga_def intro!: print_color_kept console_kept_refl)

lemma exit_stops:
  assumes "cursor_ok (mvga m)"
  shows "\<exists>t. cmd_exit d m = Stopped t \<and> \<not> mif t \<and> mkern t = mkern m \<and> console_kept (mvga m) (mvga t)"
  using assms by (auto simp: cmd_exit_def Let_def on_vga_def intro!: print_color_kept console_kept_refl)

section \<open>Every command keeps the invariant\<close>

lemma run_cmd_sound:
  assumes inv: "shell_inv m xs" and nm: "(name, c) \<in> set command_table"
    and pid: "\<not> numbers_used_up (mkern m) name" and safe: "\<not> kills_needed (mkern m) xs name args"
  shows "\<exists>r ys. run_cmd d im c (name # args) m = Some r \<and> shell_inv (outcome_state r) ys
    \<and> (name \<notin> {''newprocess'', ''killprocess''} \<longrightarrow> mkern (outcome_state r) = mkern m)
    \<and> (name \<notin> {''reboot'', ''exit''} \<longrightarrow>
         r = Done (m\<lparr>mkern := mkern (outcome_state r), mvga := mvga (outcome_state r)\<rparr>))
    \<and> (name \<noteq> ''clear'' \<longrightarrow> console_kept (mvga m) (mvga (outcome_state r)))"
    (is "?goal")
proof -
  have cur: "cursor_ok (mvga m)" using inv by (simp add: shell_inv_def)
  have screen: ?goal if "run_cmd d im c (name # args) m = Some (Done n)" "only_screen m n" for n
    using that inv by (intro exI [of _ "Done n"] exI [of _ xs])
      (auto simp: only_screen_def shell_inv_def console_kept_def)
  note pr = printing_commands [OF cur]
  note li = listing_commands [OF inv]
  have named: "name = fst (name, c)" "c = snd (name, c)" by simp_all
  show ?goal
  proof (cases c)
    case Clear
    with nm have "name = ''clear''" by (simp add: command_table_def)
    with Clear inv show ?thesis
      by (auto simp: cmd_clear_def on_vga_def shell_inv_def vga_clear_cursor)
  next
    case Ls with screen li show ?thesis by auto
  next
    case Ps with screen li show ?thesis by auto
  next
    case Threads with screen li show ?thesis by auto
  next
    case Newprocess
    with nm have n: "name = ''newprocess''" by (simp add: command_table_def)
    with pid have "next_pid (mkern m) + 1 \<noteq> 0" by (simp add: numbers_used_up_def)
    then obtain n ys where "cmd_newprocess im m = Some n" "shell_inv n ys"
      "n = m\<lparr>mkern := mkern n, mvga := mvga n\<rparr>" "console_kept (mvga m) (mvga n)"
      using shell_inv_newprocess [OF inv] by blast
    with Newprocess n show ?thesis by (intro exI [of _ "Done n"] exI [of _ ys]) simp
  next
    case Killprocess
    with nm have n: "name = ''killprocess''" by (simp add: command_table_def)
    have "2 \<le> length (name # args) \<Longrightarrow> kill_victim (mkern m) xs (parse_dec 0 ((name # args) ! 1))
        \<notin> {Some c | c. current_pcb (mkern m) = Some c \<or> idle_pcb (mkern m) = Some c}"
      using safe n by (cases args) (auto simp: kills_needed_def)
    from shell_inv_killprocess [OF inv this] obtain n ys where
      "cmd_killprocess (name # args) m = Some n" "shell_inv n ys"
      "n = m\<lparr>mkern := mkern n, mvga := mvga n\<rparr>" "console_kept (mvga m) (mvga n)" by blast
    with Killprocess n show ?thesis by (intro exI [of _ "Done n"] exI [of _ ys]) simp
  next
    case Reboot
    with nm have "name = ''reboot''" by (simp add: command_table_def)
    with Reboot reboot_stops [OF cur, of d] inv show ?thesis
      by (auto simp: shell_inv_def console_kept_def)
  next
    case Exit
    with nm have "name = ''exit''" by (simp add: command_table_def)
    with Exit exit_stops [OF cur, of d] inv show ?thesis
      by (auto simp: shell_inv_def console_kept_def)
  qed (use screen pr in simp_all)
qed

section \<open>A kernel image\<close>

definition demo_image :: image where
  "demo_image = \<lparr> gdt_addr = 0x110000, idt_addr = 0x111000, isr_addr = (\<lambda>i. 0x100100 + 16 * of_nat i),
     kernel_end_addr = 0x120000, idle_task_addr = 0x104000, counter_process_addr = 0x105000 \<rparr>"

section \<open>Properties\<close>

text \<open>C36: the dispatcher runs exactly the command whose name is typed, with the whole argument vector;
  any other name is reported and changes nothing but the screen, and an empty vector does nothing.\<close>

theorem shell_dispatch_runs_named:
  assumes "c_string name"
  shows "shell_dispatch d im [] m = Some (Done m)
    \<and> (\<forall>c. (name, c) \<in> set command_table \<longrightarrow>
          shell_dispatch d im (name # args) m = run_cmd d im c (name # args) m)
    \<and> (name \<notin> fst ` set command_table \<longrightarrow>
          shell_dispatch d im (name # args) m = Some (Done (m\<lparr>mvga := say
            [(Some 0x0C, ''Unknown command: ''), (None, name),
             (None, ''  (type '' @ [CHR 0x27] @ ''help'' @ [CHR 0x27] @ '' for commands)'' @ [LF])]
            (mvga m)\<rparr>)))"
proof -
  have f: "find_command name command_table = map_of command_table name"
    by (rule find_command_map_of [OF assms command_table_names])
  have d: "distinct (map fst command_table)" by (simp add: command_table_def)
  have "name \<notin> fst ` set command_table \<Longrightarrow> map_of command_table name = None"
    by (simp add: map_of_eq_None_iff)
  then show ?thesis
    by (simp add: shell_dispatch_def f on_vga_def map_of_is_SomeI [OF d] del: say.simps)
qed

theorem shell_dispatch_runs_named_witness:
  "shell_dispatch demo_devices demo_image [''ls'', ''x''] demo_machine = map_option Done (cmd_ls demo_machine)"
proof -
  have "(''ls'', Ls) \<in> set command_table" by (simp add: command_table_def)
  with shell_dispatch_runs_named [of "''ls''" demo_devices demo_image demo_machine "[''x'']"] show ?thesis
    by (simp add: c_string_def)
qed

text \<open>C24: every command line, of a known or unknown command, returns or stops the machine. The invariant
  of the shell holds afterwards but for two command lines: \<open>killprocess\<close> of the running or the idle
  process, after which no run queue makes the process table well-formed again, and \<open>newprocess\<close> when the process
  numbers are used up, which keeps the process table but not the numbers. Only \<open>newprocess\<close> and
  \<open>killprocess\<close> touch the kernel state, and no command but \<open>clear\<close> touches the status bar or
  the colour.\<close>

theorem shell_dispatch_keeps_machine:
  assumes inv: "shell_inv m xs" and cs: "c_string name"
  shows "\<exists>r. shell_dispatch d im (name # args) m = Some r
    \<and> (if kills_needed (mkern m) xs name args then \<forall>ys. \<not> kern_inv (mkern (outcome_state r)) ys
       else \<exists>ys. kern_inv (mkern (outcome_state r)) ys
         \<and> (numbers_used_up (mkern m) name \<or> shell_inv (outcome_state r) ys))
    \<and> (name \<notin> {''newprocess'', ''killprocess''} \<longrightarrow> mkern (outcome_state r) = mkern m)
    \<and> (name \<notin> {''reboot'', ''exit''} \<longrightarrow>
         r = Done (m\<lparr>mkern := mkern (outcome_state r), mvga := mvga (outcome_state r)\<rparr>))
    \<and> (name \<noteq> ''clear'' \<longrightarrow> console_kept (mvga m) (mvga (outcome_state r)))"
proof (cases "map_of command_table name")
  case None
  have f: "find_command name command_table = None"
    using find_command_map_of [OF cs command_table_names] None by simp
  let ?n = "on_vga (say [(Some 0x0C, ''Unknown command: ''), (None, name),
      (None, ''  (type '' @ [CHR 0x27] @ ''help'' @ [CHR 0x27] @ '' for commands)'' @ [LF])]) m"
  have "only_screen m ?n" using inv by (intro printing_commands) (simp add: shell_inv_def)
  moreover have "shell_dispatch d im (name # args) m = Some (Done ?n)"
    by (simp add: shell_dispatch_def f del: say.simps)
  moreover have "\<not> kills_needed (mkern m) xs name args"
    using None by (auto simp: kills_needed_def command_table_def)
  ultimately show ?thesis
    using inv by (intro exI [of _ "Done ?n"])
      (auto simp: only_screen_def shell_inv_def console_kept_def simp del: say.simps)
next
  case (Some c)
  have run: "shell_dispatch d im (name # args) m = run_cmd d im c (name # args) m"
    using find_command_map_of [OF cs command_table_names] Some by (simp add: shell_dispatch_def)
  have nm: "(name, c) \<in> set command_table" using Some by (rule map_of_SomeD)
  show ?thesis
  proof (cases "kills_needed (mkern m) xs name args")
    case True
    then have n: "name = ''killprocess''" by (simp add: kills_needed_def)
    with Some have "c = Killprocess" by (simp add: command_table_def)
    with killprocess_needed [OF inv True] True n show ?thesis unfolding run by auto
  next
    case safe: False
    show ?thesis
    proof (cases "numbers_used_up (mkern m) name")
      case True
      then have n: "name = ''newprocess''" by (simp add: numbers_used_up_def)
      with Some have "c = Newprocess" by (simp add: command_table_def)
      with newprocess_used_up [OF inv, of im] True safe n show ?thesis unfolding run by auto
    next
      case False
      from run_cmd_sound [OF inv nm this safe, of d im] safe show ?thesis
        unfolding run by (auto simp: shell_inv_def)
    qed
  qed
qed

lemma demo_shell_inv: "shell_inv demo_machine demo_queue"
proof -
  have "pids_ok demo_kern demo_queue" by (simp add: pids_ok_def demo_kern_def demo_pcb_def)
  then show ?thesis using demo_inv vga_start_ok by (simp add: shell_inv_def demo_machine_def)
qed

text \<open>A new process, and the death of the running one (its number is 2).\<close>

theorem shell_dispatch_keeps_machine_witness:
  "\<exists>r s. shell_dispatch demo_devices demo_image [''newprocess''] demo_machine = Some r
     \<and> (\<exists>ys. shell_inv (outcome_state r) ys)
     \<and> shell_dispatch demo_devices demo_image [''killprocess'', ''2''] demo_machine = Some s
     \<and> (\<forall>ys. \<not> kern_inv (mkern (outcome_state s)) ys)"
proof -
  have m: "mkern demo_machine = demo_kern" by (simp add: demo_machine_def)
  have "\<not> kills_needed demo_kern demo_queue ''newprocess'' []" "\<not> numbers_used_up demo_kern ''newprocess''"
    by (simp_all add: kills_needed_def numbers_used_up_def demo_kern_def)
  moreover have "c_string ''newprocess''" "c_string ''killprocess''" by (simp_all add: c_string_def)
  moreover have "parse_dec 0 ''2'' = 2" by code_simp
  then have "kills_needed demo_kern demo_queue ''killprocess'' [''2'']"
    by (simp add: kills_needed_def kill_victim_def demo_kern_def demo_pcb_def)
  ultimately show ?thesis
    using shell_dispatch_keeps_machine [OF demo_shell_inv, of "''newprocess''" demo_devices demo_image "[]"]
      shell_dispatch_keeps_machine [OF demo_shell_inv, of "''killprocess''" demo_devices demo_image "[''2'']"]
    unfolding m by (simp del: say.simps) blast
qed

text \<open>\<open>ps\<close> and \<open>threads\<close> list the run queue exactly: \<open>ps\<close> prints one line for every process in
  queue order, with its number, state and priority, \<open>threads\<close> one for every thread, with its
  number, state and the number of its parent; nothing else changes.\<close>

theorem listings_show_queue:
  assumes "shell_inv m xs"
  shows "cmd_ps m = Some (m\<lparr>mvga := say (ps_text (mkern m) xs) (mvga m)\<rparr>)
    \<and> cmd_threads m = Some (m\<lparr>mvga := say (threads_text (mkern m) xs) (mvga m)\<rparr>)"
proof -
  have k: "kern_inv (mkern m) xs" and p: "pids_ok (mkern m) xs"
    using assms by (simp_all add: shell_inv_def)
  have "queue (mkern m) xs" using k by (simp add: kern_inv_def core_inv_def)
  from cmd_ps_eq [OF this p] cmd_threads_eq [OF this p] show ?thesis by simp
qed

theorem listings_show_queue_witness:
  "cmd_ps demo_machine = Some (demo_machine\<lparr>mvga := say (ps_text demo_kern demo_queue) vga_start\<rparr>)
    \<and> ps_text demo_kern demo_queue =
       [(Some 0x0B, [LF] @ ''PID  STATE    PRI  NAME'' @ [LF]),
        (Some 0x08, ''---  -------  ---  ----'' @ [LF]),
        (None, ''1''), (None, ''    ''), (Some 0x0A, ''READY  ''), (None, ''  ''), (None, ''1''),
        (None, ''    kernel'' @ [LF]),
        (None, ''2''), (None, ''    ''), (Some 0x0A, ''RUNNING''), (None, ''  ''), (None, ''1''),
        (None, ''    kernel'' @ [LF]), (None, [LF])]"
proof -
  have d: "dec_digits 1 = ''1''" "dec_digits 2 = ''2''" by code_simp+
  have m: "mkern demo_machine = demo_kern" "mvga demo_machine = vga_start"
    by (simp_all add: demo_machine_def)
  show ?thesis
    using listings_show_queue [OF demo_shell_inv] d
    by (simp add: m ps_text_def process_line_def) (simp add: demo_kern_def demo_pcb_def d [simplified])
qed

text \<open>\<open>killprocess n\<close> with the decimal number of a process other than the running and the idle
  one takes it out of the run queue, marks it dead, gives its stack page back and leaves every
  other process alone, with the invariant of the process table kept; a number that no queued
  process has is only reported.\<close>

theorem killprocess_removes_process:
  assumes inv: "kern_inv (mkern m) xs"
    and num: "\<not> is_digit (deref junk)" "argv = name # (dec_digits (unat n) @ junk) # rest"
    and ne: "current_pcb (mkern m) \<noteq> kill_victim (mkern m) xs n"
      "idle_pcb (mkern m) \<noteq> kill_victim (mkern m) xs n"
  shows "\<exists>s. cmd_killprocess argv m = Some (m\<lparr>mkern := s, mvga := say
           (if kill_victim (mkern m) xs n = None then not_killed_text n else killed_text n) (mvga m)\<rparr>)
    \<and> (case kill_victim (mkern m) xs n of
         None \<Rightarrow> s = mkern m
       | Some r \<Rightarrow> r \<in> set xs \<and> pid (pcbs (mkern m) r) = n \<and> kern_inv s (remove1 r xs)
           \<and> state (pcbs s r) = PROCESS_DEAD
           \<and> free_set (pm s)
               = insert (unat (stack_base (pcbs (mkern m) r)) div 4096) (free_set (pm (mkern m)))
           \<and> (\<forall>q. q \<noteq> r \<longrightarrow> state (pcbs s q) = state (pcbs (mkern m) q)
                \<and> pid (pcbs s q) = pid (pcbs (mkern m) q)))"
proof -
  have q: "queue (mkern m) xs" using inv by (simp add: kern_inv_def core_inv_def)
  have n: "parse_dec 0 (argv ! 1) = n" using num by (simp add: parse_dec_prefix)
  have l: "2 \<le> length argv" using num(2) by simp
  note eq = cmd_killprocess_cases [OF q l n]
  show ?thesis
  proof (cases "kill_victim (mkern m) xs n")
    case None
    then show ?thesis by (intro exI [of _ "mkern m"]) (simp add: eq)
  next
    case (Some r)
    have r: "r \<in> set xs" "pid (pcbs (mkern m) r) = n" using kill_victim_in [OF Some] by simp_all
    from kill_pcb_inv [OF inv r(1)] ne Some obtain s where "kill_pcb r (mkern m) = Some s"
      "kern_inv s (remove1 r xs)" "state (pcbs s r) = PROCESS_DEAD"
      "free_set (pm s)
         = insert (unat (stack_base (pcbs (mkern m) r)) div 4096) (free_set (pm (mkern m)))"
      "\<forall>q. q \<noteq> r \<longrightarrow> state (pcbs s q) = state (pcbs (mkern m) q) \<and> pid (pcbs s q) = pid (pcbs (mkern m) q)"
      by auto
    with r Some show ?thesis by (intro exI [of _ s]) (simp add: eq)
  qed
qed

theorem killprocess_removes_process_witness:
  "\<exists>s. cmd_killprocess [''killprocess'', ''0''] demo_machine
     = Some (demo_machine\<lparr>mkern := s, mvga := say (killed_text 0) vga_start\<rparr>)
     \<and> kern_inv s [Pcb 0, Pcb 7]"
proof -
  have m: "mkern demo_machine = demo_kern" "mvga demo_machine = vga_start"
    by (simp_all add: demo_machine_def)
  have v: "kill_victim demo_kern demo_queue 0 = Some (Tcb 0)"
    by (simp add: kill_victim_def demo_kern_def demo_pcb_def)
  have d: "dec_digits 0 = ''0''" by (rule digits_0)
  have "remove1 (Tcb 0) demo_queue = [Pcb 0, Pcb 7]" by simp
  then show ?thesis
    using killprocess_removes_process [of demo_machine demo_queue "[]" _ "''killprocess''" 0 "[]"]
      demo_inv v by (auto simp: m d)
qed

text \<open>C29: \<open>killprocess\<close> does not look at what it is given. A word that does not begin with a digit counts as the
  number 0, which is that of every thread: the command kills the first thread of the run queue and reports the
  deletion of process 0.\<close>

theorem killprocess_word_kills_thread:
  assumes inv: "shell_inv m xs" and w: "\<not> is_digit (deref w)" "argv = name # w # rest"
    and r: "find is_thread xs = Some r" "current_pcb (mkern m) \<noteq> Some r" "idle_pcb (mkern m) \<noteq> Some r"
  shows "\<exists>s. cmd_killprocess argv m = Some (m\<lparr>mkern := s, mvga := say (killed_text 0) (mvga m)\<rparr>)
    \<and> kern_inv s (remove1 r xs) \<and> state (pcbs s r) = PROCESS_DEAD \<and> is_thread r"
proof -
  have k: "kern_inv (mkern m) xs" and pids: "pids_ok (mkern m) xs" using inv by (simp_all add: shell_inv_def)
  have q: "queue (mkern m) xs" using k by (simp add: kern_inv_def core_inv_def)
  have n: "parse_dec 0 (argv ! 1) = 0" "2 \<le> length argv" using w by (simp_all add: parse_dec_stop)
  have "kill_victim (mkern m) xs 0 = find is_thread xs"
    unfolding kill_victim_def using pids by (intro find_cong) (auto simp: pids_ok_def)
  then have v: "kill_victim (mkern m) xs 0 = Some r" using r(1) by simp
  have "r \<in> set xs" "is_thread r" using r(1) by (auto simp: find_Some_iff)
  from kill_pcb_inv [OF k this(1) r(2,3)] this(2) v show ?thesis
    by (auto simp: cmd_killprocess_cases [OF q n(2,1)])
qed

theorem killprocess_word_kills_thread_witness:
  "\<exists>s. cmd_killprocess [''killprocess'', ''abc''] demo_machine
     = Some (demo_machine\<lparr>mkern := s, mvga := say (killed_text 0) vga_start\<rparr>)
     \<and> kern_inv s [Pcb 0, Pcb 7]"
proof -
  have m: "mkern demo_machine = demo_kern" "mvga demo_machine = vga_start" by (simp_all add: demo_machine_def)
  have "\<not> is_digit (deref ''abc'')" by code_simp
  moreover have "find is_thread demo_queue = Some (Tcb 0)" by simp
  moreover have "current_pcb demo_kern \<noteq> Some (Tcb 0)" "idle_pcb demo_kern \<noteq> Some (Tcb 0)"
    by (simp_all add: demo_kern_def)
  moreover have "remove1 (Tcb 0) demo_queue = [Pcb 0, Pcb 7]" by simp
  ultimately show ?thesis
    using killprocess_word_kills_thread [OF demo_shell_inv _ refl, of "''abc''" "Tcb 0" "''killprocess''" "[]"]
    by (auto simp: m)
qed

text \<open>C28: \<open>killprocess\<close> has no guard for the running process: aimed at it, the command frees the
  stack it is running on and marks it dead, but the process stays the current one, outside the
  run queue, so that no queue makes the invariant of the process table true again.\<close>

theorem killprocess_kills_running:
  assumes inv: "kern_inv (mkern m) xs"
    and num: "\<not> is_digit (deref junk)" "argv = name # (dec_digits (unat n) @ junk) # rest"
    and cur: "current_pcb (mkern m) = Some c" "kill_victim (mkern m) xs n = Some c"
  shows "\<exists>s. cmd_killprocess argv m = Some (m\<lparr>mkern := s, mvga := say (killed_text n) (mvga m)\<rparr>)
    \<and> current_pcb s = Some c \<and> state (pcbs s c) = PROCESS_DEAD \<and> queue s (remove1 c xs)
    \<and> unat (stack_base (pcbs (mkern m) c)) div 4096 \<in> free_set (pm s)
    \<and> (\<forall>ys. \<not> kern_inv s ys)"
proof -
  have core: "core_inv (mkern m) xs" using inv by (simp add: kern_inv_def)
  then have q: "queue (mkern m) xs" by (simp add: core_inv_def)
  have n: "parse_dec 0 (argv ! 1) = n" using num by (simp add: parse_dec_prefix)
  have l: "2 \<le> length argv" using num(2) by simp
  have c: "c \<in> set xs" using kill_victim_in [OF cur(2)] by simp
  obtain s where s: "kill_pcb c (mkern m) = Some s" "core_inv s (remove1 c xs)"
    "state (pcbs s c) = PROCESS_DEAD" "current_pcb s = current_pcb (mkern m)"
    "free_set (pm s) = insert (unat (stack_base (pcbs (mkern m) c)) div 4096) (free_set (pm (mkern m)))"
    "\<forall>ys. \<not> kern_inv s ys"
    using kill_needed [OF inv c] cur(1) by blast
  have "queue s (remove1 c xs)" using s(2) by (simp add: core_inv_def)
  then show ?thesis
    using s cur by (intro exI [of _ s]) (simp add: cmd_killprocess_cases [OF q l n])
qed

theorem killprocess_kills_running_witness:
  "\<exists>s. cmd_killprocess [''killprocess'', ''2''] demo_machine
     = Some (demo_machine\<lparr>mkern := s, mvga := say (killed_text 2) vga_start\<rparr>)
     \<and> (\<forall>ys. \<not> kern_inv s ys)"
proof -
  have m: "mkern demo_machine = demo_kern" "mvga demo_machine = vga_start"
    by (simp_all add: demo_machine_def)
  have v: "kill_victim demo_kern demo_queue 2 = Some (Pcb 7)"
    by (simp add: kill_victim_def demo_kern_def demo_pcb_def)
  have d: "dec_digits 2 = ''2''" by code_simp
  show ?thesis
    using killprocess_kills_running [of demo_machine demo_queue "[]" _ "''killprocess''" 2 "[]" "Pcb 7"]
      demo_inv v by (auto simp: m d)
qed

text \<open>A process made by \<open>newprocess\<close> shows up at the end of the run queue, blocked, under the
  number that the command prints, and the scheduler never runs it, however many timer ticks
  follow; without a free slot or page the command only prints that it failed.\<close>

theorem newprocess_never_runs:
  assumes inv: "kern_inv (mkern m) xs"
  shows "if can_create (mkern m)
    then (\<exists>k p. cmd_newprocess im m = Some (m\<lparr>mkern := k,
              mvga := say (newprocess_text (next_pid (mkern m) + 1)) (mvga m)\<rparr>)
            \<and> kern_inv k (xs @ [p]) \<and> pid (pcbs k p) = next_pid (mkern m) + 1
            \<and> (\<forall>es. \<exists>t. ticks es k = Some t \<and> kern_inv t (xs @ [p])
                 \<and> state (pcbs t p) = PROCESS_BLOCKED \<and> current_pcb t \<noteq> Some p))
    else cmd_newprocess im m = Some (on_vga
           (vga_print_color (''Failed: out of memory or process pool full'' @ [LF]) 0x0C) m)"
proof (cases "can_create (mkern m)")
  case True
  obtain k p where k: "cmd_newprocess im m = Some (m\<lparr>mkern := k,
       mvga := say (newprocess_text (next_pid (mkern m) + 1)) (mvga m)\<rparr>)"
    "p \<notin> set xs" "kern_inv k (xs @ [p])" "state (pcbs k p) = PROCESS_BLOCKED"
    "pid (pcbs k p) = next_pid (mkern m) + 1" "current_pcb k = current_pcb (mkern m)"
    "idle_pcb k = idle_pcb (mkern m)"
    by (rule newprocess_creates [OF inv True])
  have "current_pcb k \<noteq> Some p" "idle_pcb k \<noteq> Some p"
    using inv k(2,6,7) by (auto simp: kern_inv_def run_ok_def)
  note t = ticks_avoid_blocked [OF k(3) this(2) k(4) this(1)]
  show ?thesis
    unfolding if_P [OF True] using k(1,3,5) t by blast
next
  case False
  have "core_inv (mkern m) xs" using inv by (simp add: kern_inv_def)
  with newprocess_fails [OF _ False] False show ?thesis by simp
qed

theorem newprocess_never_runs_witness:
  "\<exists>k p. cmd_newprocess demo_image demo_machine = Some (demo_machine\<lparr>mkern := k,
       mvga := say (newprocess_text 3) vga_start\<rparr>)
     \<and> (\<exists>t. ticks [0x6F00, 0x8F00] k = Some t \<and> current_pcb t \<noteq> Some p)"
proof -
  have m: "mkern demo_machine = demo_kern" "mvga demo_machine = vga_start" "next_pid demo_kern + 1 = 3"
    by (simp_all add: demo_machine_def demo_kern_def)
  show ?thesis
    using newprocess_never_runs [of demo_machine demo_queue demo_image] demo_inv demo_can_create
    unfolding m if_P [OF demo_can_create] by blast
qed

text \<open>\<open>reboot\<close> and \<open>exit\<close> end with the interrupts off and the reset command 0xFE at the keyboard
  controller, whatever the devices answer: after at most 100000 polls of its status port, and
  not before its input buffer is empty unless those polls are used up. \<open>exit\<close> asks for the
  power-off at port 0x604 first.\<close>

theorem reboot_and_exit_reset:
  shows "(\<exists>t es. cmd_reboot d m = Stopped t \<and> \<not> mif t \<and> mkern t = mkern m \<and> kbc_polls 100000 es
        \<and> mctl t = mctl m @ es @ [Out 0x64 0xFE])
    \<and> (\<exists>t es. cmd_exit d m = Stopped t \<and> \<not> mif t \<and> mkern t = mkern m \<and> kbc_polls 100000 es
        \<and> mctl t = mctl m @ [OutW 0x604 0x2000] @ es @ [Out 0x64 0xFE])"
proof -
  obtain e1 where e1: "kbc_wait (ps2 d) 100000 (mctl m) = mctl m @ e1" "kbc_polls 100000 e1"
    using kbc_wait_polls [of "ps2 d" 100000 "mctl m"] by blast
  obtain e2 where e2: "kbc_wait (ps2 d) 100000 (mctl m @ [OutW 0x604 0x2000])
      = (mctl m @ [OutW 0x604 0x2000]) @ e2" "kbc_polls 100000 e2"
    using kbc_wait_polls [of "ps2 d" 100000 "mctl m @ [OutW 0x604 0x2000]"] by blast
  show ?thesis
    using e1 e2
    by (auto simp: cmd_reboot_def cmd_exit_def Let_def on_vga_def outb_def outw_def
        simp del: kbc_wait.simps)
qed

text \<open>\<open>time\<close> prints the hours, minutes and seconds that the ticks of the timer make at 100 Hz,
  and the number of ticks itself, all in decimal.\<close>

theorem cmd_time_shows_uptime:
  "\<exists>h mi s. unat (get_tick_count (mpit m)) div 100 = (h * 60 + mi) * 60 + s \<and> mi < 60 \<and> s < 60
    \<and> cmd_time m = m\<lparr>mvga := say
        [(Some 0x0B, ''Uptime: ''), (None, dec_digits h), (None, ''h ''),
         (None, dec_digits mi), (None, ''m ''), (None, dec_digits s), (None, ''s''),
         (Some 0x08, ''  (''), (Some 0x08, dec_digits (unat (get_tick_count (mpit m)))),
         (Some 0x08, '' ticks @ 100Hz)'' @ [LF])] (mvga m)\<rparr>"
proof -
  let ?w = "get_tick_count (mpit m)"
  let ?t = "unat ?w div 100"
  have e: "?t = (?t div 60 div 60 * 60 + ?t div 60 mod 60) * 60 + ?t mod 60" by presburger
  have d: "sh_itoa (?w div 100 div 60 div 60) = dec_digits (?t div 60 div 60)"
    "sh_itoa (?w div 100 div 60 mod 60) = dec_digits (?t div 60 mod 60)"
    "sh_itoa (?w div 100 mod 60) = dec_digits (?t mod 60)" "sh_itoa ?w = dec_digits (unat ?w)"
    unfolding sh_itoa_digits unat_div unat_mod by simp_all
  have c: "cmd_time m = m\<lparr>mvga := say
        [(Some 0x0B, ''Uptime: ''), (None, dec_digits (?t div 60 div 60)), (None, ''h ''),
         (None, dec_digits (?t div 60 mod 60)), (None, ''m ''), (None, dec_digits (?t mod 60)),
         (None, ''s''), (Some 0x08, ''  (''), (Some 0x08, dec_digits (unat ?w)),
         (Some 0x08, '' ticks @ 100Hz)'' @ [LF])] (mvga m)\<rparr>"
    by (simp only: cmd_time_def Let_def on_vga_def d)
  have "?t div 60 mod 60 < 60" "?t mod 60 < 60" by simp_all
  with e c show ?thesis by blast
qed

end
