(* ===== verification/Shell.thy ===== *)
theory Shell
  imports Command_Facts
begin

text \<open>
  The loop of the shell (\<^verbatim>\<open>shell_run\<close> in \<^verbatim>\<open>src/shell.c\<close>): the line editor, the wait for a key and
  the prompt. The shell sleeps in \<^verbatim>\<open>hlt\<close> until an interrupt; the interrupts that end its sleeps
  are a list of interrupt frames, and each runs the whole interrupt path of the kernel, so a key
  reaches the shell only through the keyboard handler. The loop has no end in the code; the
  model observes it until the given interrupts are used up and the shell sleeps again.
\<close>

text \<open>
  \<^verbatim>\<open>line\<close> and \<^verbatim>\<open>pos\<close> of \<^verbatim>\<open>shell_run\<close> with its two static counters. \<^verbatim>\<open>pos\<close> is an \<^verbatim>\<open>int\<close> that is only
  decremented when positive.
\<close>

record shell =
  line_buf :: string
  line_pos :: nat
  keystroke_count :: uint32_t
  idle_count :: uint32_t

abbreviation BS :: char where
  "BS \<equiv> CHR 0x08"

definition prompt :: "machine \<Rightarrow> machine" where
  "prompt = on_vga (say [(Some 0x0A, ''user''), (Some 0x0B, ''@vamos-os''), (Some 0x0E, '' > '')])"

definition refresh_statusbar :: "machine \<Rightarrow> machine" where
  "refresh_statusbar m = on_vga (vga_draw_statusbar (get_tick_count (mpit m))) m"

text \<open>
  The end of a command line: a new prompt when the command comes back.
\<close>

fun enter_done :: "shell \<Rightarrow> outcome \<Rightarrow> shell \<times> outcome" where
  "enter_done sh (Done m) = (sh\<lparr>line_pos := 0\<rparr>, Done (prompt m))"
| "enter_done sh (Away m) = (sh, Away m)"
| "enter_done sh (Stopped m) = (sh, Stopped m)"

text \<open>What the loop does with one key.\<close>

definition shell_key :: "devices \<Rightarrow> image \<Rightarrow> char \<Rightarrow> shell \<Rightarrow> machine \<Rightarrow> (shell \<times> outcome) option" where
  "shell_key d im c sh m =
     (let sh = sh\<lparr>keystroke_count := keystroke_count sh + 1\<rparr>
      in if c = LF then
           (let m = on_vga (vga_putchar LF) m;
                b = (line_buf sh)[line_pos sh := NUL]
            in if line_pos sh > 0 then
                 (let (b', args) = shell_parse b;
                      sh = sh\<lparr>line_buf := b'\<rparr>
                  in case args of
                       None \<Rightarrow> Some (enter_done sh (Done m))
                     | Some argv \<Rightarrow> map_option (enter_done sh) (shell_dispatch d im argv m))
               else Some (enter_done (sh\<lparr>line_buf := b\<rparr>) (Done m)))
         else if c = BS then
           (if line_pos sh > 0
            then Some (sh\<lparr>line_pos := line_pos sh - 1\<rparr>, Done (on_vga (vga_putchar BS) m))
            else Some (sh, Done m))
         else if line_pos sh < MAX_LINE - 1 then
           Some (sh\<lparr>line_buf := (line_buf sh)[line_pos sh := c], line_pos := line_pos sh + 1\<rparr>,
                 Done (on_vga (vga_putchar c) m))
         else Some (sh, Done m))"

text \<open>
  \<^verbatim>\<open>while ((c = keyboard_getchar()) == 0)\<close>: it ends with a key, in \<^verbatim>\<open>hlt\<close> with no interrupt left, or
  with an interrupt that does not come back to the shell.
\<close>

datatype waiting =
    Key char "registers list" shell machine
  | Asleep shell machine
  | Gone shell outcome

fun shell_wait :: "devices \<Rightarrow> registers list \<Rightarrow> shell \<Rightarrow> machine \<Rightarrow> waiting option" where
  "shell_wait d irqs sh m =
     (let (c, k) = keyboard_getchar (mkbd m);
          m = m\<lparr>mkbd := k\<rparr>
      in if c \<noteq> NUL then Some (Key c irqs sh m)
         else (let m = m\<lparr>mif := True\<rparr>
               in case irqs of
                    [] \<Rightarrow> Some (Asleep sh m)
                  | r # rs \<Rightarrow>
                      (case common_isr_handler d r m of
                         None \<Rightarrow> None
                       | Some (Done m) \<Rightarrow>
                           (let sh = sh\<lparr>idle_count := idle_count sh + 1\<rparr>;
                                m = (if idle_count sh mod 200 = 0 then refresh_statusbar m else m)
                            in shell_wait d rs sh m)
                       | Some (Away m) \<Rightarrow> Some (Gone sh (Away m))
                       | Some (Stopped m) \<Rightarrow> Some (Gone sh (Stopped m)))))"

declare shell_wait.simps [simp del]

partial_function (option) shell_loop ::
  "devices \<Rightarrow> image \<Rightarrow> registers list \<Rightarrow> shell \<Rightarrow> machine \<Rightarrow> (shell \<times> outcome) option" where
  "shell_loop d im irqs sh m =
     (let m = (if keystroke_count sh mod 50 = 0 then refresh_statusbar m else m)
      in Option.bind (shell_wait d irqs sh m) (\<lambda>w.
           case w of
             Asleep sh m \<Rightarrow> Some (sh, Done m)
           | Gone sh r \<Rightarrow> Some (sh, r)
           | Key c irqs sh m \<Rightarrow>
               Option.bind (shell_key d im c sh m) (\<lambda>(sh, r).
                 case r of
                   Done m \<Rightarrow> shell_loop d im irqs sh m
                 | Away m \<Rightarrow> Some (sh, Away m)
                 | Stopped m \<Rightarrow> Some (sh, Stopped m))))"

declare shell_loop.simps [code]

text \<open>
  The whole of \<^verbatim>\<open>shell_run\<close>: what it prints first, and the loop; \<open>junk\<close> is what the stack holds where \<^verbatim>\<open>line\<close> is
  placed.
\<close>

definition shell_opening :: "machine \<Rightarrow> machine" where
  "shell_opening m =
     (let m = cmd_banner m;
          m = on_vga (vga_print (''Type '' @ [CHR 0x27] @ ''help'' @ [CHR 0x27] @ '' to see all commands.''
                @ [LF, LF])) m
      in prompt m)"

definition shell_run ::
  "devices \<Rightarrow> image \<Rightarrow> registers list \<Rightarrow> string \<Rightarrow> machine \<Rightarrow> (shell \<times> outcome) option" where
  "shell_run d im irqs junk m =
     shell_loop d im irqs
       \<lparr> line_buf = junk, line_pos = 0, keystroke_count = 0, idle_count = 0 \<rparr> (shell_opening m)"


section \<open>The line editor\<close>

definition shell_ok :: "shell \<Rightarrow> bool" where
  "shell_ok sh \<longleftrightarrow> length (line_buf sh) = MAX_LINE \<and> line_pos sh < MAX_LINE
     \<and> c_string (take (line_pos sh) (line_buf sh))"

text \<open>The line typed so far, and what one key does to it.\<close>

definition typed :: "shell \<Rightarrow> string" where
  "typed sh = take (line_pos sh) (line_buf sh)"

definition edit :: "string \<Rightarrow> char \<Rightarrow> string" where
  "edit s c = (if c = BS then butlast s else if length s < MAX_LINE - 1 then s @ [c] else s)"

lemma shell_ok_typed: "shell_ok sh \<Longrightarrow> c_string (typed sh) \<and> length (typed sh) = line_pos sh"
  by (simp add: shell_ok_def typed_def)

lemma shell_ok_fields [simp]:
  "shell_ok (sh\<lparr>keystroke_count := n\<rparr>) = shell_ok sh" "shell_ok (sh\<lparr>idle_count := n\<rparr>) = shell_ok sh"
  "typed (sh\<lparr>keystroke_count := n\<rparr>) = typed sh" "typed (sh\<lparr>idle_count := n\<rparr>) = typed sh"
  by (simp_all add: shell_ok_def typed_def)

lemma only_screen_refl: "cursor_ok (mvga m) \<Longrightarrow> only_screen m m"
  by (auto simp: only_screen_def console_kept_refl intro: exI [of _ "mvga m"])

lemma only_screen_put: "cursor_ok (mvga m) \<Longrightarrow> only_screen m (on_vga (vga_putchar c) m)"
  by (intro only_screen_on_vga putchar_kept console_kept_refl)

lemma only_screen_prompt: "cursor_ok (mvga m) \<Longrightarrow> only_screen m (prompt m)"
  unfolding prompt_def by (rule printing_commands)

lemma shell_key_char:
  assumes ok: "shell_ok sh" and cur: "cursor_ok (mvga m)" and c: "c \<noteq> LF" "c \<noteq> NUL"
  shows "\<exists>sh' m'. shell_key d im c sh m = Some (sh', Done m') \<and> shell_ok sh'
     \<and> typed sh' = edit (typed sh) c \<and> only_screen m m'
     \<and> keystroke_count sh' = keystroke_count sh + 1"
proof -
  have l: "length (line_buf sh) = MAX_LINE" "line_pos sh < MAX_LINE"
    "c_string (take (line_pos sh) (line_buf sh))"
    using ok by (simp_all add: shell_ok_def)
  note os = only_screen_refl [OF cur] only_screen_put [OF cur]
  consider "c = BS" "line_pos sh > 0" | "c = BS" "line_pos sh = 0"
    | "c \<noteq> BS" "line_pos sh < MAX_LINE - 1" | "c \<noteq> BS" "\<not> line_pos sh < MAX_LINE - 1" by auto
  then show ?thesis
  proof cases
    case 1
    let ?sh = "sh\<lparr>keystroke_count := keystroke_count sh + 1, line_pos := line_pos sh - 1\<rparr>"
    have t: "take (line_pos sh - 1) (line_buf sh) = butlast (take (line_pos sh) (line_buf sh))"
      using l(1,2) by (simp add: butlast_take)
    have "c_string (take (line_pos sh - 1) (line_buf sh))"
      using l(3) unfolding t c_string_def by (auto dest: in_set_butlastD)
    then have "shell_ok ?sh" using l by (simp add: shell_ok_def)
    moreover have "typed ?sh = edit (typed sh) c" using 1 t by (simp add: typed_def edit_def)
    ultimately show ?thesis using 1 os by (simp add: shell_key_def Let_def)
  next
    case 2
    then show ?thesis using ok os by (simp add: shell_key_def Let_def typed_def edit_def)
  next
    case 3
    let ?sh = "sh\<lparr>keystroke_count := keystroke_count sh + 1, line_buf := (line_buf sh)[line_pos sh := c],
      line_pos := line_pos sh + 1\<rparr>"
    have t: "take (Suc (line_pos sh)) ((line_buf sh)[line_pos sh := c]) = take (line_pos sh) (line_buf sh) @ [c]"
      using l(1,2) by (simp add: take_Suc_conv_app_nth)
    have "shell_ok ?sh" using 3 l c by (auto simp: shell_ok_def t simp del: take_update_swap)
    moreover have "typed ?sh = edit (typed sh) c" using 3 l(1) by (simp add: typed_def edit_def t del: take_update_swap)
    ultimately show ?thesis using 3 os c by (simp add: shell_key_def Let_def)
  next
    case 4
    then show ?thesis using ok os c l by (simp add: shell_key_def Let_def typed_def edit_def)
  qed
qed

lemma edit_length: "length s < MAX_LINE \<Longrightarrow> length (edit s c) < MAX_LINE"
  by (auto simp: edit_def MAX_LINE_def)

lemma line_terminated:
  assumes "shell_ok sh"
  shows "\<exists>r. (line_buf sh)[line_pos sh := NUL] = typed sh @ NUL # r"
  using assms upd_conv_take_nth_drop [of "line_pos sh" "line_buf sh" NUL]
  by (auto simp: shell_ok_def typed_def)

lemma shell_key_enter:
  assumes ok: "shell_ok sh" and cur: "cursor_ok (mvga m)"
  shows "\<exists>sh1. length (line_buf sh1) = MAX_LINE \<and> keystroke_count sh1 = keystroke_count sh + 1
     \<and> idle_count sh1 = idle_count sh
     \<and> shell_key d im LF sh m =
         (if words_of (typed sh) = [] then Some (enter_done sh1 (Done (on_vga (vga_putchar LF) m)))
          else map_option (enter_done sh1)
            (shell_dispatch d im (take MAX_ARGS (words_of (typed sh))) (on_vga (vga_putchar LF) m)))"
proof -
  let ?m = "on_vga (vga_putchar LF) m"
  let ?b = "(line_buf sh)[line_pos sh := NUL]"
  obtain r where b: "?b = typed sh @ NUL # r" using line_terminated [OF ok] by blast
  have l: "length ?b = MAX_LINE" using ok by (simp add: shell_ok_def)
  have cs: "c_string (typed sh)" "length (typed sh) = line_pos sh" using shell_ok_typed [OF ok] by simp_all
  show ?thesis
  proof (cases "line_pos sh > 0")
    case False
    then have "typed sh = []" by (simp add: typed_def)
    then have "words_of (typed sh) = []" by (simp add: words_of.simps)
    with False l show ?thesis
      by (intro exI [of _ "sh\<lparr>keystroke_count := keystroke_count sh + 1, line_buf := ?b\<rparr>"])
        (simp add: shell_key_def Let_def)
  next
    case True
    note p = shell_parse_words [OF cs(1), of r]
    obtain b' args where q: "shell_parse ?b = (b', args)" by (cases "shell_parse ?b")
    with p b l have b': "length b' = MAX_LINE"
      "args = (if words_of (typed sh) = [] then None else Some (take MAX_ARGS (words_of (typed sh))))"
      by simp_all
    show ?thesis
      using True q b' by (intro exI [of _ "sh\<lparr>keystroke_count := keystroke_count sh + 1, line_buf := b'\<rparr>"])
        (simp add: shell_key_def Let_def)
  qed
qed

lemma enter_done_ok:
  "length (line_buf sh) = MAX_LINE \<Longrightarrow> enter_done sh (Done m) = (sh\<lparr>line_pos := 0\<rparr>, Done (prompt m))
     \<and> shell_ok (sh\<lparr>line_pos := 0\<rparr>) \<and> typed (sh\<lparr>line_pos := 0\<rparr>) = []"
  by (simp add: shell_ok_def typed_def MAX_LINE_def c_string_def)

end
