(* ===== verification/Shell_Session.thy ===== *)
theory Shell_Session
  imports Shell
begin

text \<open>
  Sessions at the shell: the keyboard controller delivers scancodes, each with its interrupt, and
  the loop of the shell turns them into an edited line and the line into a command.
\<close>

section \<open>Waiting for a key\<close>

text \<open>
  The keyboard controller answers the reads of its data port, from the log \<open>l\<close> on, with the
  scancodes of a list.
\<close>

fun kbd_script :: "device \<Rightarrow> io_log \<Rightarrow> uint8_t list \<Rightarrow> bool" where
  "kbd_script dev l [] \<longleftrightarrow> True"
| "kbd_script dev l (sc # scs) \<longleftrightarrow>
     dev l KB_DATA_PORT = sc \<and> kbd_script dev (l @ [In KB_DATA_PORT sc]) scs"

text \<open>
  Somebody types while hardware interrupts come in any order: those of the keyboard with one
  scancode each, any number of timer ticks, and spurious ones. The handlers are registered as at boot,
  and the scheduler has nobody to switch to. The characters still to come are those in the
  buffer and those that the scancodes stand for.
\<close>

definition boot_handlers :: "irq_fn option list" where
  "boot_handlers = [Some timer_handler_fn, Some keyboard_handler_fn] @ replicate 14 None"

definition is_key :: "registers \<Rightarrow> bool" where
  "is_key r \<longleftrightarrow> int_no r = 33"

definition typing :: "devices \<Rightarrow> registers list \<Rightarrow> uint8_t list \<Rightarrow> machine \<Rightarrow> bool" where
  "typing d irqs scs m \<longleftrightarrow> length (filter is_key irqs) = length scs \<and> (\<forall>r \<in> set irqs. 32 \<le> int_no r)
     \<and> irq_handlers (midt m) = boot_handlers \<and> schedule (mkern m) = Some (Returns (mkern m))
     \<and> kbd_script (ps2 d) (kb_io (mkbd m)) scs \<and> kb_invar (mkbd m)"

definition pending :: "machine \<Rightarrow> uint8_t list \<Rightarrow> string" where
  "pending m scs = kb_contents (mkbd m) @ decode_scancodes (shift_held (mkbd m)) scs"

text \<open>While it waits, nothing changes but the status bar, the keyboard and the tick counter.\<close>

definition waited :: "machine \<Rightarrow> machine \<Rightarrow> bool" where
  "waited m n \<longleftrightarrow> mgdt n = mgdt m \<and> midt n = midt m \<and> pit_io (mpit n) = pit_io (mpit m) \<and> mserial n = mserial m
     \<and> mkern n = mkern m \<and> mctl n = mctl m
     \<and> vga_row (mvga n) = vga_row (mvga m) \<and> vga_col (mvga n) = vga_col (mvga m)
     \<and> vga_color (mvga n) = vga_color (mvga m)
     \<and> (\<forall>i. 80 \<le> unat i \<longrightarrow> vram (mvga n) i = vram (mvga m) i)"

lemma waited_refl: "waited m m"
  by (simp add: waited_def)

lemma waited_trans: "waited a b \<Longrightarrow> waited b c \<Longrightarrow> waited a c"
  by (simp add: waited_def)

lemma waited_kbd: "waited m (m\<lparr>mkbd := k\<rparr>)" and waited_pic: "waited m (m\<lparr>mpic := l\<rparr>)"
  and waited_if: "waited m (m\<lparr>mif := b\<rparr>)"
  by (simp_all add: waited_def)

lemma refresh_statusbar_fields [simp]:
  "mkbd (refresh_statusbar m) = mkbd m" "midt (refresh_statusbar m) = midt m"
  "mkern (refresh_statusbar m) = mkern m" "mif (refresh_statusbar m) = mif m"
  by (simp_all add: refresh_statusbar_def on_vga_def)

lemma waited_statusbar: "waited m (refresh_statusbar m)"
  using vga_draw_statusbar_frame by (simp add: waited_def refresh_statusbar_def on_vga_def)

lemma waited_cursor: "waited m n \<Longrightarrow> cursor_ok (mvga n) = cursor_ok (mvga m)"
  by (simp add: waited_def cursor_ok_def)

lemma keyboard_irq:
  assumes "int_no r = 33" "irq_handlers (midt m) = boot_handlers"
  shows "common_isr_handler d r m = Some (Done (m\<lparr>mkbd := keyboard_handler (ps2 d) (mkbd m),
      mpic := pic_send_eoi 1 (mpic m)\<rparr>))"
  using assms by (simp add: common_isr_handler_def Let_def boot_handlers_def)

lemma boot_handlers_rest: "2 \<le> i \<Longrightarrow> i < 16 \<Longrightarrow> boot_handlers ! i = None"
  by (simp add: boot_handlers_def nth_append nth_Cons split: nat.splits)

text \<open>The timer ticks and comes back, and so do the lines that nobody uses.\<close>

lemma other_irq:
  assumes r: "32 \<le> int_no r" "\<not> is_key r" and h: "irq_handlers (midt m) = boot_handlers"
    and calm: "schedule (mkern m) = Some (Returns (mkern m))"
  shows "\<exists>p l. common_isr_handler d r m = Some (Done (m\<lparr>mpit := p, mpic := l\<rparr>))
     \<and> pit_io p = pit_io (mpit m)"
proof -
  have "int_no r = 32 \<or> 33 < int_no r \<and> int_no r < 48 \<or> 48 \<le> int_no r"
    using r unfolding is_key_def by unat_arith
  then consider "int_no r = 32" | "33 < int_no r" "int_no r < 48" | "48 \<le> int_no r" by blast
  then show ?thesis
  proof cases
    case 1
    have "m\<lparr>mpit := count_tick (mpit m), mkern := mkern m\<rparr> = m\<lparr>mpit := count_tick (mpit m)\<rparr>" by simp
    then have "common_isr_handler d r m
        = Some (Done (m\<lparr>mpit := count_tick (mpit m), mpic := pic_send_eoi 0 (mpic m)\<rparr>))"
      using h calm
      by (simp add: common_isr_handler_def Let_def 1 boot_handlers_def timer_handler_def del: machine.update_convs)
    then show ?thesis by (auto simp: count_tick_def)
  next
    case 2
    have n: "33 < unat (int_no r)" "unat (int_no r) < 48" using 2 by (simp_all add: word_less_nat_alt)
    then have "unat (int_no r - 32) = unat (int_no r) - 32" by (subst unat_sub) (simp_all add: word_le_nat_alt)
    then have u: "unat (ucast (int_no r - 32) :: uint8_t) = unat (int_no r) - 32"
      using n by (simp add: unsigned_ucast_eq take_bit_eq_mod)
    then have "boot_handlers ! unat (ucast (int_no r - 32) :: uint8_t) = None"
      using n by (intro boot_handlers_rest) (simp_all add: u)
    moreover have "\<not> int_no r < 32" using r(1) by simp
    ultimately have "common_isr_handler d r m
        = Some (Done (m\<lparr>mpic := pic_send_eoi (ucast (int_no r - 32)) (mpic m)\<rparr>))"
      using 2 h by (simp add: common_isr_handler_def Let_def)
    then show ?thesis by (intro exI [of _ "mpit m"]) auto
  next
    case 3
    then have "\<not> int_no r < 48" "\<not> int_no r < 32" using r(1) by simp_all
    then have "common_isr_handler d r m = Some (Done m)" by (simp add: common_isr_handler_def)
    then show ?thesis by (intro exI [of _ "mpit m"] exI [of _ "mpic m"]) simp
  qed
qed

lemma keyboard_handler_scripted:
  assumes "kbd_script dev (kb_io k) (sc # scs)"
  shows "keyboard_handler dev k = keyboard_scancode sc (k\<lparr>kb_io := kb_io k @ [In KB_DATA_PORT sc]\<rparr>)"
  using assms by (simp add: keyboard_handler_def inb_def Let_def)

lemma keyboard_scancode_io [simp]: "kb_io (keyboard_scancode sc k) = kb_io k"
  by (simp add: keyboard_scancode_spec kb_push_def Let_def split: option.splits)

lemma keyboard_getchar_fields [simp]:
  "kb_io (snd (keyboard_getchar k)) = kb_io k" "shift_held (snd (keyboard_getchar k)) = shift_held k"
  by (simp_all add: keyboard_getchar_def)

lemma getchar_cases:
  assumes "kb_invar k"
  shows "kb_contents k = [] \<Longrightarrow> keyboard_getchar k = (NUL, k)"
    and "kb_contents k = c # cs \<Longrightarrow> fst (keyboard_getchar k) = c \<and> c \<noteq> NUL
           \<and> kb_contents (snd (keyboard_getchar k)) = cs \<and> kb_invar (snd (keyboard_getchar k))"
proof -
  show "keyboard_getchar k = (NUL, k)" if "kb_contents k = []"
  proof -
    have "unat (kb_head k - kb_tail k) = 0" using that length_kb_contents [of k] by simp
    then have "kb_head k = kb_tail k" by (simp add: unat_eq_0)
    then show ?thesis by (simp add: keyboard_getchar_def)
  qed
  show "fst (keyboard_getchar k) = c \<and> c \<noteq> NUL \<and> kb_contents (snd (keyboard_getchar k)) = cs
      \<and> kb_invar (snd (keyboard_getchar k))" if "kb_contents k = c # cs"
    using that kb.pop_value [OF assms] kb.pop_contents [OF assms] kb.pop_invar [OF assms]
      kb.no_nothing [OF assms] by auto
qed

lemma shell_wait_buffered:
  assumes ty: "typing d irqs scs m" and c: "kb_contents (mkbd m) = c # cs"
  shows "pending m scs = c # cs @ decode_scancodes (shift_held (mkbd m)) scs
     \<and> (\<exists>n m' irqs' scs'. shell_wait d irqs sh m = Some (Key c irqs' (sh\<lparr>idle_count := n\<rparr>) m')
          \<and> waited m m' \<and> typing d irqs' scs' m'
          \<and> pending m' scs' = cs @ decode_scancodes (shift_held (mkbd m)) scs \<and> c \<noteq> NUL
          \<and> length scs' + length (kb_contents (mkbd m')) < length scs + length (kb_contents (mkbd m)))"
proof -
  have inv: "kb_invar (mkbd m)" using ty by (simp add: typing_def)
  obtain k where k: "keyboard_getchar (mkbd m) = (c, k)" "c \<noteq> NUL" "kb_contents k = cs" "kb_invar k"
    using getchar_cases(2) [OF inv c] by (cases "keyboard_getchar (mkbd m)") auto
  have f: "kb_io k = kb_io (mkbd m)" "shift_held k = shift_held (mkbd m)"
    using keyboard_getchar_fields [of "mkbd m"] k(1) by simp_all
  have "shell_wait d irqs sh m = Some (Key c irqs sh (m\<lparr>mkbd := k\<rparr>))"
    using k by (subst shell_wait.simps) (simp add: Let_def)
  then show ?thesis
    using k f ty c by (intro conjI exI [of _ "idle_count sh"] exI [of _ "m\<lparr>mkbd := k\<rparr>"] exI [of _ irqs]
        exI [of _ scs]) (simp_all add: waited_kbd typing_def pending_def del: length_kb_contents)
qed

lemma scancode_into_empty:
  assumes "kb_invar k" "kb_contents k = []"
  shows "kb_contents (keyboard_scancode sc k)
        @ decode_scancodes (shift_held (keyboard_scancode sc k)) scs
      = decode_scancodes (shift_held k) (sc # scs)"
    and "length (kb_contents (keyboard_scancode sc k)) \<le> 1"
proof -
  consider "scancode_char (shift_held k) sc = None"
    | c where "scancode_char (shift_held k) sc = Some c" "c \<noteq> NUL"
    using scancode_char_neq_NUL [of "shift_held k" sc] by (cases "scancode_char (shift_held k) sc") auto
  then have "kb_contents (keyboard_scancode sc k)
        @ decode_scancodes (shift_held (keyboard_scancode sc k)) scs
      = decode_scancodes (shift_held k) (sc # scs) \<and> length (kb_contents (keyboard_scancode sc k)) \<le> 1"
  proof cases
    case 1
    then show ?thesis using assms by (simp add: keyboard_scancode_spec del: length_kb_contents)
  next
    case 2
    then show ?thesis using kb.push_contents [OF assms(1), of c] assms(2)
      by (simp add: keyboard_scancode_spec scancode_shift_char del: length_kb_contents)
  qed
  then show "kb_contents (keyboard_scancode sc k)
        @ decode_scancodes (shift_held (keyboard_scancode sc k)) scs
      = decode_scancodes (shift_held k) (sc # scs)"
    "length (kb_contents (keyboard_scancode sc k)) \<le> 1" by simp_all
qed

text \<open>One interrupt while the buffer is empty.\<close>

lemma shell_wait_key:
  assumes ty: "typing d (r # rs) (sc # scs) m" and Nil: "kb_contents (mkbd m) = []" and key: "is_key r"
  shows "\<exists>k n. shell_wait d (r # rs) sh m = shell_wait d rs (sh\<lparr>idle_count := k\<rparr>) n
     \<and> waited m n \<and> typing d rs scs n \<and> pending n scs = pending m (sc # scs)
     \<and> length (kb_contents (mkbd n)) \<le> 1"
proof -
  have irqs: "int_no r = 33" "length (filter is_key rs) = length scs" "\<forall>r \<in> set rs. 32 \<le> int_no r"
    using ty key by (simp_all add: typing_def is_key_def)
  have inv: "kb_invar (mkbd m)" and h: "irq_handlers (midt m) = boot_handlers"
    and calm: "schedule (mkern m) = Some (Returns (mkern m))"
    and scr: "kbd_script (ps2 d) (kb_io (mkbd m)) (sc # scs)"
    using ty by (simp_all add: typing_def)
  let ?k = "keyboard_scancode sc ((mkbd m)\<lparr>kb_io := kb_io (mkbd m) @ [In KB_DATA_PORT sc]\<rparr>)"
  let ?m = "m\<lparr>mif := True, mkbd := ?k, mpic := pic_send_eoi 1 (mpic m)\<rparr>"
  let ?sh = "sh\<lparr>idle_count := idle_count sh + 1\<rparr>"
  let ?n = "if (idle_count sh + 1) mod 200 = 0 then refresh_statusbar ?m else ?m"
  have isr: "common_isr_handler d r (m\<lparr>mif := True\<rparr>) = Some (Done ?m)"
    using keyboard_irq [OF irqs(1), of "m\<lparr>mif := True\<rparr>" d] h
    by (simp add: keyboard_handler_scripted [OF scr])
  have step: "shell_wait d (r # rs) sh m = shell_wait d rs ?sh ?n"
    using isr by (subst shell_wait.simps) (simp add: getchar_cases(1) [OF inv Nil] Let_def)
  have w: "waited m ?n"
  proof -
    have "waited m ?m" by (simp add: waited_def)
    then show ?thesis using waited_trans [OF _ waited_statusbar] by simp
  qed
  have same: "mkbd ?n = ?k" "midt ?n = midt m" "mkern ?n = mkern m" by simp_all
  have kinv: "kb_invar ?k" using inv by (intro keyboard_scancode_invar) simp
  have ty1: "typing d rs scs ?n"
    using irqs(2,3) h calm scr kinv unfolding typing_def same by simp
  have pend: "pending ?n scs = pending m (sc # scs)" and len: "length (kb_contents ?k) \<le> 1"
    using scancode_into_empty [of "(mkbd m)\<lparr>kb_io := kb_io (mkbd m) @ [In KB_DATA_PORT sc]\<rparr>" sc]
      inv Nil unfolding pending_def same by (simp_all del: length_kb_contents)
  show ?thesis
    using step w ty1 pend len by (intro exI [of _ "idle_count sh + 1"] exI [of _ ?n])
      (simp only: same simp_thms)
qed

lemma shell_wait_other:
  assumes ty: "typing d (r # rs) scs m" and Nil: "kb_contents (mkbd m) = []" and other: "\<not> is_key r"
  shows "\<exists>k n. shell_wait d (r # rs) sh m = shell_wait d rs (sh\<lparr>idle_count := k\<rparr>) n
     \<and> waited m n \<and> typing d rs scs n \<and> pending n scs = pending m scs \<and> mkbd n = mkbd m"
proof -
  have inv: "kb_invar (mkbd m)" and h: "irq_handlers (midt m) = boot_handlers"
    and calm: "schedule (mkern m) = Some (Returns (mkern m))" and r: "32 \<le> int_no r"
    using ty by (simp_all add: typing_def)
  obtain p l where isr: "common_isr_handler d r (m\<lparr>mif := True\<rparr>)
      = Some (Done (m\<lparr>mif := True, mpit := p, mpic := l\<rparr>))" and p: "pit_io p = pit_io (mpit m)"
    using other_irq [OF r other, of "m\<lparr>mif := True\<rparr>" d] h calm by auto
  let ?m = "m\<lparr>mif := True, mpit := p, mpic := l\<rparr>"
  let ?n = "if (idle_count sh + 1) mod 200 = 0 then refresh_statusbar ?m else ?m"
  have "shell_wait d (r # rs) sh m = shell_wait d rs (sh\<lparr>idle_count := idle_count sh + 1\<rparr>) ?n"
    using isr by (subst shell_wait.simps) (simp add: getchar_cases(1) [OF inv Nil] Let_def)
  moreover have "waited m ?n"
  proof -
    have "waited m ?m" using p by (simp add: waited_def)
    then show ?thesis using waited_trans [OF _ waited_statusbar] by simp
  qed
  moreover have same: "mkbd ?n = mkbd m" "midt ?n = midt m" "mkern ?n = mkern m" by simp_all
  moreover have "typing d rs scs ?n"
    using ty other unfolding typing_def same by simp
  moreover have "pending ?n scs = pending m scs" unfolding pending_def same ..
  ultimately show ?thesis by blast
qed

lemma shell_wait_step:
  assumes ty: "typing d (r # rs) scs m" and Nil: "kb_contents (mkbd m) = []"
  shows "\<exists>k n scs'. shell_wait d (r # rs) sh m = shell_wait d rs (sh\<lparr>idle_count := k\<rparr>) n
     \<and> waited m n \<and> typing d rs scs' n \<and> pending n scs' = pending m scs
     \<and> length scs' + length (kb_contents (mkbd n)) \<le> length scs"
proof (cases "is_key r")
  case True
  then obtain sc scs' where scs: "scs = sc # scs'" using ty by (cases scs) (auto simp: typing_def)
  obtain k n where "shell_wait d (r # rs) sh m = shell_wait d rs (sh\<lparr>idle_count := k\<rparr>) n" "waited m n"
    "typing d rs scs' n" "pending n scs' = pending m scs" "length (kb_contents (mkbd n)) \<le> 1"
    using shell_wait_key [OF ty [unfolded scs] Nil True, of sh] scs by blast
  moreover from this(5) have "length scs' + length (kb_contents (mkbd n)) \<le> length scs"
    by (simp add: scs del: length_kb_contents)
  ultimately show ?thesis by blast
next
  case False
  obtain k n where n: "shell_wait d (r # rs) sh m = shell_wait d rs (sh\<lparr>idle_count := k\<rparr>) n" "waited m n"
    "typing d rs scs n" "pending n scs = pending m scs" "mkbd n = mkbd m"
    using shell_wait_other [OF ty Nil False, of sh] by blast
  have "length scs + length (kb_contents (mkbd n)) \<le> length scs" unfolding n(5) Nil by simp
  with n show ?thesis by blast
qed

lemma shell_wait_typing:
  assumes "typing d irqs scs m"
  shows "case pending m scs of
      [] \<Rightarrow> \<exists>n m'. shell_wait d irqs sh m = Some (Asleep (sh\<lparr>idle_count := n\<rparr>) m') \<and> waited m m'
          \<and> mif m'
    | c # rest \<Rightarrow> \<exists>n m' irqs' scs'. shell_wait d irqs sh m = Some (Key c irqs' (sh\<lparr>idle_count := n\<rparr>) m')
          \<and> waited m m' \<and> typing d irqs' scs' m' \<and> pending m' scs' = rest \<and> c \<noteq> NUL
          \<and> length scs' + length (kb_contents (mkbd m')) < length scs + length (kb_contents (mkbd m))"
  using assms
proof (induction irqs arbitrary: scs sh m)
  case Nil
  then have scs: "scs = []" by (simp add: typing_def)
  show ?case
  proof (cases "kb_contents (mkbd m)")
    case Nil': Nil
    have inv: "kb_invar (mkbd m)" using Nil by (simp add: typing_def)
    have "shell_wait d [] sh m = Some (Asleep (sh\<lparr>idle_count := idle_count sh\<rparr>) (m\<lparr>mif := True\<rparr>))"
      by (subst shell_wait.simps) (simp add: getchar_cases(1) [OF inv Nil'])
    moreover have "pending m scs = []" using Nil' scs by (simp add: pending_def)
    ultimately show ?thesis using waited_if [of m True] by (auto intro!: exI [of _ "idle_count sh"])
  next
    case (Cons c cs)
    from shell_wait_buffered [OF Nil this, of sh] show ?thesis
      by (simp del: length_kb_contents)
  qed
next
  case (Cons r rs)
  show ?case
  proof (cases "kb_contents (mkbd m)")
    case (Cons c cs)
    from shell_wait_buffered [OF Cons.prems this, of sh] show ?thesis
      by (simp del: length_kb_contents)
  next
    case Nil
    obtain k n scs1 where st: "shell_wait d (r # rs) sh m = shell_wait d rs (sh\<lparr>idle_count := k\<rparr>) n"
      "waited m n" "typing d rs scs1 n" "pending n scs1 = pending m scs"
      "length scs1 + length (kb_contents (mkbd n)) \<le> length scs"
      using shell_wait_step [OF Cons.prems Nil, of sh] by blast
    show ?thesis
    proof (cases "pending m scs")
      case Nil': Nil
      with Cons.IH [OF st(3), of "sh\<lparr>idle_count := k\<rparr>"] st(1,2,4) show ?thesis
        by (auto simp del: length_kb_contents intro: waited_trans)
    next
      case (Cons c rest)
      with Cons.IH [OF st(3), of "sh\<lparr>idle_count := k\<rparr>"] st(4) obtain j m' irqs' scs' where
        "shell_wait d rs (sh\<lparr>idle_count := k\<rparr>) n = Some (Key c irqs' (sh\<lparr>idle_count := j\<rparr>) m')"
        "waited n m'" "typing d irqs' scs' m'" "pending m' scs' = rest" "c \<noteq> NUL"
        "length scs' + length (kb_contents (mkbd m')) < length scs1 + length (kb_contents (mkbd n))"
        by (auto simp del: length_kb_contents)
      with Cons st(1,5) waited_trans [OF st(2)] show ?thesis
        unfolding Cons list.case Nil
        by (intro exI [of _ j] exI [of _ m'] exI [of _ irqs'] exI [of _ scs'] conjI)
          (simp_all del: length_kb_contents)
    qed
  qed
qed

section \<open>Sessions at the keyboard\<close>

text \<open>What the loop does after a key.\<close>

fun after_key :: "devices \<Rightarrow> image \<Rightarrow> registers list \<Rightarrow> shell \<times> outcome \<Rightarrow> (shell \<times> outcome) option" where
  "after_key d im irqs (sh, Done m) = shell_loop d im irqs sh m"
| "after_key d im irqs (sh, Away m) = Some (sh, Away m)"
| "after_key d im irqs (sh, Stopped m) = Some (sh, Stopped m)"

text \<open>The kernel is as before, and the console is in order.\<close>

definition quiet :: "machine \<Rightarrow> machine \<Rightarrow> bool" where
  "quiet m n \<longleftrightarrow> mgdt n = mgdt m \<and> midt n = midt m \<and> pit_io (mpit n) = pit_io (mpit m) \<and> mserial n = mserial m
     \<and> mkern n = mkern m \<and> mctl n = mctl m \<and> (cursor_ok (mvga m) \<longrightarrow> cursor_ok (mvga n))
     \<and> vga_color (mvga n) = vga_color (mvga m)"

lemma quiet_trans: "quiet a b \<Longrightarrow> quiet b c \<Longrightarrow> quiet a c"
  by (simp add: quiet_def)

lemma quiet_refl: "quiet m m"
  by (simp add: quiet_def)

lemma waited_quiet: "waited m n \<Longrightarrow> quiet m n"
  by (simp add: waited_def quiet_def cursor_ok_def)

lemma only_screen_quiet: "only_screen m n \<Longrightarrow> quiet m n \<and> mkbd n = mkbd m"
  by (auto simp: only_screen_def quiet_def console_kept_def)

lemma typing_cong:
  "mkbd n = mkbd m \<Longrightarrow> midt n = midt m \<Longrightarrow> mkern n = mkern m \<Longrightarrow>
     typing d irqs scs n = typing d irqs scs m \<and> pending n scs = pending m scs"
  by (simp add: typing_def pending_def)

definition refreshed :: "shell \<Rightarrow> machine \<Rightarrow> machine" where
  "refreshed sh m = (if keystroke_count sh mod 50 = 0 then refresh_statusbar m else m)"

lemma refreshed_typing:
  "waited m (refreshed sh m) \<and> typing d irqs scs (refreshed sh m) = typing d irqs scs m
     \<and> pending (refreshed sh m) scs = pending m scs \<and> mkbd (refreshed sh m) = mkbd m"
  by (simp add: refreshed_def waited_statusbar waited_refl typing_def pending_def)

lemma shell_loop_asleep:
  assumes ty: "typing d irqs scs m" and none: "pending m scs = []"
  shows "\<exists>k n. shell_loop d im irqs sh m = Some (sh\<lparr>idle_count := k\<rparr>, Done n) \<and> quiet m n \<and> mif n"
proof -
  note r = refreshed_typing [of m sh]
  have "typing d irqs scs (refreshed sh m)" "pending (refreshed sh m) scs = []"
    using ty none r by simp_all
  with shell_wait_typing [OF this(1), of sh] obtain k n where
    "shell_wait d irqs sh (refreshed sh m) = Some (Asleep (sh\<lparr>idle_count := k\<rparr>) n)"
    "waited (refreshed sh m) n" "mif n" by auto
  moreover from this(2) r have "quiet m n" by (blast intro: quiet_trans waited_quiet)
  ultimately show ?thesis
    by (subst shell_loop.simps) (auto simp: refreshed_def [symmetric] Let_def)
qed

lemma shell_loop_key:
  assumes ty: "typing d irqs scs m" and some: "pending m scs = c # rest"
  shows "\<exists>k n irqs' scs'. shell_loop d im irqs sh m
        = Option.bind (shell_key d im c (sh\<lparr>idle_count := k\<rparr>) n) (after_key d im irqs')
     \<and> quiet m n \<and> typing d irqs' scs' n \<and> pending n scs' = rest \<and> c \<noteq> NUL
     \<and> length scs' + length (kb_contents (mkbd n)) < length scs + length (kb_contents (mkbd m))"
proof -
  note r = refreshed_typing [of m sh]
  have "typing d irqs scs (refreshed sh m)" "pending (refreshed sh m) scs = c # rest"
    using ty some r by simp_all
  with shell_wait_typing [OF this(1), of sh] obtain k n irqs' scs' where w:
    "shell_wait d irqs sh (refreshed sh m) = Some (Key c irqs' (sh\<lparr>idle_count := k\<rparr>) n)"
    "waited (refreshed sh m) n" "typing d irqs' scs' n" "pending n scs' = rest" "c \<noteq> NUL"
    "length scs' + length (kb_contents (mkbd n)) < length scs + length (kb_contents (mkbd m))"
    using r by (auto simp del: length_kb_contents)
  have "after_key d im irqs' = (\<lambda>(sh, r). case r of Done m \<Rightarrow> shell_loop d im irqs' sh m
      | Away m \<Rightarrow> Some (sh, Away m) | Stopped m \<Rightarrow> Some (sh, Stopped m))"
    by (auto simp: fun_eq_iff split: outcome.splits)
  then have "shell_loop d im irqs sh m
      = Option.bind (shell_key d im c (sh\<lparr>idle_count := k\<rparr>) n) (after_key d im irqs')"
    by (subst shell_loop.simps) (simp add: w(1) refreshed_def [symmetric] Let_def)
  moreover have "quiet m n" using w(2) r by (blast intro: quiet_trans waited_quiet)
  ultimately show ?thesis using w by blast
qed

lemma shell_loop_chars:
  assumes "typing d irqs scs m" "shell_ok sh" "cursor_ok (mvga m)"
    and "pending m scs = cs @ rest" "LF \<notin> set cs"
  shows "\<exists>sh' n irqs' scs'. shell_loop d im irqs sh m = shell_loop d im irqs' sh' n
     \<and> quiet m n \<and> typing d irqs' scs' n \<and> pending n scs' = rest \<and> shell_ok sh'
     \<and> typed sh' = foldl edit (typed sh) cs"
  using assms
proof (induction cs arbitrary: irqs scs sh m)
  case Nil
  then show ?case using quiet_refl by (fastforce)
next
  case (Cons c cs)
  obtain k n irqs1 scs1 where l: "shell_loop d im irqs sh m
      = Option.bind (shell_key d im c (sh\<lparr>idle_count := k\<rparr>) n) (after_key d im irqs1)"
    "quiet m n" "typing d irqs1 scs1 n" "pending n scs1 = cs @ rest" "c \<noteq> NUL"
    using shell_loop_key [OF Cons.prems(1), of c "cs @ rest" im sh] Cons.prems(4) by auto
  have cur: "cursor_ok (mvga n)" using l(2) Cons.prems(3) by (simp add: quiet_def)
  have ok: "shell_ok (sh\<lparr>idle_count := k\<rparr>)" using Cons.prems(2) by simp
  have "c \<noteq> LF" using Cons.prems(5) by auto
  from shell_key_char [OF ok cur this l(5)] obtain sh1 n1 where s:
    "shell_key d im c (sh\<lparr>idle_count := k\<rparr>) n = Some (sh1, Done n1)" "shell_ok sh1"
    "typed sh1 = edit (typed (sh\<lparr>idle_count := k\<rparr>)) c" "only_screen n n1" by blast
  have n1: "typing d irqs1 scs1 n1" "pending n1 scs1 = cs @ rest"
    using l(3,4) typing_cong [of n1 n] only_screen_quiet [OF s(4)] by (auto simp: quiet_def)
  have q: "quiet m n1" using l(2) only_screen_quiet [OF s(4)] by (blast intro: quiet_trans)
  have "cursor_ok (mvga n1)" "LF \<notin> set cs" using q Cons.prems(3,5) by (auto simp: quiet_def)
  from Cons.IH [OF n1(1) s(2) this(1) n1(2) this(2)] obtain sh' n' irqs' scs' where
    "shell_loop d im irqs1 sh1 n1 = shell_loop d im irqs' sh' n'"
    "quiet n1 n'" "typing d irqs' scs' n'" "pending n' scs' = rest" "shell_ok sh'"
    "typed sh' = foldl edit (typed sh1) cs" by blast
  moreover have "shell_loop d im irqs sh m = shell_loop d im irqs1 sh1 n1" by (simp add: l(1) s(1))
  moreover have "typed sh1 = edit (typed sh) c" using s(3) by simp
  ultimately show ?case using quiet_trans [OF q] by (metis foldl_Cons)
qed

lemma shell_loop_line:
  assumes "typing d irqs scs m" "shell_ok sh" "cursor_ok (mvga m)"
    and "pending m scs = cs @ LF # rest" "LF \<notin> set cs"
  shows "\<exists>sh1 n irqs' scs'. quiet m n \<and> typing d irqs' scs' n \<and> pending n scs' = rest
     \<and> length (line_buf sh1) = MAX_LINE
     \<and> shell_loop d im irqs sh m =
         (if words_of (foldl edit (typed sh) cs) = [] then after_key d im irqs' (enter_done sh1 (Done n))
          else Option.bind (shell_dispatch d im (take MAX_ARGS (words_of (foldl edit (typed sh) cs))) n)
                 (\<lambda>r. after_key d im irqs' (enter_done sh1 r)))"
proof -
  obtain sh' n' irqs1 scs1 where c: "shell_loop d im irqs sh m = shell_loop d im irqs1 sh' n'"
    "quiet m n'" "typing d irqs1 scs1 n'" "pending n' scs1 = LF # rest" "shell_ok sh'"
    "typed sh' = foldl edit (typed sh) cs"
    using shell_loop_chars [OF assms, of im] by blast
  obtain k n irqs' scs' where l: "shell_loop d im irqs1 sh' n'
      = Option.bind (shell_key d im LF (sh'\<lparr>idle_count := k\<rparr>) n) (after_key d im irqs')"
    "quiet n' n" "typing d irqs' scs' n" "pending n scs' = rest"
    using shell_loop_key [OF c(3,4), of im sh'] by auto
  have q: "quiet m n" using c(2) l(2) by (rule quiet_trans)
  then have cur: "cursor_ok (mvga n)" using assms(3) by (simp add: quiet_def)
  have ok: "shell_ok (sh'\<lparr>idle_count := k\<rparr>)" using c(5) by simp
  let ?n = "on_vga (vga_putchar LF) n"
  have os: "quiet n ?n" "mkbd ?n = mkbd n"
    using only_screen_quiet [OF only_screen_put [OF cur, of LF]] by simp_all
  then have "typing d irqs' scs' ?n" "pending ?n scs' = rest"
    using l(3,4) typing_cong [of ?n n] by (auto simp: quiet_def)
  moreover obtain sh1 where "length (line_buf sh1) = MAX_LINE"
    "shell_key d im LF (sh'\<lparr>idle_count := k\<rparr>) n =
         (if words_of (typed sh') = [] then Some (enter_done sh1 (Done ?n))
          else map_option (enter_done sh1) (shell_dispatch d im (take MAX_ARGS (words_of (typed sh'))) ?n))"
    using shell_key_enter [OF ok cur, of d im] by auto
  ultimately show ?thesis
    using c(1,6) l(1) quiet_trans [OF q os(1)]
    by (intro exI [of _ sh1] exI [of _ ?n] exI [of _ irqs'] exI [of _ scs'])
      (auto simp: bind_map_option comp_def split: option.splits)
qed

section \<open>Every session comes to an end\<close>

text \<open>
  The invariant that even a \<open>killprocess\<close> of the running process keeps: the queue is in order
  and holds exactly the live slots, exactly the threads in it have the number 0, and the
  scheduler finds nobody to run but the shell.
\<close>

definition shell_core :: "machine \<Rightarrow> pcb_ref list \<Rightarrow> bool" where
  "shell_core m xs \<longleftrightarrow> core_inv (mkern m) xs \<and> pids_ok (mkern m) xs \<and> settled (mkern m) xs
     \<and> cursor_ok (mvga m)"

lemma shell_core_calm: "shell_core m xs \<Longrightarrow> schedule (mkern m) = Some (Returns (mkern m))"
  by (rule settled_schedule [of _ xs]) (simp_all add: shell_core_def core_inv_def)

text \<open>How an outcome of a command may differ from the machine before.\<close>

fun sound_outcome :: "machine \<Rightarrow> outcome \<Rightarrow> bool" where
  "sound_outcome m (Done n) \<longleftrightarrow> (\<exists>ys. shell_core n ys) \<and> mkbd n = mkbd m \<and> midt n = midt m
     \<and> mif n = mif m \<and> (next_pid (mkern n) = next_pid (mkern m) \<or> next_pid (mkern n) = next_pid (mkern m) + 1)"
| "sound_outcome m (Stopped n) \<longleftrightarrow> (\<exists>ys. shell_core n ys) \<and> \<not> mif n"
| "sound_outcome m (Away n) \<longleftrightarrow> False"

lemma sound_screen: "shell_core (m\<lparr>mvga := v\<rparr>) xs \<Longrightarrow> sound_outcome m (Done (m\<lparr>mvga := v\<rparr>))"
  by auto

lemma only_screen_sound: "shell_core m xs \<Longrightarrow> only_screen m n \<Longrightarrow> sound_outcome m (Done n)"
  by (auto simp: only_screen_def shell_core_def console_kept_def)

lemma only_screen_core: "shell_core m xs \<Longrightarrow> only_screen m n \<Longrightarrow> shell_core n xs"
  by (auto simp: only_screen_def shell_core_def console_kept_def)

lemma settled_add:
  assumes "settled s xs" "current_pcb t = current_pcb s" "idle_pcb t = idle_pcb s"
    and "state (pcbs t p) = PROCESS_BLOCKED" "\<forall>r. r \<noteq> p \<longrightarrow> state (pcbs t r) = state (pcbs s r)"
    and "\<forall>r. r \<notin> set xs \<longrightarrow> r \<noteq> p \<longrightarrow> next_pcb (pcbs t r) = next_pcb (pcbs s r)"
  shows "settled t (xs @ [p])"
proof -
  have "\<not> ready t r" if "r \<in> set (xs @ [p])" for r
    using that assms(1,4,5) by (cases "r = p") (simp_all add: settled_def ready_def)
  with assms show ?thesis by (auto simp: settled_def)
qed

lemma settled_remove:
  assumes "settled s xs" "distinct xs" "current_pcb t = current_pcb s" "idle_pcb t = idle_pcb s"
    and "\<forall>q. q \<noteq> r \<longrightarrow> state (pcbs t q) = state (pcbs s q)"
    and "\<And>q. q \<notin> set xs \<or> q = r \<Longrightarrow> next_pcb (pcbs t q) = (if q = r then None else next_pcb (pcbs s q))"
  shows "settled t (remove1 r xs)"
proof -
  have d: "set (remove1 r xs) = set xs - {r}" using assms(2) by (simp add: set_remove1_eq)
  obtain c where c: "current_pcb t = Some c" "idle_pcb t = Some c" "c \<notin> set xs \<longrightarrow> next_pcb (pcbs s c) = None"
    using assms(1,3,4) by (auto simp: settled_def)
  then have "c \<notin> set xs - {r} \<longrightarrow> next_pcb (pcbs t c) = None" using assms(6) [of c] by auto
  moreover have "\<forall>q \<in> set xs - {r}. \<not> ready t q" using assms(1,5) by (simp add: settled_def ready_def)
  ultimately show ?thesis unfolding settled_def d using c(1,2) by simp
qed

lemma newprocess_sound:
  assumes core: "shell_core m xs" and pid: "next_pid (mkern m) + 1 \<noteq> 0"
  shows "\<exists>n. cmd_newprocess im m = Some n \<and> sound_outcome m (Done n)"
proof -
  have c: "core_inv (mkern m) xs" and pids: "pids_ok (mkern m) xs" and cur: "cursor_ok (mvga m)"
    and calm: "settled (mkern m) xs"
    using core by (simp_all add: shell_core_def)
  show ?thesis
  proof (cases "can_create (mkern m)")
    case True
    let ?v = "say (newprocess_text (next_pid (mkern m) + 1)) (mvga m)"
    obtain k p where n: "cmd_newprocess im m = Some (m\<lparr>mkern := k, mvga := ?v\<rparr>)"
      "p \<notin> set xs" "\<not> is_thread p" "core_inv k (xs @ [p])"
      "pid (pcbs k p) = next_pid (mkern m) + 1" "next_pid k = next_pid (mkern m) + 1"
      "\<forall>r. r \<noteq> p \<longrightarrow> pid (pcbs k r) = pid (pcbs (mkern m) r) \<and> state (pcbs k r) = state (pcbs (mkern m) r)"
      "current_pcb k = current_pcb (mkern m)" "idle_pcb k = idle_pcb (mkern m)"
      "state (pcbs k p) = PROCESS_BLOCKED"
      "\<forall>r. r \<notin> set xs \<longrightarrow> r \<noteq> p \<longrightarrow> next_pcb (pcbs k r) = next_pcb (pcbs (mkern m) r)"
      by (rule newprocess_core [OF c True])
    have "pids_ok k (xs @ [p])"
      unfolding pids_ok_def
    proof
      fix r assume "r \<in> set (xs @ [p])"
      then show "(pid (pcbs k r) = 0) = is_thread r"
        using pids n(2,3,5,7) pid by (cases "r = p") (auto simp: pids_ok_def)
    qed
    moreover have "settled k (xs @ [p])" using n(7) by (intro settled_add [OF calm n(8-10) _ n(11)]) simp
    moreover have "cursor_ok ?v" using say_console [OF cur] by blast
    ultimately have "shell_core (m\<lparr>mkern := k, mvga := ?v\<rparr>) (xs @ [p])"
      using n(4) by (simp add: shell_core_def)
    with n(1,6) show ?thesis by auto
  next
    case False
    note newprocess_fails [OF c False, of im]
    moreover have "only_screen m (on_vga (vga_print_color
        (''Failed: out of memory or process pool full'' @ [LF]) 0x0C) m)"
      by (intro only_screen_on_vga print_color_kept console_kept_refl cur)
    ultimately show ?thesis using only_screen_sound [OF core] by blast
  qed
qed

lemma killprocess_sound:
  assumes core: "shell_core m xs"
  shows "\<exists>n. cmd_killprocess argv m = Some n \<and> sound_outcome m (Done n)"
proof -
  have c: "core_inv (mkern m) xs" and pids: "pids_ok (mkern m) xs" and cur: "cursor_ok (mvga m)"
    and calm: "settled (mkern m) xs"
    using core by (simp_all add: shell_core_def)
  have q: "queue (mkern m) xs" using c by (simp add: core_inv_def)
  have say: "cursor_ok (say ts (mvga m))" for ts using say_console [OF cur] by blast
  consider "\<not> 2 \<le> length argv"
    | "2 \<le> length argv" "kill_victim (mkern m) xs (parse_dec 0 (argv ! 1)) = None"
    | r where "2 \<le> length argv" "kill_victim (mkern m) xs (parse_dec 0 (argv ! 1)) = Some r" by blast
  then show ?thesis
  proof cases
    case 1
    have "only_screen m (on_vga (vga_print (''Usage: killprocess <pid>'' @ [LF])) m)"
      by (intro only_screen_on_vga print_kept console_kept_refl cur)
    from only_screen_sound [OF core this] 1 show ?thesis by (simp add: cmd_killprocess_def)
  next
    case 2
    then show ?thesis using cmd_killprocess_cases [OF q 2(1) refl] c pids calm say
      by (auto simp: shell_core_def)
  next
    case 3
    have r: "r \<in> set xs" using kill_victim_in [OF 3(2)] by simp
    from kill_pcb_spec [OF c r] obtain s where s: "kill_pcb r (mkern m) = Some s"
      "core_inv s (remove1 r xs)" "next_pid s = next_pid (mkern m)"
      "\<forall>q. q \<noteq> r \<longrightarrow> state (pcbs s q) = state (pcbs (mkern m) q) \<and> pid (pcbs s q) = pid (pcbs (mkern m) q)"
      "current_pcb s = current_pcb (mkern m)" "idle_pcb s = idle_pcb (mkern m)"
      by blast
    let ?n = "m\<lparr>mkern := s, mvga := say (killed_text (parse_dec 0 (argv ! 1))) (mvga m)\<rparr>"
    have "distinct xs" using q rq.queue_distinct by blast
    then have "pids_ok s (remove1 r xs)" "settled s (remove1 r xs)"
      using pids s(4) settled_remove [OF calm _ s(5,6) _ kill_pcb_links [OF q r s(1)]]
      by (simp_all add: pids_ok_def)
    with s(2) say have "shell_core ?n (remove1 r xs)" by (simp add: shell_core_def)
    moreover have "cmd_killprocess argv m = Some ?n"
      unfolding cmd_killprocess_cases [OF q 3(1) refl] 3(2) by (simp add: s(1))
    ultimately show ?thesis using s(3) by auto
  qed
qed

lemma listing_sound:
  assumes core: "shell_core m xs"
  shows "\<exists>n. cmd_ps m = Some n \<and> sound_outcome m (Done n)"
    "\<exists>n. cmd_threads m = Some n \<and> sound_outcome m (Done n)"
    "\<exists>n. cmd_ls m = Some n \<and> sound_outcome m (Done n)"
proof -
  have a: "queue (mkern m) xs" "pids_ok (mkern m) xs" "cursor_ok (mvga m)"
    using core by (simp_all add: shell_core_def core_inv_def)
  have "only_screen m (m\<lparr>mvga := say ts (mvga m)\<rparr>)" for ts
    using a(3) by (auto simp: only_screen_def intro!: say_kept console_kept_refl)
  then show "\<exists>n. cmd_ps m = Some n \<and> sound_outcome m (Done n)"
    "\<exists>n. cmd_threads m = Some n \<and> sound_outcome m (Done n)"
    using cmd_ps_eq [OF a(1,2)] cmd_threads_eq [OF a(1,2)] only_screen_sound [OF core] by blast+
  obtain v where "cmd_ls m = Some (m\<lparr>mvga := v\<rparr>)" "console_kept (mvga m) v"
    using cmd_ls_eq [OF a(1,2)] a(3) by blast
  moreover from this(2) have "only_screen m (m\<lparr>mvga := v\<rparr>)" by (auto simp: only_screen_def)
  ultimately show "\<exists>n. cmd_ls m = Some n \<and> sound_outcome m (Done n)"
    using only_screen_sound [OF core] by blast
qed

lemma done_sound:
  "\<exists>n. x = Some n \<and> sound_outcome m (Done n) \<Longrightarrow> \<exists>r. map_option Done x = Some r \<and> sound_outcome m r"
  by (metis option.simps(9))

lemma run_cmd_returns:
  assumes core: "shell_core m xs" and pid: "next_pid (mkern m) + 1 \<noteq> 0"
  shows "\<exists>r. run_cmd d im c argv m = Some r \<and> sound_outcome m r"
proof -
  have cur: "cursor_ok (mvga m)" using core by (simp add: shell_core_def)
  note screen = only_screen_sound [OF core]
  note pr = printing_commands [OF cur, THEN screen]
  note li = listing_sound [OF core]
  have stop: "\<exists>ys. shell_core n ys" if "mkern n = mkern m" "console_kept (mvga m) (mvga n)" for n
    using that core by (auto simp: shell_core_def console_kept_def)
  show ?thesis
  proof (cases c)
    case Clear
    have "shell_core (m\<lparr>mvga := mvga (cmd_clear m)\<rparr>) xs"
      using core by (simp add: cmd_clear_def on_vga_def shell_core_def vga_clear_cursor)
    moreover have "cmd_clear m = m\<lparr>mvga := mvga (cmd_clear m)\<rparr>"
      by (simp add: cmd_clear_def on_vga_def)
    ultimately have "sound_outcome m (Done (cmd_clear m))"
      using sound_screen by metis
    moreover have "run_cmd d im c argv m = Some (Done (cmd_clear m))"
      unfolding Clear by (rule run_cmd.simps)
    ultimately show ?thesis by blast
  next
    case Ls show ?thesis unfolding run_cmd.simps Ls by (rule done_sound [OF li(3)])
  next
    case Ps show ?thesis unfolding run_cmd.simps Ps by (rule done_sound [OF li(1)])
  next
    case Threads show ?thesis unfolding run_cmd.simps Threads by (rule done_sound [OF li(2)])
  next
    case Newprocess show ?thesis
      unfolding run_cmd.simps Newprocess by (rule done_sound [OF newprocess_sound [OF core pid, of im]])
  next
    case Killprocess show ?thesis
      unfolding run_cmd.simps Killprocess by (rule done_sound [OF killprocess_sound [OF core, of argv]])
  next
    case Reboot
    obtain t where "cmd_reboot d m = Stopped t" "\<not> mif t" "mkern t = mkern m"
      "console_kept (mvga m) (mvga t)" using reboot_stops [OF cur, of d] by blast
    with Reboot stop [of t] show ?thesis by simp
  next
    case Exit
    obtain t where "cmd_exit d m = Stopped t" "\<not> mif t" "mkern t = mkern m"
      "console_kept (mvga m) (mvga t)" using exit_stops [OF cur, of d] by blast
    with Exit stop [of t] show ?thesis by simp
  qed (use pr in \<open>simp_all del: sound_outcome.simps\<close>)
qed

lemma shell_dispatch_returns:
  assumes core: "shell_core m xs" and pid: "next_pid (mkern m) + 1 \<noteq> 0"
  shows "\<exists>r. shell_dispatch d im argv m = Some r \<and> sound_outcome m r"
proof (cases argv)
  case Nil
  have "sound_outcome m (Done m)" using core by auto
  then show ?thesis unfolding shell_dispatch_def Nil by (simp del: sound_outcome.simps)
next
  case (Cons name args)
  have cur: "cursor_ok (mvga m)" using core by (simp add: shell_core_def)
  show ?thesis
  proof (cases "find_command name command_table")
    case None
    note only_screen_sound [OF core printing_commands(7) [OF cur]]
    then show ?thesis
      unfolding shell_dispatch_def Cons by (simp add: None del: sound_outcome.simps say.simps)
  next
    case (Some c)
    from run_cmd_returns [OF core pid] show ?thesis
      unfolding shell_dispatch_def Cons by (simp add: Some del: sound_outcome.simps)
  qed
qed

lemma sound_outcome_before:
  assumes "sound_outcome n r" "mkbd n = mkbd m" "midt n = midt m" "next_pid (mkern n) = next_pid (mkern m)"
    and "mif n = mif m"
  shows "sound_outcome m r"
  using assms by (cases r) simp_all

lemma enter_done_sound:
  assumes "sound_outcome m r" "length (line_buf sh) = MAX_LINE"
  shows "sound_outcome m (snd (enter_done sh r))
     \<and> (\<forall>n. snd (enter_done sh r) = Done n \<longrightarrow> shell_ok (fst (enter_done sh r)))"
proof (cases r)
  case (Done n)
  with assms(1) obtain ys where ys: "shell_core n ys" by auto
  then have "cursor_ok (mvga n)" by (simp add: shell_core_def)
  then have p: "only_screen n (prompt n)" by (rule only_screen_prompt)
  have "mif (prompt n) = mif n" by (simp add: prompt_def on_vga_def)
  with only_screen_core [OF ys p] only_screen_quiet [OF p] Done assms enter_done_ok [OF assms(2), of n]
  show ?thesis by (auto simp: quiet_def)
qed (use assms in auto)

text \<open>One key, whatever it is.\<close>

lemma shell_key_sound:
  assumes core: "shell_core m xs" and ok: "shell_ok sh" and c: "c \<noteq> NUL"
    and pid: "next_pid (mkern m) + 1 \<noteq> 0"
  shows "\<exists>sh' r. shell_key d im c sh m = Some (sh', r) \<and> sound_outcome m r
     \<and> (\<forall>n. r = Done n \<longrightarrow> shell_ok sh')"
proof (cases "c = LF")
  case False
  have cur: "cursor_ok (mvga m)" using core by (simp add: shell_core_def)
  from shell_key_char [OF ok cur False c] obtain sh' n where
    "shell_key d im c sh m = Some (sh', Done n)" "shell_ok sh'" "only_screen m n" by blast
  with only_screen_sound [OF core this(3)] show ?thesis by blast
next
  case True
  have cur: "cursor_ok (mvga m)" using core by (simp add: shell_core_def)
  let ?m = "on_vga (vga_putchar LF) m"
  have os: "only_screen m ?m" by (rule only_screen_put [OF cur])
  have core': "shell_core ?m xs" by (rule only_screen_core [OF core os])
  have same: "mkbd ?m = mkbd m" "midt ?m = midt m" "next_pid (mkern ?m) = next_pid (mkern m)" "mif ?m = mif m"
    using only_screen_quiet [OF os] by (simp_all add: quiet_def on_vga_def)
  obtain sh1 where sh1: "length (line_buf sh1) = MAX_LINE"
    "shell_key d im LF sh m =
         (if words_of (typed sh) = [] then Some (enter_done sh1 (Done ?m))
          else map_option (enter_done sh1) (shell_dispatch d im (take MAX_ARGS (words_of (typed sh))) ?m))"
    using shell_key_enter [OF ok cur, of d im] by blast
  have "next_pid (mkern ?m) + 1 \<noteq> 0" using pid same(3) by simp
  from shell_dispatch_returns [OF core' this] obtain r where
    r: "shell_dispatch d im (take MAX_ARGS (words_of (typed sh))) ?m = Some r" "sound_outcome ?m r" by blast
  have "sound_outcome ?m (Done ?m)" using core' by auto
  then obtain r' where r': "shell_key d im LF sh m = Some (enter_done sh1 r')" "sound_outcome ?m r'"
    using sh1(2) r that [of "Done ?m"] that [of r]
    by (cases "words_of (typed sh) = []") (simp_all del: sound_outcome.simps enter_done.simps)
  from sound_outcome_before [OF r'(2) same] enter_done_sound [OF _ sh1(1), of m r'] r'(1) True
  show ?thesis by (cases "enter_done sh1 r'") auto
qed

lemma keyboard_session:
  assumes "typing d irqs scs m" "shell_ok sh" "shell_core m xs"
    and "unat (next_pid (mkern m)) + length (pending m scs) < 2 ^ 32 - 1"
  shows "\<exists>sh' r ys. shell_loop d im irqs sh m = Some (sh', r) \<and> shell_core (outcome_state r) ys
     \<and> (case r of Done n \<Rightarrow> mif n \<and> shell_ok sh' | Stopped n \<Rightarrow> \<not> mif n | Away n \<Rightarrow> False)"
  using assms
proof (induction "length scs + length (kb_contents (mkbd m))" arbitrary: irqs scs sh m xs rule: less_induct)
  case less
  have quiet_core: "shell_core n xs" if "quiet m n" for n
    using that less.prems(3) by (simp add: shell_core_def quiet_def)
  show ?case
  proof (cases "pending m scs")
    case Nil
    obtain k n where "shell_loop d im irqs sh m = Some (sh\<lparr>idle_count := k\<rparr>, Done n)" "quiet m n" "mif n"
      using shell_loop_asleep [OF less.prems(1) Nil, of im sh] by blast
    with quiet_core less.prems(2) show ?thesis by fastforce
  next
    case (Cons c rest)
    obtain k n irqs' scs' where l: "shell_loop d im irqs sh m
        = Option.bind (shell_key d im c (sh\<lparr>idle_count := k\<rparr>) n) (after_key d im irqs')"
      "quiet m n" "typing d irqs' scs' n" "pending n scs' = rest" "c \<noteq> NUL"
      "length scs' + length (kb_contents (mkbd n)) < length scs + length (kb_contents (mkbd m))"
      using shell_loop_key [OF less.prems(1) Cons, of im sh] by blast
    have pid: "unat (next_pid (mkern n)) + Suc (length rest) < 2 ^ 32 - 1"
      using less.prems(4) l(2) Cons by (simp add: quiet_def)
    then have ne: "unat (next_pid (mkern n) + 1) = unat (next_pid (mkern n)) + 1"
      by (subst unat_add_lem [THEN iffD1]) simp_all
    then have "next_pid (mkern n) + 1 \<noteq> 0" by (metis unat_eq_0 Suc_eq_plus1 nat.distinct(1))
    moreover have "shell_ok (sh\<lparr>idle_count := k\<rparr>)" using less.prems(2) by simp
    ultimately obtain sh1 r where r: "shell_key d im c (sh\<lparr>idle_count := k\<rparr>) n = Some (sh1, r)"
      "sound_outcome n r" "\<forall>n. r = Done n \<longrightarrow> shell_ok sh1"
      using shell_key_sound [OF quiet_core [OF l(2)] _ l(5)] by blast
    show ?thesis
    proof (cases r)
      case (Done n1)
      with r obtain ys where n1: "shell_core n1 ys" "mkbd n1 = mkbd n" "midt n1 = midt n" "shell_ok sh1"
        "next_pid (mkern n1) = next_pid (mkern n) \<or> next_pid (mkern n1) = next_pid (mkern n) + 1" by auto
      have t: "typing d irqs' scs' n1" "pending n1 scs' = rest"
        using l(3,4) n1(2,3) shell_core_calm [OF n1(1)] by (simp_all add: typing_def pending_def)
      have "length scs' + length (kb_contents (mkbd n1)) < length scs + length (kb_contents (mkbd m))"
        using l(6) n1(2) by simp
      moreover have "unat (next_pid (mkern n1)) + length (pending n1 scs') < 2 ^ 32 - 1"
        using n1(5) ne pid t(2) by auto
      ultimately have "\<exists>sh' r ys. shell_loop d im irqs' sh1 n1 = Some (sh', r) \<and> shell_core (outcome_state r) ys
         \<and> (case r of Done n \<Rightarrow> mif n \<and> shell_ok sh' | Stopped n \<Rightarrow> \<not> mif n | Away n \<Rightarrow> False)"
        using less.hyps [OF _ t(1) n1(4,1)] by blast
      then show ?thesis by (simp add: l(1) r(1) Done)
    qed (use l(1) r in auto)
  qed
qed

section \<open>Properties\<close>

text \<open>Keys other than Enter edit the line and do nothing else, whatever timer ticks and spurious
  interrupts come in between: from the interrupts of the keyboard on, through the scancode tables and the circular buffer, the characters typed are appended to
  the line, up to 255 of them, and a backspace removes the last one; the shell then sleeps with
  interrupts on, and the kernel state is untouched.\<close>

theorem keyboard_edits_line:
  assumes "typing d irqs scs m" "shell_ok sh" "cursor_ok (mvga m)" "LF \<notin> set (pending m scs)"
  shows "\<exists>sh' n. shell_loop d im irqs sh m = Some (sh', Done n) \<and> shell_ok sh'
    \<and> typed sh' = foldl edit (typed sh) (pending m scs) \<and> quiet m n \<and> mif n"
proof -
  obtain sh1 n1 irqs1 scs1 where c: "shell_loop d im irqs sh m = shell_loop d im irqs1 sh1 n1"
    "quiet m n1" "typing d irqs1 scs1 n1" "pending n1 scs1 = []" "shell_ok sh1"
    "typed sh1 = foldl edit (typed sh) (pending m scs)"
    using shell_loop_chars [OF assms(1-3), of "pending m scs" "[]" im] assms(4) by auto
  obtain k n where "shell_loop d im irqs1 sh1 n1 = Some (sh1\<lparr>idle_count := k\<rparr>, Done n)" "quiet n1 n" "mif n"
    using shell_loop_asleep [OF c(3,4), of im sh1] by blast
  with c quiet_trans [OF c(2)] show ?thesis by auto
qed

text \<open>A keyboard controller that answers the reads of a log of its own with given scancodes.\<close>

definition script_kbd :: "uint8_t list \<Rightarrow> device" where
  "script_kbd scs l p = (if length l < length scs then scs ! length l else 0)"

lemma kbd_script_script: "kbd_script (script_kbd scs) l (drop (length l) scs)"
proof (induction "drop (length l) scs" arbitrary: l)
  case Nil
  then show ?case by (simp add: Nil [symmetric])
next
  case (Cons sc rest)
  have lt: "length l < length scs" using Cons.hyps(2) by (metis drop_eq_Nil list.distinct(1) not_le)
  then have d: "drop (length l) scs = scs ! length l # drop (Suc (length l)) scs" by (simp add: Cons_nth_drop_Suc)
  have "kbd_script (script_kbd scs) (l @ [In KB_DATA_PORT (scs ! length l)]) (drop (Suc (length l)) scs)"
    using Cons.hyps(1) [of "l @ [In KB_DATA_PORT (scs ! length l)]"] Cons.hyps(2) d by simp
  then show ?case unfolding d by (simp add: script_kbd_def lt)
qed

definition keyboard_demo :: "uint8_t list \<Rightarrow> devices" where
  "keyboard_demo scs = demo_devices\<lparr>ps2 := script_kbd scs\<rparr>"

text \<open>The shell in the idle process, with a process and a thread that are blocked.\<close>

definition session_kern :: kern where
  "session_kern = mark_blocked (Pcb 7) (mark_blocked (Tcb 0)
     (upd_pcb (Pcb 0) (\<lambda>c. c\<lparr>state := PROCESS_RUNNING\<rparr>) (demo_kern\<lparr>current_pcb := Some (Pcb 0)\<rparr>)))"

definition session_machine :: machine where
  "session_machine = demo_machine\<lparr>mkern := session_kern\<rparr>"

lemma session_core: "shell_core session_machine demo_queue"
proof -
  have "core_inv session_kern demo_queue"
    using demo_inv unfolding session_kern_def mark_blocked_def kern_inv_def
    by (simp add: core_inv_upd_keep)
  moreover have "pids_ok session_kern demo_queue" "settled session_kern demo_queue"
    by (simp_all add: pids_ok_def settled_def ready_def session_kern_def mark_blocked_def)
      (simp_all add: demo_kern_def demo_pcb_def)
  ultimately show ?thesis
    using vga_start_ok by (simp add: shell_core_def session_machine_def demo_machine_def)
qed

lemma session_typing:
  assumes "length (filter is_key irqs) = length scs" "\<forall>r \<in> set irqs. 32 \<le> int_no r"
  shows "typing (keyboard_demo scs) irqs scs session_machine"
proof -
  have "kbd_script (script_kbd scs) [] scs" using kbd_script_script [of scs "[]"] by simp
  moreover have "kb_io (mkbd session_machine) = []" "mkbd session_machine = keyboard_init kbd_boot"
    by (simp_all add: session_machine_def demo_machine_def keyboard_init_def kbd_boot_def)
  moreover have "irq_handlers (midt session_machine) = boot_handlers"
    by (simp add: session_machine_def demo_machine_def irq_register_handler_def idt_init_spec(4) IRQ_COUNT_def
        boot_handlers_def eval_nat_numeral)
  ultimately show ?thesis
    using assms shell_core_calm [OF session_core] kb_boot_invar by (simp add: typing_def keyboard_demo_def)
qed

text \<open>A tick of the timer before and after every key.\<close>

definition ticking :: "nat \<Rightarrow> registers list" where
  "ticking n = demo_regs 32 # concat (replicate n [demo_regs 33, demo_regs 32])"

lemma ticking_irqs: "length (filter is_key (ticking n)) = n" "\<forall>r \<in> set (ticking n). 32 \<le> int_no r"
proof -
  show "length (filter is_key (ticking n)) = n"
    by (induction n) (simp_all add: ticking_def is_key_def demo_regs_def)
  show "\<forall>r \<in> set (ticking n). 32 \<le> int_no r" by (auto simp: ticking_def demo_regs_def)
qed

lemma ticking_typing: "length scs = n \<Longrightarrow> typing (keyboard_demo scs) (ticking n) scs session_machine"
  by (rule session_typing) (simp_all add: ticking_irqs)

lemma session_pending: "pending session_machine scs = decode_scancodes 0 scs"
proof -
  have "mkbd session_machine = keyboard_init kbd_boot" "shift_held (keyboard_init kbd_boot) = 0"
    by (simp_all add: session_machine_def demo_machine_def keyboard_init_def)
  then show ?thesis by (simp only: pending_def keyboard_init_empty append_Nil)
qed

definition empty_shell :: shell where
  "empty_shell = \<lparr> line_buf = replicate 256 (CHR ''?''), line_pos = 0, keystroke_count = 0, idle_count = 0 \<rparr>"

lemma empty_shell_ok: "shell_ok empty_shell" "typed empty_shell = []"
  by (simp_all add: shell_ok_def typed_def empty_shell_def MAX_LINE_def c_string_def)

lemma session_cursor: "cursor_ok (mvga session_machine)"
  using vga_start_ok by (simp add: session_machine_def demo_machine_def)

text \<open>The keys A, Backspace, P, S: the shell holds the line \<^verbatim>\<open>ps\<close>.\<close>

theorem keyboard_edits_line_witness:
  "\<exists>sh' n. shell_loop (keyboard_demo [0x1E, 0x0E, 0x19, 0x1F]) demo_image (ticking 4) empty_shell
      session_machine = Some (sh', Done n) \<and> typed sh' = ''ps''"
proof -
  let ?scs = "[0x1E, 0x0E, 0x19, 0x1F] :: uint8_t list"
  have p: "pending session_machine ?scs = [CHR ''a'', BS, CHR ''p'', CHR ''s'']"
    unfolding session_pending by code_simp
  have e: "foldl edit [] [CHR ''a'', BS, CHR ''p'', CHR ''s''] = ''ps''" by code_simp
  have nl: "LF \<notin> set (pending session_machine ?scs)" unfolding p by simp
  have "typing (keyboard_demo ?scs) (ticking 4) ?scs session_machine" by (rule ticking_typing) simp
  from keyboard_edits_line [OF this empty_shell_ok(1) session_cursor nl, of demo_image] show ?thesis
    unfolding p empty_shell_ok(2) e by auto
qed

text \<open>C22: a line typed at the keyboard and closed with Enter runs as a command: the dispatcher gets
  the first sixteen words of the edited line, with the kernel state as it was when the typing
  began; a line without words runs nothing. The shell then goes on with the rest of the input, with an
  empty line and a new prompt when the command comes back.\<close>

theorem keyboard_runs_command:
  assumes "typing d irqs scs m" "shell_ok sh" "cursor_ok (mvga m)"
    and "pending m scs = cs @ LF # rest" "LF \<notin> set cs"
    and "ws = words_of (foldl edit (typed sh) cs)"
  shows "\<exists>sh1 n irqs' scs'. quiet m n \<and> typing d irqs' scs' n \<and> pending n scs' = rest
    \<and> length (line_buf sh1) = MAX_LINE
    \<and> shell_loop d im irqs sh m =
        (if ws = [] then shell_loop d im irqs' (sh1\<lparr>line_pos := 0\<rparr>) (prompt n)
         else Option.bind (shell_dispatch d im (take MAX_ARGS ws) n)
                (\<lambda>r. case r of
                   Done n \<Rightarrow> shell_loop d im irqs' (sh1\<lparr>line_pos := 0\<rparr>) (prompt n)
                 | Away n \<Rightarrow> Some (sh1, Away n) | Stopped n \<Rightarrow> Some (sh1, Stopped n)))"
proof -
  have a: "after_key d im irqs' (enter_done sh1 r) = (case r of
      Done n \<Rightarrow> shell_loop d im irqs' (sh1\<lparr>line_pos := 0\<rparr>) (prompt n)
    | Away n \<Rightarrow> Some (sh1, Away n) | Stopped n \<Rightarrow> Some (sh1, Stopped n))" for irqs' sh1 r
    by (cases r) simp_all
  from shell_loop_line [OF assms(1-5), of im] show ?thesis
    unfolding a assms(6) [symmetric] outcome.case .
qed

text \<open>The keys P, S, Enter: the shell runs \<^verbatim>\<open>ps\<close>.\<close>

theorem keyboard_runs_command_witness:
  "\<exists>sh1 n irqs'. mkern n = session_kern
     \<and> shell_loop (keyboard_demo [0x19, 0x1F, 0x1C]) demo_image (ticking 3) empty_shell session_machine
       = Option.bind (cmd_ps n) (\<lambda>n. shell_loop (keyboard_demo [0x19, 0x1F, 0x1C]) demo_image irqs'
            (sh1\<lparr>line_pos := 0\<rparr>) (prompt n))"
proof -
  let ?d = "keyboard_demo [0x19, 0x1F, 0x1C]"
  have p: "pending session_machine [0x19, 0x1F, 0x1C] = ''ps'' @ LF # []"
    unfolding session_pending by code_simp
  have w: "''ps'' # [] = words_of (foldl edit (typed empty_shell) ''ps'')"
  proof -
    have "words_of (foldl edit [] ''ps'') = [''ps'']" by code_simp
    then show ?thesis by (simp add: empty_shell_ok(2))
  qed
  have nl: "LF \<notin> set ''ps''" by simp
  have "typing ?d (ticking 3) [0x19, 0x1F, 0x1C] session_machine" by (rule ticking_typing) simp
  from keyboard_runs_command [OF this empty_shell_ok(1) session_cursor p nl w, of demo_image]
  obtain sh1 n irqs' where r: "quiet session_machine n"
    "shell_loop ?d demo_image (ticking 3) empty_shell session_machine
     = Option.bind (shell_dispatch ?d demo_image (take MAX_ARGS [''ps'']) n)
          (\<lambda>r. case r of
             Done n \<Rightarrow> shell_loop ?d demo_image irqs' (sh1\<lparr>line_pos := 0\<rparr>) (prompt n)
           | Away n \<Rightarrow> Some (sh1, Away n) | Stopped n \<Rightarrow> Some (sh1, Stopped n))" by auto
  have "find_command ''ps'' command_table = Some Ps" by code_simp
  then have s: "shell_dispatch ?d demo_image (take MAX_ARGS [''ps'']) n = map_option Done (cmd_ps n)"
    by (simp add: shell_dispatch_def MAX_ARGS_def)
  have "mkern n = session_kern" using r(1) by (simp add: quiet_def session_machine_def)
  with r(2) show ?thesis unfolding s
    by (intro exI [of _ sh1] exI [of _ n] exI [of _ irqs']) (simp add: bind_map_option comp_def eval_nat_numeral)
qed

text \<open>The shell never gets stuck: whatever is typed and however many timer ticks come in between, as long
  as the process numbers do not run out, the loop comes back to sleep with interrupts on and the line in bounds, or a command has
  stopped the machine with interrupts off. No walk of a command over the run queue diverges and no
  plain process is ever taken for a thread; the queue holds exactly the live slots, and the cursor
  is on the screen.\<close>

theorem keyboard_sessions_return:
  assumes "typing d irqs scs m" "shell_ok sh" "shell_core m xs"
    and "unat (next_pid (mkern m)) + length (pending m scs) < 2 ^ 32 - 1"
  shows "\<exists>sh' r ys. shell_loop d im irqs sh m = Some (sh', r) \<and> shell_core (outcome_state r) ys
    \<and> (case r of Done n \<Rightarrow> mif n \<and> shell_ok sh' | Stopped n \<Rightarrow> \<not> mif n | Away n \<Rightarrow> False)"
  using assms by (rule keyboard_session)

theorem keyboard_sessions_return_witness:
  "\<exists>sh' r ys. shell_loop (keyboard_demo [0x19, 0x1F, 0x1C, 0x13]) demo_image (ticking 4) empty_shell
      session_machine = Some (sh', r) \<and> shell_core (outcome_state r) ys"
proof -
  have p: "pending session_machine [0x19, 0x1F, 0x1C, 0x13] = ''ps'' @ [LF] @ ''r''"
    unfolding session_pending by code_simp
  have "next_pid (mkern session_machine) = 2"
    by (simp add: session_machine_def session_kern_def mark_blocked_def demo_kern_def)
  then have len: "unat (next_pid (mkern session_machine)) + length (pending session_machine [0x19, 0x1F, 0x1C, 0x13])
      < 2 ^ 32 - 1" unfolding p by simp
  have "typing (keyboard_demo [0x19, 0x1F, 0x1C, 0x13]) (ticking 4) [0x19, 0x1F, 0x1C, 0x13] session_machine"
    by (rule ticking_typing) simp
  from keyboard_sessions_return [OF this empty_shell_ok(1) session_core len, of demo_image] show ?thesis
    by blast
qed

end
