(* ===== verification/Boot.thy ===== *)
theory Boot
  imports Shell_Session "HOL-Library.Monad_Syntax"
begin

text \<open>
  The boot sequence (\<^verbatim>\<open>src/kernel_main.c\<close>): the boot screen, the initialisation of every component
  in the order of the code, with the progress messages on the serial line, and the start of the
  shell. The registration of the interrupt handlers by \<^verbatim>\<open>pit_init\<close> and \<^verbatim>\<open>keyboard_init\<close> is here,
  where the handler table and the drivers meet. A serial line that never gets ready, a memory
  map that never ends and a division by zero are \<open>None\<close>. The busy loops of \<^verbatim>\<open>delay\<close> change nothing.
\<close>

section \<open>The boot screen\<close>

fun type_print :: "string \<Rightarrow> uint8_t \<Rightarrow> vga \<Rightarrow> vga" where
  "type_print [] color v = v"
| "type_print (c # s) color v =
     (if c = NUL then v else type_print s color (vga_print_color [c] color v))"

definition boot_logo :: "(uint32_t \<times> string) list" where
  "boot_logo =
     [(3, ''__     __                              ___  ____  ''),
      (4, [CHR 0x5C] @ '' '' @ [CHR 0x5C] @ ''   / /__ _ _ __ ___   ___  ___    / _ '' @ [CHR 0x5C] @ ''/ ___| ''),
      (5, '' '' @ [CHR 0x5C] @ '' '' @ [CHR 0x5C] @ '' / / _'' @ [CHR 0x60] @ '' | '' @ [CHR 0x27] @ ''_ '' @ [CHR 0x60] @ '' _ '' @ [CHR 0x5C] @ '' / _ '' @ [CHR 0x5C] @ ''/ __|  | | | '' @ [CHR 0x5C] @ ''___ '' @ [CHR 0x5C] @ '' ''),
      (6, ''  '' @ [CHR 0x5C] @ '' V / (_| | | | | | | (_) '' @ [CHR 0x5C] @ ''__ '' @ [CHR 0x5C] @ ''  | |_| |___) |''),
      (7, ''   '' @ [CHR 0x5C] @ ''_/ '' @ [CHR 0x5C] @ ''__,_|_| |_| |_|'' @ [CHR 0x5C] @ ''___/|___/   '' @ [CHR 0x5C] @ ''___/|____/ '')]"

definition boot_steps :: "string list" where
  "boot_steps = ['' GDT'', '' IDT'', '' PIC'', '' PIT'', '' PMM'', '' KBD'', '' SCH'']"

definition boot_screen :: "vga \<Rightarrow> vga" where
  "boot_screen v =
     (let v = vga_set_color 0 0 v;
          v = fold (\<lambda>i. vga_store (of_nat i) 0x0000) [0..<2000] v;
          v = fold (\<lambda>(row, s) v. type_print s 0x0B (vga_set_cursor row 15 v)) boot_logo v;
          v = type_print ''A Simple x86 Kernel'' 0x07 (vga_set_cursor 9 28 v);
          v = type_print (''Built in C '' @ [CHR 0x26] @ '' Assembly'') 0x08 (vga_set_cursor 10 30 v);
          v = vga_print_color ''Loading'' 0x0F (vga_set_cursor 13 20 v);
          v = fold (\<lambda>s v. vga_print_color ''.'' 0x0E (type_print s 0x0A v)) boot_steps v
      in type_print ''[ DONE ] Vamos OS ready.'' 0x0A (vga_set_cursor 14 20 v))"

section \<open>Initialisation\<close>

definition serial_msg :: "devices \<Rightarrow> string \<Rightarrow> machine \<Rightarrow> machine option" where
  "serial_msg d s m = map_option (\<lambda>t. m\<lparr>mserial := t\<rparr>) (serial_print (uart d) s (mserial m))"

text \<open>\<^verbatim>\<open>pit_init\<close> and \<^verbatim>\<open>keyboard_init\<close> with the registration of their handlers.\<close>

definition start_timer :: "uint32_t \<Rightarrow> machine \<Rightarrow> machine option" where
  "start_timer hz m =
     map_option (\<lambda>p. m\<lparr>mpit := p, midt := irq_register_handler 0 timer_handler_fn (midt m)\<rparr>)
       (pit_init hz (mpit m))"

definition start_keyboard :: "machine \<Rightarrow> machine" where
  "start_keyboard m =
     m\<lparr>mkbd := keyboard_init (mkbd m),
       midt := irq_register_handler 1 keyboard_handler_fn (midt m)\<rparr>"

definition start_memory ::
  "(uint32_t \<Rightarrow> uint32_t) \<Rightarrow> multiboot_info \<Rightarrow> image \<Rightarrow> machine \<Rightarrow> machine option" where
  "start_memory mem mb im m =
     map_option (\<lambda>p. m\<lparr>mkern := (mkern m)\<lparr>pm := p\<rparr>\<rparr>)
       (pmm_init mem (kernel_end_addr im) mb (pm (mkern m)))"

definition start_scheduler :: "devices \<Rightarrow> image \<Rightarrow> machine \<Rightarrow> outcome option" where
  "start_scheduler d im m =
     (case scheduler_init (idle_task_addr im) (mkern m) of
        None \<Rightarrow> None
      | Some (Inl message) \<Rightarrow> kernel_panic d message m
      | Some (Inr k) \<Rightarrow> Some (Done (m\<lparr>mkern := k\<rparr>)))"

text \<open>
  \<^verbatim>\<open>kernel_main\<close> as the list of its statements, in their order: those before the start of the
  scheduler, and those from there to the shell, with the \<^verbatim>\<open>sti\<close> among them. A statement that does not end
  normally ends the run.
\<close>

definition hardware_steps ::
  "devices \<Rightarrow> image \<Rightarrow> (uint32_t \<Rightarrow> uint32_t) \<Rightarrow> multiboot_info \<Rightarrow> (machine \<Rightarrow> machine option) list" where
  "hardware_steps d im mem mb =
     [\<lambda>m. Some (m\<lparr>mgdt := gdt_init (gdt_addr im) (mgdt m)\<rparr>),
      \<lambda>m. Some (on_vga (vga_init (crt d)) m),
      \<lambda>m. Some (m\<lparr>mserial := serial_init (mserial m)\<rparr>),
      serial_msg d (''Vamos OS booting...'' @ [LF]),
      \<lambda>m. Some (on_vga boot_screen m),
      \<lambda>m. Some (m\<lparr>midt := idt_init (isr_addr im) (idt_addr im) (midt m)\<rparr>),
      serial_msg d (''IDT ok'' @ [LF]),
      \<lambda>m. Some (m\<lparr>mpic := pic_init (mpic m)\<rparr>),
      serial_msg d (''PIC ok'' @ [LF]),
      start_timer 100,
      serial_msg d (''PIT ok'' @ [LF]),
      start_memory mem mb im,
      serial_msg d (''PMM ok'' @ [LF]),
      \<lambda>m. Some (start_keyboard m),
      serial_msg d (''Keyboard ok'' @ [LF])]"

definition console_steps :: "devices \<Rightarrow> (machine \<Rightarrow> machine option) list" where
  "console_steps d =
     [serial_msg d (''Scheduler ok'' @ [LF]),
      \<lambda>m. Some (m\<lparr>mif := True\<rparr>),
      serial_msg d (''Interrupts enabled'' @ [LF]),
      \<lambda>m. Some (on_vga (vga_set_color 7 0) m),
      \<lambda>m. Some (on_vga vga_clear m),
      \<lambda>m. Some (refresh_statusbar m)]"

definition boot_sequence ::
  "devices \<Rightarrow> image \<Rightarrow> (uint32_t \<Rightarrow> uint32_t) \<Rightarrow> multiboot_info \<Rightarrow> (machine \<Rightarrow> outcome option) list" where
  "boot_sequence d im mem mb =
     map (\<lambda>f m. map_option Done (f m)) (hardware_steps d im mem mb) @ [start_scheduler d im]
     @ map (\<lambda>f m. map_option Done (f m)) (console_steps d)"

fun boot_run :: "(machine \<Rightarrow> outcome option) list \<Rightarrow> machine \<Rightarrow> outcome option" where
  "boot_run [] m = Some (Done m)"
| "boot_run (f # fs) m =
     do {
       r \<leftarrow> f m;
       (case r of Done n \<Rightarrow> boot_run fs n | Away n \<Rightarrow> Some (Away n) | Stopped n \<Rightarrow> Some (Stopped n))
     }"

definition kernel_boot ::
  "devices \<Rightarrow> image \<Rightarrow> (uint32_t \<Rightarrow> uint32_t) \<Rightarrow> multiboot_info \<Rightarrow> machine \<Rightarrow> outcome option" where
  "kernel_boot d im mem mb m = boot_run (boot_sequence d im mem mb) m"

text \<open>The states behind each statement.\<close>

fun boot_trace :: "(machine \<Rightarrow> outcome option) list \<Rightarrow> machine \<Rightarrow> machine list" where
  "boot_trace [] m = []"
| "boot_trace (f # fs) m =
     (case f m of
        None \<Rightarrow> []
      | Some (Done n) \<Rightarrow> n # boot_trace fs n
      | Some (Away n) \<Rightarrow> [n]
      | Some (Stopped n) \<Rightarrow> [n])"

text \<open>
  The whole of \<^verbatim>\<open>kernel_main\<close>, observed over the interrupts \<open>irqs\<close>; \<^verbatim>\<open>shell_run\<close> does not return, so
  the panic behind it is never reached.
\<close>

definition kernel_main ::
  "devices \<Rightarrow> image \<Rightarrow> (uint32_t \<Rightarrow> uint32_t) \<Rightarrow> multiboot_info \<Rightarrow> registers list \<Rightarrow> string \<Rightarrow> machine
     \<Rightarrow> (shell option \<times> outcome) option" where
  "kernel_main d im mem mb irqs junk m =
     Option.bind (kernel_boot d im mem mb m) (\<lambda>r.
       case r of
         Done m \<Rightarrow> map_option (\<lambda>(sh, r). (Some sh, r)) (shell_run d im irqs junk m)
       | Away m \<Rightarrow> Some (None, Away m)
       | Stopped m \<Rightarrow> Some (None, Stopped m))"


section \<open>The boot sequence in parts\<close>

fun steps_run :: "(machine \<Rightarrow> machine option) list \<Rightarrow> machine \<Rightarrow> machine option" where
  "steps_run [] m = Some m"
| "steps_run (f # fs) m = Option.bind (f m) (steps_run fs)"

definition init_hardware ::
  "devices \<Rightarrow> image \<Rightarrow> (uint32_t \<Rightarrow> uint32_t) \<Rightarrow> multiboot_info \<Rightarrow> machine \<Rightarrow> machine option" where
  "init_hardware d im mem mb = steps_run (hardware_steps d im mem mb)"

definition open_console :: "devices \<Rightarrow> machine \<Rightarrow> machine option" where
  "open_console d = steps_run (console_steps d)"

lemma boot_run_steps:
  "boot_run (map (\<lambda>f m. map_option Done (f m)) fs @ gs) m = Option.bind (steps_run fs m) (boot_run gs)"
  by (induction fs arbitrary: m) (auto split: Option.bind_split)

lemma kernel_boot_eq:
  "kernel_boot d im mem mb m =
     do {
       m \<leftarrow> init_hardware d im mem mb m;
       r \<leftarrow> start_scheduler d im m;
       (case r of
          Done m \<Rightarrow> map_option Done (open_console d m)
        | Away m \<Rightarrow> Some (Away m)
        | Stopped m \<Rightarrow> Some (Stopped m))
     }"
proof -
  have "boot_run (map (\<lambda>f m. map_option Done (f m)) (console_steps d)) n = map_option Done (open_console d n)" for n
    using boot_run_steps [of "console_steps d" "[]" n]
    by (cases "steps_run (console_steps d) n") (simp_all add: open_console_def)
  then have "boot_run (map (\<lambda>f m. map_option Done (f m)) (console_steps d)) = (\<lambda>n. map_option Done (open_console d n))"
    by (rule ext)
  then show ?thesis
    unfolding kernel_boot_def boot_sequence_def boot_run_steps init_hardware_def append_Cons append_Nil
      boot_run.simps by simp
qed

text \<open>Statements that leave the interrupt flag alone.\<close>

definition flag_kept :: "(machine \<Rightarrow> machine option) \<Rightarrow> bool" where
  "flag_kept f \<longleftrightarrow> (\<forall>m n. f m = Some n \<longrightarrow> mif n = mif m)"

lemma trace_flag_kept:
  assumes "steps_run fs m = Some n" "\<forall>f \<in> set fs. flag_kept f"
  shows "\<exists>tr. boot_trace (map (\<lambda>f m. map_option Done (f m)) fs @ gs) m = tr @ boot_trace gs n
    \<and> map mif tr = replicate (length fs) (mif m) \<and> mif n = mif m"
  using assms
proof (induction fs arbitrary: m)
  case (Cons f fs)
  obtain u where u: "f m = Some u" "steps_run fs u = Some n"
    using Cons.prems(1) by (auto simp: bind_eq_Some_conv)
  have f: "mif u = mif m" using u(1) Cons.prems(2) by (auto simp: flag_kept_def)
  obtain tr where "boot_trace (map (\<lambda>f m. map_option Done (f m)) fs @ gs) u = tr @ boot_trace gs n"
    "map mif tr = replicate (length fs) (mif u)" "mif n = mif u"
    using Cons.IH [OF u(2)] Cons.prems(2) by auto
  with u(1) f show ?case by (intro exI [of _ "u # tr"]) simp
qed simp

lemma hardware_flag_kept: "\<forall>f \<in> set (hardware_steps d im mem mb). flag_kept f"
  by (auto simp: hardware_steps_def flag_kept_def serial_msg_def start_timer_def start_memory_def
      start_keyboard_def on_vga_def)

section \<open>The picture of the boot screen\<close>

lemma type_print_eq: "c_string s \<Longrightarrow> type_print s k v = vga_print_color s k v"
proof (induction s arbitrary: v)
  case Nil
  have "v\<lparr>vga_color := vga_color v\<rparr> = v" by simp
  then show ?case by (simp add: vga_print_color_def Let_def vga_print.simps)
next
  case (Cons c s)
  then have "c \<noteq> NUL" "c_string s" "c_string [c]" by (auto simp: c_string_def)
  with Cons.IH [of "vga_print_color [c] k v"] vga_print_color_append [of "[c]" s k v] show ?case by simp
qed

text \<open>The cursor is at row \<open>r\<close> and column \<open>c\<close>, and the video memory is \<open>f\<close>.\<close>

definition shows_at :: "vga \<Rightarrow> nat \<Rightarrow> nat \<Rightarrow> (uint32_t \<Rightarrow> uint16_t) \<Rightarrow> bool" where
  "shows_at v r c f \<longleftrightarrow> unat (vga_row v) = r \<and> unat (vga_col v) = c \<and> vram v = f"

lemma shows_at_print:
  assumes "shows_at v r c f" "list_all printable s" "1 \<le> r" "r < 25" "c + length s < 80"
  shows "shows_at (vga_print_color s k v) r (c + length s) (text_at (r * 80 + c) s k f)"
proof -
  let ?v = "v\<lparr>vga_color := k\<rparr>"
  have "1 \<le> vga_row ?v" "vga_row ?v < 25" "unat (vga_col ?v) + length s < 80"
    using assms by (simp_all add: shows_at_def word_le_nat_alt word_less_nat_alt)
  moreover have "\<forall>c \<in> set s. printable c" using assms(2) by (simp add: list_all_iff)
  ultimately show ?thesis
    using vga_print_line [of s ?v] assms(1) by (simp add: shows_at_def vga_print_color_def Let_def)
qed

lemma shows_at_type:
  assumes "shows_at v r c f" "list_all printable s" "1 \<le> r" "r < 25" "c + length s < 80"
  shows "shows_at (type_print s k v) r (c + length s) (text_at (r * 80 + c) s k f)"
proof -
  have "c_string s" using assms(2) by (auto simp: c_string_def list_all_iff printable_def)
  from type_print_eq [OF this] shows_at_print [OF assms, of k] show ?thesis by simp
qed

lemma shows_at_move:
  "shows_at v r c f \<Longrightarrow> unat row = r' \<Longrightarrow> unat col = c' \<Longrightarrow> shows_at (vga_set_cursor row col v) r' c' f"
  by (simp add: shows_at_def vga_set_cursor_def)

definition place :: "uint32_t \<times> uint32_t \<times> string \<times> uint8_t \<Rightarrow> (uint32_t \<Rightarrow> uint16_t) \<Rightarrow> uint32_t \<Rightarrow> uint16_t" where
  "place = (\<lambda>(row, col, s, k). text_at (unat row * 80 + unat col) s k)"

lemma shows_at_place:
  assumes "shows_at v r c f" "list_all printable s" "1 \<le> unat row" "unat row < 25"
    and "unat col + length s < 80"
  shows "\<exists>r c. shows_at (type_print s k (vga_set_cursor row col v)) r c (place (row, col, s, k) f)"
  using shows_at_type [OF shows_at_move [OF assms(1) refl refl] assms(2-5)] by (auto simp: place_def)

lemma shows_at_places:
  assumes "\<exists>r c. shows_at v r c f"
    and "list_all (\<lambda>(row, s). list_all printable s \<and> 1 \<le> unat row \<and> unat row < 25
           \<and> unat col + length s < 80) ls"
  shows "\<exists>r c. shows_at (fold (\<lambda>(row, s) v. type_print s k (vga_set_cursor row col v)) ls v) r c
           (fold (\<lambda>(row, s). place (row, col, s, k)) ls f)"
  using assms
proof (induction ls arbitrary: v f)
  case (Cons l ls)
  obtain row s where l: "l = (row, s)" by (cases l)
  have "\<exists>r c. shows_at (type_print s k (vga_set_cursor row col v)) r c (place (row, col, s, k) f)"
    using Cons.prems l by (auto intro: shows_at_place)
  from Cons.IH [OF this] Cons.prems(2) l show ?case by simp
qed simp

text \<open>The loading bar: after the word, each step and a dot at the end of the line so far.\<close>

fun bar_at :: "nat \<Rightarrow> string list \<Rightarrow> (uint32_t \<Rightarrow> uint16_t) \<Rightarrow> uint32_t \<Rightarrow> uint16_t" where
  "bar_at c [] f = f"
| "bar_at c (s # ss) f =
     bar_at (c + length s + 1) ss (text_at (13 * 80 + c + length s) ''.'' 0x0E (text_at (13 * 80 + c) s 0x0A f))"

lemma shows_at_bar:
  assumes "shows_at v 13 c f" "list_all (list_all printable) ss"
    and "c + length (concat ss) + length ss < 80"
  shows "\<exists>c'. shows_at (fold (\<lambda>s v. vga_print_color ''.'' 0x0E (type_print s 0x0A v)) ss v) 13 c' (bar_at c ss f)"
  using assms
proof (induction ss arbitrary: v c f)
  case (Cons s ss)
  have "shows_at (type_print s 0x0A v) 13 (c + length s) (text_at (13 * 80 + c) s 0x0A f)"
    using Cons.prems by (intro shows_at_type) simp_all
  then have "shows_at (vga_print_color ''.'' 0x0E (type_print s 0x0A v)) 13 (c + length s + length ''.'')
      (text_at (13 * 80 + (c + length s)) ''.'' 0x0E (text_at (13 * 80 + c) s 0x0A f))"
    using Cons.prems by (intro shows_at_print) (simp_all add: printable_def)
  then have "shows_at (vga_print_color ''.'' 0x0E (type_print s 0x0A v)) 13 (c + length s + 1)
      (text_at (13 * 80 + c + length s) ''.'' 0x0E (text_at (13 * 80 + c) s 0x0A f))"
    by (simp add: add.assoc)
  from Cons.IH [OF this] Cons.prems show ?case by (simp add: add.assoc)
qed auto

definition black_screen :: "vga \<Rightarrow> uint32_t \<Rightarrow> uint16_t" where
  "black_screen v i = (if unat i < 2000 then 0 else vram v i)"

definition boot_picture :: "vga \<Rightarrow> uint32_t \<Rightarrow> uint16_t" where
  "boot_picture v =
     place (14, 20, ''[ DONE ] Vamos OS ready.'', 0x0A)
       (bar_at 27 boot_steps
         (place (13, 20, ''Loading'', 0x0F)
           (place (10, 30, ''Built in C '' @ [CHR 0x26] @ '' Assembly'', 0x08)
             (place (9, 28, ''A Simple x86 Kernel'', 0x07)
               (fold (\<lambda>(row, s). place (row, 15, s, 0x0B)) boot_logo (black_screen v))))))"

lemma boot_screen_picture: "vram (boot_screen v) = boot_picture v"
proof -
  let ?v0 = "fold (\<lambda>i. vga_store (of_nat i) 0x0000) [0..<2000] (vga_set_color 0 0 v)"
  let ?v1 = "fold (\<lambda>(row, s) v. type_print s 0x0B (vga_set_cursor row 15 v)) boot_logo ?v0"
  let ?v2 = "type_print ''A Simple x86 Kernel'' 0x07 (vga_set_cursor 9 28 ?v1)"
  let ?v3 = "type_print (''Built in C '' @ [CHR 0x26] @ '' Assembly'') 0x08 (vga_set_cursor 10 30 ?v2)"
  let ?v4 = "vga_print_color ''Loading'' 0x0F (vga_set_cursor 13 20 ?v3)"
  let ?v5 = "fold (\<lambda>s v. vga_print_color ''.'' 0x0E (type_print s 0x0A v)) boot_steps ?v4"
  have "vram ?v0 = black_screen v"
    using of_nat_image_range [of 2000 _ 0]
    by (simp add: fun_eq_iff vram_fold_store black_screen_def vga_set_color_def del: upt_rec_numeral)
  then have 0: "\<exists>r c. shows_at ?v0 r c (black_screen v)" by (auto simp: shows_at_def)
  have "list_all (\<lambda>(row, s). list_all printable s \<and> 1 \<le> unat row \<and> unat row < 25
      \<and> unat (15 :: uint32_t) + length s < 80) boot_logo"
    by (simp add: boot_logo_def printable_def)
  from shows_at_places [where k = "0x0B", OF 0 this] obtain r c where
    1: "shows_at ?v1 r c (fold (\<lambda>(row, s). place (row, 15, s, 0x0B)) boot_logo (black_screen v))" by blast
  obtain r c where 2: "shows_at ?v2 r c (place (9, 28, ''A Simple x86 Kernel'', 0x07)
      (fold (\<lambda>(row, s). place (row, 15, s, 0x0B)) boot_logo (black_screen v)))"
    using shows_at_place [OF 1, where s = "''A Simple x86 Kernel''" and row = 9 and col = 28 and k = "0x07"] by (auto simp: printable_def)
  obtain r c where 3: "shows_at ?v3 r c (place (10, 30, ''Built in C '' @ [CHR 0x26] @ '' Assembly'', 0x08)
      (place (9, 28, ''A Simple x86 Kernel'', 0x07)
        (fold (\<lambda>(row, s). place (row, 15, s, 0x0B)) boot_logo (black_screen v))))"
    using shows_at_place [OF 2, where s = "''Built in C '' @ [CHR 0x26] @ '' Assembly''" and row = 10 and col = 30
        and k = "0x08"]
    by (auto simp: printable_def)
  let ?f = "place (13, 20, ''Loading'', 0x0F) (place (10, 30, ''Built in C '' @ [CHR 0x26] @ '' Assembly'', 0x08)
      (place (9, 28, ''A Simple x86 Kernel'', 0x07)
        (fold (\<lambda>(row, s). place (row, 15, s, 0x0B)) boot_logo (black_screen v))))"
  have "shows_at ?v4 13 (20 + length ''Loading'') ?f"
    using shows_at_print [OF shows_at_move [OF 3, where row = 13 and r' = 13 and col = 20 and c' = 20],
        where s = "''Loading''" and k = "0x0F"]
    by (simp add: place_def printable_def)
  then have "shows_at ?v4 13 27 ?f" by simp
  then obtain c where 5: "shows_at ?v5 13 c (bar_at 27 boot_steps ?f)"
    using shows_at_bar [of ?v4 27 ?f boot_steps] by (auto simp: boot_steps_def printable_def)
  obtain r c where "shows_at (type_print ''[ DONE ] Vamos OS ready.'' 0x0A (vga_set_cursor 14 20 ?v5)) r c
      (boot_picture v)"
    using shows_at_place [OF 5, where s = "''[ DONE ] Vamos OS ready.''" and row = 14 and col = 20 and k = "0x0A"]
    by (auto simp: printable_def boot_picture_def)
  then show ?thesis by (simp add: boot_screen_def Let_def shows_at_def del: upt_rec_numeral)
qed

section \<open>The way up\<close>

definition power_on :: "machine \<Rightarrow> bool" where
  "power_on m \<longleftrightarrow> length (gdt_entries (mgdt m)) = 3 \<and> midt m = idt_boot \<and> mpic m = []
     \<and> mpit m = \<lparr> tick_count = 0, pit_io = [] \<rparr> \<and> mserial m = \<lparr> serial_ready = 0, serial_io = [] \<rparr>
     \<and> mkbd m = kbd_boot \<and> mkern m = kern_boot pmm_boot \<and> \<not> mif m"

lemma serial_msg_spec:
  assumes "uart_live (uart d)" "c_string s"
  obtains t where "serial_msg d s m = Some (m\<lparr>mserial := t\<rparr>)"
    "serial_ready t = serial_ready (mserial m)"
    "written COM1_BASE (serial_io t) = written COM1_BASE (serial_io (mserial m)) @ map of_char s"
  using serial_print_returns [OF assms, of "mserial m"] by (auto simp: serial_msg_def)

lemma pit_100: "pit_init 100 p = Some (p\<lparr>pit_io := pit_program 11931 (pit_io p)\<rparr>)"
proof -
  have "pit_divisor 100 = Some 11931" using pit_divisor_exact [of 100] by simp
  then show ?thesis by (simp add: pit_init_def)
qed

text \<open>
  The pages that the boot finds for allocation: those of the available regions above the kernel,
  in complete words of the bitmap, all as the code computes them in 32 bits.
\<close>

definition boot_pages :: "image \<Rightarrow> multiboot_info \<Rightarrow> multiboot_mmap_entry list \<Rightarrow> nat set" where
  "boot_pages im mb es = {n \<in> \<Union> (entry_pages ` set es).
     kernel_page_count (kernel_end_addr im) \<le> n \<and> n < 32 * (unat (pmm_total_of mb) div 32)}"

lemma pmm_boot_ready:
  assumes es: "boot_regions mem mb = Some es" and k: "0 < kernel_page_count kernel_end"
  shows "\<exists>p. pmm_init mem kernel_end mb pmm_boot = Some p \<and> pmm_ready p
     \<and> (fst (pmm_alloc_page p) = 0 \<longleftrightarrow> {n \<in> \<Union> (entry_pages ` set es).
          kernel_page_count kernel_end \<le> n \<and> n < 32 * (unat (pmm_total_of mb) div 32)} = {})"
proof -
  have len: "length (pmm_bitmap pmm_boot) = BITMAP_SIZE" by (simp add: pmm_boot_def)
  from pmm_init_spec [OF len es] obtain p where p: "pmm_init mem kernel_end mb pmm_boot = Some p"
    "pmm_inv p" "pmm_total_pages p = pmm_total_of mb"
    "free_set p = {n \<in> \<Union> (entry_pages ` set es).
        kernel_page_count kernel_end \<le> n \<and> n < unat (pmm_total_of mb)}" by blast
  have ready: "pmm_ready p" using p(2,4) k by (auto simp: pmm_ready_def)
  have "32 * (unat (pmm_total_of mb) div 32) \<le> unat (pmm_total_of mb)" by simp
  then have u: "usable p = {n \<in> \<Union> (entry_pages ` set es).
      kernel_page_count kernel_end \<le> n \<and> n < 32 * (unat (pmm_total_of mb) div 32)}"
    unfolding usable_def p(3,4) by fastforce
  have "fst (pmm_alloc_page p) = 0 \<longleftrightarrow> usable p = {}"
  proof (rule pmm_alloc_page_cases [OF p(2)])
    fix n assume n: "n \<in> usable p" "took n p (pmm_alloc_page p)"
    then have "n \<noteq> 0" using ready by (auto simp: usable_def pmm_ready_def intro: ccontr)
    with n took_address(4) [OF n(2)] show ?thesis by auto
  qed simp
  with p(1) ready u show ?thesis by auto
qed

text \<open>What has been sent on the serial line when the shell starts.\<close>

definition boot_log :: string where
  "boot_log = concat (map (\<lambda>s. s @ [LF])
     [''Vamos OS booting...'', ''IDT ok'', ''PIC ok'', ''PIT ok'', ''PMM ok'', ''Keyboard ok'',
      ''Scheduler ok'', ''Interrupts enabled''])"

text \<open>The machine when the scheduler is started.\<close>

definition hardware_up :: "image \<Rightarrow> devices \<Rightarrow> pmm \<Rightarrow> machine \<Rightarrow> machine \<Rightarrow> bool" where
  "hardware_up im d p m n \<longleftrightarrow> mgdt n = gdt_init (gdt_addr im) (mgdt m)
     \<and> midt n = irq_register_handler 1 keyboard_handler_fn
          (irq_register_handler 0 timer_handler_fn (idt_init (isr_addr im) (idt_addr im) idt_boot))
     \<and> mpic n = pic_init [] \<and> mpit n = \<lparr> tick_count = 0, pit_io = pit_program 11931 [] \<rparr>
     \<and> mkbd n = keyboard_init kbd_boot \<and> mkern n = kern_boot p \<and> \<not> mif n
     \<and> mvga n = boot_screen (vga_init (crt d) (mvga m)) \<and> serial_ready (mserial n) = 1"

lemma kern_boot_pm: "(kern_boot p)\<lparr>pm := q\<rparr> = kern_boot q"
  by (simp add: kern_boot_def)

lemma serial_init_ready: "serial_ready (serial_init s) = 1"
  by (simp add: serial_init_def)

lemma serial_init_written:
  "written COM1_BASE (serial_io (serial_init s)) = written COM1_BASE (serial_io s) @ [0x0C]"
  by (simp add: serial_init_def COM1_BASE_def)

lemma boot_strings:
  "c_string (''Vamos OS booting...'' @ [LF])" "c_string (''IDT ok'' @ [LF])" "c_string (''PIC ok'' @ [LF])"
  "c_string (''PIT ok'' @ [LF])" "c_string (''PMM ok'' @ [LF])" "c_string (''Keyboard ok'' @ [LF])"
  "c_string (''Scheduler ok'' @ [LF])" "c_string (''Interrupts enabled'' @ [LF])"
  by (simp_all add: c_string_def)

lemma init_hardware_up:
  assumes on: "power_on m" and u: "uart_live (uart d)"
    and p: "pmm_init mem (kernel_end_addr im) mb pmm_boot = Some p"
  shows "\<exists>n. init_hardware d im mem mb m = Some n \<and> hardware_up im d p m n
     \<and> written COM1_BASE (serial_io (mserial n)) = 0x0C # map of_char (concat (map (\<lambda>s. s @ [LF])
         [''Vamos OS booting...'', ''IDT ok'', ''PIC ok'', ''PIT ok'', ''PMM ok'', ''Keyboard ok'']))"
proof -
  let ?m1 = "(on_vga (vga_init (crt d)) (m\<lparr>mgdt := gdt_init (gdt_addr im) (mgdt m)\<rparr>))
     \<lparr>mserial := serial_init (mserial m)\<rparr>"
  obtain t1 where t1: "serial_msg d (''Vamos OS booting...'' @ [LF]) ?m1 = Some (?m1\<lparr>mserial := t1\<rparr>)"
    "serial_ready t1 = serial_ready (mserial ?m1)" "written COM1_BASE (serial_io t1)
       = written COM1_BASE (serial_io (mserial ?m1)) @ map of_char (''Vamos OS booting...'' @ [LF])"
    by (rule serial_msg_spec [OF u boot_strings(1)])
  let ?m2 = "(on_vga boot_screen (?m1\<lparr>mserial := t1\<rparr>))
     \<lparr>midt := idt_init (isr_addr im) (idt_addr im) (midt m)\<rparr>"
  obtain t2 where t2: "serial_msg d (''IDT ok'' @ [LF]) ?m2 = Some (?m2\<lparr>mserial := t2\<rparr>)"
    "serial_ready t2 = serial_ready (mserial ?m2)" "written COM1_BASE (serial_io t2)
       = written COM1_BASE (serial_io (mserial ?m2)) @ map of_char (''IDT ok'' @ [LF])"
    by (rule serial_msg_spec [OF u boot_strings(2)])
  let ?m3 = "?m2\<lparr>mserial := t2, mpic := pic_init (mpic m)\<rparr>"
  obtain t3 where t3: "serial_msg d (''PIC ok'' @ [LF]) ?m3 = Some (?m3\<lparr>mserial := t3\<rparr>)"
    "serial_ready t3 = serial_ready (mserial ?m3)" "written COM1_BASE (serial_io t3)
       = written COM1_BASE (serial_io (mserial ?m3)) @ map of_char (''PIC ok'' @ [LF])"
    by (rule serial_msg_spec [OF u boot_strings(3)])
  let ?m4 = "?m3\<lparr>mserial := t3, mpit := (mpit m)\<lparr>pit_io := pit_program 11931 (pit_io (mpit m))\<rparr>,
     midt := irq_register_handler 0 timer_handler_fn (midt ?m3)\<rparr>"
  obtain t4 where t4: "serial_msg d (''PIT ok'' @ [LF]) ?m4 = Some (?m4\<lparr>mserial := t4\<rparr>)"
    "serial_ready t4 = serial_ready (mserial ?m4)" "written COM1_BASE (serial_io t4)
       = written COM1_BASE (serial_io (mserial ?m4)) @ map of_char (''PIT ok'' @ [LF])"
    by (rule serial_msg_spec [OF u boot_strings(4)])
  let ?m5 = "?m4\<lparr>mserial := t4, mkern := kern_boot p\<rparr>"
  obtain t5 where t5: "serial_msg d (''PMM ok'' @ [LF]) ?m5 = Some (?m5\<lparr>mserial := t5\<rparr>)"
    "serial_ready t5 = serial_ready (mserial ?m5)" "written COM1_BASE (serial_io t5)
       = written COM1_BASE (serial_io (mserial ?m5)) @ map of_char (''PMM ok'' @ [LF])"
    by (rule serial_msg_spec [OF u boot_strings(5)])
  let ?m6 = "start_keyboard (?m5\<lparr>mserial := t5\<rparr>)"
  obtain t6 where t6: "serial_msg d (''Keyboard ok'' @ [LF]) ?m6 = Some (?m6\<lparr>mserial := t6\<rparr>)"
    "serial_ready t6 = serial_ready (mserial ?m6)" "written COM1_BASE (serial_io t6)
       = written COM1_BASE (serial_io (mserial ?m6)) @ map of_char (''Keyboard ok'' @ [LF])"
    by (rule serial_msg_spec [OF u boot_strings(6)])
  have tm: "start_timer 100 (?m3\<lparr>mserial := t3\<rparr>) = Some ?m4" by (simp add: start_timer_def pit_100 on_vga_def)
  have "pm (mkern ?m4) = pmm_boot" "(mkern ?m4)\<lparr>pm := p\<rparr> = kern_boot p"
    using on by (simp_all add: power_on_def on_vga_def kern_boot_def)
  then have mem: "start_memory mem mb im (?m4\<lparr>mserial := t4\<rparr>) = Some ?m5"
    using p by (simp add: start_memory_def)
  have "init_hardware d im mem mb m = Some (?m6\<lparr>mserial := t6\<rparr>)"
    using t1(1) t2(1) t3(1) t4(1) t5(1) t6(1) tm mem
    by (simp add: init_hardware_def hardware_steps_def on_vga_def)
  moreover have "hardware_up im d p m (?m6\<lparr>mserial := t6\<rparr>)"
    using on t1(2) t2(2) t3(2) t4(2) t5(2) t6(2)
    by (simp add: hardware_up_def power_on_def start_keyboard_def on_vga_def serial_init_ready)
  moreover have "serial_io (mserial m) = []" using on by (simp add: power_on_def)
  ultimately show ?thesis
    using t1(3) t2(3) t3(3) t4(3) t5(3) t6(3)
    by (intro exI [of _ "?m6\<lparr>mserial := t6\<rparr>"])
      (simp add: start_keyboard_def on_vga_def serial_init_written)
qed

lemma open_console_up:
  assumes u: "uart_live (uart d)"
  shows "\<exists>n. open_console d m = Some n \<and> mif n \<and> mgdt n = mgdt m \<and> midt n = midt m
     \<and> mpic n = mpic m \<and> mpit n = mpit m \<and> mkbd n = mkbd m \<and> mkern n = mkern m
     \<and> cursor_ok (mvga n) \<and> vga_color (mvga n) = 0x07
     \<and> (\<forall>i. shell_cell i \<longrightarrow> vram (mvga n) i = vga_entry SPACE 0x07)
     \<and> written COM1_BASE (serial_io (mserial n)) = written COM1_BASE (serial_io (mserial m))
         @ map of_char (concat (map (\<lambda>s. s @ [LF]) [''Scheduler ok'', ''Interrupts enabled'']))"
proof -
  obtain t1 where t1: "serial_msg d (''Scheduler ok'' @ [LF]) m = Some (m\<lparr>mserial := t1\<rparr>)"
    "written COM1_BASE (serial_io t1)
       = written COM1_BASE (serial_io (mserial m)) @ map of_char (''Scheduler ok'' @ [LF])"
    by (rule serial_msg_spec [OF u boot_strings(7)])
  let ?m1 = "m\<lparr>mserial := t1, mif := True\<rparr>"
  obtain t2 where t2: "serial_msg d (''Interrupts enabled'' @ [LF]) ?m1 = Some (?m1\<lparr>mserial := t2\<rparr>)"
    "written COM1_BASE (serial_io t2)
       = written COM1_BASE (serial_io (mserial ?m1)) @ map of_char (''Interrupts enabled'' @ [LF])"
    by (rule serial_msg_spec [OF u boot_strings(8)])
  let ?v = "vga_clear (vga_set_color 7 0 (mvga m))"
  let ?n = "refresh_statusbar (on_vga vga_clear (on_vga (vga_set_color 7 0) (?m1\<lparr>mserial := t2\<rparr>)))"
  have c: "vga_color (vga_set_color 7 0 (mvga m)) = 0x07" by (simp add: vga_set_color_def)
  have o: "open_console d m = Some ?n" using t1(1) t2(1) by (simp add: open_console_def console_steps_def)
  have v: "mvga ?n = vga_draw_statusbar (get_tick_count (mpit m)) ?v"
    by (simp add: refresh_statusbar_def on_vga_def)
  have cur: "cursor_ok (mvga ?n) \<and> vga_color (mvga ?n) = 0x07"
    unfolding v by (simp add: vga_clear_cursor c)
  have cells: "vram (mvga ?n) i = vga_entry SPACE 0x07" if "shell_cell i" for i
    using that unfolding v by (simp add: vga_draw_statusbar_frame vram_vga_clear c shell_cell_def)
  show ?thesis
    using o cur cells t1(2) t2(2)
    by (intro exI [of _ ?n]) (simp add: refresh_statusbar_def on_vga_def)
qed

lemma start_scheduler_up:
  assumes "mkern m = kern_boot p" "pmm_ready p"
  shows "if fst (pmm_alloc_page p) = 0
    then start_scheduler d im m = kernel_panic d ''scheduler_init: failed to create idle process'' m
    else (\<exists>k. start_scheduler d im m = Some (Done (m\<lparr>mkern := k\<rparr>)) \<and> kern_inv k [Pcb 0]
            \<and> current_pcb k = Some (Pcb 0) \<and> idle_pcb k = Some (Pcb 0)
            \<and> state (pcbs k (Pcb 0)) = PROCESS_RUNNING \<and> pid (pcbs k (Pcb 0)) = 1 \<and> next_pid k = 1)"
proof -
  have b: "pm (kern_boot p) = p" "run_queue (kern_boot p) = None" "\<not> tcb_pool_initialized (kern_boot p)"
    "next_pid (kern_boot p) = 0" by (simp_all add: kern_boot_def)
  have r: "pmm_ready (pm (kern_boot p))" using b(1) assms(2) by simp
  show ?thesis
  proof (cases "fst (pmm_alloc_page p) = 0")
    case True
    with scheduler_init_spec [OF r b(2,3), of "idle_task_addr im"] b(1) show ?thesis
      by (simp add: start_scheduler_def assms(1))
  next
    case False
    with scheduler_init_spec [OF r b(2,3), of "idle_task_addr im"] b(1,4) obtain k where
      "scheduler_init (idle_task_addr im) (kern_boot p) = Some (Inr k)" "kern_inv k [Pcb 0]"
      "current_pcb k = Some (Pcb 0)" "idle_pcb k = Some (Pcb 0)"
      "state (pcbs k (Pcb 0)) = PROCESS_RUNNING" "pid (pcbs k (Pcb 0)) = 1" "next_pid k = 1" by auto
    with False show ?thesis
      by (auto simp: start_scheduler_def assms(1) intro!: exI [of _ k])
  qed
qed

lemma kernel_panic_stops: "kernel_panic d message m = Some r \<Longrightarrow> \<exists>t. r = Stopped t"
  by (auto simp: kernel_panic_def Let_def split: if_splits)

text \<open>The system as the shell finds it.\<close>

definition booted :: "image \<Rightarrow> machine \<Rightarrow> bool" where
  "booted im m \<longleftrightarrow>
     flat_ring0 (selected (mgdt m) (seg_cs (segs (mgdt m))))
     \<and> (\<forall>i < 48. gate_base (idt (midt m) ! i) = isr_addr im i \<and> gate_present (idt (midt m) ! i))
     \<and> irq_handlers (midt m) = [Some timer_handler_fn, Some keyboard_handler_fn] @ replicate 14 None
     \<and> (\<forall>irq. pic_vector (mpic m) irq = 32 + irq)
     \<and> written PIT_CHANNEL0 (pit_io (mpit m)) = [lo_byte 11931, hi_byte 11931]
     \<and> tick_count (mpit m) = 0 \<and> mkbd m = keyboard_init kbd_boot
     \<and> shell_inv m [Pcb 0] \<and> current_pcb (mkern m) = Some (Pcb 0) \<and> idle_pcb (mkern m) = Some (Pcb 0)
     \<and> state (pcbs (mkern m) (Pcb 0)) = PROCESS_RUNNING \<and> next_pid (mkern m) = 1
     \<and> (\<forall>i. shell_cell i \<longrightarrow> vram (mvga m) i = vga_entry SPACE 0x07) \<and> vga_color (mvga m) = 0x07
     \<and> written COM1_BASE (serial_io (mserial m)) = 0x0C # map of_char boot_log \<and> mif m"

lemma handlers_registered:
  "irq_handlers (irq_register_handler 1 keyboard_handler_fn
     (irq_register_handler 0 timer_handler_fn (idt_init isr a idt_boot)))
   = [Some timer_handler_fn, Some keyboard_handler_fn] @ replicate 14 None"
  by (simp add: irq_register_handler_def idt_init_spec(4) IRQ_COUNT_def eval_nat_numeral)

lemma open_console_booted:
  assumes on: "power_on m" and u: "uart_live (uart d)" and up: "hardware_up im d p m n"
    and log: "written COM1_BASE (serial_io (mserial n)) = 0x0C # map of_char (concat (map (\<lambda>s. s @ [LF])
         [''Vamos OS booting...'', ''IDT ok'', ''PIC ok'', ''PIT ok'', ''PMM ok'', ''Keyboard ok'']))"
    and k: "kern_inv k [Pcb 0]" "current_pcb k = Some (Pcb 0)" "idle_pcb k = Some (Pcb 0)"
      "state (pcbs k (Pcb 0)) = PROCESS_RUNNING" "pid (pcbs k (Pcb 0)) = 1" "next_pid k = 1"
  shows "\<exists>t. open_console d (n\<lparr>mkern := k\<rparr>) = Some t \<and> booted im t"
proof -
  let ?n = "n\<lparr>mkern := k\<rparr>"
  obtain t where t: "open_console d ?n = Some t" "mif t" "mgdt t = mgdt n" "midt t = midt n"
    "mpic t = mpic n" "mpit t = mpit n" "mkbd t = mkbd n" "mkern t = k" "cursor_ok (mvga t)"
    "vga_color (mvga t) = 0x07" "\<forall>i. shell_cell i \<longrightarrow> vram (mvga t) i = vga_entry SPACE 0x07"
    "written COM1_BASE (serial_io (mserial t)) = written COM1_BASE (serial_io (mserial n))
       @ map of_char (concat (map (\<lambda>s. s @ [LF]) [''Scheduler ok'', ''Interrupts enabled'']))"
    using open_console_up [OF u, of ?n] by auto
  have e: "gdt_entries (mgdt n) = [zero_descriptor, flat_descriptor 0x9A, flat_descriptor 0x92]"
    "segs (mgdt n) = gdt_flush \<lparr> gdt_ptr_limit = 23, gdt_ptr_base = gdt_addr im \<rparr> (segs (mgdt m))"
    using up on gdt_init_entries [of "mgdt m" "gdt_addr im"] gdt_init_segs [of "mgdt m" "gdt_addr im"]
    by (simp_all add: hardware_up_def power_on_def)
  then have gdt: "flat_ring0 (selected (mgdt n) (seg_cs (segs (mgdt n))))"
    using flat_descriptors by (simp add: selected_def gdt_flush_def)
  have shell: "shell_inv t [Pcb 0]"
    using t(8,9) k(1,5) by (simp add: shell_inv_def pids_ok_def)
  have gates: "\<forall>i < 48. gate_base (idt (midt t) ! i) = isr_addr im i \<and> gate_present (idt (midt t) ! i)"
    using up t(4) by (simp add: hardware_up_def idt_init_spec(1))
  have ports: "\<forall>irq. pic_vector (mpic t) irq = 32 + irq"
    "written PIT_CHANNEL0 (pit_io (mpit t)) = [lo_byte 11931, hi_byte 11931]" "tick_count (mpit t) = 0"
    using up t(5,6) by (simp_all add: hardware_up_def pic_vector_def pic_init_written pit_program_written)
  have "booted im t"
    unfolding booted_def
    using t gdt gates ports shell up log k(2-4,6) handlers_registered
    by (simp add: hardware_up_def boot_log_def)
  with t(1) show ?thesis by blast
qed

lemma kernel_boot_spec:
  assumes on: "power_on m" and u: "uart_live (uart d)"
    and mem: "boot_regions mem mb = Some es" "0 < kernel_page_count (kernel_end_addr im)"
  obtains p n where "pmm_init mem (kernel_end_addr im) mb pmm_boot = Some p" "pmm_ready p"
    "hardware_up im d p m n"
    "boot_pages im mb es = {} \<Longrightarrow> kernel_boot d im mem mb m
        = kernel_panic d ''scheduler_init: failed to create idle process'' n"
    "boot_pages im mb es \<noteq> {} \<Longrightarrow> \<exists>t. kernel_boot d im mem mb m = Some (Done t) \<and> booted im t"
proof -
  obtain p where p: "pmm_init mem (kernel_end_addr im) mb pmm_boot = Some p" "pmm_ready p"
    and full: "fst (pmm_alloc_page p) = 0 \<longleftrightarrow> boot_pages im mb es = {}"
    using pmm_boot_ready [OF mem] by (auto simp: boot_pages_def)
  obtain n where n: "init_hardware d im mem mb m = Some n" "hardware_up im d p m n"
    "written COM1_BASE (serial_io (mserial n)) = 0x0C # map of_char (concat (map (\<lambda>s. s @ [LF])
         [''Vamos OS booting...'', ''IDT ok'', ''PIC ok'', ''PIT ok'', ''PMM ok'', ''Keyboard ok'']))"
    using init_hardware_up [OF on u p(1)] by blast
  have k: "mkern n = kern_boot p" using n(2) by (simp add: hardware_up_def)
  note s = start_scheduler_up [OF k p(2), of d im]
  have down: "kernel_boot d im mem mb m
        = kernel_panic d ''scheduler_init: failed to create idle process'' n"
    if "boot_pages im mb es = {}"
  proof -
    have "start_scheduler d im n = kernel_panic d ''scheduler_init: failed to create idle process'' n"
      using s that full by simp
    then show ?thesis
      by (cases "kernel_panic d ''scheduler_init: failed to create idle process'' n")
        (auto simp: kernel_boot_eq n(1) dest: kernel_panic_stops)
  qed
  have up: "\<exists>t. kernel_boot d im mem mb m = Some (Done t) \<and> booted im t"
    if pages: "boot_pages im mb es \<noteq> {}"
  proof -
    have ok: "fst (pmm_alloc_page p) \<noteq> 0" using pages full by simp
    obtain k where k: "start_scheduler d im n = Some (Done (n\<lparr>mkern := k\<rparr>))" "kern_inv k [Pcb 0]"
      "current_pcb k = Some (Pcb 0)" "idle_pcb k = Some (Pcb 0)"
      "state (pcbs k (Pcb 0)) = PROCESS_RUNNING" "pid (pcbs k (Pcb 0)) = 1" "next_pid k = 1"
      using s unfolding if_not_P [OF ok] by blast
    obtain t where t: "open_console d (n\<lparr>mkern := k\<rparr>) = Some t" "booted im t"
      using open_console_booted [OF on u n(2,3) k(2-7)] by blast
    have "kernel_boot d im mem mb m = Some (Done t)"
      by (simp add: kernel_boot_eq n(1) k(1) t(1))
    with t(2) show ?thesis by blast
  qed
  show ?thesis by (rule that [OF p n(2) down up])
qed

text \<open>When interrupts come on, and what there is by then.\<close>

lemma boot_flags:
  assumes on: "power_on m" and u: "uart_live (uart d)" and up: "kernel_boot d im mem mb m = Some (Done t)"
  shows "map mif (boot_trace (boot_sequence d im mem mb) m) = replicate 17 False @ replicate 5 True"
    "(let n = boot_trace (boot_sequence d im mem mb) m ! 16 in mgdt n = mgdt t \<and> midt n = midt t
       \<and> mpic n = mpic t \<and> mpit n = mpit t \<and> mkbd n = mkbd t \<and> mkern n = mkern t)"
proof -
  let ?lift = "\<lambda>f m. map_option Done (f m) :: outcome option"
  obtain n r where n: "init_hardware d im mem mb m = Some n" "start_scheduler d im n = Some r"
    "(case r of Done m \<Rightarrow> map_option Done (open_console d m)
       | Away m \<Rightarrow> Some (Away m) | Stopped m \<Rightarrow> Some (Stopped m)) = Some (Done t)"
    using up by (auto simp: kernel_boot_eq bind_eq_Some_conv)
  then obtain v where v: "r = Done v" "open_console d v = Some t" by (cases r) auto
  have k: "mif v = mif n"
    using n(2) v(1) kernel_panic_stops
    by (fastforce simp: start_scheduler_def split: option.splits sum.splits)
  obtain t1 where t1: "serial_msg d (''Scheduler ok'' @ [LF]) v = Some (v\<lparr>mserial := t1\<rparr>)"
    by (rule serial_msg_spec [OF u boot_strings(7)])
  obtain t2 where t2: "serial_msg d (''Interrupts enabled'' @ [LF]) (v\<lparr>mserial := t1, mif := True\<rparr>)
      = Some (v\<lparr>mserial := t1, mif := True, mserial := t2\<rparr>)"
    by (rule serial_msg_spec [OF u boot_strings(8)])
  obtain v3 v4 v5 where console: "boot_trace (map ?lift (console_steps d)) v
      = [v\<lparr>mserial := t1\<rparr>, v\<lparr>mserial := t1, mif := True\<rparr>, v\<lparr>mserial := t1, mif := True, mserial := t2\<rparr>, v3, v4, v5]"
    "mif v3" "mif v4" "mif v5"
    using t1 t2 by (simp add: console_steps_def on_vga_def refresh_statusbar_def)
  have "length (hardware_steps d im mem mb) = 15" by (simp add: hardware_steps_def)
  with trace_flag_kept [OF n(1) [unfolded init_hardware_def] hardware_flag_kept,
      of "[start_scheduler d im] @ map ?lift (console_steps d)"]
  obtain tr where tr: "boot_trace (boot_sequence d im mem mb) m
      = tr @ boot_trace ([start_scheduler d im] @ map ?lift (console_steps d)) n"
    "map mif tr = replicate 15 (mif m)" "mif n = mif m"
    unfolding boot_sequence_def by auto
  have all: "boot_trace (boot_sequence d im mem mb) m = tr @ v # boot_trace (map ?lift (console_steps d)) v"
    using tr(1) n(2) v(1) by simp
  have off: "\<not> mif m" using on by (simp add: power_on_def)
  show "map mif (boot_trace (boot_sequence d im mem mb) m) = replicate 17 False @ replicate 5 True"
    unfolding all console(1) using tr(2,3) off k console(2-4) by (simp add: numeral_eq_Suc)
  have "length tr = 15" using arg_cong [OF tr(2), of length] by simp
  then have "boot_trace (boot_sequence d im mem mb) m ! 16 = v\<lparr>mserial := t1\<rparr>"
    unfolding all console(1) by (simp add: nth_append)
  with open_console_up [OF u, of v] v(2)
  show "let n = boot_trace (boot_sequence d im mem mb) m ! 16 in mgdt n = mgdt t \<and> midt n = midt t
       \<and> mpic n = mpic t \<and> mpit n = mpit t \<and> mkbd n = mkbd t \<and> mkern n = mkern t"
    by (auto simp: Let_def)
qed

section \<open>From power-on to the shell\<close>

lemma only_screen_trans:
  assumes "only_screen a b" "only_screen b c"
  shows "only_screen a c"
proof -
  obtain v where v: "b = a\<lparr>mvga := v\<rparr>" "console_kept (mvga a) v"
    using assms(1) unfolding only_screen_def by blast
  obtain w where w: "c = b\<lparr>mvga := w\<rparr>" "console_kept (mvga b) w"
    using assms(2) unfolding only_screen_def by blast
  have "c = a\<lparr>mvga := w\<rparr>" using v(1) w(1) by simp
  moreover have "console_kept (mvga a) w" using console_kept_trans [OF v(2), of w] v(1) w(2) by simp
  ultimately show ?thesis unfolding only_screen_def by blast
qed

text \<open>What \<^verbatim>\<open>shell_run\<close> prints before its loop leaves everything but the screen alone.\<close>

lemma shell_opening_screen:
  assumes "cursor_ok (mvga m)"
  shows "only_screen m (shell_opening m)"
proof -
  let ?hint = "''Type '' @ [CHR 0x27] @ ''help'' @ [CHR 0x27] @ '' to see all commands.'' @ [LF, LF]"
  let ?m1 = "cmd_banner m" and ?m2 = "on_vga (vga_print ?hint) (cmd_banner m)"
  have c: "only_screen x y \<Longrightarrow> cursor_ok (mvga y)" for x y
    by (auto simp: only_screen_def console_kept_def)
  have 1: "only_screen m ?m1" by (rule printing_commands [OF assms])
  have 2: "only_screen ?m1 ?m2" by (intro only_screen_on_vga print_kept console_kept_refl c [OF 1])
  have 3: "only_screen ?m2 (prompt ?m2)" by (rule only_screen_prompt [OF c [OF 2]])
  show ?thesis
    unfolding shell_opening_def Let_def by (rule only_screen_trans [OF only_screen_trans [OF 1 2] 3])
qed

lemma decode_scancodes_length: "length (decode_scancodes s scs) \<le> length scs"
proof (induction scs arbitrary: s)
  case (Cons sc scs)
  show ?case
    using Cons.IH [of "scancode_shift s sc"] by (auto split: option.splits simp: le_SucI)
qed simp

text \<open>The interrupts while somebody types \<open>scs\<close>: the keyboard controller answers each of its interrupts
  with the next scancode, and any other hardware interrupts come in between.\<close>

definition typist :: "devices \<Rightarrow> registers list \<Rightarrow> uint8_t list \<Rightarrow> bool" where
  "typist d irqs scs \<longleftrightarrow> length (filter is_key irqs) = length scs \<and> (\<forall>r \<in> set irqs. 32 \<le> int_no r)
     \<and> kbd_script (ps2 d) [] scs"

lemma booted_core:
  assumes "booted im m"
  shows "shell_core m [Pcb 0]"
proof -
  have "settled (mkern m) [Pcb 0]" using assms by (simp add: booted_def settled_def ready_def)
  then show ?thesis using assms by (simp add: booted_def shell_inv_def shell_core_def kern_inv_def)
qed

lemma booted_typing:
  assumes "booted im m" "typist d irqs scs"
  shows "typing d irqs scs m" "pending m scs = decode_scancodes 0 scs"
proof -
  have k: "mkbd m = keyboard_init kbd_boot" using assms(1) by (simp add: booted_def)
  have "kb_io (keyboard_init kbd_boot) = []" "shift_held (keyboard_init kbd_boot) = 0"
    by (simp_all add: keyboard_init_def kbd_boot_def)
  moreover have "irq_handlers (midt m) = boot_handlers" "schedule (mkern m) = Some (Returns (mkern m))"
    using assms(1) shell_core_calm [OF booted_core] by (auto simp: booted_def boot_handlers_def)
  ultimately show "typing d irqs scs m" "pending m scs = decode_scancodes 0 scs"
    using assms(2) kb_boot_invar keyboard_init_empty
    by (simp_all add: typing_def typist_def pending_def k del: length_kb_contents)
qed

lemma fresh_shell_ok:
  assumes "length junk = MAX_LINE"
  shows "shell_ok \<lparr> line_buf = junk, line_pos = 0, keystroke_count = n, idle_count = k \<rparr>"
    "typed \<lparr> line_buf = junk, line_pos = 0, keystroke_count = n, idle_count = k \<rparr> = []"
  using assms by (simp_all add: shell_ok_def typed_def MAX_LINE_def c_string_def)


lemma boot_done:
  assumes on: "power_on m" and u: "uart_live (uart d)"
    and mem: "boot_regions mem mb = Some es" "0 < kernel_page_count (kernel_end_addr im)"
    and up: "kernel_boot d im mem mb m = Some (Done t)"
  shows "booted im t"
proof -
  obtain q w where "boot_pages im mb es = {} \<Longrightarrow> kernel_boot d im mem mb m
        = kernel_panic d ''scheduler_init: failed to create idle process'' w"
    "boot_pages im mb es \<noteq> {} \<Longrightarrow> \<exists>t. kernel_boot d im mem mb m = Some (Done t) \<and> booted im t"
    by (rule kernel_boot_spec [OF on u mem]) blast
  then show ?thesis using up kernel_panic_stops by (cases "boot_pages im mb es = {}") fastforce+
qed

text \<open>The machine as the loop of the shell finds it, with somebody at the keyboard.\<close>

lemma shell_opened:
  assumes b: "booted im t" and ty: "typist d irqs scs" "length scs < 2 ^ 32 - 2"
  shows "typing d irqs scs (shell_opening t)" "pending (shell_opening t) scs = decode_scancodes 0 scs"
    "shell_core (shell_opening t) [Pcb 0]" "mif (shell_opening t)"
    "unat (next_pid (mkern (shell_opening t))) + length (pending (shell_opening t) scs) < 2 ^ 32 - 1"
proof -
  let ?n = "shell_opening t"
  have "cursor_ok (mvga t)" using b by (simp add: booted_def shell_inv_def)
  then have os: "only_screen t ?n" by (rule shell_opening_screen)
  note q = only_screen_quiet [OF os]
  have same: "mkbd ?n = mkbd t" "midt ?n = midt t" "mkern ?n = mkern t" using q by (simp_all add: quiet_def)
  show t: "typing d irqs scs ?n" "pending ?n scs = decode_scancodes 0 scs"
    using booted_typing [OF b ty(1)] typing_cong [OF same] by simp_all
  show "shell_core ?n [Pcb 0]" by (rule only_screen_core [OF booted_core [OF b] os])
  show "mif ?n" using os b by (auto simp: only_screen_def booted_def)
  have "next_pid (mkern ?n) = 1" using b same by (simp add: booted_def)
  then show "unat (next_pid (mkern ?n)) + length (pending ?n scs) < 2 ^ 32 - 1"
    using ty(2) decode_scancodes_length [of 0 scs] by (simp add: t(2))
qed

lemma kernel_main_session:
  assumes b: "kernel_boot d im mem mb m = Some (Done t)" "booted im t"
    and ty: "typist d irqs scs" and len: "length junk = MAX_LINE" "length scs < 2 ^ 32 - 2"
  shows "\<exists>sh r ys. kernel_main d im mem mb irqs junk m = Some (Some sh, r) \<and> shell_core (outcome_state r) ys
    \<and> (case r of Done n \<Rightarrow> mif n \<and> shell_ok sh | Stopped n \<Rightarrow> \<not> mif n | Away n \<Rightarrow> False)"
proof -
  note o = shell_opened [OF b(2) ty len(2)]
  from keyboard_session [OF o(1) fresh_shell_ok(1) [OF len(1)] o(3,5), of im] show ?thesis
    by (auto simp: kernel_main_def shell_run_def b(1))
qed

section \<open>A machine to boot\<close>

definition cold_machine :: machine where
  "cold_machine = \<lparr> mgdt = gdt_boot, midt = idt_boot, mpic = [],
     mpit = \<lparr> tick_count = 0, pit_io = [] \<rparr>, mserial = \<lparr> serial_ready = 0, serial_io = [] \<rparr>,
     mkbd = kbd_boot, mvga = vga_start, mkern = kern_boot pmm_boot, mif = False, mctl = [] \<rparr>"

lemma cold_power_on: "power_on cold_machine"
  by (simp add: power_on_def cold_machine_def gdt_boot_def)

lemma demo_image_pages: "kernel_page_count (kernel_end_addr demo_image) = 288"
  by (simp add: kernel_page_count_def demo_image_def PAGE_SIZE_def)

lemma demo_map: "\<exists>es. boot_regions demo_mem demo_mb = Some es \<and> boot_pages demo_image demo_mb es \<noteq> {}"
proof -
  obtain e1 e2 where r: "boot_regions demo_mem demo_mb = Some [e1, e2]" using demo_regions by blast
  let ?es = "[e1, e2]"
  have k: "kernel_end_addr demo_image = 0x120000" by (simp add: demo_image_def)
  note o = demo_offered [OF r]
  have "300 \<in> offered_pages 0x120000 demo_mb ?es" unfolding o(2) by simp
  then have "300 \<in> {n \<in> \<Union> (entry_pages ` set ?es). kernel_page_count 0x120000 \<le> n \<and> n < unat (pmm_total_of demo_mb)}"
    unfolding code_pages_offered [OF o(1)] .
  then have p: "300 \<in> \<Union> (entry_pages ` set ?es)" "kernel_page_count 0x120000 \<le> 300" by simp_all
  have "bit (mb_flags demo_mb) 0 \<longrightarrow> 1024 + unat (mem_upper demo_mb) < 2 ^ 32"
    by (simp add: demo_mb_def)
  note t = managed_pages_total [OF this]
  have "managed_pages demo_mb = 65536" by (simp add: managed_pages_def demo_mb_def)
  with p t have "300 \<in> boot_pages demo_image demo_mb ?es"
    by (simp add: boot_pages_def k del: UN_iff UN_simps)
  with r show ?thesis by blast
qed

lemma demo_uart_live: "uart_live (uart (keyboard_demo scs))" "uart_live (uart demo_devices)"
  using busy_uart_live by (simp_all add: keyboard_demo_def demo_devices_def)

section \<open>Properties\<close>

text \<open>C25: power-on to prompt: when the Multiboot map leaves a page for allocation, \<open>kernel_main\<close> brings
  every component up in an order that works: flat segments, gates to the 48 stubs, the IRQ lines
  on the vectors 32 to 47 with the timer and keyboard handlers registered, the timer at 100 Hz, an
  empty keyboard buffer, the idle process running alone with the invariant of the process table,
  a clear console and the progress messages on the serial line. Interrupts stay off behind each of the first 17
  statements and are on from the 18th, the \<^verbatim>\<open>sti\<close>; by then segments, gates, interrupt controller, timer,
  keyboard and process table are as the shell finds them.\<close>

theorem kernel_boot_brings_up:
  assumes "power_on m" "uart_live (uart d)"
    and "boot_regions mem mb = Some es" "0 < kernel_page_count (kernel_end_addr im)"
    and "boot_pages im mb es \<noteq> {}"
  shows "\<exists>t. kernel_boot d im mem mb m = Some (Done t) \<and> booted im t
    \<and> map mif (boot_trace (boot_sequence d im mem mb) m) = replicate 17 False @ replicate 5 True
    \<and> (let n = boot_trace (boot_sequence d im mem mb) m ! 16 in mgdt n = mgdt t \<and> midt n = midt t
         \<and> mpic n = mpic t \<and> mpit n = mpit t \<and> mkbd n = mkbd t \<and> mkern n = mkern t)"
proof -
  obtain t where t: "kernel_boot d im mem mb m = Some (Done t)" "booted im t"
    by (rule kernel_boot_spec [OF assms(1-4)]) (use assms(5) in blast)
  then show ?thesis using boot_flags [OF assms(1,2) t(1)] by blast
qed

theorem kernel_boot_brings_up_witness:
  "\<exists>t. kernel_boot demo_devices demo_image demo_mem demo_mb cold_machine = Some (Done t) \<and> booted demo_image t
     \<and> map mif (boot_trace (boot_sequence demo_devices demo_image demo_mem demo_mb) cold_machine)
        = replicate 17 False @ replicate 5 True"
proof -
  obtain es where es: "boot_regions demo_mem demo_mb = Some es" "boot_pages demo_image demo_mb es \<noteq> {}"
    using demo_map by blast
  have "0 < kernel_page_count (kernel_end_addr demo_image)" by (simp add: demo_image_pages)
  from kernel_boot_brings_up [OF cold_power_on demo_uart_live(2) es(1) this es(2)] show ?thesis by blast
qed

text \<open>C26: without a page for the stack of the idle process the boot stops in a panic: interrupts stay
  off, the reason is sent on the serial line behind the progress messages and shown in the panic
  colour below the boot screen, and the shell never starts.\<close>

theorem kernel_boot_out_of_memory:
  assumes "power_on m" "uart_live (uart d)"
    and "boot_regions mem mb = Some es" "0 < kernel_page_count (kernel_end_addr im)"
    and "boot_pages im mb es = {}"
  shows "\<exists>t. kernel_main d im mem mb irqs junk m = Some (None, Stopped t) \<and> \<not> mif t
    \<and> mvga t = vga_print_color (panic_text ''scheduler_init: failed to create idle process'') PANIC_COLOR
        (boot_screen (vga_init (crt d) (mvga m)))
    \<and> (\<exists>l. written COM1_BASE (serial_io (mserial t))
        = l @ map of_char (panic_text ''scheduler_init: failed to create idle process''))"
proof -
  let ?msg = "''scheduler_init: failed to create idle process''"
  obtain p n where n: "hardware_up im d p m n"
    "kernel_boot d im mem mb m = kernel_panic d ?msg n"
    by (rule kernel_boot_spec [OF assms(1-4)]) (use assms(5) in blast)
  have cs: "c_string ?msg" "c_string (panic_text ?msg)" by (simp_all add: c_string_def panic_text_def)
  obtain s where s: "serial_print (uart d) (panic_text ?msg) (mserial n) = Some s"
    "written COM1_BASE (serial_io s)
       = written COM1_BASE (serial_io (mserial n)) @ map of_char (panic_text ?msg)"
    using serial_print_returns [OF assms(2) cs(2)] by blast
  let ?t = "n\<lparr>mif := False, mvga := vga_print_color (panic_text ?msg) PANIC_COLOR (mvga n), mserial := s\<rparr>"
  have "kernel_panic d ?msg n = Some (Stopped ?t)"
    using n(1) s(1) by (simp only: kernel_panic_eq [OF cs(1)] hardware_up_def) simp
  then have "kernel_main d im mem mb irqs junk m = Some (None, Stopped ?t)"
    by (simp add: kernel_main_def n(2))
  moreover have "mvga n = boot_screen (vga_init (crt d) (mvga m))" using n(1) by (simp add: hardware_up_def)
  ultimately show ?thesis using s(2) by (intro exI [of _ ?t]) auto
qed

text \<open>A loader that passes no memory map.\<close>

theorem kernel_boot_out_of_memory_witness:
  "\<exists>t. kernel_main demo_devices demo_image demo_mem (demo_mb\<lparr>mb_flags := 0\<rparr>) [] ''?'' cold_machine
     = Some (None, Stopped t) \<and> \<not> mif t"
proof -
  have r: "boot_regions demo_mem (demo_mb\<lparr>mb_flags := 0\<rparr>) = Some []" by (simp add: boot_regions_def)
  have e: "boot_pages demo_image (demo_mb\<lparr>mb_flags := 0\<rparr>) [] = {}" by (simp add: boot_pages_def)
  have "0 < kernel_page_count (kernel_end_addr demo_image)" by (simp add: demo_image_pages)
  from kernel_boot_out_of_memory [OF cold_power_on demo_uart_live(2) r this e, of "[]" "''?''"]
  show ?thesis by blast
qed

text \<open>With interrupts only in the \<^verbatim>\<open>hlt\<close> of the shell, as \<open>shell_run\<close> has them, and each command in one step: after
  every sequence of scancodes, with any number of timer ticks and spurious interrupts in between, the shell is back
  asleep with interrupts on, or \<^verbatim>\<open>reboot\<close> or \<^verbatim>\<open>exit\<close> has stopped the machine.\<close>

theorem kernel_main_stays_up:
  assumes "power_on m" "uart_live (uart d)"
    and "boot_regions mem mb = Some es" "0 < kernel_page_count (kernel_end_addr im)"
    and "boot_pages im mb es \<noteq> {}"
    and "typist d irqs scs" "length junk = MAX_LINE" "length scs < 2 ^ 32 - 2"
  shows "\<exists>sh r ys. kernel_main d im mem mb irqs junk m = Some (Some sh, r) \<and> shell_core (outcome_state r) ys
    \<and> (case r of Done n \<Rightarrow> mif n \<and> shell_ok sh | Stopped n \<Rightarrow> \<not> mif n | Away n \<Rightarrow> False)"
proof -
  obtain t where t: "kernel_boot d im mem mb m = Some (Done t)" "booted im t"
    by (rule kernel_boot_spec [OF assms(1-4)]) (use assms(5) in blast)
  show ?thesis by (rule kernel_main_session [OF t assms(6-8)])
qed

text \<open>The keys L, S, Enter after power-on, with a timer tick before and after each.\<close>

theorem kernel_main_stays_up_witness:
  "\<exists>sh r ys. kernel_main (keyboard_demo [0x26, 0x1F, 0x1C]) demo_image demo_mem demo_mb
       (ticking 3) (replicate 256 (CHR ''?'')) cold_machine = Some (Some sh, r)
     \<and> shell_core (outcome_state r) ys"
proof -
  let ?d = "keyboard_demo [0x26, 0x1F, 0x1C]"
  obtain es where es: "boot_regions demo_mem demo_mb = Some es" "boot_pages demo_image demo_mb es \<noteq> {}"
    using demo_map by blast
  have k: "0 < kernel_page_count (kernel_end_addr demo_image)" by (simp add: demo_image_pages)
  have ty: "typist ?d (ticking 3) [0x26, 0x1F, 0x1C]"
    using kbd_script_script [of "[0x26, 0x1F, 0x1C]" "[]"] ticking_irqs [of 3]
    by (simp add: typist_def keyboard_demo_def del: kbd_script.simps)
  have len: "length (replicate 256 (CHR ''?'')) = MAX_LINE" by (simp add: MAX_LINE_def)
  have "length [0x26, 0x1F, 0x1C :: uint8_t] < 2 ^ 32 - 2" by simp
  from kernel_main_stays_up [OF cold_power_on demo_uart_live(1) es(1) k es(2) ty len this] show ?thesis
    by blast
qed

text \<open>The boot screen shows what the code says: on black, the five lines of the logo from row 3, the two
  lines below it, the loading bar with its seven components, each with its dot, and the ready line,
  each in its place and colour, whatever was on the screen and in the cursor before.\<close>

theorem boot_screen_shows_logo: "vram (boot_screen v) = boot_picture v"
  by (rule boot_screen_picture)

end
