(* ===== verification/Kernel.thy ===== *)
theory Kernel
  imports Thread Round_Robin
begin

text \<open>
  Process and thread management as one system: the calls of \<^verbatim>\<open>src/src/scheduler.c\<close> and
  \<^verbatim>\<open>src/src/thread.c\<close> and the timer ticks, in any order, from the state that \<open>scheduler_init\<close>
  leaves. Two calls are let through by the code although they break the system: the idle process
  leaving (\<^verbatim>\<open>process_exit\<close> does not ask who leaves) and the deletion of the thread that is running
  (\<^verbatim>\<open>thread_delete\<close> does not ask whom it deletes). They are steps as the others are; \<open>misuse\<close> names
  them, and the runs \<open>kern_run\<close> do without them. That they, and no other, break the system is a
  property below.
\<close>

section \<open>Calls in any order\<close>

datatype call =
    Create uint32_t uint8_t
  | Spawn "pcb_ref option" uint32_t
  | Leave
  | Delete uint32_t
  | Tick uint32_t

inductive kern_step :: "call \<Rightarrow> kern \<Rightarrow> kern \<Rightarrow> bool" where
  create: "create_process f prio s = Some (r, t) \<Longrightarrow> kern_step (Create f prio) s t"
| spawn: "create_thread par f s = Some (r, t) \<Longrightarrow> kern_step (Spawn par f) s t"
| leave: "process_exit s = Some fl \<Longrightarrow> kern_step Leave s (flow_state fl)"
| delete: "thread_delete n s = Some (r, t) \<Longrightarrow> kern_step (Delete n) s t"
| timer: "tick e s = Some t \<Longrightarrow> kern_step (Tick e) s t"

inductive_cases kern_step_createE: "kern_step (Create f prio) s t"
inductive_cases kern_step_spawnE: "kern_step (Spawn par f) s t"
inductive_cases kern_step_leaveE: "kern_step Leave s t"
inductive_cases kern_step_deleteE: "kern_step (Delete n) s t"
inductive_cases kern_step_timerE: "kern_step (Tick e) s t"

text \<open>The slot that a call takes down although the processor or the scheduler still needs it.\<close>

fun misused :: "call \<Rightarrow> kern \<Rightarrow> pcb_ref option" where
  "misused Leave s = (if current_pcb s = idle_pcb s then idle_pcb s else None)"
| "misused (Delete n) s =
     (case thread_target n s of
        None \<Rightarrow> None
      | Some i \<Rightarrow> if current_pcb s = Some (Tcb i) \<or> idle_pcb s = Some (Tcb i) then Some (Tcb i) else None)"
| "misused _ s = None"

abbreviation misuse :: "call \<Rightarrow> kern \<Rightarrow> bool" where
  "misuse c s \<equiv> misused c s \<noteq> None"

inductive kern_run :: "kern \<Rightarrow> kern \<Rightarrow> bool" for s0 where
  start: "kern_run s0 s0"
| step: "kern_run s0 s \<Longrightarrow> \<not> misuse c s \<Longrightarrow> kern_step c s t \<Longrightarrow> kern_run s0 t"

text \<open>
  \<open>kern_sound\<close>: the invariant of the process table, with the current process marked running and the
  idle process always there to fall back on. \<open>pages\<close>: the free pages and the stack pages in use.
\<close>

definition kern_sound :: "kern \<Rightarrow> pcb_ref list \<Rightarrow> bool" where
  "kern_sound s xs \<longleftrightarrow> kern_inv s xs
     \<and> (\<exists>c d. current_pcb s = Some c \<and> idle_pcb s = Some d \<and> state (pcbs s c) = PROCESS_RUNNING
          \<and> is_runnable s d)"

definition stack_page :: "kern \<Rightarrow> pcb_ref \<Rightarrow> nat" where
  "stack_page s r = unat (stack_base (pcbs s r)) div 4096"

definition pages :: "kern \<Rightarrow> nat set" where
  "pages s = free_set (pm s) \<union> stack_page s ` live s"

lemma kern_inv_set: "kern_inv s xs \<Longrightarrow> live s = set xs" "kern_inv s xs \<Longrightarrow> distinct xs"
  using rq.queue_distinct by (auto simp: kern_inv_def core_inv_def)

lemma kern_sound_refs:
  assumes "kern_sound s xs"
  obtains c d where "kern_inv s xs" "current_pcb s = Some c" "idle_pcb s = Some d"
    "c \<in> set xs" "d \<in> set xs" "state (pcbs s c) = PROCESS_RUNNING" "is_runnable s d"
proof -
  obtain c d where cd: "kern_inv s xs" "current_pcb s = Some c" "idle_pcb s = Some d"
    "state (pcbs s c) = PROCESS_RUNNING" "is_runnable s d"
    using assms by (auto simp: kern_sound_def)
  then have "c \<in> set xs" "d \<in> set xs" by (auto simp: kern_inv_def run_ok_def)
  with cd that show ?thesis by blast
qed

section \<open>One more, one less\<close>

lemma sound_add:
  assumes s: "kern_sound s xs" and core: "core_inv t (xs @ [p])"
    and same: "current_pcb t = current_pcb s" "idle_pcb t = idle_pcb s"
      "\<forall>r \<in> set xs. state (pcbs t r) = state (pcbs s r) \<and> stack_base (pcbs t r) = stack_base (pcbs s r)"
    and ready: "state (pcbs t p) = PROCESS_READY"
    and page: "stack_page t p \<in> free_set (pm s)" "free_set (pm t) = free_set (pm s) - {stack_page t p}"
  shows "kern_sound t (xs @ [p]) \<and> pages t = pages s"
proof -
  obtain c d where cd: "kern_inv s xs" "current_pcb s = Some c" "idle_pcb s = Some d"
    "c \<in> set xs" "d \<in> set xs" "state (pcbs s c) = PROCESS_RUNNING" "is_runnable s d"
    by (rule kern_sound_refs [OF s])
  have "run_ok t (xs @ [p])"
    using cd(1) same ready by (intro run_ok_add [of s]) (simp_all add: kern_inv_def)
  with core have t: "kern_inv t (xs @ [p])" by (simp add: kern_inv_def)
  have "stack_page t ` set xs = stack_page s ` set xs" using same(3) by (simp add: stack_page_def)
  then have "pages t = pages s"
    using page by (auto simp: pages_def kern_inv_set [OF cd(1)] kern_inv_set [OF t])
  with t same cd show ?thesis by (simp add: kern_sound_def is_runnable_def)
qed

lemma sound_drop:
  assumes s: "kern_inv s xs" "r \<in> set xs" and t: "kern_inv t (remove1 r xs)"
    and same: "\<forall>q \<in> set xs. q \<noteq> r \<longrightarrow> stack_base (pcbs t q) = stack_base (pcbs s q)"
    and page: "free_set (pm t) = insert (stack_page s r) (free_set (pm s))"
  shows "pages t = pages s"
proof -
  have d: "set (remove1 r xs) = set xs - {r}" using kern_inv_set [OF s(1)] by (simp add: set_remove1_eq)
  have "stack_page t ` (set xs - {r}) = stack_page s ` (set xs - {r})"
    using same by (simp add: stack_page_def)
  then have "pages t = insert (stack_page s r) (free_set (pm s)) \<union> stack_page s ` (set xs - {r})"
    by (simp only: pages_def kern_inv_set(1) [OF t] d page)
  also have "\<dots> = free_set (pm s) \<union> stack_page s ` set xs" using s(2) by blast
  finally show ?thesis by (simp only: pages_def kern_inv_set(1) [OF s(1)])
qed

section \<open>Every call keeps the system sound\<close>

lemma pool_sound:
  assumes "kern_sound s xs"
  shows "kern_sound (ensure_pool_init s) xs \<and> pages (ensure_pool_init s) = pages s"
proof -
  obtain c d where cd: "kern_inv s xs" "current_pcb s = Some c" "idle_pcb s = Some d"
    "c \<in> set xs" "d \<in> set xs" "state (pcbs s c) = PROCESS_RUNNING" "is_runnable s d"
    by (rule kern_sound_refs [OF assms])
  moreover have "state (pcbs (ensure_pool_init s) r) = state (pcbs s r)" if "r \<in> set xs" for r
    using that ensure_pool_init_state [of r s] by (simp add: kern_inv_set(1) [OF cd(1)])
  ultimately show ?thesis using ensure_pool_init_inv [OF cd(1)]
    by (simp add: kern_sound_def pages_def stack_page_def [abs_def] is_runnable_def)
qed

lemma create_sound:
  assumes s: "kern_sound s xs" and c: "create_process f prio s = Some (r, t)"
  shows "\<exists>ys. kern_sound t ys \<and> pages t = pages s"
proof (cases "can_create s")
  case True
  have core: "core_inv s xs" using s by (simp add: kern_sound_def kern_inv_def)
  obtain p t' stack m where t: "create_process f prio s = Some (Some p, t')" "p \<notin> set xs"
    "core_inv t' (xs @ [p])" "pmm_alloc_page (pm s) = (stack, m)" "stack \<noteq> 0"
    "strip t' = strip (upd_pcb p (\<lambda>_. new_pcb (next_pid s + 1) prio stack)
        (s\<lparr>pm := m, ram := (ram s)(stack + STACK_SIZE - 4 := f), next_pid := next_pid s + 1\<rparr>))"
    by (rule create_process_succeeds [OF core True])
  note e = strip_eqD [OF t(6)]
  have [simp]: "t' = t" using t(1) c by simp
  have "stack_page t p = unat stack div 4096" "state (pcbs t p) = PROCESS_READY" 
    using e(1,5) [of p] by (simp_all add: stack_page_def new_pcb_def)
  moreover have "unat stack div 4096 \<in> free_set (pm s)" "free_set m = free_set (pm s) - {unat stack div 4096}"
    using pa.alloc_page [of "pm s"] core t(4,5) by (simp_all add: core_inv_def)
  ultimately show ?thesis using e t(2,3)
    by (intro exI [of _ "xs @ [p]"] sound_add [OF s]) auto
next
  case False
  with create_process_fails [of s xs f prio] s c show ?thesis by (auto simp: kern_sound_def kern_inv_def)
qed

lemma spawn_sound:
  assumes s: "kern_sound s xs" and c: "create_thread par f s = Some (r, t)"
  shows "\<exists>ys. kern_sound t ys \<and> pages t = pages s"
proof (cases "can_create_thread s")
  case True
  have inv: "kern_inv s xs" and core: "core_inv s xs" using s by (simp_all add: kern_sound_def kern_inv_def)
  obtain i t' stack m where t: "create_thread par f s = Some (Some i, t')" "Tcb i \<notin> set xs"
    "core_inv t' (xs @ [Tcb i])" "pmm_alloc_page (pm s) = (stack, m)" "stack \<noteq> 0"
    "strip t' = strip (upd_pcb (Tcb i) (\<lambda>_. new_tcb_base par stack s)
        (upd_tcb i (\<lambda>_. \<lparr> tid = next_tid s + 1, parent = par, wait_next = None \<rparr>)
        ((ensure_pool_init s)\<lparr>pm := m, ram := (ram s)(stack + STACK_SIZE - 4 := f),
           next_tid := next_tid s + 1\<rparr>)))"
    by (rule create_thread_succeeds [OF core True])
  note e = strip_eqD [OF t(6)]
  have [simp]: "t' = t" using t(1) c by simp
  have "stack_page t (Tcb i) = unat stack div 4096" "state (pcbs t (Tcb i)) = PROCESS_READY"
    using e(1,5) [of "Tcb i"] by (simp_all add: stack_page_def new_tcb_base_def)
  moreover have "unat stack div 4096 \<in> free_set (pm s)" "free_set m = free_set (pm s) - {unat stack div 4096}"
    using pa.alloc_page [of "pm s"] core t(4,5) by (simp_all add: core_inv_def)
  moreover have "state (pcbs t q) = state (pcbs s q)" if "q \<in> set xs" for q
    using that t(2) e(1) [of q] ensure_pool_init_state [of q s] by (auto simp: kern_inv_set(1) [OF inv])
  ultimately show ?thesis using e t(2,3)
    by (intro exI [of _ "xs @ [Tcb i]"] sound_add [OF s]) auto
next
  case False
  have core: "core_inv s xs" using s by (simp add: kern_sound_def kern_inv_def)
  have [simp]: "t = ensure_pool_init s"
    using create_thread_fails [OF core False, of par f] c by simp
  show ?thesis using pool_sound [OF s] by auto
qed

lemma leave_sound:
  assumes s: "kern_sound s xs" and ne: "current_pcb s \<noteq> idle_pcb s"
  shows "\<exists>t ys. process_exit s = Some (Switches t) \<and> kern_sound t ys \<and> pages t = pages s"
proof -
  obtain c d where cd: "kern_inv s xs" "current_pcb s = Some c" "idle_pcb s = Some d" "c \<in> set xs"
    by (rule kern_sound_refs [OF s])
  obtain t where t: "process_exit s = Some (Switches t)" "kern_inv t (remove1 c xs)"
    "current_pcb t = Some d" "idle_pcb t = Some d" "state (pcbs t d) = PROCESS_RUNNING"
    "free_set (pm t) = insert (stack_page s c) (free_set (pm s))"
    "\<forall>r. r \<noteq> c \<longrightarrow> stack_base (pcbs t r) = stack_base (pcbs s r)"
    using process_exit_spec [OF cd(1-3)] ne cd(2,3) unfolding stack_page_def by auto
  have "pages t = pages s" using t(6,7) by (intro sound_drop [OF cd(1,4) t(2)]) auto
  moreover have "kern_sound t (remove1 c xs)" using t(2-5) by (simp add: kern_sound_def is_runnable_def)
  ultimately show ?thesis using t(1) by blast
qed

lemma delete_sound:
  assumes s: "kern_sound s xs" and ne: "\<not> misuse (Delete n) s"
  shows "\<exists>r t ys. thread_delete n s = Some (r, t) \<and> kern_sound t ys \<and> pages t = pages s"
proof -
  obtain c d where cd: "kern_inv s xs" "current_pcb s = Some c" "idle_pcb s = Some d"
    "c \<in> set xs" "d \<in> set xs" "state (pcbs s c) = PROCESS_RUNNING" "is_runnable s d"
    by (rule kern_sound_refs [OF s])
  note spec = thread_delete_spec [OF cd(1-3), of n]
  show ?thesis
  proof (cases "thread_target n s")
    case None
    then show ?thesis using spec pool_sound [OF s] by auto
  next
    case (Some i)
    then have i: "Tcb i \<noteq> c" "Tcb i \<noteq> d" using ne cd(2,3) by (auto split: if_splits)
    have x: "Tcb i \<in> set xs"
      using Some kern_inv_set(1) [OF cd(1)] by (auto simp: thread_target_def find_upt_Some_iff)
    obtain t where t: "thread_delete n s = Some (1, t)" "kern_inv t (remove1 (Tcb i) xs)"
      "free_set (pm t) = insert (stack_page s (Tcb i)) (free_set (pm s))"
      "current_pcb t = Some c" "idle_pcb t = Some d"
      "\<forall>r \<in> set xs. r \<noteq> Tcb i \<longrightarrow> stack_base (pcbs t r) = stack_base (pcbs s r)
         \<and> state (pcbs t r) = state (pcbs s r)"
      using spec i unfolding Some stack_page_def by auto
    have "pages t = pages s" using t(3,6) by (intro sound_drop [OF cd(1) x t(2)]) auto
    moreover have "kern_sound t (remove1 (Tcb i) xs)"
      using t(2,4-6) i cd by (auto simp: kern_sound_def is_runnable_def)
    ultimately show ?thesis using t(1) by blast
  qed
qed

lemma timer_sound:
  assumes s: "kern_sound s xs"
  shows "\<exists>t. tick e s = Some t \<and> kern_sound t xs \<and> pages t = pages s"
proof -
  obtain c d where cd: "kern_inv s xs" "current_pcb s = Some c" "idle_pcb s = Some d"
    "c \<in> set xs" "d \<in> set xs" "state (pcbs s c) = PROCESS_RUNNING" "is_runnable s d"
    by (rule kern_sound_refs [OF s])
  let ?s = "s\<lparr>cpu_esp := e\<rparr>"
  let ?n = "sched_choice s xs c d"
  have q: "queue ?s xs" using cd(1) by (simp add: kern_inv_def core_inv_def)
  have run: "tick e s = Some (if ?n = c then ?s else switch_to c ?n ?s)"
    using schedule_eq [OF q, of c d] cd by (simp add: tick_def)
  have sound: "kern_sound ?s xs" "pages ?s = pages s"
    using cd by (simp_all add: kern_sound_def pages_def stack_page_def [abs_def] live_def)
  show ?thesis
  proof (cases "?n = c")
    case True
    with run sound show ?thesis by simp
  next
    case False
    have n: "?n \<in> set xs" using sched_choice_in [OF cd(1-3)] .
    have inv: "kern_inv (switch_to c ?n ?s) xs"
      using cd by (intro switch_to_inv n False) simp_all
    have base: "stack_base (pcbs (switch_to c ?n ?s) r) = stack_base (pcbs s r)" for r
      by (simp add: switch_to_def)
    have "pages (switch_to c ?n ?s) = pages s"
      using kern_inv_set(1) [OF inv] kern_inv_set(1) [OF cd(1)]
      by (simp add: pages_def stack_page_def [abs_def] base) (simp add: switch_to_def)
    moreover have "kern_sound (switch_to c ?n ?s) xs"
      using inv cd(3,6,7) False by (auto simp: kern_sound_def is_runnable_def) (auto simp: switch_to_def)
    ultimately show ?thesis using run False by simp
  qed
qed

lemma kern_step_sound:
  assumes "kern_sound s xs" "kern_step c s t" "\<not> misuse c s"
  shows "\<exists>ys. kern_sound t ys \<and> pages t = pages s"
  using assms(2)
proof (cases rule: kern_step.cases)
  case (create f prio r)
  with create_sound [OF assms(1)] show ?thesis by blast
next
  case (spawn par f r)
  with spawn_sound [OF assms(1)] show ?thesis by blast
next
  case (leave fl)
  then have "current_pcb s \<noteq> idle_pcb s" using assms(1,3) by (auto simp: kern_sound_def)
  with leave leave_sound [OF assms(1)] show ?thesis by fastforce
next
  case (delete n r)
  with delete_sound [OF assms(1)] assms(3) show ?thesis by fastforce
next
  case (timer e)
  with timer_sound [OF assms(1), of e] show ?thesis by auto
qed

lemma kern_run_sound:
  assumes "kern_run s t" "kern_sound s xs"
  shows "\<exists>ys. kern_sound t ys \<and> pages t = pages s"
  using assms
proof (induction rule: kern_run.induct)
  case (step u v)
  then obtain ys where "kern_sound u ys" "pages u = pages s" by blast
  with kern_step_sound [OF _ step.hyps(3,2), of ys] show ?case by auto
qed blast

lemma creating_returns:
  assumes "core_inv s xs"
  shows "\<exists>r u. create_process f prio s = Some (r, u)" "\<exists>r u. create_thread par f s = Some (r, u)"
proof -
  show "\<exists>r u. create_process f prio s = Some (r, u)"
    using create_process_fails [OF assms] create_process_succeeds [OF assms] by metis
  show "\<exists>r u. create_thread par f s = Some (r, u)"
    using create_thread_fails [OF assms] create_thread_succeeds [OF assms] by metis
qed

lemma init_sound:
  assumes "pmm_ready (pm s)" "run_queue s = None" "\<not> tcb_pool_initialized s"
    and init: "scheduler_init idle s = Some (Inr t)"
  shows "kern_sound t [Pcb 0] \<and> pages t = free_set (pm s)"
proof -
  have page: "fst (pmm_alloc_page (pm s)) \<noteq> 0"
    using scheduler_init_spec [OF assms(1-3), of idle] init by (auto split: if_splits)
  then have t: "kern_inv t [Pcb 0]" "current_pcb t = Some (Pcb 0)" "idle_pcb t = Some (Pcb 0)"
    "state (pcbs t (Pcb 0)) = PROCESS_RUNNING"
    using scheduler_init_spec [OF assms(1-3), of idle] init by auto
  note c = pool_cleared_inv [OF assms(1-3)]
  have can: "can_create (pool_cleared s)" using c page by (simp add: can_create_def)
  obtain p u stack m where u: "create_process idle 0 (pool_cleared s) = Some (Some p, u)"
    "alloc_pcb (pool_cleared s) = Some p" "pmm_alloc_page (pm (pool_cleared s)) = (stack, m)" "stack \<noteq> 0"
    "strip u = strip (upd_pcb p (\<lambda>_. new_pcb (next_pid (pool_cleared s) + 1) 0 stack)
        ((pool_cleared s)\<lparr>pm := m, ram := (ram (pool_cleared s))(stack + STACK_SIZE - 4 := idle),
           next_pid := next_pid (pool_cleared s) + 1\<rparr>))"
    by (rule create_process_succeeds [OF c(1) can])
  have "p = Pcb 0" using u(2) c(2) by simp
  moreover have "t = upd_pcb p (\<lambda>c. c\<lparr>state := PROCESS_RUNNING\<rparr>) (u\<lparr>idle_pcb := Some p, current_pcb := Some p\<rparr>)"
    using u(1) init by (simp add: scheduler_init_def Let_def pool_cleared_def [symmetric])
  ultimately have "stack_page t (Pcb 0) = unat stack div 4096" "free_set (pm t) = free_set m"
    using strip_eqD(5,12) [OF u(5)] by (simp_all add: stack_page_def new_pcb_def)
  then have "pages t = free_set (pm s)"
    using pa.alloc_page [of "pm s"] assms(1) u(3,4) c(3)
    by (auto simp: pages_def kern_inv_set(1) [OF t(1)])
  with t show ?thesis by (simp add: kern_sound_def is_runnable_def)
qed

lemma kern_sound_pages:
  assumes "kern_sound t xs"
  shows "inj_on (stack_page t) (live t)" "stack_page t ` live t \<inter> free_set (pm t) = {}"
proof -
  have inv: "kern_inv t xs" using assms by (simp add: kern_sound_def)
  have ok: "stack_ok (pm t) (stack_base (pcbs t r))" if "r \<in> live t" for r
    using inv that kern_inv_set(1) [OF inv] by (simp add: kern_inv_def core_inv_def)
  show "inj_on (stack_page t) (live t)"
  proof (rule inj_onI)
    fix r q
    assume rq: "r \<in> live t" "q \<in> live t" "stack_page t r = stack_page t q"
    then have "unat (stack_base (pcbs t r)) = unat (stack_base (pcbs t q))"
      using ok [of r] ok [of q] by (metis stack_ok_def stack_page_def div_mult_mod_eq)
    then have "stack_base (pcbs t r) = stack_base (pcbs t q)" by (rule unsigned_word_eqI)
    with rq(1,2) inv show "r = q"
      by (auto simp: kern_inv_def core_inv_def kern_inv_set(1) [OF inv] dest: inj_onD)
  qed
  show "stack_page t ` live t \<inter> free_set (pm t) = {}"
    using ok by (auto simp: stack_ok_def stack_page_def)
qed

lemma kern_sound_running:
  assumes "kern_sound t xs"
  obtains c d where "queue t xs" "distinct xs" "set xs = live t" "current_pcb t = Some c"
    "idle_pcb t = Some d" "d \<in> live t" "c \<in> live t"
    "\<forall>r \<in> live t. state (pcbs t r) = PROCESS_RUNNING \<longleftrightarrow> r = c"
proof -
  obtain c d where cd: "kern_inv t xs" "current_pcb t = Some c" "idle_pcb t = Some d"
    "c \<in> set xs" "d \<in> set xs" "state (pcbs t c) = PROCESS_RUNNING" "is_runnable t d"
    by (rule kern_sound_refs [OF assms])
  have run: "run_ok t xs" and q: "queue t xs" using cd(1) unfolding kern_inv_def core_inv_def by blast+
  have "\<forall>r \<in> set xs. state (pcbs t r) = PROCESS_RUNNING \<longleftrightarrow> r = c"
    using run cd(2,6) unfolding run_ok_def by auto
  then show ?thesis using q cd(2-5) kern_inv_set [OF cd(1)] by (intro that [of c d]) simp_all
qed

section \<open>Misuse\<close>

text \<open>
  A call that takes down a slot which is still needed gives its stack page back and leaves it the
  current or the idle process.
\<close>

lemma idle_leaves:
  assumes s: "kern_sound s xs" and cur: "current_pcb s = Some d" "idle_pcb s = Some d"
  shows "\<exists>t. process_exit s = Some (Switches t) \<and> current_pcb t = Some d \<and> stack_base (pcbs t d) = 0
    \<and> free_set (pm t) = insert (stack_page s d) (free_set (pm s))"
proof -
  have core: "core_inv s xs" and d: "d \<in> set xs"
    using s cur by (auto simp: kern_sound_def kern_inv_def run_ok_def)
  obtain t where t: "dequeue d (upd_pcb d (\<lambda>c. c\<lparr>state := PROCESS_DEAD\<rparr>) s) = Some t"
    "strip t = strip (upd_pcb d (\<lambda>c. c\<lparr>state := PROCESS_DEAD\<rparr>) s)"
    using core_remove [OF core d] by blast
  note e = strip_eqD [OF t(2)]
  have "pmm_ready (pm s)" "stack_ok (pm s) (stack_base (pcbs s d))"
    using core d by (auto simp: core_inv_def)
  note free = stack_ok_release(3) [OF this]
  have base: "stack_base (pcbs t d) = stack_base (pcbs s d)" using e(5) [of d] by simp
  define u where "u = context_switch d d (upd_pcb d (\<lambda>c. c\<lparr>state := PROCESS_RUNNING\<rparr>)
    ((upd_pcb d (\<lambda>c. c\<lparr>pid := 0, stack_base := 0, esp := 0\<rparr>)
       (t\<lparr>pm := pmm_free_page (stack_base (pcbs t d)) (pm t)\<rparr>))\<lparr>current_pcb := Some d\<rparr>))"
  have "process_exit s = Some (Switches u)"
    using t(1) e(11) cur by (simp add: process_exit_def Let_def u_def)
  moreover have "current_pcb u = Some d" "stack_base (pcbs u d) = 0"
    by (simp_all add: u_def context_switch_def Let_def)
  moreover have "pm u = pmm_free_page (stack_base (pcbs s d)) (pm s)"
    using e(12) by (simp add: u_def context_switch_def Let_def base)
  ultimately show ?thesis using free by (intro exI [of _ u]) (simp add: stack_page_def)
qed

lemma needed_thread_deleted:
  assumes s: "kern_sound s xs" and tg: "thread_target n s = Some i"
  shows "\<exists>t. thread_delete n s = Some (1, t) \<and> current_pcb t = current_pcb s \<and> idle_pcb t = idle_pcb s
    \<and> state (pcbs t (Tcb i)) = PROCESS_DEAD \<and> free_set (pm t) = insert (stack_page s (Tcb i)) (free_set (pm s))"
proof -
  have inv: "kern_inv s xs" using s by (simp add: kern_sound_def)
  let ?e = "ensure_pool_init s"
  have core: "core_inv ?e xs" using ensure_pool_init_inv [OF inv] by (simp add: kern_inv_def)
  have i: "Tcb i \<in> set xs"
    using tg inv by (auto simp: thread_target_def find_upt_Some_iff kern_inv_def core_inv_def)
  obtain t where t: "dequeue (Tcb i) (upd_pcb (Tcb i) (\<lambda>c. c\<lparr>state := PROCESS_DEAD\<rparr>) ?e) = Some t"
    "strip t = strip (upd_pcb (Tcb i) (\<lambda>c. c\<lparr>state := PROCESS_DEAD\<rparr>) ?e)"
    using core_remove [OF core i] by blast
  note e = strip_eqD [OF t(2)]
  have "pmm_ready (pm s)" "stack_ok (pm s) (stack_base (pcbs s (Tcb i)))"
    using inv i by (auto simp: kern_inv_def core_inv_def)
  note free = stack_ok_release(3) [OF this]
  have base: "stack_base (pcbs t (Tcb i)) = stack_base (pcbs s (Tcb i))" using e(5) [of "Tcb i"] by simp
  have state: "state (pcbs t (Tcb i)) = PROCESS_DEAD" using e(1) [of "Tcb i"] by simp
  define u where "u = upd_tcb i (\<lambda>t. t\<lparr>tid := 0\<rparr>) (upd_pcb (Tcb i) (\<lambda>c. c\<lparr>stack_base := 0\<rparr>)
     (t\<lparr>pm := pmm_free_page (stack_base (pcbs t (Tcb i))) (pm t)\<rparr>))"
  have "thread_delete n s = Some (1, u)"
    using tg t(1) by (simp add: thread_delete_def Let_def thread_target_find scheduler_dequeue_def u_def)
  moreover have "current_pcb u = current_pcb s" "idle_pcb u = idle_pcb s"
    using e(10,11) by (simp_all add: u_def)
  moreover have "pm u = pmm_free_page (stack_base (pcbs s (Tcb i))) (pm s)"
    using e(12) by (simp add: u_def base)
  moreover have "state (pcbs u (Tcb i)) = PROCESS_DEAD" using state by (simp add: u_def)
  ultimately show ?thesis using free by (intro exI [of _ u]) (simp add: stack_page_def)
qed

lemma misuse_breaks:
  assumes s: "kern_sound s xs" and m: "misused c s = Some r"
  shows "\<exists>t. kern_step c s t \<and> (current_pcb t = Some r \<or> idle_pcb t = Some r) \<and> stack_page s r \<in> free_set (pm t)
    \<and> (\<forall>ys. \<not> kern_inv t ys)"
proof (cases c)
  case Leave
  with s m have r: "current_pcb s = Some r" "idle_pcb s = Some r"
    by (auto simp: kern_sound_def split: if_splits)
  obtain t where t: "process_exit s = Some (Switches t)" "current_pcb t = Some r" "stack_base (pcbs t r) = 0"
    "free_set (pm t) = insert (stack_page s r) (free_set (pm s))"
    using idle_leaves [OF s r] by blast
  have "\<not> kern_inv t ys" for ys
    using t(2,3) by (auto simp: kern_inv_def core_inv_def run_ok_def stack_ok_def)
  then show ?thesis
    using t kern_step.leave [OF t(1)] by (intro exI [of _ t]) (simp add: Leave)
next
  case (Delete n)
  obtain i where i: "thread_target n s = Some i" "r = Tcb i" "current_pcb s = Some (Tcb i) \<or> idle_pcb s = Some (Tcb i)"
  proof (cases "thread_target n s")
    case None
    with m Delete show ?thesis by simp
  next
    case (Some i)
    with m Delete have "(if current_pcb s = Some (Tcb i) \<or> idle_pcb s = Some (Tcb i) then Some (Tcb i) else None) = Some r"
      by simp
    then show ?thesis by (intro that [OF Some]) (simp_all split: if_splits)
  qed
  obtain t where t: "thread_delete n s = Some (1, t)" "current_pcb t = current_pcb s"
    "idle_pcb t = idle_pcb s" "state (pcbs t (Tcb i)) = PROCESS_DEAD"
    "free_set (pm t) = insert (stack_page s (Tcb i)) (free_set (pm s))"
    using needed_thread_deleted [OF s i(1)] by blast
  have "\<not> kern_inv t ys" for ys
  proof
    assume k: "kern_inv t ys"
    then have "Tcb i \<in> set ys" using t(2,3) i(3) by (auto simp: kern_inv_def run_ok_def)
    moreover have "set ys = live t" using k by (simp only: kern_inv_def core_inv_def)
    ultimately show False using t(4) by (auto simp: live_def)
  qed
  then show ?thesis
    using t i kern_step.delete [OF t(1)] by (intro exI [of _ t]) (auto simp: Delete)
qed (use m in simp_all)

lemma kern_step_returns:
  assumes "kern_sound s xs" "\<not> misuse c s"
  shows "\<exists>t. kern_step c s t"
proof (cases c)
  case (Create f prio)
  then show ?thesis
    using creating_returns(1) [of s xs f prio] kern_step.create assms(1)
    by (fastforce simp: kern_sound_def kern_inv_def)
next
  case (Spawn par f)
  then show ?thesis
    using creating_returns(2) [of s xs par f] kern_step.spawn assms(1)
    by (fastforce simp: kern_sound_def kern_inv_def)
next
  case Leave
  with assms have "current_pcb s \<noteq> idle_pcb s" by (auto simp: kern_sound_def)
  from leave_sound [OF assms(1) this] show ?thesis unfolding Leave using kern_step.leave by blast
next
  case (Delete n)
  with assms(2) delete_sound [OF assms(1), of n] show ?thesis using kern_step.delete by blast
next
  case (Tick e)
  then show ?thesis using timer_sound [OF assms(1), of e] kern_step.timer by blast
qed

section \<open>Properties\<close>

text \<open>In every state that process and thread calls and timer ticks can reach without a misuse the run
  queue holds each live slot once and no other, the idle process is in it, and exactly one
  process is marked running, the current one.\<close>

theorem reachable_kernel_sound:
  assumes "pmm_ready (pm s)" "run_queue s = None" "\<not> tcb_pool_initialized s"
    and "scheduler_init idle s = Some (Inr s0)" "kern_run s0 t"
  shows "\<exists>xs c d. queue t xs \<and> distinct xs \<and> set xs = live t
    \<and> current_pcb t = Some c \<and> idle_pcb t = Some d \<and> d \<in> live t
    \<and> (\<forall>r \<in> live t. state (pcbs t r) = PROCESS_RUNNING \<longleftrightarrow> r = c)"
proof -
  obtain xs where s: "kern_sound t xs"
    using kern_run_sound [OF assms(5)] init_sound [OF assms(1-4)] by blast
  show ?thesis by (rule kern_sound_running [OF s]) blast
qed

text \<open>A run: a process and a thread of it are created, and the timer ticks.\<close>

lemma demo_boot:
  "pmm_ready (pm (kern_boot m)) = pmm_ready m" "pm (kern_boot m) = m"
  "run_queue (kern_boot m) = None" "\<not> tcb_pool_initialized (kern_boot m)"
  by (simp_all add: kern_boot_def)

definition demo_s0 :: kern where
  "demo_s0 = (case scheduler_init 0x101000 (kern_boot demo_pmm) of Some (Inr s) \<Rightarrow> s)"

lemma demo_started: "scheduler_init 0x101000 (kern_boot demo_pmm) = Some (Inr demo_s0)"
proof -
  have "fst (pmm_alloc_page (pm (kern_boot demo_pmm))) \<noteq> 0" using demo_page demo_boot by simp
  then obtain s where "scheduler_init 0x101000 (kern_boot demo_pmm) = Some (Inr s)"
    using scheduler_init_spec [of "kern_boot demo_pmm" "0x101000"] demo_pmm_ready demo_boot by auto
  then show ?thesis by (simp add: demo_s0_def)
qed

lemmas demo_start = demo_boot(1) [THEN iffD2, OF demo_pmm_ready] demo_boot(3,4) demo_started

lemma demo_run:
  obtains r1 s1 r2 s2 s3 where "create_process 0x10BEEF 1 demo_s0 = Some (r1, s1)"
    "create_thread r1 0x10CAFE s1 = Some (r2, s2)" "tick 0x9F00 s2 = Some s3" "kern_run demo_s0 s3"
proof -
  obtain x0 where x0: "kern_sound demo_s0 x0" using init_sound [OF demo_start] by blast
  then obtain r1 s1 where 1: "create_process 0x10BEEF 1 demo_s0 = Some (r1, s1)"
    using creating_returns(1) by (metis kern_sound_def kern_inv_def)
  obtain x1 where x1: "kern_sound s1 x1" using create_sound [OF x0 1] by blast
  then obtain r2 s2 where 2: "create_thread r1 0x10CAFE s1 = Some (r2, s2)"
    using creating_returns(2) by (metis kern_sound_def kern_inv_def)
  obtain x2 where x2: "kern_sound s2 x2" using spawn_sound [OF x1 2] by blast
  then obtain s3 where 3: "tick 0x9F00 s2 = Some s3" using timer_sound by blast
  have "kern_run demo_s0 s3"
    by (rule kern_run.step [OF kern_run.step [OF kern_run.step [OF kern_run.start _ kern_step.create [OF 1]]
            _ kern_step.spawn [OF 2]] _ kern_step.timer [OF 3]]) simp_all
  with 1 2 3 that show ?thesis by blast
qed

theorem reachable_kernel_sound_witness:
  "\<exists>r s t u. create_process 0x10BEEF 1 demo_s0 = Some (r, s) \<and> create_thread r 0x10CAFE s = Some (t, u)
     \<and> (\<exists>v c. tick 0x9F00 u = Some v \<and> current_pcb v = Some c \<and> (\<exists>xs. queue v xs \<and> set xs = live v))"
proof -
  obtain r1 s1 r2 s2 s3 where r: "create_process 0x10BEEF 1 demo_s0 = Some (r1, s1)"
    "create_thread r1 0x10CAFE s1 = Some (r2, s2)" "tick 0x9F00 s2 = Some s3" "kern_run demo_s0 s3"
    by (rule demo_run)
  from reachable_kernel_sound [OF demo_start r(4)] r(1-3) show ?thesis by blast
qed

text \<open>C7: every call returns from every sound state, whatever its arguments, and it leaves a sound
  state with no page lost exactly when it is no misuse. The misuses are two, and neither
  \<^verbatim>\<open>process_exit\<close> nor \<^verbatim>\<open>thread_delete\<close> refuses them: the idle process leaves, or the thread to be
  deleted is the current or the idle one. The slot \<open>r\<close> taken down then stays current or idle while its
  stack page is already free for others, and no run queue satisfies the invariant.\<close>

theorem calls_keep_kernel_unless_misused:
  assumes "kern_sound s xs"
  shows "(\<exists>t. kern_step c s t)
    \<and> (misused c s = None \<longrightarrow> (\<forall>t. kern_step c s t \<longrightarrow> (\<exists>ys. kern_sound t ys) \<and> pages t = pages s))
    \<and> (\<forall>r. misused c s = Some r \<longrightarrow> (\<forall>t. kern_step c s t \<longrightarrow>
         (current_pcb t = Some r \<or> idle_pcb t = Some r) \<and> stack_page s r \<in> free_set (pm t) \<and> (\<forall>ys. \<not> kern_inv t ys)))"
proof -
  have one: "t = u" if "kern_step c s t" "kern_step c s u" for t u
    using that by (cases c) (auto elim!: kern_step_createE kern_step_spawnE kern_step_leaveE
        kern_step_deleteE kern_step_timerE)
  show ?thesis
  proof (cases "misused c s")
    case None
    then have "\<not> misuse c s" by simp
    with assms kern_step_sound [OF assms] kern_step_returns [OF assms] None show ?thesis by fastforce
  next
    case (Some r)
    from misuse_breaks [OF assms Some] obtain t where t: "kern_step c s t"
      "(current_pcb t = Some r \<or> idle_pcb t = Some r)" "stack_page s r \<in> free_set (pm t)" "\<forall>ys. \<not> kern_inv t ys"
      by blast
    with one [OF t(1)] Some show ?thesis by (metis option.distinct(1) option.inject)
  qed
qed

text \<open>The idle process leaves; it creates a process; a thread runs and is deleted.\<close>

theorem calls_keep_kernel_unless_misused_witness:
  "\<exists>t u. kern_step Leave demo_s0 t \<and> (\<forall>ys. \<not> kern_inv t ys)
     \<and> kern_step (Create 0x10BEEF 1) demo_s0 u \<and> pages u = {1, 3, 35}"
proof -
  have s: "kern_sound demo_s0 [Pcb 0]" "pages demo_s0 = {1, 3, 35}"
    using init_sound [OF demo_start] by (simp_all add: demo_boot demo_pmm_free)
  then have "misused Leave demo_s0 = Some (Pcb 0)"
    by (auto simp: kern_sound_def kern_inv_def run_ok_def)
  then show ?thesis
    using calls_keep_kernel_unless_misused [OF s(1), of Leave]
      calls_keep_kernel_unless_misused [OF s(1), of "Create 0x10BEEF 1"] s(2)
    by (simp del: misused.simps(1)) metis
qed

text \<open>No page is lost and none is shared: in every reachable state the stacks of the live
  processes and threads are pages of their own, none of them is free, and together with the free
  pages they are exactly the pages that were free before \<open>scheduler_init\<close>.\<close>

theorem kernel_pages_conserved:
  assumes "pmm_ready (pm s)" "run_queue s = None" "\<not> tcb_pool_initialized s"
    and "scheduler_init idle s = Some (Inr s0)" "kern_run s0 t"
  shows "inj_on (stack_page t) (live t) \<and> stack_page t ` live t \<inter> free_set (pm t) = {}
    \<and> stack_page t ` live t \<union> free_set (pm t) = free_set (pm s)"
proof -
  obtain xs where s: "kern_sound t xs" "pages t = free_set (pm s)"
    using kern_run_sound [OF assms(5)] init_sound [OF assms(1-4)] by metis
  show ?thesis using kern_sound_pages [OF s(1)] s(2) by (auto simp: pages_def)
qed

theorem kernel_pages_conserved_witness:
  "\<exists>r s t u. create_process 0x10BEEF 1 demo_s0 = Some (r, s) \<and> create_thread r 0x10CAFE s = Some (t, u)
     \<and> (\<exists>v. tick 0x9F00 u = Some v \<and> stack_page v ` live v \<union> free_set (pm v) = {1, 3, 35})"
proof -
  obtain r1 s1 r2 s2 s3 where r: "create_process 0x10BEEF 1 demo_s0 = Some (r1, s1)"
    "create_thread r1 0x10CAFE s1 = Some (r2, s2)" "tick 0x9F00 s2 = Some s3" "kern_run demo_s0 s3"
    by (rule demo_run)
  have "stack_page s3 ` live s3 \<union> free_set (pm s3) = {1, 3, 35}"
    using kernel_pages_conserved [OF demo_start r(4)] by (simp add: demo_boot demo_pmm_free)
  with r(1-3) show ?thesis by blast
qed

text \<open>In every reachable state every call returns, in a state from which the system goes on:
  creating answers a slot or says no, a timer tick finds a process to run, a process other than
  the idle one can leave, and a thread other than the current one can be deleted.\<close>

theorem kernel_calls_return:
  assumes "pmm_ready (pm s)" "run_queue s = None" "\<not> tcb_pool_initialized s"
    and "scheduler_init idle s = Some (Inr s0)" "kern_run s0 t"
  shows "(\<exists>r u. create_process f prio t = Some (r, u) \<and> kern_run s0 u)
    \<and> (\<exists>r u. create_thread par f t = Some (r, u) \<and> kern_run s0 u)
    \<and> (\<exists>u. tick e t = Some u \<and> kern_run s0 u)
    \<and> (current_pcb t \<noteq> idle_pcb t \<longrightarrow> (\<exists>u. process_exit t = Some (Switches u) \<and> kern_run s0 u))
    \<and> (\<not> misuse (Delete n) t \<longrightarrow> (\<exists>r u. thread_delete n t = Some (r, u) \<and> kern_run s0 u))"
proof -
  obtain xs where s: "kern_sound t xs"
    using kern_run_sound [OF assms(5)] init_sound [OF assms(1-4)] by blast
  then have core: "core_inv t xs" by (simp add: kern_sound_def kern_inv_def)
  note go = kern_run.step [OF assms(5)]
  show ?thesis
  proof (intro conjI impI)
    have free: "\<not> misuse (Create f prio) t" "\<not> misuse (Spawn par f) t" "\<not> misuse (Tick e) t" by simp_all
    show "\<exists>r u. create_process f prio t = Some (r, u) \<and> kern_run s0 u"
      using creating_returns(1) [OF core] go [OF free(1) kern_step.create] by blast
    show "\<exists>r u. create_thread par f t = Some (r, u) \<and> kern_run s0 u"
      using creating_returns(2) [OF core] go [OF free(2) kern_step.spawn] by blast
    show "\<exists>u. tick e t = Some u \<and> kern_run s0 u"
      using timer_sound [OF s] go [OF free(3) kern_step.timer] by blast
    show "\<exists>u. process_exit t = Some (Switches u) \<and> kern_run s0 u" if "current_pcb t \<noteq> idle_pcb t"
      using leave_sound [OF s that] go [OF _ kern_step.leave] that by fastforce
    show "\<exists>r u. thread_delete n t = Some (r, u) \<and> kern_run s0 u"
      if "\<not> misuse (Delete n) t"
      using delete_sound [OF s that] go [OF that kern_step.delete] by blast
  qed
qed

theorem kernel_calls_return_witness:
  "\<exists>r u. create_process 0x10BEEF 2 demo_s0 = Some (r, u) \<and> kern_run demo_s0 u"
  using kernel_calls_return [OF demo_start kern_run.start, of "0x10BEEF" 2] by blast

end
