(* ===== verification/Hazards.thy ===== *)
theory Hazards
  imports Shell_Session
begin

text \<open>
  Uses and interleavings that the code does not guard against, each with what it leads to: a timer
  tick between the two steps of the \<^verbatim>\<open>newprocess\<close> command (\<^verbatim>\<open>src/src/shell.c\<close>), and the deletion of a
  thread that waits for a mutex (\<^verbatim>\<open>src/src/thread.c\<close>, \<^verbatim>\<open>src/src/mutex.c\<close>).
\<close>

section \<open>A tick inside newprocess\<close>

lemma only_ready_chosen:
  assumes "queue s xs" "c \<in> set xs" "p \<in> set xs" "ready s p" "\<forall>r \<in> set xs. r \<noteq> p \<longrightarrow> \<not> ready s r"
  shows "sched_choice s xs c d = p"
proof -
  obtain us vs where x: "xs = us @ c # vs" "rotation xs c = vs @ us @ [c]" by (rule queue_split [OF assms(1,2)])
  then have "p \<in> set (rotation xs c)" using assms(3) by auto
  then obtain n where n: "find (ready s) (rotation xs c) = Some n"
    using assms(4) by (fastforce simp: find_None_iff)
  then have "n \<in> set xs" "ready s n" using x by (auto dest!: find_Some_in)
  with assms(5) have "n = p" by blast
  with n show ?thesis by (simp add: sched_choice_def)
qed

text \<open>The timer interrupt when the scheduler switches.\<close>

lemma timer_irq_away:
  assumes "int_no r = 32" "irq_handlers (midt m) ! 0 = Some timer_handler_fn"
    and "schedule (mkern m) = Some (Switches k)"
  shows "common_isr_handler d r m = Some (Away (m\<lparr>mpit := count_tick (mpit m), mkern := k\<rparr>))"
  using assms by (simp add: common_isr_handler_def Let_def timer_handler_def)

lemma fresh_process_switch:
  assumes inv: "kern_inv s xs" and calm: "settled s xs" and can: "can_create s"
  obtains c p k where "create_process f prio s = Some (Some p, k)" "p \<notin> set xs"
    "schedule k = Some (Switches (switch_to c p k))" "cpu_eip (switch_to c p k) = f" "p \<noteq> c"
proof -
  have core: "core_inv s xs" and run: "run_ok s xs" using inv by (simp_all add: kern_inv_def)
  obtain c where c: "current_pcb s = Some c" "idle_pcb s = Some c" and none: "\<forall>r \<in> set xs. \<not> ready s r"
    using calm by (auto simp: settled_def)
  have cx: "c \<in> set xs" using run c(1) by (auto simp: run_ok_def)
  obtain p k stack m where k: "create_process f prio s = Some (Some p, k)" "p \<notin> set xs" "core_inv k (xs @ [p])"
    "strip k = strip (upd_pcb p (\<lambda>_. new_pcb (next_pid s + 1) prio stack)
        (s\<lparr>pm := m, ram := (ram s)(stack + STACK_SIZE - 4 := f), next_pid := next_pid s + 1\<rparr>))"
    by (rule create_process_succeeds [OF core can])
  note e = strip_eqD [OF k(4)]
  have q: "queue k (xs @ [p])" using k(3) by (simp add: core_inv_def)
  have pc: "p \<noteq> c" using k(2) cx by blast
  have "ready k p" using e(1) [of p] by (simp add: ready_def new_pcb_def)
  moreover have "\<forall>r \<in> set (xs @ [p]). r \<noteq> p \<longrightarrow> \<not> ready k r" using e(1) none by (auto simp: ready_def)
  ultimately have "sched_choice k (xs @ [p]) c c = p" using cx by (intro only_ready_chosen [OF q]) simp_all
  then have "schedule k = Some (Switches (switch_to c p k))"
    using schedule_eq [OF q, of c c] e(10,11) c cx pc by simp
  moreover have "cpu_eip (switch_to c p k) = f"
    using e(4) [of p] e(13) by (simp add: switch_to_def new_pcb_def)
  ultimately show ?thesis using that k(1,2) pc by blast
qed

section \<open>A waiter that is deleted\<close>

lemma unlock_revives:
  assumes core: "core_inv t ys" and w: "Tcb w \<notin> set ys" "w < MAX_THREADS" "tcb_pool_initialized t"
    and m: "waiters m = Some w"
  shows "\<not> core_inv (snd (mutex_unlock m t)) zs"
proof
  let ?u = "snd (mutex_unlock m t)"
  assume z: "core_inv ?u zs"
  have u: "run_queue ?u = run_queue t" "\<And>r. next_pcb (pcbs ?u r) = next_pcb (pcbs t r)"
    "tcb_pool_initialized ?u = tcb_pool_initialized t" "state (pcbs ?u (Tcb w)) = PROCESS_READY"
    using m by (simp_all add: mutex_unlock_def wake_one_def Let_def)
  have "queue ?u zs = queue t zs" unfolding queue_def u(1) by (rule is_list_cong) (rule u(2))
  then have "zs = ys" using z core is_list_unique by (auto simp: core_inv_def queue_def)
  moreover have "Tcb w \<in> live ?u" using u(3,4) w(2,3) by (simp add: live_def)
  ultimately show False using z w(1) by (simp add: core_inv_def)
qed

lemma thread_delete_pool:
  assumes "thread_delete n s = Some (r, t)"
  shows "tcb_pool_initialized t"
proof -
  have "tcb_pool_initialized v = tcb_pool_initialized u" if "dequeue x u = Some v" for x u v
    using that by (auto simp: dequeue_def Let_def split: if_splits option.splits)
  from this assms show ?thesis
    by (fastforce simp: thread_delete_def scheduler_dequeue_def Let_def split: option.splits)
qed

section \<open>Properties\<close>

text \<open>C31: the comment in \<^verbatim>\<open>cmd_newprocess\<close> says that the new process never runs; but when a timer tick falls
  between \<open>create_process\<close> and the assignment that blocks the process, the processor goes to the new
  process, at the entry of \<^verbatim>\<open>counter_process\<close>, which never gives it back, and the tick is not
  acknowledged, so that no further one can come.\<close>

theorem newprocess_can_take_over:
  assumes "kern_inv (mkern m) xs" "settled (mkern m) xs" "can_create (mkern m)"
    and "irq_handlers (midt m) ! 0 = Some timer_handler_fn" "int_no r = 32"
  shows "\<exists>p k t. create_process (counter_process_addr im) 1 (mkern m) = Some (Some p, k)
    \<and> common_isr_handler d r (m\<lparr>mkern := k\<rparr>) = Some (Away t)
    \<and> current_pcb (mkern t) = Some p \<and> state (pcbs (mkern t) p) = PROCESS_RUNNING
    \<and> cpu_eip (mkern t) = counter_process_addr im \<and> mpic t = mpic m"
proof -
  obtain c p k where k: "create_process (counter_process_addr im) 1 (mkern m) = Some (Some p, k)"
    "schedule k = Some (Switches (switch_to c p k))" "cpu_eip (switch_to c p k) = counter_process_addr im"
    "p \<noteq> c"
    by (rule fresh_process_switch [OF assms(1-3)])
  let ?t = "m\<lparr>mpit := count_tick (mpit m), mkern := switch_to c p k\<rparr>"
  have "common_isr_handler d r (m\<lparr>mkern := k\<rparr>) = Some (Away ?t)"
    using timer_irq_away [OF assms(5), of "m\<lparr>mkern := k\<rparr>"] assms(4) k(2) by simp
  moreover have "current_pcb (switch_to c p k) = Some p" "state (pcbs (switch_to c p k) p) = PROCESS_RUNNING"
    using k(4) by (simp_all add: switch_to_def)
  ultimately show ?thesis using k(1,3) by (intro exI [of _ p] exI [of _ k] exI [of _ ?t]) simp
qed

lemma session_inv: "kern_inv session_kern demo_queue" "settled session_kern demo_queue"
proof -
  have core: "core_inv session_kern demo_queue" and calm: "settled session_kern demo_queue"
    using session_core by (simp_all add: shell_core_def session_machine_def)
  have "run_ok session_kern demo_queue"
    by (simp add: run_ok_def session_kern_def mark_blocked_def demo_kern_def)
  with core show "kern_inv session_kern demo_queue" by (simp add: kern_inv_def)
  show "settled session_kern demo_queue" by (rule calm)
qed

lemma session_can_create: "can_create session_kern"
proof -
  have "pm session_kern = demo_pmm" by (simp add: session_kern_def mark_blocked_def demo_kern_def)
  moreover have "state (pcbs session_kern (Pcb 3)) = PROCESS_DEAD"
    by (simp add: session_kern_def mark_blocked_def demo_kern_def dead_pcb_def)
  then have "alloc_pcb session_kern \<noteq> None"
    unfolding alloc_pcb_None by (auto simp: MAX_PROCESSES_def intro!: exI [of _ 3])
  ultimately show ?thesis using demo_page by (simp add: can_create_def)
qed

theorem newprocess_can_take_over_witness:
  "\<exists>p k t. create_process 0x105000 1 session_kern = Some (Some p, k)
     \<and> common_isr_handler demo_devices (demo_regs 32) (session_machine\<lparr>mkern := k\<rparr>) = Some (Away t)
     \<and> cpu_eip (mkern t) = 0x105000"
proof -
  have m: "mkern session_machine = session_kern" "counter_process_addr demo_image = 0x105000"
    by (simp_all add: session_machine_def demo_image_def)
  have h: "irq_handlers (midt session_machine) ! 0 = Some timer_handler_fn"
    using session_typing [of "[]" "[]"] by (simp add: typing_def boot_handlers_def)
  have "int_no (demo_regs 32) = 32" by (simp add: demo_regs_def)
  from newprocess_can_take_over [of session_machine demo_queue, unfolded m, OF session_inv session_can_create h this,
      where im = demo_image and d = demo_devices]
  show ?thesis unfolding m by blast
qed

text \<open>C32: \<open>thread_delete\<close> does not take a thread off the wait list of a mutex: when the deleted thread is
  the first waiter, the next \<open>mutex_unlock\<close> marks its dead slot ready, so that the slot counts as
  live but is not in the run queue, and no queue makes the invariant of the process table true.\<close>

theorem deleted_waiter_is_revived:
  assumes "kern_inv s xs" "current_pcb s = Some c" "idle_pcb s = Some d"
    and "thread_target n s = Some w" "Tcb w \<noteq> c" "Tcb w \<noteq> d" "waiters m = Some w"
  shows "\<exists>t. thread_delete n s = Some (1, t) \<and> kern_inv t (remove1 (Tcb w) xs)
    \<and> state (pcbs (snd (mutex_unlock m t)) (Tcb w)) = PROCESS_READY
    \<and> (\<forall>ys. \<not> kern_inv (snd (mutex_unlock m t)) ys)"
proof -
  obtain t where t: "thread_delete n s = Some (1, t)" "kern_inv t (remove1 (Tcb w) xs)"
    using thread_delete_spec [OF assms(1-3), of n] assms(4-6) by auto
  have "distinct xs" "set xs = live s" using assms(1) rq.queue_distinct by (auto simp: kern_inv_def core_inv_def)
  then have "Tcb w \<notin> set (remove1 (Tcb w) xs)" by (simp add: set_remove1_eq)
  moreover have "w < MAX_THREADS" using assms(4) by (simp add: thread_target_def find_upt_Some_iff)
  moreover have "tcb_pool_initialized t" by (rule thread_delete_pool [OF t(1)])
  moreover have "core_inv t (remove1 (Tcb w) xs)" using t(2) by (simp add: kern_inv_def)
  ultimately have "\<not> core_inv (snd (mutex_unlock m t)) ys" for ys
    using unlock_revives assms(7) by blast
  moreover have "state (pcbs (snd (mutex_unlock m t)) (Tcb w)) = PROCESS_READY"
    using assms(7) by (simp add: mutex_unlock_def wake_one_def Let_def)
  ultimately show ?thesis using t by (auto simp: kern_inv_def)
qed

theorem deleted_waiter_is_revived_witness:
  "\<exists>t. thread_delete 1 session_kern = Some (1, t)
     \<and> state (pcbs (snd (mutex_unlock \<lparr>lock = 1, waiters = Some 0\<rparr> t)) (Tcb 0)) = PROCESS_READY"
proof -
  have cur: "current_pcb session_kern = Some (Pcb 0)" "idle_pcb session_kern = Some (Pcb 0)"
    by (simp_all add: session_kern_def mark_blocked_def demo_kern_def)
  have "Tcb 0 \<in> live session_kern"
    by (simp add: live_def MAX_THREADS_def session_kern_def mark_blocked_def demo_kern_def)
  moreover have "tid (tcbs session_kern 0) = 1" by (simp add: session_kern_def mark_blocked_def demo_kern_def)
  ultimately have "thread_target 1 session_kern = Some 0"
    by (simp add: thread_target_def find_upt_Some_iff MAX_THREADS_def)
  from deleted_waiter_is_revived [OF session_inv(1) cur this, of "\<lparr>lock = 1, waiters = Some 0\<rparr>"]
  show ?thesis by auto
qed

end
