(* ===== verification/Cpu.thy ===== *)
theory Cpu
  imports Ports
begin

text \<open>
  The part of an IA-32 processor that the assembler sources of the kernel use: the registers, the
  flags and a memory of bytes, and the instructions of \<^verbatim>\<open>isr.asm\<close>, \<^verbatim>\<open>context_switch.asm\<close> and
  \<^verbatim>\<open>boot.asm\<close> with an executor for straight-line code. All of it follows the documented behaviour
  of the processor at privilege level 0 with flat segments; limits, paging and alignment checks
  are left out. The lemmas give the laws of the memory and of the stack that the code relies on.
\<close>

section \<open>Memory\<close>

type_synonym bytes = "uint32_t \<Rightarrow> uint8_t"

text \<open>Double words and words are stored with the low byte first.\<close>

definition load32 :: "bytes \<Rightarrow> uint32_t \<Rightarrow> uint32_t" where
  "load32 m a = ucast (m a) OR push_bit 8 (ucast (m (a + 1)))
     OR push_bit 16 (ucast (m (a + 2))) OR push_bit 24 (ucast (m (a + 3)))"

definition store32 :: "uint32_t \<Rightarrow> uint32_t \<Rightarrow> bytes \<Rightarrow> bytes" where
  "store32 a v m = m(a := ucast v, a + 1 := ucast (drop_bit 8 v),
     a + 2 := ucast (drop_bit 16 v), a + 3 := ucast (drop_bit 24 v))"

definition load16 :: "bytes \<Rightarrow> uint32_t \<Rightarrow> uint16_t" where
  "load16 m a = ucast (m a) OR push_bit 8 (ucast (m (a + 1)))"

definition store16 :: "uint32_t \<Rightarrow> uint16_t \<Rightarrow> bytes \<Rightarrow> bytes" where
  "store16 a v m = m(a := ucast v, a + 1 := ucast (drop_bit 8 v))"

text \<open>Two double words that do not overlap.\<close>

definition apart :: "uint32_t \<Rightarrow> uint32_t \<Rightarrow> bool" where
  "apart a b \<longleftrightarrow> 4 \<le> unat (b - a) \<and> 4 \<le> unat (a - b)"

lemma load32_store32 [simp]: "load32 (store32 a v m) a = v"
proof (rule bit_eqI)
  fix n assume "possible_bit TYPE(uint32_t) n"
  then have "n < 32" by simp
  then consider "n < 8" | "8 \<le> n" "n < 16" | "16 \<le> n" "n < 24" | "24 \<le> n" "n < 32"
    by fastforce
  then show "bit (load32 (store32 a v m) a) n = bit v n"
    by cases (auto simp: load32_def store32_def bit_simps)
qed

lemma load16_store16 [simp]: "load16 (store16 a v m) a = v"
  by (rule bit_eqI) (auto simp: load16_def store16_def bit_simps)

lemma store32_outside: "4 \<le> unat (x - a) \<Longrightarrow> store32 a v m x = m x"
  by (auto simp: store32_def)

lemma store16_outside: "2 \<le> unat (x - a) \<Longrightarrow> store16 a v m x = m x"
  by (auto simp: store16_def)

lemma near_word:
  fixes a b :: uint32_t
  assumes "b + i = a + j" "unat i < 4" "unat j < 4"
  shows "\<not> apart a b"
proof -
  have "b - a = j - i" "a - b = i - j" using assms(1) by (simp_all add: algebra_simps)
  with assms(2,3) show ?thesis
    unfolding apart_def by (cases "i \<le> j") (simp_all add: unat_sub word_le_nat_alt, unat_arith)
qed

lemma store32_apart:
  assumes "apart a b" "unat i < 4"
  shows "store32 a v m (b + i) = m (b + i)"
proof -
  have n: "b + i \<noteq> a + j" if "unat j < 4" for j
    using near_word [OF _ assms(2) that, of b a] assms(1) by blast
  show ?thesis
    using n [of 0] n [of 1] n [of 2] n [of 3] by (simp add: store32_def)
qed

lemma load32_other: "apart a b \<Longrightarrow> load32 (store32 a v m) b = load32 m b"
  using store32_apart [of a b 0 v m] store32_apart [of a b 1 v m]
    store32_apart [of a b 2 v m] store32_apart [of a b 3 v m]
  by (simp add: load32_def)

lemma apart_sym: "apart a b \<longleftrightarrow> apart b a"
  by (auto simp: apart_def)

section \<open>Registers and flags\<close>

datatype reg = EAX | ECX | EDX | EBX | ESP | EBP | ESI | EDI

datatype sreg = CS | DS | ES | FS | GS | SS

text \<open>Both are finite types with a list of all values, so that two register files can be compared
  by evaluation.\<close>

instantiation reg :: enum
begin

definition enum_reg :: "reg list" where
  "enum_reg = [EAX, ECX, EDX, EBX, ESP, EBP, ESI, EDI]"

definition enum_all_reg :: "(reg \<Rightarrow> bool) \<Rightarrow> bool" where
  "enum_all_reg P = list_all P [EAX, ECX, EDX, EBX, ESP, EBP, ESI, EDI]"

definition enum_ex_reg :: "(reg \<Rightarrow> bool) \<Rightarrow> bool" where
  "enum_ex_reg P = list_ex P [EAX, ECX, EDX, EBX, ESP, EBP, ESI, EDI]"

instance
proof
  have u: "UNIV = set [EAX, ECX, EDX, EBX, ESP, EBP, ESI, EDI]"
    by (auto intro: reg.exhaust)
  then show "UNIV = set (Enum.enum :: reg list)" by (simp only: enum_reg_def)
  show "distinct (Enum.enum :: reg list)" by (simp add: enum_reg_def)
  fix P :: "reg \<Rightarrow> bool"
  show "Enum.enum_all P \<longleftrightarrow> Ball UNIV P" unfolding enum_all_reg_def u list_all_iff ..
  show "Enum.enum_ex P \<longleftrightarrow> Bex UNIV P" unfolding enum_ex_reg_def u list_ex_iff ..
qed

end

instantiation sreg :: enum
begin

definition enum_sreg :: "sreg list" where
  "enum_sreg = [CS, DS, ES, FS, GS, SS]"

definition enum_all_sreg :: "(sreg \<Rightarrow> bool) \<Rightarrow> bool" where
  "enum_all_sreg P = list_all P [CS, DS, ES, FS, GS, SS]"

definition enum_ex_sreg :: "(sreg \<Rightarrow> bool) \<Rightarrow> bool" where
  "enum_ex_sreg P = list_ex P [CS, DS, ES, FS, GS, SS]"

instance
proof
  have u: "UNIV = set [CS, DS, ES, FS, GS, SS]"
    by (auto intro: sreg.exhaust)
  then show "UNIV = set (Enum.enum :: sreg list)" by (simp only: enum_sreg_def)
  show "distinct (Enum.enum :: sreg list)" by (simp add: enum_sreg_def)
  fix P :: "sreg \<Rightarrow> bool"
  show "Enum.enum_all P \<longleftrightarrow> Ball UNIV P" unfolding enum_all_sreg_def u list_all_iff ..
  show "Enum.enum_ex P \<longleftrightarrow> Bex UNIV P" unfolding enum_ex_sreg_def u list_ex_iff ..
qed

end

lemma reg_file_eq: "f = g \<longleftrightarrow> list_all (\<lambda>r. f r = g r) (Enum.enum :: reg list)"
  by (simp add: fun_eq_iff list_all_iff enum_UNIV)

lemma seg_file_eq: "f = g \<longleftrightarrow> list_all (\<lambda>s. f s = g s) (Enum.enum :: sreg list)"
  by (simp add: fun_eq_iff list_all_iff enum_UNIV)

record cpu =
  gpr :: "reg \<Rightarrow> uint32_t"
  seg :: "sreg \<Rightarrow> uint16_t"
  eflags :: uint32_t
  eip :: uint32_t
  memory :: bytes

text \<open>The interrupt flag is bit 9 of \<^verbatim>\<open>EFLAGS\<close>.\<close>

definition int_flag :: "cpu \<Rightarrow> bool" where
  "int_flag c \<longleftrightarrow> bit (eflags c) 9"

definition put_flag :: "nat \<Rightarrow> bool \<Rightarrow> uint32_t \<Rightarrow> uint32_t" where
  "put_flag n b w = (if b then w OR push_bit n 1 else w AND NOT (push_bit n 1))"

definition parity :: "uint32_t \<Rightarrow> bool" where
  "parity w = even (length (filter (bit w) [0..<8]))"

text \<open>\<^verbatim>\<open>PF\<close>, \<^verbatim>\<open>ZF\<close> and \<^verbatim>\<open>SF\<close> of a result, then \<^verbatim>\<open>CF\<close>, \<^verbatim>\<open>AF\<close> and \<^verbatim>\<open>OF\<close> of an addition and of
  a comparison.\<close>

definition result_flags :: "uint32_t \<Rightarrow> uint32_t \<Rightarrow> uint32_t" where
  "result_flags r f = put_flag 2 (parity r) (put_flag 6 (r = 0) (put_flag 7 (bit r 31) f))"

definition add_flags :: "uint32_t \<Rightarrow> uint32_t \<Rightarrow> uint32_t \<Rightarrow> uint32_t" where
  "add_flags a b f =
     put_flag 0 (2 ^ 32 \<le> unat a + unat b)
       (put_flag 4 (16 \<le> unat (a AND 0xF) + unat (b AND 0xF))
         (put_flag 11 (bit a 31 = bit b 31 \<and> bit (a + b) 31 \<noteq> bit a 31) (result_flags (a + b) f)))"

definition cmp_flags :: "uint32_t \<Rightarrow> uint32_t \<Rightarrow> uint32_t \<Rightarrow> uint32_t" where
  "cmp_flags a b f =
     put_flag 0 (a < b)
       (put_flag 4 (a AND 0xF < b AND 0xF)
         (put_flag 11 (bit a 31 \<noteq> bit b 31 \<and> bit (a - b) 31 \<noteq> bit a 31) (result_flags (a - b) f)))"

definition zero_flag :: "cpu \<Rightarrow> bool" where
  "zero_flag c \<longleftrightarrow> bit (eflags c) 6"

lemma bit_put_flag: "n < 32 \<Longrightarrow> bit (put_flag n b w) k \<longleftrightarrow> (if k = n then b else bit w k)"
  by (auto simp: put_flag_def bit_or_push_one bit_and_not_push_one simp del: push_bit_of_1)

lemma cmp_flags_zero: "bit (cmp_flags a b f) 6 \<longleftrightarrow> a = b"
  by (simp add: cmp_flags_def result_flags_def bit_put_flag)

section \<open>Instructions\<close>

datatype instr =
    PushImm uint32_t
  | Push reg
  | Pop reg
  | Pusha
  | Popa
  | MovAxSeg sreg
  | MovAx uint16_t
  | MovSegAx sreg
  | MovImm reg uint32_t
  | Load reg reg uint32_t
  | Store reg uint32_t reg
  | StoreWord reg uint32_t uint16_t
  | AddImm reg uint32_t
  | CmpImm reg uint32_t
  | Call uint32_t uint32_t
  | Jmp uint32_t
  | Ret
  | Iret
  | Cli
  | Hlt

definition push32 :: "uint32_t \<Rightarrow> cpu \<Rightarrow> cpu" where
  "push32 v c = (let a = gpr c ESP - 4
                 in c\<lparr>gpr := (gpr c)(ESP := a), memory := store32 a v (memory c)\<rparr>)"

definition top32 :: "cpu \<Rightarrow> uint32_t" where
  "top32 c = load32 (memory c) (gpr c ESP)"

definition drop32 :: "cpu \<Rightarrow> cpu" where
  "drop32 c = c\<lparr>gpr := (gpr c)(ESP := gpr c ESP + 4)\<rparr>"

text \<open>\<^verbatim>\<open>pop reg\<close>: the stack pointer has moved on when the register is written.\<close>

definition pop_reg :: "reg \<Rightarrow> cpu \<Rightarrow> cpu" where
  "pop_reg r c = (let d = drop32 c in d\<lparr>gpr := (gpr d)(r := top32 c)\<rparr>)"

text \<open>\<^verbatim>\<open>mov ax, v\<close> keeps the upper half of \<^verbatim>\<open>EAX\<close>.\<close>

definition set_ax :: "uint16_t \<Rightarrow> uint32_t \<Rightarrow> uint32_t" where
  "set_ax v a = push_bit 16 (drop_bit 16 a) OR ucast v"

text \<open>\<open>Call f r\<close> is \<^verbatim>\<open>call f\<close> where \<open>r\<close> is the address of the next instruction; \<open>Jmp\<close> to a label
  ends a piece of straight-line code. \<open>Hlt\<close> waits for an interrupt and changes nothing.\<close>

fun exec1 :: "instr \<Rightarrow> cpu \<Rightarrow> cpu" where
  "exec1 (PushImm v) c = push32 v c"
| "exec1 (Push r) c = push32 (gpr c r) c"
| "exec1 (Pop r) c = pop_reg r c"
| "exec1 Pusha c =
     (let sp = gpr c ESP
      in push32 (gpr c EDI) (push32 (gpr c ESI) (push32 (gpr c EBP) (push32 sp
           (push32 (gpr c EBX) (push32 (gpr c EDX) (push32 (gpr c ECX) (push32 (gpr c EAX) c))))))))"
| "exec1 Popa c =
     pop_reg EAX (pop_reg ECX (pop_reg EDX (pop_reg EBX (drop32
       (pop_reg EBP (pop_reg ESI (pop_reg EDI c)))))))"
| "exec1 (MovAxSeg s) c = c\<lparr>gpr := (gpr c)(EAX := set_ax (seg c s) (gpr c EAX))\<rparr>"
| "exec1 (MovAx v) c = c\<lparr>gpr := (gpr c)(EAX := set_ax v (gpr c EAX))\<rparr>"
| "exec1 (MovSegAx s) c = c\<lparr>seg := (seg c)(s := ucast (gpr c EAX))\<rparr>"
| "exec1 (MovImm r v) c = c\<lparr>gpr := (gpr c)(r := v)\<rparr>"
| "exec1 (Load r b d) c = c\<lparr>gpr := (gpr c)(r := load32 (memory c) (gpr c b + d))\<rparr>"
| "exec1 (Store b d r) c = c\<lparr>memory := store32 (gpr c b + d) (gpr c r) (memory c)\<rparr>"
| "exec1 (StoreWord b d v) c = c\<lparr>memory := store16 (gpr c b + d) v (memory c)\<rparr>"
| "exec1 (AddImm r v) c = c\<lparr>gpr := (gpr c)(r := gpr c r + v), eflags := add_flags (gpr c r) v (eflags c)\<rparr>"
| "exec1 (CmpImm r v) c = c\<lparr>eflags := cmp_flags (gpr c r) v (eflags c)\<rparr>"
| "exec1 (Call f r) c = (push32 r c)\<lparr>eip := f\<rparr>"
| "exec1 (Jmp a) c = c\<lparr>eip := a\<rparr>"
| "exec1 Ret c = (drop32 c)\<lparr>eip := top32 c\<rparr>"
| "exec1 Iret c =
     (let d = drop32 c; e = drop32 d
      in (drop32 e)\<lparr>eip := top32 c, seg := (seg c)(CS := ucast (top32 d)), eflags := top32 e\<rparr>)"
| "exec1 Cli c = c\<lparr>eflags := put_flag 9 False (eflags c)\<rparr>"
| "exec1 Hlt c = c"

fun exec :: "instr list \<Rightarrow> cpu \<Rightarrow> cpu" where
  "exec [] c = c"
| "exec (i # is) c = exec is (exec1 i c)"

lemma exec_append [simp]: "exec (p @ q) c = exec q (exec p c)"
  by (induction p arbitrary: c) auto

section \<open>The stack\<close>

text \<open>\<open>words_at m a ws\<close>: the double words from address \<open>a\<close> upwards are \<open>ws\<close>.\<close>

fun words_at :: "bytes \<Rightarrow> uint32_t \<Rightarrow> uint32_t list \<Rightarrow> bool" where
  "words_at m a [] \<longleftrightarrow> True"
| "words_at m a (w # ws) \<longleftrightarrow> load32 m a = w \<and> words_at m (a + 4) ws"

definition stack :: "cpu \<Rightarrow> uint32_t list \<Rightarrow> bool" where
  "stack c ws \<longleftrightarrow> words_at (memory c) (gpr c ESP) ws"

lemma words_at_append:
  "words_at m a (us @ ws) \<longleftrightarrow> words_at m a us \<and> words_at m (a + 4 * of_nat (length us)) ws"
  by (induction us arbitrary: a) (auto simp: algebra_simps)

lemma words_at_nth:
  "words_at m a ws \<longleftrightarrow> (\<forall>i < length ws. load32 m (a + 4 * of_nat i) = ws ! i)"
proof (induction ws arbitrary: a)
  case (Cons w ws)
  have "(\<forall>i < length (w # ws). load32 m (a + 4 * of_nat i) = (w # ws) ! i)
      \<longleftrightarrow> load32 m a = w \<and> (\<forall>i < length ws. load32 m (a + 4 + 4 * of_nat i) = ws ! i)"
    by (simp only: length_Cons All_less_Suc2) (simp add: algebra_simps)
  then show ?case by (simp only: words_at.simps Cons.IH)
qed simp

lemma words_at_store_below:
  assumes "length ws < 2 ^ 29"
  shows "words_at (store32 (a - 4) v m) a ws = words_at m a ws"
proof -
  have "apart (a - 4) (a + 4 * of_nat i)" if "i < length ws" for i
  proof -
    have u: "unat (4 * of_nat i + 4 :: uint32_t) = 4 * i + 4"
      using that assms by (simp add: unat_word_ariths unat_of_nat take_bit_eq_mod)
    have v: "unat (- (4 * of_nat i + 4) :: uint32_t) = 2 ^ 32 - (4 * i + 4)"
      using u that assms unat_sub_if_size [of 0 "4 * of_nat i + 4 :: uint32_t"]
      by (simp add: word_size)
    have e: "a + 4 * of_nat i - (a - 4) = 4 * of_nat i + 4"
      "a - 4 - (a + 4 * of_nat i) = - (4 * of_nat i + 4)"
      by simp_all
    show ?thesis unfolding apart_def e u v using that assms by simp
  qed
  then show ?thesis by (simp add: words_at_nth load32_other)
qed

lemma stack_push:
  "stack c ws \<Longrightarrow> length ws < 100 \<Longrightarrow> stack (push32 v c) (v # ws)"
  by (simp add: stack_def push32_def Let_def words_at_store_below)

lemma stack_top: "stack c (w # ws) \<Longrightarrow> top32 c = w"
  by (simp add: stack_def top32_def)

lemma stack_drop: "stack c (w # ws) \<Longrightarrow> stack (drop32 c) ws"
  by (simp add: stack_def drop32_def)

lemma stack_Nil [simp]: "stack c []"
  by (simp add: stack_def)

text \<open>What an instruction does not touch; the stack depends on nothing but memory and \<^verbatim>\<open>ESP\<close>.\<close>

lemma stack_cong:
  "memory d = memory c \<Longrightarrow> gpr d ESP = gpr c ESP \<Longrightarrow> stack d ws = stack c ws"
  by (simp add: stack_def)

lemma push32_fields [simp]:
  "gpr (push32 v c) = (gpr c)(ESP := gpr c ESP - 4)"
  "seg (push32 v c) = seg c" "eflags (push32 v c) = eflags c" "eip (push32 v c) = eip c"
  by (simp_all add: push32_def Let_def)

lemma drop32_fields [simp]:
  "gpr (drop32 c) = (gpr c)(ESP := gpr c ESP + 4)" "seg (drop32 c) = seg c"
  "eflags (drop32 c) = eflags c" "eip (drop32 c) = eip c" "memory (drop32 c) = memory c"
  by (simp_all add: drop32_def)

lemma push32_mem:
  "4 \<le> unat (x - (gpr c ESP - 4)) \<Longrightarrow> memory (push32 v c) x = memory c x"
  by (simp add: push32_def Let_def store32_outside)

lemma ucast_set_ax [simp]: "ucast (set_ax v a) = v"
  by (rule bit_eqI) (auto simp: set_ax_def bit_simps)

lemma set_ax_set_ax [simp]: "set_ax v (set_ax w a) = set_ax v a"
  by (rule bit_eqI) (auto simp: set_ax_def bit_simps dest: bit_imp_le_length)

text \<open>A push within the 64 bytes below \<open>e\<close> does not reach the other addresses.\<close>

lemma outside_below:
  fixes x e k :: uint32_t
  assumes "64 \<le> unat (x - (e - 64))" "k \<le> 64" "4 \<le> k"
  shows "4 \<le> unat (x - (e - k))"
proof -
  define y where "y = x - (e - 64)"
  have k: "unat (64 - k) = 64 - unat k" "4 \<le> unat k"
    using assms(2,3) by (simp_all add: unat_sub word_le_nat_alt)
  then have "64 - k \<le> y" using assms(1) by (simp add: y_def word_le_nat_alt)
  then have "unat (y - (64 - k)) = unat y - (64 - unat k)" using k by (simp add: unat_sub)
  moreover have "x - (e - k) = y - (64 - k)" by (simp add: y_def)
  ultimately show ?thesis using assms(1) k(2) by (simp only: y_def)
qed

end
