(* ===== verification/Stubs.thy ===== *)
theory Stubs
  imports Cpu Machine
begin

text \<open>
  The interrupt stubs of \<^verbatim>\<open>src/isr.asm\<close>, instruction by instruction, and the way of an interrupt
  from the gate of the descriptor table through the stub into \<open>common_isr_handler\<close> and back to
  the interrupted code. The addresses of the labels are chosen by the linker and are a parameter of type \<open>isr_labels\<close>:
  \<open>lbl_isr n\<close> of stub \<open>n\<close>, \<open>lbl_common\<close> of \<^verbatim>\<open>common_isr_stub\<close>, \<open>lbl_handler\<close> of the C handler and
  \<open>lbl_return\<close> of the instruction behind its call.
\<close>

section \<open>The stubs\<close>

record isr_labels =
  lbl_isr :: "nat \<Rightarrow> uint32_t"
  lbl_common :: uint32_t
  lbl_handler :: uint32_t
  lbl_return :: uint32_t

definition ISR_NOERR :: "uint32_t \<Rightarrow> uint32_t \<Rightarrow> instr list" where
  "ISR_NOERR common n = [PushImm 0, PushImm n, Jmp common]"

definition ISR_ERR :: "uint32_t \<Rightarrow> uint32_t \<Rightarrow> instr list" where
  "ISR_ERR common n = [PushImm n, Jmp common]"

definition isr_stubs :: "uint32_t \<Rightarrow> instr list list" where
  "isr_stubs common =
    [ISR_NOERR common 0, ISR_NOERR common 1, ISR_NOERR common 2, ISR_NOERR common 3,
     ISR_NOERR common 4, ISR_NOERR common 5, ISR_NOERR common 6, ISR_NOERR common 7,
     ISR_ERR common 8, ISR_NOERR common 9, ISR_ERR common 10, ISR_ERR common 11,
     ISR_ERR common 12, ISR_ERR common 13, ISR_ERR common 14, ISR_NOERR common 15,
     ISR_NOERR common 16, ISR_ERR common 17, ISR_NOERR common 18, ISR_NOERR common 19,
     ISR_NOERR common 20, ISR_ERR common 21, ISR_NOERR common 22, ISR_NOERR common 23,
     ISR_NOERR common 24, ISR_NOERR common 25, ISR_NOERR common 26, ISR_NOERR common 27,
     ISR_NOERR common 28, ISR_ERR common 29, ISR_ERR common 30, ISR_NOERR common 31,
     ISR_NOERR common 32, ISR_NOERR common 33, ISR_NOERR common 34, ISR_NOERR common 35,
     ISR_NOERR common 36, ISR_NOERR common 37, ISR_NOERR common 38, ISR_NOERR common 39,
     ISR_NOERR common 40, ISR_NOERR common 41, ISR_NOERR common 42, ISR_NOERR common 43,
     ISR_NOERR common 44, ISR_NOERR common 45, ISR_NOERR common 46, ISR_NOERR common 47]"

text \<open>\<^verbatim>\<open>common_isr_stub\<close> up to the call of the handler, and behind it.\<close>

definition common_isr_save :: "uint32_t \<Rightarrow> uint32_t \<Rightarrow> instr list" where
  "common_isr_save handler ret =
    [Pusha,
     MovAxSeg DS, Push EAX,
     MovAx 0x10, MovSegAx DS, MovSegAx ES, MovSegAx FS, MovSegAx GS,
     Push ESP, Call handler ret]"

definition common_isr_restore :: "instr list" where
  "common_isr_restore =
    [AddImm ESP 4,
     Pop EAX, MovSegAx DS, MovSegAx ES, MovSegAx FS, MovSegAx GS,
     Popa, AddImm ESP 8, Iret]"

text \<open>The frame of \<^verbatim>\<open>idt.h\<close> in memory, as the C handler reads it through its argument.\<close>

definition read_registers :: "bytes \<Rightarrow> uint32_t \<Rightarrow> registers" where
  "read_registers m a =
    \<lparr> reg_ds = load32 m a, reg_edi = load32 m (a + 4), reg_esi = load32 m (a + 8),
      reg_ebp = load32 m (a + 12), reg_esp_dummy = load32 m (a + 16), reg_ebx = load32 m (a + 20),
      reg_edx = load32 m (a + 24), reg_ecx = load32 m (a + 28), reg_eax = load32 m (a + 32),
      int_no = load32 m (a + 36), err_code = load32 m (a + 40),
      reg_eip = load32 m (a + 44), reg_cs = load32 m (a + 48), reg_eflags = load32 m (a + 52) \<rparr>"

section \<open>What the processor does\<close>

text \<open>The exceptions for which the processor pushes an error code.\<close>

definition error_vectors :: "nat list" where
  "error_vectors = [8, 10, 11, 12, 13, 14, 17, 21, 29, 30]"

text \<open>Delivery of vector \<open>n\<close> through a gate at the same privilege level. An interrupt gate (type
  \<^verbatim>\<open>0xE\<close>) clears \<^verbatim>\<open>IF\<close>; \<^verbatim>\<open>TF\<close>, \<^verbatim>\<open>NT\<close>, \<^verbatim>\<open>RF\<close> and \<^verbatim>\<open>VM\<close> are cleared in any case.\<close>

definition gate_masks :: "idt_entry \<Rightarrow> bool" where
  "gate_masks g \<longleftrightarrow> gate_flags g AND 0x1F = 0x0E"

definition take_interrupt :: "idt_entry \<Rightarrow> nat \<Rightarrow> uint32_t \<Rightarrow> cpu \<Rightarrow> cpu" where
  "take_interrupt g n err c =
     (let c = push32 (eflags c) c;
          c = push32 (ucast (seg c CS)) c;
          c = push32 (eip c) c;
          c = (if n \<in> set error_vectors then push32 err c else c);
          f = put_flag 8 False (put_flag 14 False (put_flag 16 False (put_flag 17 False (eflags c))))
      in c\<lparr>eflags := (if gate_masks g then put_flag 9 False f else f),
           seg := (seg c)(CS := gate_sel g), eip := gate_base g\<rparr>)"

text \<open>The stub at an address, and the way from the interrupted code to the entry of the handler.\<close>

definition stub_at :: "isr_labels \<Rightarrow> uint32_t \<Rightarrow> instr list option" where
  "stub_at l a = map_option (nth (isr_stubs (lbl_common l))) (find (\<lambda>i. lbl_isr l i = a) [0..<48])"

definition isr_enter ::
  "isr_labels \<Rightarrow> idt_entry list \<Rightarrow> nat \<Rightarrow> uint32_t \<Rightarrow> cpu \<Rightarrow> cpu option" where
  "isr_enter l t n err c =
     (if n < length t \<and> gate_present (t ! n) then
        (let c = take_interrupt (t ! n) n err c
         in map_option (\<lambda>code. exec (code @ common_isr_save (lbl_handler l) (lbl_return l)) c)
              (stub_at l (eip c)))
      else None)"

text \<open>A frame on the stack, the argument of the handler above its return address.\<close>

definition frame_of :: "cpu \<Rightarrow> nat \<Rightarrow> uint32_t \<Rightarrow> registers" where
  "frame_of c n err =
    \<lparr> reg_ds = set_ax (seg c DS) (gpr c EAX), reg_edi = gpr c EDI, reg_esi = gpr c ESI,
      reg_ebp = gpr c EBP,
      reg_esp_dummy = gpr c ESP - 20, reg_ebx = gpr c EBX, reg_edx = gpr c EDX,
      reg_ecx = gpr c ECX, reg_eax = gpr c EAX, int_no = of_nat n,
      err_code = (if n \<in> set error_vectors then err else 0),
      reg_eip = eip c, reg_cs = ucast (seg c CS), reg_eflags = eflags c \<rparr>"

definition frame_words :: "registers \<Rightarrow> uint32_t list" where
  "frame_words r =
    [reg_ds r, reg_edi r, reg_esi r, reg_ebp r, reg_esp_dummy r, reg_ebx r, reg_edx r, reg_ecx r,
     reg_eax r, int_no r, err_code r, reg_eip r, reg_cs r, reg_eflags r]"

definition data_segments_equal :: "cpu \<Rightarrow> bool" where
  "data_segments_equal c \<longleftrightarrow> seg c ES = seg c DS \<and> seg c FS = seg c DS \<and> seg c GS = seg c DS"

section \<open>Facts about the stubs\<close>

lemma length_isr_stubs [simp]: "length (isr_stubs common) = 48"
  by (simp add: isr_stubs_def)

lemma isr_stubs_kinds:
  "list_all (\<lambda>n. isr_stubs common ! n = (if n \<in> set error_vectors then ISR_ERR common (of_nat n)
     else ISR_NOERR common (of_nat n))) [0..<48]"
  by (simp add: isr_stubs_def error_vectors_def upt_rec nth_Cons')

lemma isr_stubs_nth:
  "n < 48 \<Longrightarrow> isr_stubs common ! n = (if n \<in> set error_vectors then ISR_ERR common (of_nat n)
     else ISR_NOERR common (of_nat n))"
  using isr_stubs_kinds [of common] by (simp add: list_all_iff)

lemma stub_at_label:
  assumes "inj_on (lbl_isr l) {..<48}" "n < 48"
  shows "stub_at l (lbl_isr l n) = Some (isr_stubs (lbl_common l) ! n)"
proof -
  have "find (\<lambda>i. lbl_isr l i = lbl_isr l n) [0..<48] = Some n"
    unfolding find_upt_Some_iff using assms by (auto dest: inj_onD)
  then show ?thesis by (simp add: stub_at_def)
qed

lemma read_registers_words:
  "words_at m a (frame_words r) \<Longrightarrow> read_registers m a = r"
  by (simp add: frame_words_def read_registers_def add.commute)

text \<open>The stack survives every change of another register.\<close>

lemma stack_frame [simp]:
  "stack (c\<lparr>eflags := f\<rparr>) ws = stack c ws" "stack (c\<lparr>eip := a\<rparr>) ws = stack c ws"
  "stack (c\<lparr>seg := s\<rparr>) ws = stack c ws"
  "stack (c\<lparr>gpr := (gpr c)(EAX := v)\<rparr>) ws = stack c ws"
  by (simp_all add: stack_def)

lemma stack_gpr: "stack c ws \<Longrightarrow> g ESP = gpr c ESP \<Longrightarrow> stack (c\<lparr>gpr := g\<rparr>) ws"
  by (simp add: stack_def)

lemma take_interrupt_facts:
  fixes g n err c
  defines "d \<equiv> take_interrupt g n err c"
    and "e \<equiv> (if n \<in> set error_vectors then [err] else [])"
  shows "stack d (e @ [eip c, ucast (seg c CS), eflags c])"
    and "gpr d = (gpr c)(ESP := gpr c ESP - 12 - 4 * of_nat (length e))"
    and "seg d = (seg c)(CS := gate_sel g)" "eip d = gate_base g"
    and "gate_masks g \<Longrightarrow> \<not> int_flag d"
    and "64 \<le> unat (x - (gpr c ESP - 64)) \<Longrightarrow> memory d x = memory c x"
proof -
  have "stack (push32 (eip c) (push32 (ucast (seg c CS)) (push32 (eflags c) c)))
      [eip c, ucast (seg c CS), eflags c]"
    by (intro stack_push stack_Nil) simp_all
  then show "stack d (e @ [eip c, ucast (seg c CS), eflags c])"
    by (auto simp: d_def e_def take_interrupt_def Let_def intro: stack_push)
  show "gpr d = (gpr c)(ESP := gpr c ESP - 12 - 4 * of_nat (length e))" "eip d = gate_base g"
    "seg d = (seg c)(CS := gate_sel g)"
    by (auto simp: d_def e_def take_interrupt_def Let_def)
  show "gate_masks g \<Longrightarrow> \<not> int_flag d"
    by (simp add: d_def take_interrupt_def Let_def int_flag_def bit_put_flag)
  assume "64 \<le> unat (x - (gpr c ESP - 64))"
  note o = outside_below [OF this]
  show "memory d x = memory c x"
    using o [of 4] o [of 8] o [of 12] o [of 16]
    by (simp add: d_def take_interrupt_def Let_def push32_mem)
qed

lemma isr_stub_facts:
  fixes common
  assumes "n < 48" "stack c ((if n \<in> set error_vectors then [err] else []) @ ws)" "length ws < 50"
  defines "d \<equiv> exec (isr_stubs common ! n) c"
  shows "stack d (of_nat n # (if n \<in> set error_vectors then err else 0) # ws)"
    and "gpr d = (gpr c)(ESP := gpr c ESP - (if n \<in> set error_vectors then 4 else 8))"
    and "seg d = seg c" "eflags d = eflags c"
    and "4 \<le> unat (x - (gpr c ESP - 4)) \<Longrightarrow> n \<in> set error_vectors \<or> 4 \<le> unat (x - (gpr c ESP - 8))
      \<Longrightarrow> memory d x = memory c x"
  using assms(1-3)
  by (auto simp: d_def isr_stubs_nth ISR_ERR_def ISR_NOERR_def push32_mem intro!: stack_push)

lemma isr_save_facts:
  fixes handler ret
  assumes "stack c ws" "length ws < 50"
  defines "d \<equiv> exec (common_isr_save handler ret) c"
  shows "stack d ([ret, gpr c ESP - 36, set_ax (seg c DS) (gpr c EAX), gpr c EDI, gpr c ESI,
      gpr c EBP, gpr c ESP, gpr c EBX, gpr c EDX, gpr c ECX, gpr c EAX] @ ws)"
    and "gpr d = (gpr c)(ESP := gpr c ESP - 44, EAX := set_ax 0x10 (gpr c EAX))"
    and "seg d = (seg c)(DS := 0x10, ES := 0x10, FS := 0x10, GS := 0x10)"
    and "eflags d = eflags c" "eip d = handler"
    and "gpr c ESP = e - 20 \<Longrightarrow> 64 \<le> unat (x - (e - 64)) \<Longrightarrow> memory d x = memory c x"
proof -
  show "gpr d = (gpr c)(ESP := gpr c ESP - 44, EAX := set_ax 0x10 (gpr c EAX))"
    "seg d = (seg c)(DS := 0x10, ES := 0x10, FS := 0x10, GS := 0x10)"
    "eflags d = eflags c" "eip d = handler"
    by (simp_all add: d_def common_isr_save_def Let_def fun_upd_twist)
  show "stack d ([ret, gpr c ESP - 36, set_ax (seg c DS) (gpr c EAX), gpr c EDI, gpr c ESI,
      gpr c EBP, gpr c ESP, gpr c EBX, gpr c EDX, gpr c ECX, gpr c EAX] @ ws)"
    using assms(1,2)
    by (auto simp: d_def common_isr_save_def Let_def intro!: stack_push stack_gpr)
  assume e: "gpr c ESP = e - 20" and "64 \<le> unat (x - (e - 64))"
  note o = outside_below [OF this(2)]
  show "memory d x = memory c x"
    using o [of 24] o [of 28] o [of 32] o [of 36] o [of 40] o [of 44] o [of 48] o [of 52] o [of 56]
     o [of 60] o [of 64]
    by (simp add: d_def common_isr_save_def Let_def push32_mem e)
qed

text \<open>The state in which the handler is called, from an interrupted state \<open>c\<close>.\<close>

lemma isr_enter_facts:
  fixes l t n err c
  defines "e \<equiv> gpr c ESP"
  assumes "inj_on (lbl_isr l) {..<48}" "n < 48" "n < length t"
    and "gate_present (t ! n)" "gate_base (t ! n) = lbl_isr l n" "gate_masks (t ! n)"
  obtains f where "isr_enter l t n err c = Some f"
    and "stack f (lbl_return l # (e - 56) # frame_words (frame_of c n err))"
    and "gpr f = (gpr c)(ESP := e - 64, EAX := set_ax 0x10 (gpr c EAX))"
    and "seg f = (seg c)(CS := gate_sel (t ! n), DS := 0x10, ES := 0x10, FS := 0x10, GS := 0x10)"
    and "\<not> int_flag f" "eip f = lbl_handler l"
    and "\<forall>x. 64 \<le> unat (x - (e - 64)) \<longrightarrow> memory f x = memory c x"
proof -
  let ?c1 = "take_interrupt (t ! n) n err c"
  let ?c2 = "exec (isr_stubs (lbl_common l) ! n) ?c1"
  let ?f = "exec (common_isr_save (lbl_handler l) (lbl_return l)) ?c2"
  let ?ws = "[eip c, ucast (seg c CS), eflags c]"
  let ?e2 = "of_nat n # (if n \<in> set error_vectors then err else 0) # ?ws"
  note t = take_interrupt_facts [where g = "t ! n" and n = n and err = err and c = c]
  note s = isr_stub_facts [OF assms(3) t(1), where common = "lbl_common l"]
  have g2: "gpr ?c2 = (gpr c)(ESP := e - 20)" using s(2) t(2) by (simp add: e_def)
  have s2: "stack ?c2 ?e2" using s(1) by simp
  note v = isr_save_facts [OF s2, where handler = "lbl_handler l" and ret = "lbl_return l"]
  have "isr_enter l t n err c = Some ?f"
    using assms(4-6) stub_at_label [OF assms(2,3)] t(4) by (simp add: isr_enter_def Let_def)
  moreover have "stack ?f (lbl_return l # (e - 56) # frame_words (frame_of c n err))"
    using v(1) g2 s(3) t(3) by (simp add: frame_words_def frame_of_def e_def)
  moreover have "gpr ?f = (gpr c)(ESP := e - 64, EAX := set_ax 0x10 (gpr c EAX))"
    using v(2) g2 by (simp add: e_def)
  moreover have "seg ?f = (seg c)(CS := gate_sel (t ! n), DS := 0x10, ES := 0x10, FS := 0x10, GS := 0x10)"
    using v(3) s(3) t(3) by simp
  moreover have "\<not> int_flag ?f"
    using t(5) [OF assms(7)] v(4) s(4) by (simp add: int_flag_def)
  moreover have "eip ?f = lbl_handler l" using v(5) by simp
  moreover have "\<forall>x. 64 \<le> unat (x - (e - 64)) \<longrightarrow> memory ?f x = memory c x"
  proof (intro allI impI)
    fix x assume x: "64 \<le> unat (x - (e - 64))"
    note o = outside_below [OF x]
    have "memory ?f x = memory ?c2 x" using v(6) [OF _ _ x] g2 by simp
    also have "\<dots> = memory ?c1 x"
      using s(5) [of x] o [of 20] o [of 16] t(2) by (simp add: e_def)
    also have "\<dots> = memory c x" using t(6) x by (simp add: e_def)
    finally show "memory ?f x = memory c x" .
  qed
  ultimately show ?thesis by (rule that)
qed

text \<open>Back from the handler: the saved words decide everything that the interrupted code sees.\<close>

lemma pop_reg_facts:
  assumes "stack c (w # ws)" "r \<noteq> ESP"
  shows "stack (pop_reg r c) ws" "gpr (pop_reg r c) = (gpr c)(ESP := gpr c ESP + 4, r := w)"
    "seg (pop_reg r c) = seg c" "memory (pop_reg r c) = memory c"
  using stack_drop [OF assms(1)] stack_top [OF assms(1)] assms(2)
  by (simp_all add: pop_reg_def Let_def stack_def)

lemma isr_restore_facts:
  assumes "stack r (arg # frame_words f)"
  shows "exec common_isr_restore r =
    \<lparr> gpr = (gpr r)(EAX := reg_eax f, ECX := reg_ecx f, EDX := reg_edx f, EBX := reg_ebx f,
                   ESP := gpr r ESP + 60, EBP := reg_ebp f, ESI := reg_esi f, EDI := reg_edi f),
      seg = (seg r)(CS := ucast (reg_cs f), DS := ucast (reg_ds f), ES := ucast (reg_ds f),
                   FS := ucast (reg_ds f), GS := ucast (reg_ds f)),
      eflags = reg_eflags f, eip = reg_eip f, memory = memory r \<rparr>"
  using assms
  by (cases r) (simp add: common_isr_restore_def Let_def stack_def frame_words_def pop_reg_def
    top32_def drop32_def fun_eq_iff add.commute)

section \<open>An interrupt of the machine\<close>

text \<open>What the compiled handler owes to the stub when it comes back: the return address popped,
  the stack segment unchanged and the frame as it was. Nothing is asked of the other registers,
  of the flags or of the argument slot.\<close>

definition returns_to_stub :: "cpu \<Rightarrow> cpu \<Rightarrow> bool" where
  "returns_to_stub f r \<longleftrightarrow> gpr r ESP = gpr f ESP + 4 \<and> seg r SS = seg f SS
     \<and> (\<forall>i < 14. load32 (memory r) (gpr f ESP + 8 + 4 * of_nat i)
                 = load32 (memory f) (gpr f ESP + 8 + 4 * of_nat i))"

definition handler_argument :: "cpu \<Rightarrow> registers" where
  "handler_argument f = read_registers (memory f) (load32 (memory f) (gpr f ESP + 4))"

text \<open>The interrupt \<open>n\<close> of a processor and a machine. \<open>cc\<close> stands for what the compiled handler does
  to the processor; the effect of the handler on the machine is \<open>common_isr_handler\<close>.\<close>

definition interrupt ::
  "devices \<Rightarrow> isr_labels \<Rightarrow> (cpu \<Rightarrow> cpu) \<Rightarrow> nat \<Rightarrow> uint32_t \<Rightarrow> cpu \<Rightarrow> machine
     \<Rightarrow> (cpu \<times> outcome) option" where
  "interrupt d l cc n err c m =
     Option.bind (isr_enter l (idt (midt m)) n err c) (\<lambda>f.
       map_option (\<lambda>out. case out of
           Done t \<Rightarrow> (exec common_isr_restore (cc f), Done t)
         | Away t \<Rightarrow> (f, Away t)
         | Stopped t \<Rightarrow> (f, Stopped t))
         (common_isr_handler d (handler_argument f) m))"

lemma returned_stack:
  assumes "stack f (a # b # frame_words w)" "returns_to_stub f r"
  shows "\<exists>arg. stack r (arg # frame_words w)"
proof -
  have "words_at (memory f) (gpr f ESP + 8) (frame_words w)"
    using assms(1) by (simp add: stack_def add.commute)
  then have "words_at (memory r) (gpr f ESP + 8) (frame_words w)"
    using assms(2) by (simp add: words_at_nth returns_to_stub_def frame_words_def)
  then have "words_at (memory r) (gpr r ESP + 4) (frame_words w)"
    using assms(2) by (simp add: returns_to_stub_def add.commute)
  then show ?thesis by (auto simp: stack_def)
qed

lemma handler_argument_frame:
  assumes "stack f (a # (gpr f ESP + 8) # frame_words w)"
  shows "handler_argument f = w"
proof -
  have "load32 (memory f) (gpr f ESP + 4) = gpr f ESP + 8"
    and "words_at (memory f) (gpr f ESP + 8) (frame_words w)"
    using assms by (simp_all add: stack_def add.commute)
  then show ?thesis by (simp add: handler_argument_def read_registers_words)
qed

lemma restore_frame_of:
  assumes "stack r (arg # frame_words (frame_of c n err))" "data_segments_equal c"
    and "gpr r ESP = gpr c ESP - 60" "seg r SS = seg c SS"
  shows "exec common_isr_restore r = c\<lparr>memory := memory r\<rparr>"
proof -
  have g: "(gpr r)(EAX := gpr c EAX, ECX := gpr c ECX, EDX := gpr c EDX, EBX := gpr c EBX,
      ESP := gpr r ESP + 60, EBP := gpr c EBP, ESI := gpr c ESI, EDI := gpr c EDI) = gpr c"
    unfolding reg_file_eq enum_reg_def using assms(3) by simp
  have s: "(seg r)(CS := seg c CS, DS := seg c DS, ES := seg c DS, FS := seg c DS, GS := seg c DS)
      = seg c"
    unfolding seg_file_eq enum_sreg_def using assms(2,4) by (simp add: data_segments_equal_def)
  have u: "ucast (ucast w :: uint32_t) = (w :: uint16_t)" for w by (rule bit_eqI) (auto simp: bit_simps)
  show ?thesis
    unfolding isr_restore_facts [OF assms(1)]
    by (cases c) (use g s u in \<open>simp add: frame_of_def\<close>)
qed

lemma idt_init_gate:
  fixes isr a
  assumes "n < 48"
  defines "t \<equiv> idt (idt_init isr a (idt_boot :: 'h idt_state))"
  shows "n < length t" "gate_present (t ! n)" "gate_base (t ! n) = isr n" "gate_masks (t ! n)"
    "gate_sel (t ! n) = 8"
proof -
  have "(0x8E :: uint8_t) AND 0x1F = 0x0E" by code_simp
  then show "n < length t" "gate_present (t ! n)" "gate_base (t ! n) = isr n" "gate_masks (t ! n)"
    "gate_sel (t ! n) = 8"
    using assms(1) idt_init_spec [where 'h = 'h and isr = isr and a = a]
    by (simp_all add: t_def gate_masks_def)
qed

lemma isr_enter_spec:
  fixes l a
  assumes "inj_on (lbl_isr l) {..<48}" "n < 48"
  defines "t \<equiv> idt (idt_init (lbl_isr l) a (idt_boot :: 'h idt_state))"
  obtains f where "isr_enter l t n err c = Some f" "eip f = lbl_handler l" "\<not> int_flag f"
    and "handler_argument f = frame_of c n err"
    and "\<forall>x. 64 \<le> unat (x - (gpr c ESP - 64)) \<longrightarrow> memory f x = memory c x"
    and "data_segments_equal c \<longrightarrow> (\<forall>r. returns_to_stub f r \<longrightarrow>
           exec common_isr_restore r = c\<lparr>memory := memory r\<rparr>)"
proof -
  note g = idt_init_gate [OF assms(2), where 'h = 'h and isr = "lbl_isr l" and a = a, folded t_def]
  obtain f where f: "isr_enter l t n err c = Some f"
    "stack f (lbl_return l # (gpr c ESP - 56) # frame_words (frame_of c n err))"
    "gpr f = (gpr c)(ESP := gpr c ESP - 64, EAX := set_ax 0x10 (gpr c EAX))"
    "seg f = (seg c)(CS := gate_sel (t ! n), DS := 0x10, ES := 0x10, FS := 0x10, GS := 0x10)"
    "\<not> int_flag f" "eip f = lbl_handler l"
    "\<forall>x. 64 \<le> unat (x - (gpr c ESP - 64)) \<longrightarrow> memory f x = memory c x"
    by (rule isr_enter_facts [OF assms(1,2) g(1-4), of err c])
  have "handler_argument f = frame_of c n err"
    by (rule handler_argument_frame) (use f(2,3) in simp)
  moreover have "exec common_isr_restore r = c\<lparr>memory := memory r\<rparr>"
    if "data_segments_equal c" "returns_to_stub f r" for r
    using returned_stack [OF f(2) that(2)] restore_frame_of [OF _ that(1)] that(2) f(3,4)
    by (fastforce simp: returns_to_stub_def)
  ultimately show ?thesis using f(1,5,6,7) by (intro that [of f]) auto
qed

section \<open>Properties\<close>

text \<open>C8: an interrupt of any of the vectors 0 to 47 goes through the gate that \<open>idt_init\<close> made to
  its own stub and from there to the C handler, with interrupts masked. The argument of the handler
  points to a frame that holds the registers of the interrupted code, the number of the vector and
  the error code, 0 where the processor pushes none; of memory only the 64 bytes below the
  interrupted stack pointer are written. In whatever state the processor comes back to the stub,
  if the stack pointer and the frame are as the handler found them, the interrupted code goes on
  with every register, segment and flag as they were.\<close>

theorem interrupt_restores_context:
  assumes "inj_on (lbl_isr l) {..<48}" "n < 48" "data_segments_equal c"
  shows "\<exists>f. isr_enter l (idt (idt_init (lbl_isr l) a (idt_boot :: 'h idt_state))) n err c = Some f
    \<and> eip f = lbl_handler l \<and> \<not> int_flag f \<and> handler_argument f = frame_of c n err
    \<and> (\<forall>x. 64 \<le> unat (x - (gpr c ESP - 64)) \<longrightarrow> memory f x = memory c x)
    \<and> (\<forall>r. returns_to_stub f r \<longrightarrow> exec common_isr_restore r = c\<lparr>memory := memory r\<rparr>)"
  using isr_enter_spec [OF assms(1,2), where 'h = 'h and c = c and err = err and a = a] assms(3)
  by metis

definition demo_labels :: isr_labels where
  "demo_labels = \<lparr> lbl_isr = (\<lambda>i. 0x100000 + of_nat i), lbl_common = 0x101000,
     lbl_handler = 0x102000, lbl_return = 0x101020 \<rparr>"

definition demo_cpu :: cpu where
  "demo_cpu = \<lparr> gpr = (\<lambda>r. case r of ESP \<Rightarrow> 0x9FF0 | EAX \<Rightarrow> 0xCAFE0001 | _ \<Rightarrow> 7),
     seg = (\<lambda>s. if s = CS then 8 else 0x10), eflags = 0x202, eip = 0x100500, memory = (\<lambda>_. 0) \<rparr>"

lemma demo_labels_inj: "inj_on (lbl_isr demo_labels) {..<48}"
proof (rule inj_onI)
  fix i j :: nat assume i: "i \<in> {..<48}" "j \<in> {..<48}" and "lbl_isr demo_labels i = lbl_isr demo_labels j"
  then have "unat (of_nat i :: uint32_t) = unat (of_nat j :: uint32_t)" by (simp add: demo_labels_def)
  with i show "i = j" by (simp add: unat_of_nat take_bit_eq_mod)
qed

lemma demo_cpu_segments: "data_segments_equal demo_cpu"
  by (simp add: data_segments_equal_def demo_cpu_def)

text \<open>The least a handler can do is to return.\<close>

definition plain_return :: "cpu \<Rightarrow> cpu" where
  "plain_return f = exec1 Ret f"

lemma returns_to_stub_ret: "returns_to_stub f (plain_return f)"
  by (simp add: returns_to_stub_def plain_return_def)

theorem interrupt_restores_context_witness:
  "\<exists>f. isr_enter demo_labels (idt (idt_init (lbl_isr demo_labels) 0x5000 (idt_boot :: nat idt_state)))
       14 0xBAD demo_cpu = Some f
    \<and> int_no (handler_argument f) = 14 \<and> err_code (handler_argument f) = 0xBAD
    \<and> reg_eip (handler_argument f) = 0x100500
    \<and> gpr (exec common_isr_restore (plain_return f)) = gpr demo_cpu
    \<and> eip (exec common_isr_restore (plain_return f)) = 0x100500"
  using interrupt_restores_context [OF demo_labels_inj, where n = 14 and c = demo_cpu and err = "0xBAD"
      and a = "0x5000" and 'h = nat] demo_cpu_segments returns_to_stub_ret
  by (fastforce simp: frame_of_def error_vectors_def demo_cpu_def)

lemma interrupt_spec:
  assumes "inj_on (lbl_isr l) {..<48}" "n < 48" "data_segments_equal c"
    and "idt (midt m) = idt (idt_init (lbl_isr l) a (idt_boot :: irq_fn idt_state))"
    and "\<And>f. returns_to_stub f (cc f)"
  shows "map_option snd (interrupt d l cc n err c m) = common_isr_handler d (frame_of c n err) m
    \<and> (\<forall>c' t. interrupt d l cc n err c m = Some (c', Done t) \<longrightarrow> c' = c\<lparr>memory := memory c'\<rparr>)"
proof -
  obtain f where f: "isr_enter l (idt (midt m)) n err c = Some f"
    "handler_argument f = frame_of c n err"
    "\<forall>r. returns_to_stub f r \<longrightarrow> exec common_isr_restore r = c\<lparr>memory := memory r\<rparr>"
    using isr_enter_spec [OF assms(1,2), where 'h = irq_fn and c = c and err = err and a = a] assms(3,4)
    by metis
  then have "exec common_isr_restore (cc f) = c\<lparr>memory := memory (cc f)\<rparr>" using assms(5) by blast
  with f(1,2) show ?thesis
    by (cases "common_isr_handler d (frame_of c n err) m")
      (auto simp: interrupt_def split: outcome.splits)
qed

text \<open>For every vector from 0 to 47 an interrupt does to the machine exactly what
  \<open>common_isr_handler\<close> does on a frame with that vector, and when the handler comes back the
  interrupted code notices nothing: its registers, segments and flags are the same. This is what
  the theories of the other components assume when they let an interrupt arrive between two
  statements of C code.\<close>

theorem interrupt_runs_handler:
  assumes "inj_on (lbl_isr l) {..<48}" "n < 48" "data_segments_equal c"
    and "idt (midt m) = idt (idt_init (lbl_isr l) a (idt_boot :: irq_fn idt_state))"
    and "\<And>f. returns_to_stub f (cc f)"
  shows "map_option snd (interrupt d l cc n err c m) = common_isr_handler d (frame_of c n err) m
    \<and> (\<forall>c' t. interrupt d l cc n err c m = Some (c', Done t) \<longrightarrow> c' = c\<lparr>memory := memory c'\<rparr>)"
  using assms by (rule interrupt_spec)

lemma demo_machine_idt: "idt (midt demo_machine)
    = idt (idt_init (lbl_isr demo_labels) 0x5000 (idt_boot :: irq_fn idt_state))"
  by (simp add: demo_machine_def demo_labels_def)

theorem interrupt_runs_handler_witness:
  "\<exists>c t. interrupt demo_devices demo_labels plain_return 33 0 demo_cpu demo_machine = Some (c, Done t)
     \<and> gpr c = gpr demo_cpu \<and> eip c = 0x100500 \<and> written PIC_MASTER_CMD (mpic t) = [PIC_EOI]"
proof -
  have "common_isr_handler demo_devices (frame_of demo_cpu 33 0) demo_machine
      = common_isr_handler demo_devices (demo_regs 33) demo_machine"
    by (simp add: common_isr_handler_def frame_of_def demo_regs_def Let_def)
  note i = interrupt_runs_handler [OF demo_labels_inj _ demo_cpu_segments demo_machine_idt
      returns_to_stub_ret, of 33 demo_devices 0, unfolded this demo_keyboard_irq]
  have "\<exists>c. interrupt demo_devices demo_labels plain_return 33 0 demo_cpu demo_machine = Some (c, Done
      (demo_machine\<lparr>mkbd := keyboard_handler (ps2 demo_devices) (mkbd demo_machine),
         mpic := pic_send_eoi 1 (mpic demo_machine)\<rparr>))"
    using i by (auto simp: map_option_eq_Some)
  then obtain c where c: "interrupt demo_devices demo_labels plain_return 33 0 demo_cpu demo_machine
     = Some (c, Done (demo_machine\<lparr>mkbd := keyboard_handler (ps2 demo_devices) (mkbd demo_machine),
         mpic := pic_send_eoi 1 (mpic demo_machine)\<rparr>))" by blast
  with i have "c = demo_cpu\<lparr>memory := memory c\<rparr>" by simp
  then have "gpr c = gpr demo_cpu" "eip c = eip demo_cpu" by (metis cpu.select_convs cpu.update_convs(5) cpu.surjective)+
  with c show ?thesis
    by (simp add: demo_cpu_def demo_machine_def pic_send_eoi_written)
qed

end
