(* ===== verification/Context.thy ===== *)
theory Context
  imports Cpu Process_Table
begin

text \<open>
  The context switch of \<^verbatim>\<open>src/context_switch.asm\<close>, instruction by instruction, on the process and
  thread control blocks as they lie in memory, and the proof that it implements the
  \<open>context_switch\<close> of the scheduler. The addresses of the two pools are chosen by the linker and are
  a parameter.
\<close>

section \<open>Control blocks in memory\<close>

record layout =
  pcb_pool_at :: uint32_t
  tcb_pool_at :: uint32_t

text \<open>A \<^verbatim>\<open>pcb_t\<close> has 24 bytes, a \<^verbatim>\<open>tcb_t\<close> 36; a \<^verbatim>\<open>tcb_t\<close> starts with its \<^verbatim>\<open>pcb_t\<close>.\<close>

fun ref_addr :: "layout \<Rightarrow> pcb_ref \<Rightarrow> uint32_t" where
  "ref_addr l (Pcb i) = pcb_pool_at l + 24 * of_nat i"
| "ref_addr l (Tcb i) = tcb_pool_at l + 36 * of_nat i"

fun link_addr :: "layout \<Rightarrow> pcb_ref option \<Rightarrow> uint32_t" where
  "link_addr l None = 0"
| "link_addr l (Some r) = ref_addr l r"

fun state_value :: "process_state_t \<Rightarrow> uint32_t" where
  "state_value PROCESS_READY = 0"
| "state_value PROCESS_RUNNING = 1"
| "state_value PROCESS_BLOCKED = 2"
| "state_value PROCESS_DEAD = 3"

definition pcb_stored :: "layout \<Rightarrow> bytes \<Rightarrow> pcb_ref \<Rightarrow> pcb \<Rightarrow> bool" where
  "pcb_stored l m r p \<longleftrightarrow> (let a = ref_addr l r in
     load32 m a = pid p \<and> load32 m (a + 4) = state_value (state p) \<and> m (a + 8) = priority p
     \<and> load32 m (a + 12) = esp p \<and> load32 m (a + 16) = stack_base p
     \<and> load32 m (a + 20) = link_addr l (next_pcb p))"

definition kern_stored :: "layout \<Rightarrow> kern \<Rightarrow> bytes \<Rightarrow> bool" where
  "kern_stored l s m \<longleftrightarrow> (\<forall>r. slot_ok True r \<longrightarrow> pcb_stored l m r (pcbs s r))"

text \<open>The two pools lie apart and do not wrap around.\<close>

definition layout_ok :: "layout \<Rightarrow> bool" where
  "layout_ok l \<longleftrightarrow> unat (pcb_pool_at l) + 24 * 64 < 2 ^ 32 \<and> unat (tcb_pool_at l) + 36 * 64 < 2 ^ 32
     \<and> (unat (pcb_pool_at l) + 24 * 64 \<le> unat (tcb_pool_at l)
        \<or> unat (tcb_pool_at l) + 36 * 64 \<le> unat (pcb_pool_at l))"

section \<open>The code\<close>

definition context_switch_code :: "instr list" where
  "context_switch_code =
    [Load EAX ESP 4, Store EAX 12 ESP,
     Load EAX ESP 8, Load ESP EAX 12,
     Ret]"

lemma unat_ref_addr:
  assumes "layout_ok l" "slot_ok True r"
  shows "unat (ref_addr l r) = (case r of Pcb i \<Rightarrow> unat (pcb_pool_at l) + 24 * i
     | Tcb i \<Rightarrow> unat (tcb_pool_at l) + 36 * i)"
proof (cases r)
  case (Pcb i)
  with assms show ?thesis
    by (simp add: layout_ok_def MAX_PROCESSES_def unat_word_ariths unat_of_nat take_bit_eq_mod)
next
  case (Tcb i)
  with assms show ?thesis
    by (simp add: layout_ok_def MAX_THREADS_def unat_word_ariths unat_of_nat take_bit_eq_mod)
qed

lemma apart_nat:
  assumes "unat a + 4 \<le> unat b \<or> unat b + 4 \<le> unat a" "unat a + 4 \<le> 2 ^ 32" "unat b + 4 \<le> 2 ^ 32"
  shows "apart a b"
  using assms by (auto simp: apart_def unat_sub_if_size word_size)

lemma slots_apart:
  assumes l: "layout_ok l" and r: "slot_ok True r" "slot_ok True q" "r \<noteq> q"
  shows "unat (ref_addr l r) + 24 \<le> unat (ref_addr l q) \<or> unat (ref_addr l q) + 24 \<le> unat (ref_addr l r)"
  using r unfolding unat_ref_addr [OF l r(1)] unat_ref_addr [OF l r(2)]
  using l by (auto simp: layout_ok_def MAX_PROCESSES_def MAX_THREADS_def split: pcb_ref.splits)

lemma field_addr:
  assumes "layout_ok l" "slot_ok True r" "k < 24"
  shows "unat (ref_addr l r + of_nat k) = unat (ref_addr l r) + k" "unat (ref_addr l r) + 24 < 2 ^ 32"
proof -
  show b: "unat (ref_addr l r) + 24 < 2 ^ 32"
    using assms(1,2) unfolding unat_ref_addr [OF assms(1,2)]
    by (auto simp: layout_ok_def MAX_PROCESSES_def MAX_THREADS_def split: pcb_ref.splits)
  with assms(3) show "unat (ref_addr l r + of_nat k) = unat (ref_addr l r) + k"
    by (simp add: unat_word_ariths unat_of_nat take_bit_eq_mod)
qed

lemma fields_apart:
  assumes "layout_ok l" "slot_ok True r" "slot_ok True q" "i < 21" "j < 21"
    and "r \<noteq> q \<or> i + 4 \<le> j \<or> j + 4 \<le> i"
  shows "apart (ref_addr l r + of_nat i) (ref_addr l q + of_nat j)"
proof (rule apart_nat)
  have ij: "i < 24" "j < 24" using assms(4,5) by simp_all
  note f = field_addr [OF assms(1,2) ij(1)] field_addr [OF assms(1,3) ij(2)]
  show "unat (ref_addr l r + of_nat i) + 4 \<le> unat (ref_addr l q + of_nat j)
      \<or> unat (ref_addr l q + of_nat j) + 4 \<le> unat (ref_addr l r + of_nat i)"
    using slots_apart [OF assms(1-3)] assms(4-6) unfolding f(1,3) by (cases "r = q") auto
  show "unat (ref_addr l r + of_nat i) + 4 \<le> 2 ^ 32" "unat (ref_addr l q + of_nat j) + 4 \<le> 2 ^ 32"
    using f assms(4,5) by simp_all
qed

lemma store_esp:
  assumes l: "layout_ok l" and k: "kern_stored l s m" and o: "slot_ok True old"
  shows "kern_stored l (upd_pcb old (\<lambda>c. c\<lparr>esp := v\<rparr>) s) (store32 (ref_addr l old + 12) v m)"
  unfolding kern_stored_def
proof (intro allI impI)
  fix r assume r: "slot_ok True r"
  let ?m = "store32 (ref_addr l old + 12) v m"
  have p: "pcb_stored l m r (pcbs s r)" using k r by (simp add: kern_stored_def)
  have keep: "load32 ?m (ref_addr l r + of_nat j) = load32 m (ref_addr l r + of_nat j)"
    if "j < 21" "r \<noteq> old \<or> j + 4 \<le> 12 \<or> 16 \<le> j" for j
    using fields_apart [OF l o r, of 12 j] that by (intro load32_other) auto
  have byte: "?m (ref_addr l r + 8) = m (ref_addr l r + 8)"
    using fields_apart [OF l o r, of 12 8] store32_apart [of "ref_addr l old + 12" "ref_addr l r + 8" 0 v m]
    by simp
  show "pcb_stored l ?m r (pcbs (upd_pcb old (\<lambda>c. c\<lparr>esp := v\<rparr>) s) r)"
    using p keep [of 0] keep [of 4] keep [of 16] keep [of 20] keep [of 12] byte
    by (auto simp: pcb_stored_def Let_def upd_pcb_def)
qed

section \<open>The code implements the switch of the scheduler\<close>

text \<open>A state of the kernel and one of the processor that stand for each other: the control blocks
  lie in memory, the words at the addresses in \<open>S\<close> (stacks, away from the control blocks) are
  those of the kernel's memory, and the stack pointers agree.\<close>

definition switch_rel :: "layout \<Rightarrow> uint32_t set \<Rightarrow> kern \<Rightarrow> cpu \<Rightarrow> bool" where
  "switch_rel l S s c \<longleftrightarrow> kern_stored l s (memory c) \<and> gpr c ESP = cpu_esp s
     \<and> (\<forall>a \<in> S. load32 (memory c) a = ram s a
          \<and> (\<forall>r. slot_ok True r \<longrightarrow> apart (ref_addr l r + 12) a))"

lemma context_switch_code_spec:
  assumes l: "layout_ok l" and rel: "switch_rel l S s c"
    and slots: "slot_ok True old" "slot_ok True new"
    and args: "load32 (memory c) (gpr c ESP + 4) = ref_addr l old"
      "load32 (memory c) (gpr c ESP + 8) = ref_addr l new"
    and S: "gpr c ESP + 8 \<in> S" "(if new = old then gpr c ESP else esp (pcbs s new)) \<in> S"
  defines "d \<equiv> exec context_switch_code c" and "t \<equiv> context_switch old new s"
  shows "switch_rel l S t d \<and> eip d = cpu_eip t \<and> seg d = seg c \<and> eflags d = eflags c
    \<and> (\<forall>r. r \<noteq> EAX \<and> r \<noteq> ESP \<longrightarrow> gpr d r = gpr c r)"
proof -
  let ?m = "store32 (ref_addr l old + 12) (gpr c ESP) (memory c)"
  let ?s = "upd_pcb old (\<lambda>q. q\<lparr>esp := cpu_esp s\<rparr>) s"
  let ?sp = "esp (pcbs ?s new)"
  have k: "kern_stored l ?s ?m"
    using rel store_esp [OF l _ slots(1), of s "memory c" "gpr c ESP"] by (simp add: switch_rel_def)
  then have new: "load32 ?m (ref_addr l new + 12) = ?sp"
    using slots(2) by (simp add: kern_stored_def pcb_stored_def Let_def)
  have keep: "load32 ?m a = load32 (memory c) a" "load32 (memory c) a = ram s a" if "a \<in> S" for a
  proof -
    have "apart (ref_addr l old + 12) a" using rel that slots(1) by (simp add: switch_rel_def)
    then show "load32 ?m a = load32 (memory c) a" by (rule load32_other)
    show "load32 (memory c) a = ram s a" using rel that by (simp add: switch_rel_def)
  qed
  have arg: "load32 ?m (gpr c ESP + 8) = ref_addr l new" using keep(1) [OF S(1)] args(2) by simp
  have sp: "?sp \<in> S" using S(2) rel by (auto simp: upd_pcb_def switch_rel_def)
  have d: "memory d = ?m" "gpr d ESP = ?sp + 4" "eip d = load32 ?m ?sp" "seg d = seg c" "eflags d = eflags c"
    "\<forall>r. r \<noteq> EAX \<and> r \<noteq> ESP \<longrightarrow> gpr d r = gpr c r"
    using args(1) arg new by (simp_all add: d_def context_switch_code_def top32_def)
  have t: "pcbs t = pcbs ?s" "ram t = ram s" "cpu_esp t = ?sp + 4" "cpu_eip t = ram s ?sp"
    by (simp_all add: t_def context_switch_def Let_def upd_pcb_def)
  have "kern_stored l t ?m" using k by (simp add: kern_stored_def t(1))
  moreover have "\<forall>a \<in> S. load32 ?m a = ram t a \<and> (\<forall>r. slot_ok True r \<longrightarrow> apart (ref_addr l r + 12) a)"
    using keep rel by (auto simp: t(2) switch_rel_def)
  ultimately show ?thesis using d t keep [OF sp] by (simp add: switch_rel_def)
qed

text \<open>C9: the assembler routine implements the switch of the scheduler's model: called with the
  addresses of two control blocks it stores the stack pointer in the first, loads that of the
  second and returns to the address on top of its stack, and every other control block and stack
  word keeps its value. It saves and loads nothing else: flags, segments and all registers but
  \<^verbatim>\<open>EAX\<close> are those of the outgoing process, the ones a C caller expects to be kept included.\<close>

theorem context_switch_refines:
  assumes l: "layout_ok l" and rel: "switch_rel l S s c"
    and slots: "slot_ok True old" "slot_ok True new"
    and args: "load32 (memory c) (gpr c ESP + 4) = ref_addr l old"
      "load32 (memory c) (gpr c ESP + 8) = ref_addr l new"
    and S: "gpr c ESP + 8 \<in> S" "(if new = old then gpr c ESP else esp (pcbs s new)) \<in> S"
  defines "d \<equiv> exec context_switch_code c" and "t \<equiv> context_switch old new s"
  shows "switch_rel l S t d \<and> eip d = cpu_eip t \<and> seg d = seg c \<and> eflags d = eflags c
    \<and> (\<forall>r. r \<noteq> EAX \<and> r \<noteq> ESP \<longrightarrow> gpr d r = gpr c r)"
  unfolding d_def t_def by (rule context_switch_code_spec [OF l rel slots args S])

text \<open>Two pools of blank control blocks, a running process with the arguments of the call on its
  stack, and a new one whose first instruction is at \<^verbatim>\<open>0x10BEEF\<close>.\<close>

definition demo_layout :: layout where
  "demo_layout = \<lparr> pcb_pool_at = 0x200000, tcb_pool_at = 0x201000 \<rparr>"

definition blank_pcb :: pcb where
  "blank_pcb = \<lparr> pid = 0, state = PROCESS_READY, priority = 0, esp = 0, stack_base = 0, next_pcb = None \<rparr>"

definition demo_stacks :: bytes where
  "demo_stacks = store32 0x4FFC 0x10BEEF (store32 0x6F08 (0x200000 + 48)
     (store32 0x6F04 0x200000 (\<lambda>_. 0)))"

definition demo_calling :: cpu where
  "demo_calling = \<lparr> gpr = (\<lambda>r. if r = ESP then 0x6F00 else if r = EBX then 32 else 0),
     seg = (\<lambda>s. if s = CS then 8 else 0x10), eflags = 2, eip = 0x103000,
     memory = store32 (0x200000 + 48 + 12) 0x4FFC demo_stacks \<rparr>"

definition demo_blank :: kern where
  "demo_blank = upd_pcb (Pcb 2) (\<lambda>c. c\<lparr>esp := 0x4FFC\<rparr>)
     (demo_kern\<lparr>pcbs := (\<lambda>_. blank_pcb), ram := load32 (memory demo_calling), cpu_esp := 0x6F00\<rparr>)"

lemma demo_layout_ok: "layout_ok demo_layout"
  by (simp add: layout_ok_def demo_layout_def)

lemma demo_stacks_blank:
  assumes "0x200000 \<le> unat x"
  shows "demo_stacks x = 0"
proof -
  have "x \<noteq> a" if "unat a < 0x200000" for a using assms that by auto
  then show ?thesis by (simp add: demo_stacks_def store32_def)
qed

lemma demo_blank_stored: "kern_stored demo_layout demo_blank (memory demo_calling)"
proof -
  let ?s = "demo_kern\<lparr>pcbs := (\<lambda>_. blank_pcb), ram := load32 (memory demo_calling), cpu_esp := 0x6F00\<rparr>"
  have "pcb_stored demo_layout demo_stacks r blank_pcb" if r: "slot_ok True r" for r
  proof -
    have b: "demo_stacks (ref_addr demo_layout r + of_nat k) = 0" if k: "k < 24" for k
    proof -
      have "0x200000 \<le> unat (ref_addr demo_layout r)"
        unfolding unat_ref_addr [OF demo_layout_ok r] by (simp add: demo_layout_def split: pcb_ref.split)
      then show ?thesis
        using field_addr(1) [OF demo_layout_ok r k] by (intro demo_stacks_blank) simp
    qed
    have w: "load32 demo_stacks (ref_addr demo_layout r + of_nat k) = 0" if k: "k < 21" for k
      using k b [of k] b [of "k + 1"] b [of "k + 2"] b [of "k + 3"] by (simp add: load32_def ac_simps)
    show ?thesis
      using w [of 0] w [of 4] w [of 12] w [of 16] w [of 20] b [of 8]
      by (simp add: pcb_stored_def blank_pcb_def Let_def)
  qed
  then have "kern_stored demo_layout ?s demo_stacks" by (simp add: kern_stored_def)
  from store_esp [OF demo_layout_ok this, of "Pcb 2" "0x4FFC"] show ?thesis
    by (simp add: demo_blank_def demo_calling_def demo_layout_def MAX_PROCESSES_def)
qed

lemma demo_words:
  "load32 (memory demo_calling) 0x6F04 = 0x200000" "load32 (memory demo_calling) 0x6F08 = 0x200030"
  "load32 (memory demo_calling) 0x4FFC = 0x10BEEF"
  by (simp_all add: demo_calling_def demo_stacks_def load32_other apart_def)

lemma demo_switch_rel: "switch_rel demo_layout {0x6F08, 0x4FFC} demo_blank demo_calling"
proof -
  have "apart (ref_addr demo_layout r + 12) a" if r: "slot_ok True r" and a: "unat a < 0x10000" for r a
  proof (rule apart_nat)
    have "(12::nat) < 24" by simp
    note f = field_addr [OF demo_layout_ok r this]
    have "0x200000 \<le> unat (ref_addr demo_layout r)"
      unfolding unat_ref_addr [OF demo_layout_ok r] by (simp add: demo_layout_def split: pcb_ref.split)
    with f a show "unat (ref_addr demo_layout r + 12) + 4 \<le> unat a
        \<or> unat a + 4 \<le> unat (ref_addr demo_layout r + 12)"
      "unat (ref_addr demo_layout r + 12) + 4 \<le> 2 ^ 32" "unat a + 4 \<le> 2 ^ 32"
      by simp_all
  qed
  then show ?thesis
    using demo_blank_stored by (simp add: switch_rel_def demo_blank_def upd_pcb_def) (simp add: demo_calling_def)
qed

theorem context_switch_refines_witness:
  "eip (exec context_switch_code demo_calling) = 0x10BEEF
   \<and> gpr (exec context_switch_code demo_calling) ESP = 0x5000
   \<and> gpr (exec context_switch_code demo_calling) EBX = 32
   \<and> load32 (memory (exec context_switch_code demo_calling)) (0x200000 + 12) = 0x6F00"
proof -
  have g: "gpr demo_calling ESP = 0x6F00" "gpr demo_calling EBX = 32" by (simp_all add: demo_calling_def)
  have e: "esp (pcbs demo_blank (Pcb 2)) = 0x4FFC" "ram demo_blank = load32 (memory demo_calling)"
    "cpu_esp demo_blank = 0x6F00" by (simp_all add: demo_blank_def upd_pcb_def)
  have s: "slot_ok True (Pcb 0)" "slot_ok True (Pcb 2)" by (simp_all add: MAX_PROCESSES_def)
  have a: "load32 (memory demo_calling) (gpr demo_calling ESP + 4) = ref_addr demo_layout (Pcb 0)"
    "load32 (memory demo_calling) (gpr demo_calling ESP + 8) = ref_addr demo_layout (Pcb 2)"
    using demo_words by (simp_all add: g demo_layout_def)
  note r = context_switch_refines [OF demo_layout_ok demo_switch_rel s a]
  have "switch_rel demo_layout {0x6F08, 0x4FFC} (context_switch (Pcb 0) (Pcb 2) demo_blank)
      (exec context_switch_code demo_calling)"
    and "eip (exec context_switch_code demo_calling) = cpu_eip (context_switch (Pcb 0) (Pcb 2) demo_blank)"
    and "gpr (exec context_switch_code demo_calling) EBX = 32"
    using r by (simp_all add: g e)
  then show ?thesis
    using demo_words(3) s(1) e
    by (auto simp: switch_rel_def kern_stored_def pcb_stored_def Let_def context_switch_def upd_pcb_def
        demo_layout_def dest!: spec [of _ "Pcb 0"])
qed

end
