(* ===== verification/Entry.thy ===== *)
theory Entry
  imports Cpu Vga Pmm
begin

text \<open>
  The entry of the kernel, \<^verbatim>\<open>src/boot.asm\<close>: the Multiboot header, and the code from the boot loader
  to the call of \<^verbatim>\<open>kernel_main\<close>. The address of the boot stack and of \<^verbatim>\<open>kernel_main\<close> are chosen by
  the linker and are parameters.
\<close>

section \<open>The header\<close>

definition MULTIBOOT_MAGIC :: uint32_t where "MULTIBOOT_MAGIC = 0x1BADB002"
definition MULTIBOOT_FLAGS :: uint32_t where "MULTIBOOT_FLAGS = 0"
definition MULTIBOOT_CHECKSUM :: uint32_t where
  "MULTIBOOT_CHECKSUM = - (MULTIBOOT_MAGIC + MULTIBOOT_FLAGS)"
definition MULTIBOOT_BOOTLOADER_MAGIC :: uint32_t where "MULTIBOOT_BOOTLOADER_MAGIC = 0x2BADB002"

definition multiboot_header :: "uint32_t list" where
  "multiboot_header = [MULTIBOOT_MAGIC, MULTIBOOT_FLAGS, MULTIBOOT_CHECKSUM]"

text \<open>What a boot loader accepts: the magic number, flags that ask for nothing it must provide, and
  three words that add up to 0.\<close>

definition header_accepted :: "uint32_t list \<Rightarrow> bool" where
  "header_accepted ws \<longleftrightarrow> length ws = 3 \<and> ws ! 0 = 0x1BADB002 \<and> ws ! 1 AND 0xFFFF = 0
     \<and> sum_list ws = 0"

section \<open>The code\<close>

definition boot_text :: "instr list" where
  "boot_text =
    [MovImm EDI 0xB8000,
     StoreWord EDI 0 0x2F4F, StoreWord EDI 2 0x2F4B, StoreWord EDI 4 0x2F20,
     StoreWord EDI 6 0x2F42, StoreWord EDI 8 0x2F4F, StoreWord EDI 10 0x2F4F,
     StoreWord EDI 12 0x2F54]"

definition bad_text :: "instr list" where
  "bad_text =
    [MovImm EDI 0xB8000,
     StoreWord EDI 0 0x4C42, StoreWord EDI 2 0x4C41, StoreWord EDI 4 0x4C44]"

text \<open>One round of the final loop; further rounds change nothing.\<close>

definition boot_halt :: "instr list" where
  "boot_halt = [Cli, Hlt]"

datatype entry_result = Calls_main cpu | Halted cpu

definition kernel_start :: "uint32_t \<Rightarrow> uint32_t \<Rightarrow> uint32_t \<Rightarrow> cpu \<Rightarrow> entry_result" where
  "kernel_start stack_top kernel_main ret c =
     (let c = exec [CmpImm EAX MULTIBOOT_BOOTLOADER_MAGIC] c
      in if zero_flag c
         then Calls_main (exec ([MovImm ESP stack_top] @ boot_text @ [Push EBX, Call kernel_main ret]) c)
         else Halted (exec (bad_text @ boot_halt) c))"

text \<open>The information structure of the boot loader, as C reads it through a pointer.\<close>

definition read_multiboot_info :: "bytes \<Rightarrow> uint32_t \<Rightarrow> multiboot_info" where
  "read_multiboot_info m a =
    \<lparr> mb_flags = load32 m a, mem_lower = load32 m (a + 4), mem_upper = load32 m (a + 8),
      boot_device = load32 m (a + 12), cmdline = load32 m (a + 16),
      mods_count = load32 m (a + 20), mods_addr = load32 m (a + 24),
      syms = [load32 m (a + 28), load32 m (a + 32), load32 m (a + 36), load32 m (a + 40)],
      mmap_length = load32 m (a + 44), mmap_addr = load32 m (a + 48),
      drives_length = load32 m (a + 52), drives_addr = load32 m (a + 56),
      config_table = load32 m (a + 60), boot_loader_name = load32 m (a + 64),
      apm_table = load32 m (a + 68), vbe_control_info = load32 m (a + 72),
      vbe_mode_info = load32 m (a + 76), vbe_mode = load16 m (a + 80),
      vbe_interface_seg = load16 m (a + 82), vbe_interface_off = load16 m (a + 84),
      vbe_interface_len = load16 m (a + 86) \<rparr>"

section \<open>Facts\<close>

text \<open>Addresses that the entry code does not write: not the seven cells of video memory, not the two
  words on top of the boot stack.\<close>

definition entry_keeps :: "uint32_t \<Rightarrow> uint32_t \<Rightarrow> bool" where
  "entry_keeps stk x \<longleftrightarrow> 14 \<le> unat (x - 0xB8000) \<and> 8 \<le> unat (x - (stk - 8))"

lemma read_multiboot_info_cong:
  assumes "\<And>k. k < 88 \<Longrightarrow> m (a + of_nat k) = n (a + of_nat k)"
  shows "read_multiboot_info m a = read_multiboot_info n a"
proof -
  have l: "load32 m (a + of_nat j) = load32 n (a + of_nat j)" if "j \<le> 84" for j
    using that assms [of j] assms [of "j + 1"] assms [of "j + 2"] assms [of "j + 3"]
    by (simp add: load32_def ac_simps)
  have w: "load16 m (a + of_nat j) = load16 n (a + of_nat j)" if "j \<le> 86" for j
    using that assms [of j] assms [of "j + 1"] by (simp add: load16_def ac_simps)
  show ?thesis
    using l [of 0] l [of 4] l [of 8] l [of 12] l [of 16] l [of 20] l [of 24] l [of 28] l [of 32]
      l [of 36] l [of 40] l [of 44] l [of 48] l [of 52] l [of 56] l [of 60] l [of 64] l [of 68]
      l [of 72] l [of 76] w [of 80] w [of 82] w [of 84] w [of 86]
    by (simp add: read_multiboot_info_def)
qed

lemma upto_cell:
  fixes y :: uint32_t
  assumes "n \<le> unat (y - b)" "i < n"
  shows "y \<noteq> b + of_nat i"
proof
  assume "y = b + of_nat i"
  then have "unat (y - b) \<le> i" by (simp add: unat_of_nat)
  with assms show False by simp
qed

text \<open>The memory at the call.\<close>

lemma kernel_start_main:
  assumes "gpr c EAX = MULTIBOOT_BOOTLOADER_MAGIC"
  obtains f where "kernel_start stk main ret c = Calls_main f" "eip f = main" "gpr f ESP = stk - 8"
    and "gpr f EBX = gpr c EBX" "seg f = seg c"
    and "memory f = store32 (stk - 8) ret (store32 (stk - 4) (gpr c EBX) (memory (exec boot_text c)))"
proof -
  have z: "zero_flag (exec [CmpImm EAX MULTIBOOT_BOOTLOADER_MAGIC] c)"
    using assms by (simp add: zero_flag_def cmp_flags_zero)
  let ?f = "exec ([MovImm ESP stk] @ boot_text @ [Push EBX, Call main ret])
    (exec [CmpImm EAX MULTIBOOT_BOOTLOADER_MAGIC] c)"
  have "kernel_start stk main ret c = Calls_main ?f"
    unfolding kernel_start_def Let_def if_P [OF z] by (rule refl)
  then show ?thesis
    by (rule that) (simp_all add: boot_text_def push32_def Let_def)
qed

lemma boot_text_mem:
  "14 \<le> unat (x - 0xB8000) \<Longrightarrow> memory (exec boot_text c) x = memory c x"
  "i < 7 \<Longrightarrow> load16 (memory (exec boot_text c)) (0xB8000 + 2 * of_nat i) = vga_entry (''OK BOOT'' ! i) 0x2F"
proof -
  assume "14 \<le> unat (x - 0xB8000)"
  note o = upto_cell [OF this]
  show "memory (exec boot_text c) x = memory c x"
    using o [of 0] o [of 1] o [of 2] o [of 3] o [of 4] o [of 5] o [of 6] o [of 7] o [of 8] o [of 9]
      o [of 10] o [of 11] o [of 12] o [of 13]
    by (simp add: boot_text_def store16_def)
next
  have "list_all (\<lambda>i. load16 (memory (exec boot_text c)) (0xB8000 + 2 * of_nat i)
      = vga_entry (''OK BOOT'' ! i) 0x2F) [0..<7]"
    by (simp add: boot_text_def store16_def load16_def vga_entry_def upt_rec)
  then show "load16 (memory (exec boot_text c)) (0xB8000 + 2 * of_nat i) = vga_entry (''OK BOOT'' ! i) 0x2F"
    if "i < 7" using that by (simp add: list_all_iff)
qed

lemma bad_text_mem:
  "6 \<le> unat (x - 0xB8000) \<Longrightarrow> memory (exec bad_text c) x = memory c x"
  "i < 3 \<Longrightarrow> load16 (memory (exec bad_text c)) (0xB8000 + 2 * of_nat i) = vga_entry (''BAD'' ! i) 0x4C"
proof -
  assume "6 \<le> unat (x - 0xB8000)"
  note o = upto_cell [OF this]
  show "memory (exec bad_text c) x = memory c x"
    using o [of 0] o [of 1] o [of 2] o [of 3] o [of 4] o [of 5]
    by (simp add: bad_text_def store16_def)
next
  have "list_all (\<lambda>i. load16 (memory (exec bad_text c)) (0xB8000 + 2 * of_nat i)
      = vga_entry (''BAD'' ! i) 0x4C) [0..<3]"
    by (simp add: bad_text_def store16_def load16_def vga_entry_def upt_rec)
  then show "load16 (memory (exec bad_text c)) (0xB8000 + 2 * of_nat i) = vga_entry (''BAD'' ! i) 0x4C"
    if "i < 3" using that by (simp add: list_all_iff)
qed

section \<open>Properties\<close>

theorem multiboot_header_accepted: "header_accepted multiboot_header"
  by (simp add: header_accepted_def multiboot_header_def MULTIBOOT_CHECKSUM_def MULTIBOOT_MAGIC_def
      MULTIBOOT_FLAGS_def)

text \<open>The two words on the boot stack are all that the call writes.\<close>

lemma two_words_outside:
  assumes x: "8 \<le> unat (x - (stk - 8))"
  shows "store32 (stk - 8) v (store32 (stk - 4) w m) x = m x"
proof -
  define y where "y = x - (stk - 8)"
  have y: "8 \<le> unat y" using x by (simp add: y_def)
  then have "unat (y - 4) = unat y - 4" by (simp add: unat_sub word_le_nat_alt)
  moreover have "x - (stk - 4) = y - 4" by (simp add: y_def)
  ultimately have "4 \<le> unat (x - (stk - 4))" "4 \<le> unat (x - (stk - 8))"
    using y x by (simp_all only:)
  then show ?thesis by (simp add: store32_outside)
qed

text \<open>C10: the entry code calls \<^verbatim>\<open>kernel_main\<close> exactly when the boot loader left the Multiboot magic
  number in \<^verbatim>\<open>EAX\<close>. It then runs on the boot stack, its argument is the pointer in \<^verbatim>\<open>EBX\<close>, the first
  seven cells of the screen read OK BOOT, and of the rest of memory only the two words on top of the
  stack are written, so \<^verbatim>\<open>kernel_main\<close> reads the information structure that the boot loader wrote.
  Otherwise the screen reads BAD, nothing else is written, and the processor halts with
  interrupts masked; the loop around \<^verbatim>\<open>hlt\<close> keeps it there.\<close>

theorem kernel_start_enters:
  assumes "\<And>k. k < 88 \<Longrightarrow> entry_keeps stk (gpr c EBX + of_nat k)"
    and "\<And>j. j < 14 \<Longrightarrow> 8 \<le> unat (0xB8000 + of_nat j - (stk - 8))"
  shows "if gpr c EAX = MULTIBOOT_BOOTLOADER_MAGIC then
      \<exists>f. kernel_start stk main ret c = Calls_main f \<and> eip f = main \<and> gpr f ESP = stk - 8
        \<and> load32 (memory f) (gpr f ESP) = ret \<and> load32 (memory f) (gpr f ESP + 4) = gpr c EBX
        \<and> read_multiboot_info (memory f) (gpr c EBX) = read_multiboot_info (memory c) (gpr c EBX)
        \<and> (\<forall>i < 7. load16 (memory f) (0xB8000 + 2 * of_nat i) = vga_entry (''OK BOOT'' ! i) 0x2F)
        \<and> (\<forall>x. entry_keeps stk x \<longrightarrow> memory f x = memory c x)
    else
      \<exists>f. kernel_start stk main ret c = Halted f \<and> \<not> int_flag f \<and> exec boot_halt f = f
        \<and> (\<forall>i < 3. load16 (memory f) (0xB8000 + 2 * of_nat i) = vga_entry (''BAD'' ! i) 0x4C)
        \<and> (\<forall>x. 6 \<le> unat (x - 0xB8000) \<longrightarrow> memory f x = memory c x)"
proof (cases "gpr c EAX = MULTIBOOT_BOOTLOADER_MAGIC")
  case True
  obtain f where f: "kernel_start stk main ret c = Calls_main f" "eip f = main" "gpr f ESP = stk - 8"
    "memory f = store32 (stk - 8) ret (store32 (stk - 4) (gpr c EBX) (memory (exec boot_text c)))"
    using kernel_start_main [OF True, of stk main ret] by metis
  have out: "memory f x = memory (exec boot_text c) x" if "8 \<le> unat (x - (stk - 8))" for x
    unfolding f(4) by (rule two_words_outside [OF that])
  have keep: "memory f x = memory c x" if "entry_keeps stk x" for x
    using that out [of x] boot_text_mem(1) [of x c] by (simp add: entry_keeps_def)
  have "load32 (memory f) (stk - 4) = gpr c EBX"
    by (simp add: f(4) load32_other apart_def)
  moreover have "load16 (memory f) (0xB8000 + 2 * of_nat i) = vga_entry (''OK BOOT'' ! i) 0x2F"
    if i: "i < 7" for i
    using out [OF assms(2) [of "2 * i"]] out [OF assms(2) [of "2 * i + 1"]] boot_text_mem(2) [OF i, of c] i
    by (simp add: load16_def ac_simps)
  ultimately show ?thesis
    using True f keep read_multiboot_info_cong [of "memory f" "gpr c EBX" "memory c"] assms(1)
    by (intro if_P [THEN iffD2] exI [of _ f]) auto
next
  case False
  have z: "\<not> zero_flag (exec [CmpImm EAX MULTIBOOT_BOOTLOADER_MAGIC] c)"
    using False by (simp add: zero_flag_def cmp_flags_zero)
  let ?d = "exec bad_text (exec [CmpImm EAX MULTIBOOT_BOOTLOADER_MAGIC] c)"
  let ?f = "exec boot_halt ?d"
  have "kernel_start stk main ret c = Halted ?f"
    unfolding kernel_start_def Let_def if_not_P [OF z] by simp
  moreover have "memory ?f = memory (exec bad_text c)"
    by (simp add: boot_halt_def bad_text_def)
  moreover have "\<not> int_flag ?f" by (simp add: boot_halt_def int_flag_def bit_put_flag)
  moreover have "exec boot_halt ?f = ?f" by (simp add: boot_halt_def put_flag_def)
  ultimately show ?thesis
    using False bad_text_mem by (intro if_not_P [THEN iffD2] exI [of _ ?f]) auto
qed

definition demo_grub :: "uint32_t \<Rightarrow> cpu" where
  "demo_grub magic = \<lparr> gpr = (\<lambda>r. if r = EAX then magic else if r = EBX then 0x10000 else 0),
     seg = (\<lambda>s. if s = CS then 8 else 0x10), eflags = 2, eip = 0x10000C,
     memory = store32 0x10000 0x40 (\<lambda>_. 0) \<rparr>"

theorem kernel_start_enters_witness:
  "(\<exists>f. kernel_start 0x110000 0x104000 0x100070 (demo_grub 0x2BADB002) = Calls_main f
      \<and> mb_flags (read_multiboot_info (memory f) 0x10000) = 0x40)
   \<and> (\<exists>f. kernel_start 0x110000 0x104000 0x100070 (demo_grub 0) = Halted f \<and> \<not> int_flag f)"
proof -
  have g: "gpr (demo_grub w) EBX = 0x10000" "gpr (demo_grub w) EAX = w"
    "mb_flags (read_multiboot_info (memory (demo_grub w)) 0x10000) = 0x40" for w
    by (simp_all add: demo_grub_def read_multiboot_info_def)
  have u: "unat (of_nat k + c :: uint32_t) = k + unat c" if "k < 100" "unat c + 100 < 2 ^ 32" for k c
    using that by (simp add: unat_word_ariths unat_of_nat take_bit_eq_mod)
  have k: "entry_keeps 0x110000 (gpr (demo_grub w) EBX + of_nat k)" if "k < 88" for k w
  proof -
    have e: "0x10000 + of_nat k - 0xB8000 = of_nat k + (0xFFF58000 :: uint32_t)"
      "0x10000 + of_nat k - (0x110000 - 8) = of_nat k + (0xFFF00008 :: uint32_t)" by simp_all
    show ?thesis
      unfolding entry_keeps_def g e using that u [of k "0xFFF58000"] u [of k "0xFFF00008"] by simp
  qed
  have j: "8 \<le> unat (0xB8000 + of_nat j - (0x110000 - 8) :: uint32_t)" if "j < 14" for j
  proof -
    have e: "0xB8000 + of_nat j - (0x110000 - 8) = of_nat j + (0xFFFA8008 :: uint32_t)" by simp
    show ?thesis unfolding e using that u [of j "0xFFFA8008"] by simp
  qed
  show ?thesis
    using kernel_start_enters [where stk = "0x110000" and main = "0x104000" and ret = "0x100070"
        and c = "demo_grub 0x2BADB002", OF k j]
      kernel_start_enters [where stk = "0x110000" and main = "0x104000" and ret = "0x100070"
        and c = "demo_grub 0", OF k j]
    by (auto simp: g MULTIBOOT_BOOTLOADER_MAGIC_def)
qed

end
