(* ===== verification/Mutex_Quiet.thy ===== *)
theory Mutex_Quiet
  imports Mutex
begin

text \<open>
  The mutex when no timer interrupt falls inside \<^verbatim>\<open>mutex_lock\<close> and \<^verbatim>\<open>mutex_unlock\<close>: the same
  statements as in the theory \<open>Mutex\<close>, with ticks only where the current thread is outside, about to
  try, or in the critical section. Then a wake-up is never lost. Together with the interleaving that loses
  one this says that the missing protection of the two functions is all that is wrong.
\<close>

section \<open>Undisturbed operations\<close>

fun between_calls :: "mutex_pc \<Rightarrow> bool" where
  "between_calls Outside \<longleftrightarrow> True"
| "between_calls Trying \<longleftrightarrow> True"
| "between_calls Inside \<longleftrightarrow> True"
| "between_calls _ \<longleftrightarrow> False"

fun quiet :: "mutex_action \<Rightarrow> msys \<Rightarrow> bool" where
  "quiet Step s \<longleftrightarrow> (case current_pcb (ker s) of None \<Rightarrow> False | Some c \<Rightarrow> is_thread c)"
| "quiet (Tick e) s \<longleftrightarrow> (case current_pcb (ker s) of None \<Rightarrow> False | Some c \<Rightarrow> between_calls (mpc s c))"

inductive quiet_reach :: "msys \<Rightarrow> msys \<Rightarrow> bool" for s0 where
  start: "quiet_reach s0 s0"
| action: "quiet_reach s0 s \<Longrightarrow> quiet a s \<Longrightarrow> mutex_act a s = Some t \<Longrightarrow> quiet_reach s0 t"

definition asleep :: "msys \<Rightarrow> pcb_ref \<Rightarrow> bool" where
  "asleep s r \<longleftrightarrow> (mpc s r = Yielding \<or> mpc s r = Trying) \<and> state (pcbs (ker s) r) = PROCESS_BLOCKED"

text \<open>In \<^verbatim>\<open>mutex_unlock\<close> behind the release, and there with waiter \<open>i\<close> off the list but not yet awake.\<close>

fun unlocking :: "mutex_pc \<Rightarrow> bool" where
  "unlocking Waking \<longleftrightarrow> True"
| "unlocking Picking \<longleftrightarrow> True"
| "unlocking (Popping w) \<longleftrightarrow> True"
| "unlocking (Erasing i) \<longleftrightarrow> True"
| "unlocking (Readying i) \<longleftrightarrow> True"
| "unlocking _ \<longleftrightarrow> False"

definition rousing :: "nat \<Rightarrow> mutex_pc \<Rightarrow> bool" where
  "rousing i x \<longleftrightarrow> x = Erasing i \<or> x = Readying i"

lemma between_calls_not:
  assumes "between_calls x"
  shows "\<not> unlocking x" "\<not> rousing i x" "x \<notin> {Marking, Linking, Pushing, Yielding}"
  using assms by (cases x; simp add: rousing_def)+

lemma rousing_unlocking: "rousing i x \<Longrightarrow> unlocking x"
  by (auto simp: rousing_def)

lemma rousing_simps [simp]:
  "rousing i (Erasing j) \<longleftrightarrow> j = i" "rousing i (Readying j) \<longleftrightarrow> j = i"
  "\<not> rousing i Outside" "\<not> rousing i Trying" "\<not> rousing i Marking" "\<not> rousing i Linking"
  "\<not> rousing i Pushing" "\<not> rousing i Yielding" "\<not> rousing i Inside" "\<not> rousing i Waking"
  "\<not> rousing i Picking" "\<not> rousing i (Popping w)"
  by (auto simp: rousing_def)

text \<open>
  The invariant: the threads asleep in \<^verbatim>\<open>mutex_lock\<close> are those on the wait list and the one that is
  being woken; only the current thread is inside one of the functions, and what it holds in the
  local variable is the first waiter; and when somebody waits, the mutex is held, or its
  holder is about to wake a waiter, or a thread that is awake is about to try.
\<close>

definition calm_run :: "msys \<Rightarrow> bool" where
  "calm_run s \<longleftrightarrow> (\<exists>c d. current_pcb (ker s) = Some c \<and> idle_pcb (ker s) = Some (Pcb d)
     \<and> (\<forall>r. r \<noteq> c \<longrightarrow> between_calls (mpc s r))
     \<and> state (pcbs (ker s) c) = (if mpc s c \<in> {Linking, Pushing, Yielding} then PROCESS_BLOCKED
                                 else PROCESS_RUNNING))"

definition progress :: "msys \<Rightarrow> bool" where
  "progress s \<longleftrightarrow> lock (mtx s) \<noteq> 0
     \<or> (\<exists>r. unlocking (mpc s r) \<or> mpc s r = Trying \<and> state (pcbs (ker s) r) \<noteq> PROCESS_BLOCKED)"

definition calm_list :: "msys \<Rightarrow> nat list \<Rightarrow> bool" where
  "calm_list s ws \<longleftrightarrow> wait_list (tcbs (ker s)) (waiters (mtx s)) ws
     \<and> (\<forall>i. asleep s (Tcb i) \<longleftrightarrow> i \<in> set ws \<or> (\<exists>r. rousing i (mpc s r)))
     \<and> (\<forall>i \<in> set ws. \<forall>r. \<not> rousing i (mpc s r))
     \<and> (\<forall>i. mpc s (Tcb i) = Pushing \<longrightarrow> wait_next (tcbs (ker s) i) = waiters (mtx s))
     \<and> (\<forall>r. mpc s r = Picking \<longrightarrow> ws \<noteq> [])
     \<and> (\<forall>r v. mpc s r = Popping v \<longrightarrow> (\<exists>w us. v = Some w \<and> ws = w # us))"

definition calm :: "msys \<Rightarrow> pcb_ref list \<Rightarrow> nat list \<Rightarrow> bool" where
  "calm s xs ws \<longleftrightarrow> msys_inv s xs \<and> exclusive s \<and> calm_run s \<and> calm_list s ws
     \<and> (\<forall>i. mpc s (Pcb i) = Outside) \<and> (\<forall>r. mpc s r \<noteq> Outside \<longrightarrow> r \<in> set xs)
     \<and> (\<forall>r. mpc s r \<in> {Marking, Linking, Pushing, Yielding} \<longrightarrow> lock (mtx s) \<noteq> 0)
     \<and> (ws \<noteq> [] \<longrightarrow> progress s)"

lemma calm_first:
  assumes "calm_list s ws"
  shows "waiters (mtx s) = (case ws of [] \<Rightarrow> None | w # us \<Rightarrow> Some w)"
  using assms by (cases ws) (simp_all add: calm_list_def)

section \<open>The processor goes to another thread\<close>

lemma choice_not_blocked:
  assumes "kern_inv k xs" "current_pcb k = Some c" "idle_pcb k = Some (Pcb d)"
    and "sched_choice k xs c (Pcb d) = Tcb i"
  shows "state (pcbs k (Tcb i)) = PROCESS_READY"
  using assms(4) by (auto simp: sched_choice_def ready_def split: option.splits dest: find_Some_in)

text \<open>A switch from \<open>c\<close> to \<open>n\<close> puts nobody to sleep and wakes nobody.\<close>

lemma switch_to_blocked:
  assumes "n \<noteq> c" "is_thread n \<longrightarrow> state (pcbs k n) \<noteq> PROCESS_BLOCKED"
  shows "state (pcbs (switch_to c n k) (Tcb i)) = PROCESS_BLOCKED
    \<longleftrightarrow> state (pcbs k (Tcb i)) = PROCESS_BLOCKED"
  using assms by (auto simp: switch_to_def)

lemma calm_current:
  assumes "calm s xs ws" "current_pcb (ker s) = Some c"
  shows "c \<in> set xs" "\<And>r. r \<noteq> c \<Longrightarrow> between_calls (mpc s r)"
    and "state (pcbs (ker s) c) = (if mpc s c \<in> {Linking, Pushing, Yielding} then PROCESS_BLOCKED
          else PROCESS_RUNNING)"
    and "\<exists>d. idle_pcb (ker s) = Some (Pcb d)"
  using assms by (auto simp: calm_def calm_run_def msys_inv_def kern_inv_def run_ok_def)

text \<open>With only \<open>c\<close> inside a call, what holds of all places is a matter of its place.\<close>

lemma rousing_current:
  assumes "\<And>r. r \<noteq> c \<Longrightarrow> between_calls (mpc s r)"
  shows "(\<exists>r. rousing i (mpc s r)) \<longleftrightarrow> rousing i (mpc s c)"
  using assms between_calls_not(2) [of "mpc s _" i] by metis

lemma calm_list_current:
  assumes "\<And>r. r \<noteq> c \<Longrightarrow> between_calls (mpc s r)"
  shows "calm_list s ws \<longleftrightarrow> wait_list (tcbs (ker s)) (waiters (mtx s)) ws
     \<and> (\<forall>i. asleep s (Tcb i) \<longleftrightarrow> i \<in> set ws \<or> rousing i (mpc s c))
     \<and> (\<forall>i \<in> set ws. \<not> rousing i (mpc s c))
     \<and> (\<forall>i. c = Tcb i \<longrightarrow> mpc s c = Pushing \<longrightarrow> wait_next (tcbs (ker s) i) = waiters (mtx s))
     \<and> (mpc s c = Picking \<longrightarrow> ws \<noteq> [])
     \<and> (\<forall>v. mpc s c = Popping v \<longrightarrow> (\<exists>w us. v = Some w \<and> ws = w # us))"
proof -
  have quiet: "mpc s r \<noteq> Picking" "mpc s r \<noteq> Pushing" "mpc s r \<noteq> Popping v" if "r \<noteq> c" for r v
    using assms [OF that] by auto
  have "(\<forall>r. mpc s r = Picking \<longrightarrow> ws \<noteq> []) \<longleftrightarrow> (mpc s c = Picking \<longrightarrow> ws \<noteq> [])"
    using quiet(1) by metis
  moreover have "(\<forall>i. mpc s (Tcb i) = Pushing \<longrightarrow> wait_next (tcbs (ker s) i) = waiters (mtx s))
      \<longleftrightarrow> (\<forall>i. c = Tcb i \<longrightarrow> mpc s c = Pushing \<longrightarrow> wait_next (tcbs (ker s) i) = waiters (mtx s))"
    using quiet(2) by metis
  moreover have "(\<forall>r v. mpc s r = Popping v \<longrightarrow> (\<exists>w us. v = Some w \<and> ws = w # us))
      \<longleftrightarrow> (\<forall>v. mpc s c = Popping v \<longrightarrow> (\<exists>w us. v = Some w \<and> ws = w # us))"
    using quiet(3) by metis
  moreover have "(\<forall>i \<in> set ws. \<forall>r. \<not> rousing i (mpc s r)) \<longleftrightarrow> (\<forall>i \<in> set ws. \<not> rousing i (mpc s c))"
    using rousing_current [OF assms] by metis
  moreover have "(\<exists>r. rousing i (mpc s r)) \<longleftrightarrow> rousing i (mpc s c)" for i
    by (rule rousing_current) (rule assms)
  ultimately show ?thesis unfolding calm_list_def by simp
qed

text \<open>One place for all that a statement of \<open>c\<close> has to show.\<close>

lemma calmI:
  assumes calm: "calm s xs ws" and c: "current_pcb (ker s) = Some c" "is_thread c"
    and t: "msys_inv t xs" "exclusive t" "mpc t = (mpc s)(c := x)"
    and kern: "current_pcb (ker t) = Some c" "idle_pcb (ker t) = idle_pcb (ker s)"
      "state (pcbs (ker t) c) = (if x \<in> {Linking, Pushing, Yielding} then PROCESS_BLOCKED else PROCESS_RUNNING)"
    and lock: "x \<in> {Marking, Linking, Pushing, Yielding} \<Longrightarrow> lock (mtx t) \<noteq> 0"
    and list: "wait_list (tcbs (ker t)) (waiters (mtx t)) us"
      "\<And>i. asleep t (Tcb i) \<longleftrightarrow> i \<in> set us \<or> rousing i x" "\<And>i. i \<in> set us \<Longrightarrow> \<not> rousing i x"
      "\<And>i. c = Tcb i \<Longrightarrow> x = Pushing \<Longrightarrow> wait_next (tcbs (ker t) i) = waiters (mtx t)"
      "x = Picking \<Longrightarrow> us \<noteq> []" "\<And>v. x = Popping v \<Longrightarrow> \<exists>w vs. v = Some w \<and> us = w # vs"
    and prog: "us \<noteq> [] \<Longrightarrow> progress t"
  shows "calm t xs us"
proof -
  note cur = calm_current [OF calm c(1)]
  have b: "between_calls (mpc t r)" if "r \<noteq> c" for r using cur(2) [OF that] that by (simp add: t(3))
  have "calm_run t" using b kern cur(4) by (auto simp: calm_run_def t(3))
  moreover have "calm_list t us"
    using list by (simp add: calm_list_current [of c t, OF b]) (simp add: t(3))
  moreover have "mpc t (Pcb i) = Outside" for i using calm c(2) by (cases c) (auto simp: calm_def t(3))
  moreover have "r \<in> set xs" if "mpc t r \<noteq> Outside" for r
    using that calm cur(1) by (cases "r = c") (auto simp: calm_def t(3))
  moreover have "lock (mtx t) \<noteq> 0" if "mpc t r \<in> {Marking, Linking, Pushing, Yielding}" for r
  proof (cases "r = c")
    case True
    with that lock show ?thesis by (simp add: t(3))
  next
    case False
    with b between_calls_not(3) that show ?thesis by blast
  qed
  ultimately show ?thesis using t(1,2) prog by (simp add: calm_def)
qed

text \<open>A statement of \<open>c\<close> that leaves the kernel and the wait list alone.\<close>

lemma calm_local:
  assumes calm: "calm s xs ws" and c: "current_pcb (ker s) = Some c" "is_thread c"
    and t: "t = s\<lparr>mtx := (mtx s)\<lparr>lock := l\<rparr>, mpc := (mpc s)(c := x)\<rparr>" "msys_inv t xs" "exclusive t"
    and pc: "mpc s c \<in> {Outside, Trying, Inside, Waking, Picking}"
      "x \<in> {Outside, Trying, Marking, Inside, Waking, Picking} \<union> range Popping"
    and prog: "ws \<noteq> [] \<Longrightarrow> l = 0 \<Longrightarrow> x = Trying \<or> unlocking x" "x = Marking \<Longrightarrow> l \<noteq> 0"
      "x = Picking \<Longrightarrow> ws \<noteq> []" "\<And>v. x = Popping v \<Longrightarrow> \<exists>w vs. v = Some w \<and> ws = w # vs"
  shows "calm t xs ws"
proof -
  note cur = calm_current [OF calm c(1)]
  have run: "state (pcbs (ker s) c) = PROCESS_RUNNING" using cur(3) pc(1) by auto
  have x: "x \<notin> {Linking, Pushing, Yielding}" "\<not> rousing i x" "\<not> rousing i (mpc s c)" for i
    using pc by auto
  have sleep: "asleep t r = asleep s r" for r
    using run pc by (auto simp: asleep_def t(1))
  have list: "wait_list (tcbs (ker s)) (waiters (mtx s)) ws" "\<forall>i. asleep s (Tcb i) \<longleftrightarrow> i \<in> set ws"
    using calm calm_list_current [of c s ws, OF cur(2)] x(3) by (simp_all add: calm_def)
  show ?thesis
  proof (rule calmI [OF calm c t(2,3)])
    show "progress t" if "ws \<noteq> []"
      using prog(1) [OF that] run by (auto simp: progress_def t(1) intro!: exI [of _ c])
  qed (use x run prog(2-4) c(1) list sleep in \<open>auto simp: t(1)\<close>)
qed

text \<open>The processor goes from \<open>c\<close>, asleep or not, to another one that is not asleep.\<close>

lemma calm_switch:
  assumes calm: "calm s xs ws" and c: "current_pcb (ker s) = Some c"
    and n: "n \<noteq> c" "is_thread n \<longrightarrow> state (pcbs (ker s) n) \<noteq> PROCESS_BLOCKED"
    and t: "t = s\<lparr>ker := switch_to c n ((ker s)\<lparr>cpu_esp := e\<rparr>), mpc := (mpc s)(c := x)\<rparr>"
      "msys_inv t xs" "exclusive t"
    and pc: "mpc s c = x \<and> between_calls x \<or> mpc s c = Yielding \<and> x = Trying"
  shows "calm t xs ws"
proof -
  note cur = calm_current [OF calm c]
  have blocked: "state (pcbs (ker t) (Tcb i)) = PROCESS_BLOCKED
      \<longleftrightarrow> state (pcbs (ker s) (Tcb i)) = PROCESS_BLOCKED" for i
    using switch_to_blocked [of n c "(ker s)\<lparr>cpu_esp := e\<rparr>" i] n by (simp add: t(1))
  have sleep: "asleep t (Tcb i) = asleep s (Tcb i)" for i
    using pc by (auto simp: asleep_def blocked) (auto simp: t(1) split: if_splits)
  have b: "between_calls (mpc t r)" for r using cur(2) [of r] pc by (auto simp: t(1))
  have x: "between_calls x" "\<not> rousing i (mpc s c)" for i using pc between_calls_not(2) by auto
  have list: "wait_list (tcbs (ker s)) (waiters (mtx s)) ws" "\<forall>i. asleep s (Tcb i) \<longleftrightarrow> i \<in> set ws"
    using calm calm_list_current [of c s ws, OF cur(2)] x(2) by (simp_all add: calm_def)
  have "x \<noteq> Picking" "x \<noteq> Pushing" "\<forall>v. x \<noteq> Popping v" using x(1) by auto
  then have "calm_list t ws"
    using list sleep between_calls_not(2) [OF x(1)]
    by (simp add: calm_list_current [of c t, OF b]) (simp add: t(1) switch_to_def)
  moreover have "mpc t n \<notin> {Linking, Pushing, Yielding}"
    using between_calls_not(3) [OF b [of n]] by blast
  then have "calm_run t" using b cur(4) n(1) by (auto simp: calm_run_def t(1) switch_to_def)
  moreover have "mpc t (Pcb i) = Outside" for i using calm pc by (auto simp: calm_def t(1))
  moreover have "mpc t r \<noteq> Outside \<longrightarrow> r \<in> set xs" for r using calm cur(1) by (auto simp: calm_def t(1))
  moreover have "mpc t r \<notin> {Marking, Linking, Pushing, Yielding}" for r
    by (rule between_calls_not(3) [OF b])
  moreover have "progress t" if "ws \<noteq> []"
  proof (cases "lock (mtx s) = 0")
    case False
    then show ?thesis by (simp add: progress_def t(1))
  next
    case True
    with calm that obtain r where
      r: "unlocking (mpc s r) \<or> mpc s r = Trying \<and> state (pcbs (ker s) r) \<noteq> PROCESS_BLOCKED"
      by (auto simp: calm_def progress_def)
    have y: "mpc s c \<noteq> Yielding" using calm True by (auto simp: calm_def)
    then have "between_calls (mpc s r)" using cur(2) [of r] pc by (cases "r = c") auto
    from between_calls_not(1) [OF this] r have "mpc s r = Trying" by blast
    moreover from this calm obtain i where "r = Tcb i" by (cases r) (auto simp: calm_def)
    ultimately show ?thesis using r blocked [of i] pc y
      by (auto simp: progress_def t(1) intro!: exI [of _ r])
  qed
  ultimately show ?thesis using t(2,3) by (simp add: calm_def)
qed

text \<open>The statements of \<^verbatim>\<open>mutex_lock\<close> behind a failed exchange.\<close>

lemma calm_wait:
  assumes calm: "calm s xs ws" and c: "current_pcb (ker s) = Some c" "is_thread c"
    and step: "mutex_step c s = Some t" "mpc s c \<in> {Marking, Linking, Pushing}"
    and t: "msys_inv t xs" "exclusive t"
  shows "\<exists>ws'. calm t xs ws'"
proof -
  note cur = calm_current [OF calm c(1)]
  obtain i where i: "c = Tcb i" using c(2) by (cases c) auto
  have l: "lock (mtx s) \<noteq> 0" using calm step(2) by (auto simp: calm_def)
  have "\<not> rousing j (mpc s c)" for j using step(2) by auto
  then have list: "wait_list (tcbs (ker s)) (waiters (mtx s)) ws" "\<And>j. asleep s (Tcb j) \<longleftrightarrow> j \<in> set ws"
    using calm calm_list_current [of c s ws, OF cur(2)] by (simp_all add: calm_def)
  have "\<not> asleep s c" using step(2) by (auto simp: asleep_def)
  then have i_out: "i \<notin> set ws" using list(2) i by simp
  note I = calmI [OF calm c t]
  consider "mpc s c = Marking" | "mpc s c = Linking" | "mpc s c = Pushing" using step(2) by blast
  then show ?thesis
  proof cases
    case 1
    then have u: "t = s\<lparr>ker := mark_blocked c (ker s), mpc := (mpc s)(c := Linking)\<rparr>"
      using step(1) by (simp add: mutex_step.simps)
    have sleep: "asleep t r = asleep s r" for r
      using cur(3) 1 by (auto simp: asleep_def u mark_blocked_def upd_pcb_def)
    have "calm t xs ws"
      by (rule I [of Linking ws]) (use list sleep l c(1) in \<open>auto simp: progress_def u mark_blocked_def\<close>)
    then show ?thesis by blast
  next
    case 2
    then have u: "t = s\<lparr>ker := upd_tcb i (\<lambda>t. t\<lparr>wait_next := waiters (mtx s)\<rparr>) (ker s), mpc := (mpc s)(c := Pushing)\<rparr>"
      using step(1) i by (simp add: mutex_step.simps)
    have sleep: "asleep t r = asleep s r" for r using 2 by (auto simp: asleep_def u)
    have wl: "wait_list (tcbs (ker t)) (waiters (mtx t)) ws"
      using list(1) i_out by (simp add: u upd_tcb_def wait_list_upd)
    have "calm t xs ws"
      by (rule I [of Pushing ws]) (use list(2) wl sleep l c(1) cur(3) 2 i in \<open>auto simp: progress_def u\<close>)
    then show ?thesis by blast
  next
    case 3
    then have u: "t = s\<lparr>mtx := (mtx s)\<lparr>waiters := Some i\<rparr>, mpc := (mpc s)(c := Yielding)\<rparr>"
      using step(1) i by (simp add: mutex_step.simps)
    have linked: "wait_next (tcbs (ker s) i) = waiters (mtx s)" using calm 3 i by (simp add: calm_def calm_list_def)
    have sleep: "asleep t r \<longleftrightarrow> r = c \<or> asleep s r" for r
      using cur(3) 3 by (auto simp: asleep_def u)
    have wl: "wait_list (tcbs (ker t)) (waiters (mtx t)) (i # ws)"
      using list(1) linked by (simp add: u)
    have "calm t xs (i # ws)"
      by (rule I [of Yielding "i # ws"])
        (use list(2) wl sleep l c(1) cur(3) 3 i in \<open>auto simp: progress_def u\<close>)
    then show ?thesis by blast
  qed
qed

text \<open>The statements of \<^verbatim>\<open>mutex_unlock\<close> with the waiter in hand.\<close>

lemma calm_wake:
  assumes calm: "calm s xs ws" and c: "current_pcb (ker s) = Some c" "is_thread c"
    and step: "mutex_step c s = Some t" "mpc s c \<in> range Popping \<union> range Erasing \<union> range Readying"
    and t: "msys_inv t xs" "exclusive t"
  shows "\<exists>ws'. calm t xs ws'"
proof -
  note cur = calm_current [OF calm c(1)]
  have run: "state (pcbs (ker s) c) = PROCESS_RUNNING" using cur(3) step(2) by auto
  have cl: "calm_list s ws" using calm by (simp add: calm_def)
  note list = iffD1 [OF calm_list_current [of c s ws, OF cur(2)] cl]
  note I = calmI [OF calm c t]
  show ?thesis
  proof (cases "mpc s c")
    case (Popping v)
    then obtain w us where w: "v = Some w" "ws = w # us" using list by blast
    have u: "t = s\<lparr>mtx := (mtx s)\<lparr>waiters := wait_next (tcbs (ker s) w)\<rparr>, mpc := (mpc s)(c := Erasing w)\<rparr>"
      using step(1) Popping w(1) by (simp add: mutex_step.simps)
    have wl: "wait_list (tcbs (ker s)) (waiters (mtx s)) (w # us)" using list w(2) by simp
    then have out: "w \<notin> set us" using wait_list_head [of "tcbs (ker s)" w us] by simp
    have sleep: "asleep t r = asleep s r" for r using Popping by (auto simp: asleep_def u)
    have "calm t xs us"
      by (rule I [of "Erasing w" us])
        (use list wl w out sleep run c(1) Popping in \<open>auto simp: u progress_def intro!: exI [of _ c]\<close>)
    then show ?thesis by blast
  next
    case (Erasing w)
    then have u: "t = s\<lparr>ker := upd_tcb w (\<lambda>t. t\<lparr>wait_next := None\<rparr>) (ker s), mpc := (mpc s)(c := Readying w)\<rparr>"
      using step(1) by (simp add: mutex_step.simps)
    have out: "w \<notin> set ws" using list Erasing by auto
    then have wl: "wait_list (tcbs (ker t)) (waiters (mtx t)) ws"
      using list by (simp add: u upd_tcb_def wait_list_upd)
    have sleep: "asleep t r = asleep s r" for r using Erasing by (auto simp: asleep_def u)
    have "calm t xs ws"
      by (rule I [of "Readying w" ws])
        (use list wl out sleep run c(1) Erasing in \<open>auto simp: u progress_def intro!: exI [of _ c]\<close>)
    then show ?thesis by blast
  next
    case (Readying w)
    then have u: "t = s\<lparr>ker := upd_pcb (Tcb w) (\<lambda>c. c\<lparr>state := PROCESS_READY\<rparr>) (ker s), mpc := (mpc s)(c := Outside)\<rparr>"
      using step(1) by (simp add: mutex_step.simps)
    have "asleep s (Tcb w)" using list Readying by simp
    moreover from this have wc: "Tcb w \<noteq> c" using run by (auto simp: asleep_def)
    ultimately have "mpc s (Tcb w) = Trying" using cur(2) [of "Tcb w"] by (auto simp: asleep_def)
    then have awake: "mpc t (Tcb w) = Trying" "state (pcbs (ker t) (Tcb w)) \<noteq> PROCESS_BLOCKED"
      using wc by (simp_all add: u)
    have out: "w \<notin> set ws" using list Readying by auto
    have sleep: "asleep t r \<longleftrightarrow> r \<noteq> Tcb w \<and> asleep s r" for r
      using Readying wc by (auto simp: asleep_def u upd_pcb_def)
    have members: "asleep t (Tcb i) \<longleftrightarrow> i \<in> set ws" for i
      using list Readying out by (auto simp: sleep)
    have "progress t" using awake by (auto simp: progress_def)
    moreover have "state (pcbs (ker t) c) = PROCESS_RUNNING" using run wc by (simp add: u upd_pcb_def)
    ultimately have "calm t xs ws"
      by (intro I [of Outside ws]) (use list members c(1) in \<open>auto simp: u\<close>)
    then show ?thesis by blast
  qed (use step(2) in auto)
qed

lemma calm_step:
  assumes calm: "calm s xs ws" and c: "current_pcb (ker s) = Some c" "is_thread c"
    and step: "mutex_step c s = Some t"
  shows "\<exists>ws'. calm t xs ws'"
proof -
  note cur = calm_current [OF calm c(1)]
  have inv: "msys_inv s xs" "exclusive s" "calm_list s ws" using calm by (simp_all add: calm_def)
  have t: "msys_inv t xs" "exclusive t"
    using mutex_step_inv [OF inv(1) c(1) step] mutex_step_exclusive [OF inv(2) step] by simp_all
  note local = calm_local [OF calm c _ t]
  have same: "s\<lparr>mtx := (mtx s)\<lparr>lock := lock (mtx s)\<rparr>, mpc := f\<rparr> = s\<lparr>mpc := f\<rparr>" for f by simp
  show ?thesis
  proof (cases "mpc s c")
    case Outside
    have "t = s\<lparr>mtx := (mtx s)\<lparr>lock := lock (mtx s)\<rparr>, mpc := (mpc s)(c := Trying)\<rparr>"
      using step Outside by (simp add: mutex_step.simps)
    from local [OF this] Outside show ?thesis by auto
  next
    case Trying
    have "t = s\<lparr>mtx := (mtx s)\<lparr>lock := 1\<rparr>,
        mpc := (mpc s)(c := (if lock (mtx s) = 0 then Inside else Marking))\<rparr>"
      using step Trying by (auto simp: mutex_step.simps test_and_set_def)
    from local [OF this] Trying show ?thesis by (cases "lock (mtx s) = 0") auto
  next
    case Inside
    have "t = s\<lparr>mtx := (mtx s)\<lparr>lock := 0\<rparr>, mpc := (mpc s)(c := Waking)\<rparr>"
      using step Inside by (simp add: mutex_step.simps)
    from local [OF this] Inside show ?thesis by auto
  next
    case Waking
    have "t = s\<lparr>mtx := (mtx s)\<lparr>lock := lock (mtx s)\<rparr>,
        mpc := (mpc s)(c := (if ws = [] then Outside else Picking))\<rparr>"
      using step Waking calm_first [OF inv(3)] by (auto simp: mutex_step.simps split: list.splits)
    from local [OF this] Waking show ?thesis by (cases "ws = []") auto
  next
    case Picking
    obtain w us where w: "ws = w # us" using inv(3) Picking by (cases ws) (auto simp: calm_list_def)
    have "t = s\<lparr>mtx := (mtx s)\<lparr>lock := lock (mtx s)\<rparr>, mpc := (mpc s)(c := Popping (Some w))\<rparr>"
      using step Picking calm_first [OF inv(3)] w by (simp add: mutex_step.simps)
    from local [OF this] Picking w show ?thesis by auto
  next
    case Yielding
    obtain d where d: "idle_pcb (ker s) = Some (Pcb d)" using cur(4) by blast
    have k: "kern_inv (ker s) xs" using inv(1) by (simp add: msys_inv_def)
    let ?n = "sched_choice (ker s) xs c (Pcb d)"
    have n: "is_thread ?n \<longrightarrow> state (pcbs (ker s) ?n) = PROCESS_READY"
      using choice_not_blocked [OF k c(1) d] by (cases ?n) auto
    have "state (pcbs (ker s) c) = PROCESS_BLOCKED" using cur(3) Yielding by simp
    then have ne: "?n \<noteq> c" using n c(2) by auto
    have "queue (ker s) xs" using k by (simp add: kern_inv_def core_inv_def)
    from schedule_eq [OF this c(1) d cur(1)] ne Yielding step
    have "t = s\<lparr>ker := switch_to c ?n (ker s), mpc := (mpc s)(c := Trying)\<rparr>"
      by (auto simp: mutex_step.simps)
    then have "t = s\<lparr>ker := switch_to c ?n ((ker s)\<lparr>cpu_esp := cpu_esp (ker s)\<rparr>),
        mpc := (mpc s)(c := Trying)\<rparr>" by simp
    from calm_switch [OF calm c(1) ne _ this t] n Yielding show ?thesis by auto
  qed (use calm_wait [OF calm c step _ t] calm_wake [OF calm c step _ t] in auto)
qed

lemma calm_tick:
  assumes calm: "calm s xs ws" and q: "quiet (Tick e) s" and act: "mutex_act (Tick e) s = Some t"
  shows "calm t xs ws"
proof -
  obtain c where c: "current_pcb (ker s) = Some c" "between_calls (mpc s c)"
    using q by (auto split: option.splits)
  note cur = calm_current [OF calm c(1)]
  obtain d where d: "idle_pcb (ker s) = Some (Pcb d)" using cur(4) by blast
  have inv: "msys_inv s xs" "exclusive s" "kern_inv (ker s) xs"
    using calm by (simp_all add: calm_def msys_inv_def)
  have t: "msys_inv t xs" "exclusive t"
    using mutex_act_inv [OF inv(1) act] mutex_act_exclusive [OF inv(2) act] by simp_all
  let ?n = "sched_choice (ker s) xs c (Pcb d)"
  have u: "t = s\<lparr>ker := (if ?n = c then (ker s)\<lparr>cpu_esp := e\<rparr> else switch_to c ?n ((ker s)\<lparr>cpu_esp := e\<rparr>))\<rparr>"
    using act tick_spec [OF inv(3) c(1) d, of e] by simp
  show ?thesis
  proof (cases "?n = c")
    case True
    then have v: "t = s\<lparr>ker := (ker s)\<lparr>cpu_esp := e\<rparr>\<rparr>" using u by simp
    have "calm_run t = calm_run s" "calm_list t ws = calm_list s ws" "progress t = progress s"
      by (simp_all add: calm_run_def calm_list_def asleep_def progress_def v)
    then show ?thesis using calm t by (simp add: calm_def) (simp add: v)
  next
    case False
    have n: "is_thread ?n \<longrightarrow> state (pcbs (ker s) ?n) = PROCESS_READY"
      using choice_not_blocked [OF inv(3) c(1) d] by (cases ?n) auto
    have "t = s\<lparr>ker := switch_to c ?n ((ker s)\<lparr>cpu_esp := e\<rparr>), mpc := (mpc s)(c := mpc s c)\<rparr>"
      using u False by simp
    from calm_switch [OF calm c(1) False _ this t] n c(2) show ?thesis by auto
  qed
qed

lemma quiet_reach_calm: "quiet_reach s0 s \<Longrightarrow> calm s0 xs ws0 \<Longrightarrow> \<exists>ws. calm s xs ws"
proof (induction rule: quiet_reach.induct)
  case (action s a t)
  then obtain ws where ws: "calm s xs ws" by blast
  show ?case
  proof (cases a)
    case Step
    with action.hyps(2,3) obtain c where "current_pcb (ker s) = Some c" "is_thread c" "mutex_step c s = Some t"
      by (auto simp: bind_eq_Some_conv)
    then show ?thesis using calm_step [OF ws] by blast
  next
    case (Tick e)
    with action.hyps(2,3) calm_tick [OF ws] show ?thesis by blast
  qed
qed blast

section \<open>Properties\<close>

text \<open>C11: when no timer interrupt falls inside \<^verbatim>\<open>mutex_lock\<close> and \<^verbatim>\<open>mutex_unlock\<close>, no wake-up is lost,
  whatever the threads do and whenever the scheduler switches between them: a thread that is
  asleep in \<^verbatim>\<open>mutex_lock\<close> is on the wait list or just being woken, nobody else is on it, and as long as
  somebody sleeps the mutex is held, or its holder is inside \<^verbatim>\<open>mutex_unlock\<close>, or a thread that is awake is
  about to try.\<close>

theorem mutex_quiet_no_lost_wakeup:
  assumes "msys_inv s0 xs" "exclusive s0" "calm_run s0" "\<forall>r. mpc s0 r = Outside"
    and "waiters (mtx s0) = None" "quiet_reach s0 s"
  shows "\<exists>ws. wait_list (tcbs (ker s)) (waiters (mtx s)) ws
    \<and> (\<forall>i. asleep s (Tcb i) \<longleftrightarrow> i \<in> set ws \<or> (\<exists>r. rousing i (mpc s r)))
    \<and> (\<forall>i \<in> set ws. \<forall>r. \<not> rousing i (mpc s r))
    \<and> ((\<exists>i. asleep s (Tcb i)) \<longrightarrow> (\<exists>r. mpc s r = Inside \<or> unlocking (mpc s r)
         \<or> mpc s r = Trying \<and> is_runnable (ker s) r))"
proof -
  have "calm s0 xs []" using assms(1-5) by (simp add: calm_def calm_list_def asleep_def)
  from quiet_reach_calm [OF assms(6) this] obtain ws where ws: "calm s xs ws" by blast
  then have list: "calm_list s ws" by (simp add: calm_def)
  have run: "is_runnable (ker s) r" if "mpc s r = Trying" "state (pcbs (ker s) r) \<noteq> PROCESS_BLOCKED" for r
  proof -
    have "r \<in> live (ker s)"
      using ws that(1) by (auto simp: calm_def msys_inv_def kern_inv_def core_inv_def)
    then have "state (pcbs (ker s) r) \<noteq> PROCESS_DEAD" by (simp add: live_def)
    with that(2) show ?thesis by (cases "state (pcbs (ker s) r)") (auto simp: is_runnable_def)
  qed
  have held: "\<exists>r. mpc s r = Inside" if "lock (mtx s) \<noteq> 0"
    using ws that by (auto simp: calm_def exclusive_def)
  have "\<exists>r. mpc s r = Inside \<or> unlocking (mpc s r) \<or> mpc s r = Trying \<and> is_runnable (ker s) r"
    if "asleep s (Tcb i)" for i
  proof (cases "i \<in> set ws")
    case True
    then have "progress s" using ws by (auto simp: calm_def)
    with run held show ?thesis unfolding progress_def by blast
  next
    case False
    with that list have "\<exists>r. rousing i (mpc s r)" by (simp add: calm_list_def)
    with rousing_unlocking show ?thesis by blast
  qed
  with list show ?thesis unfolding calm_list_def by blast
qed

text \<open>Thread 0 holds the mutex when the timer lets thread 5 try and fall asleep; after the unlock
  thread 5 is awake.\<close>

lemma duel_calm: "calm_run (duel demo_pmm)"
  by (simp add: calm_run_def duel_def duel_kern_def demo_pcb_def)

fun quiet_acts :: "mutex_action list \<Rightarrow> msys \<Rightarrow> msys option" where
  "quiet_acts [] s = Some s"
| "quiet_acts (a # as) s = (if quiet a s then Option.bind (mutex_act a s) (quiet_acts as) else None)"

lemma quiet_acts_reach: "quiet_acts as s = Some t \<Longrightarrow> quiet_reach s0 s \<Longrightarrow> quiet_reach s0 t"
  by (induction as arbitrary: s) (auto simp: bind_eq_Some_conv split: if_splits intro: quiet_reach.action)

definition quiet_duel :: "mutex_action list" where
  "quiet_duel = [Step, Step, Tick 0x6F00, Step, Step] @ replicate 4 Step @ [Tick 0x4F00] @ replicate 6 Step"

lemma quiet_duel_run:
  "map_option (\<lambda>s. (waiters (mtx s), mpc s (Tcb 0), mpc s (Tcb 5), state (pcbs (ker s) (Tcb 5))))
     (quiet_acts quiet_duel (duel m)) = Some (None, Outside, Trying, PROCESS_READY)"
  by code_simp

lemma quiet_duel_sleeps:
  "map_option (\<lambda>s. (mpc s (Tcb 0), mpc s (Tcb 5), state (pcbs (ker s) (Tcb 5))))
     (quiet_acts (take 11 quiet_duel) (duel m)) = Some (Waking, Trying, PROCESS_BLOCKED)"
  by code_simp

theorem mutex_quiet_no_lost_wakeup_witness:
  "\<exists>s. quiet_acts (take 11 quiet_duel) (duel demo_pmm) = Some s \<and> asleep s (Tcb 5)
     \<and> (\<exists>ws. wait_list (tcbs (ker s)) (waiters (mtx s)) ws \<and> (5 \<in> set ws \<or> (\<exists>r. rousing 5 (mpc s r))))
     \<and> (\<exists>t. quiet_acts quiet_duel (duel demo_pmm) = Some t \<and> state (pcbs (ker t) (Tcb 5)) = PROCESS_READY)"
proof -
  obtain s where s: "quiet_acts (take 11 quiet_duel) (duel demo_pmm) = Some s" "asleep s (Tcb 5)"
    using quiet_duel_sleeps [of demo_pmm] by (auto simp only: map_option_eq_Some prod.inject asleep_def)
  obtain t where t: "quiet_acts quiet_duel (duel demo_pmm) = Some t" "state (pcbs (ker t) (Tcb 5)) = PROCESS_READY"
    using quiet_duel_run [of demo_pmm] by (auto simp only: map_option_eq_Some prod.inject)
  have "waiters (mtx (duel demo_pmm)) = None" "\<forall>r. mpc (duel demo_pmm) r = Outside"
    by (simp_all add: duel_def)
  from mutex_quiet_no_lost_wakeup [OF duel_inv duel_exclusive duel_calm this(2,1)
      quiet_acts_reach [OF s(1) quiet_reach.start]] s t show ?thesis by blast
qed

end
