(* ===== verification/Preemption.thy ===== *)
theory Preemption
  imports Kernel
begin

text \<open>
  Kernel code cut into its statements, with timer interrupts between them: interrupts are enabled
  while a process creates or kills another one. Every process has a program counter of its own; a
  statement is executed by the current process. The locale \<open>preemptible\<close> says what makes a piece of
  code safe in this setting, and proves that it then behaves as if it happened at once.

  A timer interrupt is possible before every statement. On the machine it is not while the processor
  masks interrupts or the last tick is unacknowledged, as in a process that a tick has just started
  for the first time (\<open>First_Run\<close>, \<open>Hazards\<close>). What is proved of all runs holds of the
  possible ones among them; a run that is shown to exist (\<open>Races\<close>, \<open>Alloc_Preempt\<close>) is possible
  there when the processes in it have been interrupted before, so that they are resumed with interrupts on.
\<close>

section \<open>Processes at statements\<close>

record 'x psys =
  pk :: kern
  pat :: "pcb_ref \<Rightarrow> 'x"

datatype action = Statement | Interrupt uint32_t

fun act :: "('x \<Rightarrow> kern \<Rightarrow> 'x \<times> kern) \<Rightarrow> action \<Rightarrow> 'x psys \<Rightarrow> 'x psys option" where
  "act step Statement s =
     (case current_pcb (pk s) of
        None \<Rightarrow> None
      | Some c \<Rightarrow> (let (x, k) = step (pat s c) (pk s) in Some (s\<lparr>pk := k, pat := (pat s)(c := x)\<rparr>)))"
| "act step (Interrupt e) s = map_option (\<lambda>k. s\<lparr>pk := k\<rparr>) (tick e (pk s))"

fun acts :: "('x \<Rightarrow> kern \<Rightarrow> 'x \<times> kern) \<Rightarrow> action list \<Rightarrow> 'x psys \<Rightarrow> 'x psys option" where
  "acts step [] s = Some s"
| "acts step (a # as) s = Option.bind (act step a s) (acts step as)"

text \<open>A run in which only \<open>c\<close> is in the code, and the interrupts are \<open>safe\<close>.\<close>

fun allowed :: "('x \<Rightarrow> kern \<Rightarrow> uint32_t \<Rightarrow> bool) \<Rightarrow> pcb_ref \<Rightarrow> action \<Rightarrow> 'x psys \<Rightarrow> bool" where
  "allowed safe c Statement s \<longleftrightarrow> current_pcb (pk s) = Some c"
| "allowed safe c (Interrupt e) s \<longleftrightarrow> safe (pat s c) (pk s) e"

fun lone_run :: "('x \<Rightarrow> kern \<Rightarrow> 'x \<times> kern) \<Rightarrow> ('x \<Rightarrow> kern \<Rightarrow> uint32_t \<Rightarrow> bool) \<Rightarrow> pcb_ref
    \<Rightarrow> action list \<Rightarrow> 'x psys \<Rightarrow> bool" where
  "lone_run step safe c [] s \<longleftrightarrow> True"
| "lone_run step safe c (a # as) s \<longleftrightarrow> allowed safe c a s
     \<and> (case act step a s of None \<Rightarrow> True | Some t \<Rightarrow> lone_run step safe c as t)"

fun interrupts :: "action list \<Rightarrow> uint32_t list" where
  "interrupts [] = []"
| "interrupts (Statement # as) = interrupts as"
| "interrupts (Interrupt e # as) = e # interrupts as"

definition statements :: "action list \<Rightarrow> nat" where
  "statements as = length (filter (\<lambda>a. a = Statement) as)"

lemma statements_simps [simp]:
  "statements [] = 0" "statements (Statement # as) = Suc (statements as)"
  "statements (Interrupt e # as) = statements as"
  "statements (replicate n Statement) = n" "statements (as @ bs) = statements as + statements bs"
  by (simp_all add: statements_def)

lemma interrupts_append [simp]: "interrupts (as @ bs) = interrupts as @ interrupts bs"
  by (induction as rule: interrupts.induct) auto

lemma interrupts_replicate [simp]: "interrupts (replicate n Statement) = []"
  by (induction n) auto

lemma interrupts_Cons: "interrupts [x] @ interrupts as = interrupts (x # as)"
  by (cases x) auto

lemma acts_append: "acts step (as @ bs) s = Option.bind (acts step as s) (acts step bs)"
  by (induction as arbitrary: s) (auto split: Option.bind_split)

lemma acts_then: "acts step as s = Some t \<Longrightarrow> acts step (as @ bs) s = acts step bs t"
  by (simp add: acts_append)

lemma lone_statements:
  assumes "\<And>x k. current_pcb (snd (step x k)) = current_pcb k" "current_pcb (pk s) = Some c"
  shows "lone_run step safe c (replicate n Statement) s"
  using assms(2)
proof (induction n arbitrary: s)
  case (Suc n)
  then show ?case using assms(1) [of "pat s c" "pk s"] by (auto simp: split_beta Let_def)
qed simp

lemma acts_ticks: "acts step (map Interrupt es) s = map_option (\<lambda>k. s\<lparr>pk := k\<rparr>) (ticks es (pk s))"
  by (induction es arbitrary: s) (auto split: Option.bind_split)

lemma ticks_snoc: "ticks (es @ [e]) k = Option.bind (ticks es k) (tick e)"
  by (induction es arbitrary: k) (auto split: Option.bind_split)

section \<open>One tick\<close>

lemma kern_sound_core:
  assumes "kern_sound k xs"
  shows "core_inv k xs" "queue k xs" "set xs = live k" "pmm_ready (pm k)"
  using assms unfolding kern_sound_def kern_inv_def core_inv_def by blast+

lemma tick_eq:
  assumes "queue k xs" "current_pcb k = Some c" "idle_pcb k = Some d" "c \<in> set xs"
  shows "tick e k = Some (if sched_choice k xs c d = c then k\<lparr>cpu_esp := e\<rparr>
    else switch_to c (sched_choice k xs c d) (k\<lparr>cpu_esp := e\<rparr>))"
proof -
  have "queue (k\<lparr>cpu_esp := e\<rparr>) xs" using assms(1) by simp
  from schedule_eq [OF this, of c d] assms(2-4) show ?thesis
    by (simp add: tick_def sched_choice_esp)
qed

lemma tick_keeps:
  assumes "kern_sound k xs" "tick e k = Some j"
  shows "pm j = pm k" "ram j = ram k" "next_pid j = next_pid k" "run_queue j = run_queue k"
    "\<And>r. r \<notin> set xs \<Longrightarrow> pcbs j r = pcbs k r" "\<And>r. next_pcb (pcbs j r) = next_pcb (pcbs k r)"
    "\<And>r. pid (pcbs j r) = pid (pcbs k r)" "\<And>r. stack_base (pcbs j r) = stack_base (pcbs k r)"
    "\<And>r. state (pcbs j r) = PROCESS_DEAD \<longleftrightarrow> state (pcbs k r) = PROCESS_DEAD"
    "\<And>r. esp (pcbs j r) = esp (pcbs k r) \<or> esp (pcbs j r) = e"
    "kern_sound j xs"
proof -
  obtain c d where cd: "kern_inv k xs" "current_pcb k = Some c" "idle_pcb k = Some d"
    "c \<in> set xs" "d \<in> set xs" "state (pcbs k c) = PROCESS_RUNNING" "is_runnable k d"
    by (rule kern_sound_refs [OF assms(1)])
  let ?n = "sched_choice k xs c d"
  have j: "j = (if ?n = c then k\<lparr>cpu_esp := e\<rparr> else switch_to c ?n (k\<lparr>cpu_esp := e\<rparr>))"
    using tick_eq [OF kern_sound_core(2) [OF assms(1)] cd(2-4), of e] assms(2) by simp
  have n: "?n \<in> set xs" by (rule sched_choice_in [OF cd(1-3)])
  have live: "state (pcbs k r) \<noteq> PROCESS_DEAD" if "r \<in> set xs" for r
    using that kern_sound_core(3) [OF assms(1)] by (simp add: live_def)
  show "pm j = pm k" "ram j = ram k" "next_pid j = next_pid k" "run_queue j = run_queue k"
    "\<And>r. next_pcb (pcbs j r) = next_pcb (pcbs k r)" "\<And>r. pid (pcbs j r) = pid (pcbs k r)"
    "\<And>r. stack_base (pcbs j r) = stack_base (pcbs k r)"
    "\<And>r. esp (pcbs j r) = esp (pcbs k r) \<or> esp (pcbs j r) = e"
    by (auto simp: j switch_to_def)
  show "\<And>r. r \<notin> set xs \<Longrightarrow> pcbs j r = pcbs k r" using n cd(4) by (auto simp: j switch_to_def)
  show "\<And>r. state (pcbs j r) = PROCESS_DEAD \<longleftrightarrow> state (pcbs k r) = PROCESS_DEAD"
    using live [OF n] live [OF cd(4)] by (auto simp: j switch_to_def)
  show "kern_sound j xs" using timer_sound [OF assms(1), of e] assms(2) by auto
qed

lemma queue_walk:
  assumes "queue a xs" "t \<in> set xs"
  obtains us vs where "xs = us @ t # vs" "dropWhile (\<lambda>r. r \<noteq> t) xs = t # vs"
    "next_pcb (pcbs a t) = (case vs of [] \<Rightarrow> None | v # _ \<Rightarrow> Some v)"
    "\<And>v ws. vs = v # ws \<Longrightarrow> dropWhile (\<lambda>r. r \<noteq> v) xs = vs"
proof -
  obtain us vs where x: "xs = us @ t # vs" using assms(2) by (auto dest: split_list)
  have d: "distinct xs" using assms(1) by (rule rq.queue_distinct)
  have "is_list (pcbs a) (Some t) (t # vs)"
    using assms(1) unfolding queue_def x by (rule is_list_suffix)
  then have "next_pcb (pcbs a t) = (case vs of [] \<Rightarrow> None | v # _ \<Rightarrow> Some v)"
    by (cases vs) auto
  moreover have drop: "dropWhile (\<lambda>r. r \<noteq> y) (ys @ y # zs) = y # zs" if "y \<notin> set ys" for y ys zs
    using that by (induction ys) auto
  moreover have "dropWhile (\<lambda>r. r \<noteq> v) xs = vs" if "vs = v # ws" for v ws
    using d drop [of v "us @ [t]" ws] that by (auto simp: x)
  ultimately show ?thesis using that [OF x] d drop [of t us vs] by (simp add: x)
qed

lemma sound_head:
  assumes "kern_sound a xs"
  obtains h ys where "xs = h # ys" "run_queue a = Some h"
proof -
  obtain c where "c \<in> set xs" by (rule kern_sound_refs [OF assms])
  then show ?thesis using that kern_sound_core(2) [OF assms] by (cases xs) (auto simp: queue_def)
qed

section \<open>Calls between ticks\<close>

text \<open>The call happens at once somewhere between the ticks \<open>es\<close>, with the reply \<open>r\<close>.\<close>

definition at_once ::
  "(kern \<Rightarrow> ('r \<times> kern) option) \<Rightarrow> 'r \<Rightarrow> uint32_t list \<Rightarrow> kern \<Rightarrow> kern \<Rightarrow> bool" where
  "at_once call r es k l \<longleftrightarrow> (\<exists>ds fs a b. es = ds @ fs \<and> ticks ds k = Some a
     \<and> call a = Some (r, b) \<and> ticks fs b = Some l)"

section \<open>Code that does not mind\<close>

text \<open>
  \<open>before x k a\<close>: the code is at \<open>x\<close> and \<open>k\<close> is the state, and the call, seen as one step, is still to
  be made in \<open>a\<close>. \<open>after r x k b\<close>: it has been made, with the reply \<open>r\<close>, and \<open>k\<close> becomes \<open>b\<close> when the rest
  of the code has run. \<open>left\<close> bounds the statements that are left.
\<close>

locale preemptible =
  fixes step :: "'x \<Rightarrow> kern \<Rightarrow> 'x \<times> kern"
    and safe :: "'x \<Rightarrow> kern \<Rightarrow> uint32_t \<Rightarrow> bool"
    and caller :: pcb_ref
    and before :: "'x \<Rightarrow> kern \<Rightarrow> kern \<Rightarrow> bool"
    and after :: "'r \<Rightarrow> 'x \<Rightarrow> kern \<Rightarrow> kern \<Rightarrow> bool"
    and call :: "kern \<Rightarrow> ('r \<times> kern) option"
    and left :: "'x \<Rightarrow> nat"
  assumes before_statement: "before x k a \<Longrightarrow> current_pcb k = Some caller \<Longrightarrow> step x k = (y, l) \<Longrightarrow>
      left y < left x \<and> (before y l a \<or> (\<exists>r b. call a = Some (r, b) \<and> after r y l b))"
    and after_statement: "after r x k b \<Longrightarrow> current_pcb k = Some caller \<Longrightarrow> step x k = (y, l) \<Longrightarrow>
      after r y l b \<and> (left y < left x \<or> left x = 0 \<and> left y = 0)"
    and before_interrupt: "before x k a \<Longrightarrow> safe x k e \<Longrightarrow>
      \<exists>l b. tick e k = Some l \<and> tick e a = Some b \<and> before x l b"
    and after_interrupt: "after r x k b \<Longrightarrow> safe x k e \<Longrightarrow>
      \<exists>l d. tick e k = Some l \<and> tick e b = Some d \<and> after r x l d"
    and before_left: "before x k a \<Longrightarrow> 0 < left x"
    and after_left: "after r x k b \<Longrightarrow> left x = 0 \<Longrightarrow> k = b"
begin

definition pending :: "kern \<Rightarrow> uint32_t list \<Rightarrow> 'x psys \<Rightarrow> bool" where
  "pending k es s \<longleftrightarrow> (\<exists>a. ticks es k = Some a \<and> before (pat s caller) (pk s) a)"

definition taken :: "kern \<Rightarrow> uint32_t list \<Rightarrow> 'x psys \<Rightarrow> bool" where
  "taken k es s \<longleftrightarrow> (\<exists>r d. at_once call r es k d \<and> after r (pat s caller) (pk s) d)"

lemma at_once_tick: "at_once call r es k d \<Longrightarrow> tick e d = Some g \<Longrightarrow> at_once call r (es @ [e]) k g"
proof -
  assume "at_once call r es k d" and t: "tick e d = Some g"
  then obtain ds fs a b where r: "es = ds @ fs" "ticks ds k = Some a" "call a = Some (r, b)"
    "ticks fs b = Some d" unfolding at_once_def by blast
  with t have "ticks (fs @ [e]) b = Some g" by (simp add: ticks_snoc)
  with r show ?thesis
    unfolding at_once_def
    by (intro exI [of _ ds] exI [of _ "fs @ [e]"] exI [of _ a] exI [of _ b]) simp
qed

text \<open>One action, of either kind.\<close>

definition advances :: "action \<Rightarrow> 'x psys \<Rightarrow> 'x psys \<Rightarrow> bool" where
  "advances a s t \<longleftrightarrow> left (pat t caller) + statements [a] \<le> left (pat s caller) \<or> left (pat t caller) = 0"

lemma pending_act:
  assumes "pending k es s" "allowed safe caller x s"
  shows "\<exists>t. act step x s = Some t \<and> advances x s t
    \<and> (pending k (es @ interrupts [x]) t \<or> taken k (es @ interrupts [x]) t)"
proof -
  obtain a where a: "ticks es k = Some a" "before (pat s caller) (pk s) a"
    using assms(1) by (auto simp: pending_def)
  show ?thesis
  proof (cases x)
    case Statement
    then have c: "current_pcb (pk s) = Some caller" using assms(2) by simp
    obtain y l where st: "step (pat s caller) (pk s) = (y, l)" by fastforce
    let ?t = "s\<lparr>pk := l, pat := (pat s)(caller := y)\<rparr>"
    note b = before_statement [OF a(2) c st]
    have "pending k es ?t \<or> taken k es ?t"
    proof (cases "before y l a")
      case True
      with a(1) show ?thesis by (auto simp: pending_def)
    next
      case False
      with b obtain r b where "call a = Some (r, b)" "after r y l b" by blast
      moreover from this a(1) have "at_once call r es k b"
        unfolding at_once_def by (intro exI [of _ es] exI [of _ "[]"]) simp
      ultimately have "taken k es ?t" by (auto simp: taken_def)
      then show ?thesis ..
    qed
    with c st b Statement show ?thesis by (auto simp: advances_def)
  next
    case (Interrupt e)
    with before_interrupt [OF a(2), of e] assms(2) obtain l b where
      l: "tick e (pk s) = Some l" "tick e a = Some b" "before (pat s caller) l b" by auto
    with a(1) have "pending k (es @ [e]) (s\<lparr>pk := l\<rparr>)" by (auto simp: pending_def ticks_snoc)
    with l(1) Interrupt show ?thesis by (auto simp: advances_def)
  qed
qed

lemma taken_act:
  assumes "taken k es s" "allowed safe caller x s"
  shows "\<exists>t. act step x s = Some t \<and> advances x s t \<and> taken k (es @ interrupts [x]) t"
proof -
  obtain r d where r: "at_once call r es k d" "after r (pat s caller) (pk s) d"
    using assms(1) by (auto simp: taken_def)
  show ?thesis
  proof (cases x)
    case Statement
    then have c: "current_pcb (pk s) = Some caller" using assms(2) by simp
    obtain y l where st: "step (pat s caller) (pk s) = (y, l)" by fastforce
    let ?t = "s\<lparr>pk := l, pat := (pat s)(caller := y)\<rparr>"
    note b = after_statement [OF r(2) c st]
    have "taken k es ?t" using r(1) b by (auto simp: taken_def)
    moreover have "advances x s ?t" using b Statement by (auto simp: advances_def)
    ultimately show ?thesis using c st Statement by simp
  next
    case (Interrupt e)
    with after_interrupt [OF r(2), of e] assms(2) obtain l g where
      l: "tick e (pk s) = Some l" "tick e d = Some g" "after r (pat s caller) l g" by auto
    then have "taken k (es @ [e]) (s\<lparr>pk := l\<rparr>)"
      using at_once_tick [OF r(1) l(2)] by (auto simp: taken_def)
    with l(1) Interrupt show ?thesis by (auto simp: advances_def)
  qed
qed

lemma run_acts:
  assumes "pending k es s \<or> taken k es s" "lone_run step safe caller as s"
  shows "\<exists>t. acts step as s = Some t
    \<and> (pending k (es @ interrupts as) t \<or> taken k (es @ interrupts as) t)
    \<and> (left (pat t caller) + statements as \<le> left (pat s caller) \<or> left (pat t caller) = 0)"
  using assms
proof (induction as arbitrary: s es)
  case (Cons x as)
  have ok: "allowed safe caller x s" using Cons.prems(2) by simp
  obtain u where u: "act step x s = Some u" "advances x s u"
    "pending k (es @ interrupts [x]) u \<or> taken k (es @ interrupts [x]) u"
    using Cons.prems(1) pending_act [OF _ ok] taken_act [OF _ ok] by blast
  have "lone_run step safe caller as u" using Cons.prems(2) u(1) by simp
  from Cons.IH [OF u(3) this] obtain t where t: "acts step as u = Some t"
    "pending k (es @ interrupts (x # as)) t \<or> taken k (es @ interrupts (x # as)) t"
    "left (pat t caller) + statements as \<le> left (pat u caller) \<or> left (pat t caller) = 0"
    by (auto simp: interrupts_Cons)
  have "statements (x # as) = statements [x] + statements as" by (simp add: statements_def)
  then have "left (pat t caller) + statements (x # as) \<le> left (pat s caller) \<or> left (pat t caller) = 0"
    using t(3) u(2) by (auto simp: advances_def)
  with u(1) t(1,2) show ?case by auto
qed auto

text \<open>The run as a whole: it does not get stuck, it ends, and then the call has happened at once.\<close>

lemma run_at_once:
  assumes "before (pat s caller) (pk s) (pk s)" "lone_run step safe caller as s"
  shows "\<exists>t. acts step as s = Some t
    \<and> (if left (pat t caller) = 0
       then \<exists>r. at_once call r (interrupts as) (pk s) (pk t) \<and> after r (pat t caller) (pk t) (pk t)
       else left (pat t caller) + statements as \<le> left (pat s caller))"
proof -
  have "pending (pk s) [] s" using assms(1) by (simp add: pending_def)
  then obtain t where t: "acts step as s = Some t"
    "pending (pk s) (interrupts as) t \<or> taken (pk s) (interrupts as) t"
    "left (pat t caller) + statements as \<le> left (pat s caller) \<or> left (pat t caller) = 0"
    using run_acts [of "pk s" "[]" s as] assms(2) by auto
  show ?thesis
  proof (cases "left (pat t caller) = 0")
    case True
    then have "taken (pk s) (interrupts as) t"
      using t(2) before_left by (fastforce simp: pending_def)
    then obtain r d where "at_once call r (interrupts as) (pk s) d" "after r (pat t caller) (pk t) d"
      by (auto simp: taken_def)
    moreover from this True have "pk t = d" using after_left by blast
    ultimately show ?thesis using t(1) True by auto
  qed (use t(1,3) in auto)
qed

end

end
