(* ===== verification/Preempt.thy ===== *)
theory Preempt
  imports Preemption
begin

text \<open>
  The body of \<^verbatim>\<open>create_process\<close> (\<^verbatim>\<open>src/src/scheduler.c\<close>) cut into its statements, with timer interrupts
  between them, and the proof that they do no harm. \<open>pmm_alloc_page\<close>, whose statements touch
  nothing that the timer reads, is one statement.
\<close>

section \<open>The statements\<close>

datatype create_pc =
    Start
  | Scanning nat
  | Rescanning nat
  | Paging pcb_ref
  | Framing pcb_ref uint32_t
  | Filling pcb_ref uint32_t nat
  | Clearing pcb_ref
  | Testing pcb_ref
  | Heading pcb_ref
  | Walking pcb_ref pcb_ref
  | Appending pcb_ref pcb_ref
  | Returned "pcb_ref option"

text \<open>The six assignments to the fields of the slot, the first with the increment of \<^verbatim>\<open>next_pid\<close>.\<close>

definition fill_field :: "nat \<Rightarrow> pcb_ref \<Rightarrow> uint32_t \<Rightarrow> uint8_t \<Rightarrow> kern \<Rightarrow> kern" where
  "fill_field n p stack prio k =
     (if n = 0 then (let k = k\<lparr>next_pid := next_pid k + 1\<rparr> in upd_pcb p (\<lambda>c. c\<lparr>pid := next_pid k\<rparr>) k)
      else if n = 1 then upd_pcb p (\<lambda>c. c\<lparr>state := PROCESS_READY\<rparr>) k
      else if n = 2 then upd_pcb p (\<lambda>c. c\<lparr>priority := prio\<rparr>) k
      else if n = 3 then upd_pcb p (\<lambda>c. c\<lparr>esp := stack + STACK_SIZE - 4\<rparr>) k
      else if n = 4 then upd_pcb p (\<lambda>c. c\<lparr>stack_base := stack\<rparr>) k
      else upd_pcb p (\<lambda>c. c\<lparr>next_pcb := None\<rparr>) k)"

fun create_step :: "uint32_t \<Rightarrow> uint8_t \<Rightarrow> create_pc \<Rightarrow> kern \<Rightarrow> create_pc \<times> kern" where
  "create_step f prio Start k = (Scanning 0, k)"
| "create_step f prio (Scanning i) k =
     (if i < MAX_PROCESSES then
        (if state (pcbs k (Pcb i)) = PROCESS_DEAD \<and> pid (pcbs k (Pcb i)) = 0
         then (Paging (Pcb i), k) else (Scanning (i + 1), k))
      else (Rescanning 0, k))"
| "create_step f prio (Rescanning i) k =
     (if i < MAX_PROCESSES then
        (if state (pcbs k (Pcb i)) = PROCESS_DEAD then (Paging (Pcb i), k) else (Rescanning (i + 1), k))
      else (Returned None, k))"
| "create_step f prio (Paging p) k =
     (let (stack, m) = pmm_alloc_page (pm k)
      in if stack = 0 then (Returned None, k\<lparr>pm := m\<rparr>) else (Framing p stack, k\<lparr>pm := m\<rparr>))"
| "create_step f prio (Framing p stack) k =
     (Filling p stack 0, k\<lparr>ram := (ram k)(stack + STACK_SIZE - 4 := f)\<rparr>)"
| "create_step f prio (Filling p stack n) k =
     (if n < 5 then Filling p stack (n + 1) else Clearing p, fill_field n p stack prio k)"
| "create_step f prio (Clearing p) k = (Testing p, upd_pcb p (\<lambda>c. c\<lparr>next_pcb := None\<rparr>) k)"
| "create_step f prio (Testing p) k =
     (case run_queue k of None \<Rightarrow> (Heading p, k) | Some h \<Rightarrow> (Walking p h, k))"
| "create_step f prio (Heading p) k = (Returned (Some p), k\<lparr>run_queue := Some p\<rparr>)"
| "create_step f prio (Walking p t) k =
     (case next_pcb (pcbs k t) of None \<Rightarrow> (Appending p t, k) | Some n \<Rightarrow> (Walking p n, k))"
| "create_step f prio (Appending p t) k =
     (Returned (Some p), upd_pcb t (\<lambda>c. c\<lparr>next_pcb := Some p\<rparr>) k)"
| "create_step f prio (Returned r) k = (Returned r, k)"

text \<open>The page of a stack under construction.\<close>

fun fresh_page :: "create_pc \<Rightarrow> kern \<Rightarrow> nat set" where
  "fresh_page (Framing p stack) k = {unat stack div 4096}"
| "fresh_page (Filling p stack n) k = {unat stack div 4096}"
| "fresh_page (Clearing p) k = {stack_page k p}"
| "fresh_page (Testing p) k = {stack_page k p}"
| "fresh_page (Heading p) k = {stack_page k p}"
| "fresh_page (Walking p t) k = {stack_page k p}"
| "fresh_page (Appending p t) k = {stack_page k p}"
| "fresh_page _ k = {}"

text \<open>The interrupted code runs on a stack that is neither free nor under construction.\<close>

definition create_safe :: "create_pc \<Rightarrow> kern \<Rightarrow> uint32_t \<Rightarrow> bool" where
  "create_safe x k e \<longleftrightarrow> unat e div 4096 \<notin> free_set (pm k) \<union> fresh_page x k"

definition own_stacks :: "kern \<Rightarrow> bool" where
  "own_stacks k \<longleftrightarrow> (\<forall>r \<in> live k. unat (esp (pcbs k r)) div 4096 \<notin> free_set (pm k))"

section \<open>A slot in the making\<close>

text \<open>\<open>hidden p q m w n k\<close>: the state \<open>k\<close> with what an unfinished creation has changed: the slot \<open>p\<close>,
  the free pages, the memory and the counter. The timer sees none of it.\<close>

definition hidden ::
  "pcb_ref \<Rightarrow> pcb \<Rightarrow> pmm \<Rightarrow> (uint32_t \<Rightarrow> uint32_t) \<Rightarrow> uint32_t \<Rightarrow> kern \<Rightarrow> kern" where
  "hidden p q m w n k = k\<lparr>pcbs := (pcbs k)(p := q), pm := m, ram := w, next_pid := n\<rparr>"

lemma hidden_simps [simp]:
  "pcbs (hidden p q m w n k) = (pcbs k)(p := q)" "pm (hidden p q m w n k) = m"
  "ram (hidden p q m w n k) = w" "next_pid (hidden p q m w n k) = n"
  "run_queue (hidden p q m w n k) = run_queue k" "current_pcb (hidden p q m w n k) = current_pcb k"
  "idle_pcb (hidden p q m w n k) = idle_pcb k" "cpu_esp (hidden p q m w n k) = cpu_esp k"
  by (simp_all add: hidden_def)

lemma hidden_refl: "hidden p (pcbs k p) (pm k) (ram k) (next_pid k) k = k"
  by (simp add: hidden_def)

lemma tick_hidden:
  assumes s: "kern_sound k xs" and p: "p \<notin> set xs"
    and w: "\<And>r. r \<in> set xs \<Longrightarrow> w (esp (pcbs k r)) = ram k (esp (pcbs k r))"
    and t: "tick e k = Some j"
  shows "tick e (hidden p q m w n k) = Some (hidden p q m w n j)"
proof -
  obtain c d where cd: "kern_inv k xs" "current_pcb k = Some c" "idle_pcb k = Some d"
    "c \<in> set xs" "d \<in> set xs" "state (pcbs k c) = PROCESS_RUNNING" "is_runnable k d"
    by (rule kern_sound_refs [OF s])
  let ?n = "sched_choice k xs c d"
  let ?h = "hidden p q m w n k"
  have nx: "?n \<in> set xs" by (rule sched_choice_in [OF cd(1-3)])
  have qk: "queue k xs" using kern_sound_core(2) [OF s] .
  then have qh: "queue ?h xs" using p by (simp add: queue_def is_list_upd)
  have j: "j = (if ?n = c then k\<lparr>cpu_esp := e\<rparr> else switch_to c ?n (k\<lparr>cpu_esp := e\<rparr>))"
    using tick_eq [OF qk cd(2-4), of e] t by simp
  obtain us vs where "rotation xs c = vs @ us @ [c]" "xs = us @ c # vs"
    by (rule queue_split [OF qk cd(4)])
  then have "set (rotation xs c) = set xs" by auto
  then have "find (ready ?h) (rotation xs c) = find (ready k) (rotation xs c)"
    using p by (intro find_cong) (auto simp: ready_def)
  then have ch: "sched_choice ?h xs c d = ?n" by (simp add: sched_choice_def)
  have c: "current_pcb ?h = Some c" "idle_pcb ?h = Some d" using cd by simp_all
  have "switch_to c ?n (?h\<lparr>cpu_esp := e\<rparr>) = hidden p q m w n (switch_to c ?n (k\<lparr>cpu_esp := e\<rparr>))"
    using p cd(4) nx w [OF nx] by (auto simp: switch_to_def hidden_def fun_upd_twist)
  moreover have "?h\<lparr>cpu_esp := e\<rparr> = hidden p q m w n (k\<lparr>cpu_esp := e\<rparr>)" by (simp add: hidden_def)
  ultimately show ?thesis using tick_eq [OF qh c cd(4), of e] by (simp add: ch j)
qed

section \<open>What is done so far\<close>

definition filled :: "nat \<Rightarrow> uint32_t \<Rightarrow> uint8_t \<Rightarrow> uint32_t \<Rightarrow> pcb \<Rightarrow> pcb" where
  "filled n v prio stack q =
     q\<lparr>pid := (if 0 < n then v + 1 else pid q), state := (if 1 < n then PROCESS_READY else state q),
       priority := (if 2 < n then prio else priority q),
       esp := (if 3 < n then stack + STACK_SIZE - 4 else esp q),
       stack_base := (if 4 < n then stack else stack_base q),
       next_pcb := (if 5 < n then None else next_pcb q)\<rparr>"

definition unused :: "kern \<Rightarrow> nat \<Rightarrow> bool" where
  "unused k i \<longleftrightarrow> state (pcbs k (Pcb i)) = PROCESS_DEAD \<and> pid (pcbs k (Pcb i)) = 0"

text \<open>\<open>reserved p stack m a\<close>: in \<open>a\<close> the next creation takes the slot \<open>p\<close> and the page at \<open>stack\<close>.\<close>

definition reserved :: "pcb_ref \<Rightarrow> uint32_t \<Rightarrow> pmm \<Rightarrow> kern \<Rightarrow> bool" where
  "reserved p stack m a \<longleftrightarrow> alloc_pcb a = Some p \<and> pmm_alloc_page (pm a) = (stack, m) \<and> stack \<noteq> 0"

definition made_so_far ::
  "uint32_t \<Rightarrow> uint8_t \<Rightarrow> pcb_ref \<Rightarrow> uint32_t \<Rightarrow> nat \<Rightarrow> kern \<Rightarrow> kern \<Rightarrow> bool" where
  "made_so_far f prio p stack n k a \<longleftrightarrow> (\<exists>m. reserved p stack m a
     \<and> k = hidden p (filled n (next_pid a) prio stack (pcbs a p)) m
          ((ram a)(stack + STACK_SIZE - 4 := f)) (next_pid a + (if 0 < n then 1 else 0)) a)"

text \<open>\<open>matches f prio xs pc k a\<close>: a process at \<open>pc\<close> has turned \<open>a\<close>, in which it has not begun, into \<open>k\<close>.\<close>

fun matches :: "uint32_t \<Rightarrow> uint8_t \<Rightarrow> pcb_ref list \<Rightarrow> create_pc \<Rightarrow> kern \<Rightarrow> kern \<Rightarrow> bool" where
  "matches f prio xs Start k a \<longleftrightarrow> k = a"
| "matches f prio xs (Scanning i) k a \<longleftrightarrow> k = a \<and> i \<le> MAX_PROCESSES \<and> (\<forall>j < i. \<not> unused a j)"
| "matches f prio xs (Rescanning i) k a \<longleftrightarrow> k = a \<and> i \<le> MAX_PROCESSES
     \<and> (\<forall>j < MAX_PROCESSES. \<not> unused a j) \<and> (\<forall>j < i. state (pcbs a (Pcb j)) \<noteq> PROCESS_DEAD)"
| "matches f prio xs (Paging p) k a \<longleftrightarrow> k = a \<and> alloc_pcb a = Some p"
| "matches f prio xs (Framing p stack) k a \<longleftrightarrow>
     (\<exists>m. reserved p stack m a \<and> k = hidden p (pcbs a p) m (ram a) (next_pid a) a)"
| "matches f prio xs (Filling p stack n) k a \<longleftrightarrow> n < 6 \<and> made_so_far f prio p stack n k a"
| "matches f prio xs (Clearing p) k a \<longleftrightarrow> (\<exists>stack. made_so_far f prio p stack 6 k a)"
| "matches f prio xs (Testing p) k a \<longleftrightarrow> (\<exists>stack. made_so_far f prio p stack 6 k a)"
| "matches f prio xs (Heading p) k a \<longleftrightarrow> False"
| "matches f prio xs (Walking p t) k a \<longleftrightarrow> t \<in> set xs \<and> (\<exists>stack. made_so_far f prio p stack 6 k a)"
| "matches f prio xs (Appending p t) k a \<longleftrightarrow> t = last xs \<and> (\<exists>stack. made_so_far f prio p stack 6 k a)"
| "matches f prio xs (Returned r) k a \<longleftrightarrow> False"

text \<open>A bound on the statements that are left, with a queue \<open>xs\<close>.\<close>

fun left :: "pcb_ref list \<Rightarrow> create_pc \<Rightarrow> nat" where
  "left xs Start = 143 + length xs"
| "left xs (Scanning i) = 142 + length xs - i"
| "left xs (Rescanning i) = 76 + length xs - i"
| "left xs (Paging p) = 11 + length xs"
| "left xs (Framing p stack) = 10 + length xs"
| "left xs (Filling p stack n) = 9 + length xs - n"
| "left xs (Clearing p) = 3 + length xs"
| "left xs (Testing p) = 2 + length xs"
| "left xs (Heading p) = 1"
| "left xs (Walking p t) = 1 + length (dropWhile (\<lambda>r. r \<noteq> t) xs)"
| "left xs (Appending p t) = 1"
| "left xs (Returned r) = 0"

lemma reserved_notin:
  assumes "kern_sound a xs" "alloc_pcb a = Some p"
  shows "p \<notin> set xs" "state (pcbs a p) = PROCESS_DEAD"
  using alloc_pcb_dead [OF assms(2)] kern_sound_core(3) [OF assms(1)] by (auto simp: live_def)

lemma reserved_page:
  assumes "kern_sound a xs" "reserved p stack m a"
  shows "unat stack mod 4096 = 0" "unat stack div 4096 \<in> free_set (pm a)"
    "free_set m = free_set (pm a) - {unat stack div 4096}"
  using pa.alloc_page [OF kern_sound_core(4) [OF assms(1)]] assms(2) by (simp_all add: reserved_def)

lemma top_word_page:
  assumes "unat (stack :: uint32_t) mod 4096 = 0"
  shows "unat (stack + STACK_SIZE - 4) div 4096 = unat stack div 4096"
proof -
  have eq: "stack + STACK_SIZE - 4 = stack + 4092" by (simp add: STACK_SIZE_def PAGE_SIZE_def)
  obtain q where q: "unat stack = 4096 * q" using assms by (metis mult.commute mod_0_imp_dvd dvdE)
  moreover have "unat stack < 2 ^ 32" using unsigned_less [of stack] by simp
  ultimately have "unat (stack + STACK_SIZE - 4) = 4096 * q + 4092"
    unfolding eq using q by (simp add: unat_word_ariths)
  then show ?thesis by (simp add: q)
qed

lemma reserved_ram:
  assumes "kern_sound a xs" "own_stacks a" "reserved p stack m a" "r \<in> set xs"
  shows "((ram a)(stack + STACK_SIZE - 4 := f)) (esp (pcbs a r)) = ram a (esp (pcbs a r))"
proof -
  note g = reserved_page [OF assms(1,3)]
  have "unat (esp (pcbs a r)) div 4096 \<notin> free_set (pm a)"
    using assms(2,4) kern_sound_core(3) [OF assms(1)] by (simp add: own_stacks_def)
  then have "esp (pcbs a r) \<noteq> stack + STACK_SIZE - 4" using top_word_page [OF g(1)] g(2) by metis
  then show ?thesis by simp
qed

lemma matches_free:
  assumes "kern_sound a xs" "matches f prio xs pc k a"
  shows "free_set (pm k) \<union> fresh_page pc k = free_set (pm a)"
  using assms(2) reserved_page [OF assms(1)]
  by (cases pc) (auto simp: made_so_far_def stack_page_def filled_def)

lemma alloc_pcb_cong:
  assumes "\<And>r. state (pcbs b r) = PROCESS_DEAD \<longleftrightarrow> state (pcbs a r) = PROCESS_DEAD"
    and "\<And>r. pid (pcbs b r) = pid (pcbs a r)"
  shows "alloc_pcb b = alloc_pcb a" "unused b i = unused a i"
  by (simp_all add: alloc_pcb_def unused_def assms cong: option.case_cong)

lemma own_stacks_tick:
  assumes "kern_sound a xs" "own_stacks a" "unat e div 4096 \<notin> free_set (pm a)" "tick e a = Some b"
  shows "own_stacks b"
  unfolding own_stacks_def
proof
  note t = tick_keeps [OF assms(1,4)]
  fix r assume "r \<in> live b"
  then have "r \<in> live a" using kern_sound_core(3) [OF assms(1)] kern_sound_core(3) [OF t(11)] by simp
  then show "unat (esp (pcbs b r)) div 4096 \<notin> free_set (pm b)"
    using assms(2,3) t(10) [of r] by (auto simp: own_stacks_def t(1))
qed

text \<open>The timer falls between two statements: it does the same to both states.\<close>

lemma matches_tick:
  assumes s: "kern_sound a xs" and own: "own_stacks a" and m: "matches f prio xs pc k a"
    and e: "unat e div 4096 \<notin> free_set (pm k) \<union> fresh_page pc k"
  shows "\<exists>b l. tick e a = Some b \<and> tick e k = Some l \<and> kern_sound b xs \<and> own_stacks b
    \<and> matches f prio xs pc l b"
proof -
  obtain b where b: "tick e a = Some b" using timer_sound [OF s] by blast
  note t = tick_keeps [OF s b]
  note al = alloc_pcb_cong [of b a, OF t(9,7)]
  have own': "own_stacks b" using own_stacks_tick [OF s own _ b] e matches_free [OF s m] by simp
  have hid: "tick e (hidden p q m w n a) = Some (hidden p q m w n b)"
    if "p \<notin> set xs" "\<And>r. r \<in> set xs \<Longrightarrow> w (esp (pcbs a r)) = ram a (esp (pcbs a r))" for p q m w n
    using tick_hidden [OF s that b] .
  have res: "reserved p stack m b \<longleftrightarrow> reserved p stack m a" for p stack m
    by (simp add: reserved_def al t(1))
  have made: "\<exists>l. tick e k = Some l \<and> made_so_far f prio p stack n l b"
    if so_far: "made_so_far f prio p stack n k a" for p stack n
  proof -
    obtain m where r: "reserved p stack m a" "k = hidden p (filled n (next_pid a) prio stack (pcbs a p)) m
          ((ram a)(stack + STACK_SIZE - 4 := f)) (next_pid a + (if 0 < n then 1 else 0)) a"
      using so_far unfolding made_so_far_def by blast
    have p: "p \<notin> set xs" using reserved_notin(1) [OF s] r(1) by (simp add: reserved_def)
    let ?l = "hidden p (filled n (next_pid a) prio stack (pcbs a p)) m
          ((ram a)(stack + STACK_SIZE - 4 := f)) (next_pid a + (if 0 < n then 1 else 0)) b"
    have "tick e k = Some ?l" unfolding r(2) by (rule hid [OF p reserved_ram [OF s own r(1)]])
    moreover have "made_so_far f prio p stack n ?l b"
      unfolding made_so_far_def res t(2,3) t(5) [OF p] using r(1) by blast
    ultimately show ?thesis by blast
  qed
  have frame: "\<exists>l. tick e k = Some l \<and> matches f prio xs (Framing p stack) l b"
    if so_far: "matches f prio xs (Framing p stack) k a" for p stack
  proof -
    obtain m where r: "reserved p stack m a" "k = hidden p (pcbs a p) m (ram a) (next_pid a) a"
      using so_far by auto
    have p: "p \<notin> set xs" using reserved_notin(1) [OF s] r(1) by (simp add: reserved_def)
    then show ?thesis using hid [OF p] r res by (auto simp: t(2,3,5))
  qed
  have "\<exists>l. tick e k = Some l \<and> matches f prio xs pc l b"
  proof (cases pc)
    case (Framing p stack)
    with frame m show ?thesis by blast
  next
    case (Filling p stack n)
    with made m show ?thesis by fastforce
  qed (use m b made al t(9) in \<open>auto; fastforce\<close>)+
  with b t(11) own' show ?thesis by blast
qed

section \<open>One statement\<close>

lemma alloc_scan:
  assumes "i < MAX_PROCESSES" "unused a i" "\<forall>j < i. \<not> unused a j"
  shows "alloc_pcb a = Some (Pcb i)"
proof -
  have "find (unused a) [0..<MAX_PROCESSES] = Some i" using assms by (simp add: find_upt_Some_iff)
  then show ?thesis by (simp add: alloc_pcb_def unused_def [abs_def])
qed

lemma alloc_rescan:
  assumes "i < MAX_PROCESSES" "state (pcbs a (Pcb i)) = PROCESS_DEAD" "\<forall>j < MAX_PROCESSES. \<not> unused a j"
    and "\<forall>j < i. state (pcbs a (Pcb j)) \<noteq> PROCESS_DEAD"
  shows "alloc_pcb a = Some (Pcb i)"
proof -
  have "find (unused a) [0..<MAX_PROCESSES] = None" using assms(3) by (simp add: find_upt_None_iff)
  moreover have "find (\<lambda>i. state (pcbs a (Pcb i)) = PROCESS_DEAD) [0..<MAX_PROCESSES] = Some i"
    using assms by (simp add: find_upt_Some_iff)
  ultimately show ?thesis by (simp add: alloc_pcb_def unused_def [abs_def])
qed

lemma fill_field_filled:
  assumes "made_so_far f prio p stack n k a" "n < 6"
  shows "made_so_far f prio p stack (Suc n) (fill_field n p stack prio k) a"
proof -
  obtain m where m: "reserved p stack m a" "k = hidden p (filled n (next_pid a) prio stack (pcbs a p)) m
      ((ram a)(stack + STACK_SIZE - 4 := f)) (next_pid a + (if 0 < n then 1 else 0)) a"
    using assms(1) unfolding made_so_far_def by blast
  have "n = 0 \<or> n = 1 \<or> n = 2 \<or> n = 3 \<or> n = 4 \<or> n = 5" using assms(2) by linarith
  then have "fill_field n p stack prio k = hidden p (filled (Suc n) (next_pid a) prio stack (pcbs a p)) m
      ((ram a)(stack + STACK_SIZE - 4 := f)) (next_pid a + 1) a"
    by (elim disjE) (simp_all add: m(2) fill_field_def filled_def hidden_def upd_pcb_def Let_def)
  with m(1) show ?thesis by (auto simp: made_so_far_def)
qed

lemma hidden_upd: "upd_pcb p g (hidden p q m w n a) = hidden p (g q) m w n a"
  by (rule kern.equality) (simp_all add: upd_pcb_def hidden_def)

lemma made_cleared:
  "made_so_far f prio p stack 6 k a \<Longrightarrow> upd_pcb p (\<lambda>c. c\<lparr>next_pcb := None\<rparr>) k = k"
  unfolding made_so_far_def by (auto simp: hidden_upd) (simp add: filled_def)

text \<open>The last statement leaves what \<open>create_process\<close> leaves.\<close>

lemma append_creates:
  assumes s: "kern_sound a xs" and m: "made_so_far f prio p stack 6 k a"
  shows "create_process f prio a = Some (Some p, upd_pcb (last xs) (\<lambda>c. c\<lparr>next_pcb := Some p\<rparr>) k)"
proof -
  obtain m where r: "reserved p stack m a" "k = hidden p (filled 6 (next_pid a) prio stack (pcbs a p)) m
      ((ram a)(stack + STACK_SIZE - 4 := f)) (next_pid a + 1) a"
    using m unfolding made_so_far_def by auto
  have p: "p \<notin> set xs" using reserved_notin(1) [OF s] r(1) by (simp add: reserved_def)
  let ?k = "upd_pcb p (\<lambda>_. \<lparr> pid = next_pid a + 1, state = PROCESS_READY, priority = prio,
      esp = stack + STACK_SIZE - 4, stack_base = stack, next_pcb = None \<rparr>)
      (a\<lparr>pm := m, ram := (ram a)(stack + STACK_SIZE - 4 := f), next_pid := next_pid a + 1\<rparr>)"
  have "filled 6 (next_pid a) prio stack (pcbs a p) = \<lparr> pid = next_pid a + 1, state = PROCESS_READY,
      priority = prio, esp = stack + STACK_SIZE - 4, stack_base = stack, next_pcb = None \<rparr>"
    by (simp add: filled_def)
  then have k: "?k = k" unfolding r(2) by (intro kern.equality) (simp_all add: upd_pcb_def hidden_def)
  note same = made_cleared [OF m]
  obtain h ys where x: "xs = h # ys" and rq: "run_queue k = Some h"
    using sound_head [OF s] by (auto simp: r(2))
  have "is_list (pcbs a) (Some h) (h # ys)"
    using kern_sound_core(2) [OF s] x by (simp add: queue_def)
  then have "is_list (pcbs k) (Some h) (h # ys)" using p unfolding x r(2) by (auto simp: is_list_upd)
  then have "find_tail (pcbs k) h = Some (last xs)" using find_tail_last x by blast
  then have "enqueue p k = Some (upd_pcb (last xs) (\<lambda>c. c\<lparr>next_pcb := Some p\<rparr>) k)"
    using rq by (simp add: enqueue_def Let_def same)
  then show ?thesis
    using r(1) k by (simp add: create_process_def Let_def reserved_def)
qed

lemma matches_step:
  assumes s: "kern_sound a xs" and m: "matches f prio xs pc k a"
    and step: "create_step f prio pc k = (y, l)"
  shows "(\<exists>r. y = Returned r \<and> create_process f prio a = Some (r, l)) \<or> matches f prio xs y l a"
    and "left xs y < left xs pc"
proof -
  have q: "queue a xs" by (rule kern_sound_core(2) [OF s])
  have "((\<exists>r. y = Returned r \<and> create_process f prio a = Some (r, l)) \<or> matches f prio xs y l a)
      \<and> left xs y < left xs pc"
  proof (cases pc)
    case Start
    with m step show ?thesis by auto
  next
    case (Scanning i)
    with m step alloc_scan [of i a] show ?thesis
      by (auto simp: unused_def less_Suc_eq MAX_PROCESSES_def split: if_splits)
  next
    case (Rescanning i)
    with m step alloc_rescan [of i a] alloc_pcb_None [of a] show ?thesis
      by (auto simp: less_Suc_eq MAX_PROCESSES_def create_process_def split: if_splits)
  next
    case (Paging p)
    with m step show ?thesis
      by (auto simp: reserved_def create_process_def hidden_def split: prod.splits if_splits)
  next
    case (Framing p stack)
    with m step show ?thesis by (auto simp: made_so_far_def filled_def hidden_def)
  next
    case (Filling p stack n)
    then have "made_so_far f prio p stack (Suc n) l a" "n < 6"
      using m step fill_field_filled [of f prio p stack n k a] by (auto split: if_splits)
    with step Filling show ?thesis by (cases "n = 5") (auto split: if_splits)
  next
    case (Clearing p)
    with m step show ?thesis by (auto simp: made_cleared)
  next
    case (Testing p)
    obtain h ys where x: "xs = h # ys" "run_queue a = Some h" by (rule sound_head [OF s])
    moreover from this have "run_queue k = Some h" using m Testing by (auto simp: made_so_far_def)
    ultimately show ?thesis using m step Testing by auto
  next
    case (Heading p)
    with m show ?thesis by simp
  next
    case (Walking p t)
    then obtain stack where t: "t \<in> set xs" "made_so_far f prio p stack 6 k a" using m by auto
    obtain us vs where w: "xs = us @ t # vs" "dropWhile (\<lambda>r. r \<noteq> t) xs = t # vs"
      "next_pcb (pcbs a t) = (case vs of [] \<Rightarrow> None | v # _ \<Rightarrow> Some v)"
      "\<And>v ws. vs = v # ws \<Longrightarrow> dropWhile (\<lambda>r. r \<noteq> v) xs = vs"
      by (rule queue_walk [OF q t(1)]) blast
    have "p \<notin> set xs" using t(2) reserved_notin(1) [OF s] by (auto simp: made_so_far_def reserved_def)
    then have "next_pcb (pcbs k t) = next_pcb (pcbs a t)" using t by (auto simp: made_so_far_def)
    with w t step Walking show ?thesis by (cases vs) auto
  next
    case (Appending p t)
    with m step append_creates [OF s] show ?thesis by auto
  next
    case (Returned r)
    with m show ?thesis by simp
  qed
  then show "(\<exists>r. y = Returned r \<and> create_process f prio a = Some (r, l)) \<or> matches f prio xs y l a"
    "left xs y < left xs pc" by blast+
qed

section \<open>A whole run\<close>

definition to_create ::
  "uint32_t \<Rightarrow> uint8_t \<Rightarrow> pcb_ref list \<Rightarrow> create_pc \<Rightarrow> kern \<Rightarrow> kern \<Rightarrow> bool" where
  "to_create f prio xs x k a \<longleftrightarrow> kern_sound a xs \<and> own_stacks a \<and> matches f prio xs x k a"

definition created :: "pcb_ref option \<Rightarrow> create_pc \<Rightarrow> kern \<Rightarrow> kern \<Rightarrow> bool" where
  "created r x k b \<longleftrightarrow> x = Returned r \<and> k = b \<and> (\<exists>ys. kern_sound b ys)"

lemma matches_left:
  assumes "kern_sound a xs" "matches f prio xs x k a"
  shows "0 < left xs x"
  using matches_step(2) [OF assms] by (cases "create_step f prio x k") fastforce

interpretation cp: preemptible "create_step f prio" create_safe c "to_create f prio xs" created
  "create_process f prio" "left xs" for f prio c xs
proof
  fix x k a y l
  assume a: "to_create f prio xs x k a" and st: "create_step f prio x k = (y, l)"
  then have s: "kern_sound a xs" "own_stacks a" "matches f prio xs x k a" by (simp_all add: to_create_def)
  note m = matches_step [OF s(1,3) st]
  have "to_create f prio xs y l a \<or> (\<exists>r b. create_process f prio a = Some (r, b) \<and> created r y l b)"
    using m(1) s create_sound [OF s(1)] by (fastforce simp: to_create_def created_def)
  with m(2) show "left xs y < left xs x
      \<and> (to_create f prio xs y l a \<or> (\<exists>r b. create_process f prio a = Some (r, b) \<and> created r y l b))"
    by blast
next
  fix x k a e
  assume "to_create f prio xs x k a" "create_safe x k e"
  with matches_tick [of a xs f prio x k e]
  show "\<exists>l b. tick e k = Some l \<and> tick e a = Some b \<and> to_create f prio xs x l b"
    by (auto simp: to_create_def create_safe_def)
next
  fix r x k b e
  assume "created r x k b"
  with timer_sound show "\<exists>l d. tick e k = Some l \<and> tick e b = Some d \<and> created r x l d"
    by (fastforce simp: created_def)
qed (auto simp: created_def to_create_def matches_left)

section \<open>Where it holds\<close>

lemma create_own_stacks:
  assumes core: "core_inv s xs" and own: "own_stacks s" and c: "create_process f prio s = Some (r, t)"
  shows "own_stacks t"
proof (cases "can_create s")
  case True
  obtain p t' stack m where t: "create_process f prio s = Some (Some p, t')" "p \<notin> set xs"
    "core_inv t' (xs @ [p])" "pmm_alloc_page (pm s) = (stack, m)" "stack \<noteq> 0"
    "strip t' = strip (upd_pcb p (\<lambda>_. new_pcb (next_pid s + 1) prio stack)
        (s\<lparr>pm := m, ram := (ram s)(stack + STACK_SIZE - 4 := f), next_pid := next_pid s + 1\<rparr>))"
    by (rule create_process_succeeds [OF core True])
  note e = strip_eqD [OF t(6)]
  have [simp]: "t' = t" using t(1) c by simp
  have "pmm_ready (pm s)" using core by (simp add: core_inv_def)
  from pa.alloc_page [OF this] t(4,5) have pg: "unat stack mod 4096 = 0"
    "free_set m = free_set (pm s) - {unat stack div 4096}" by simp_all
  have "live t = insert p (live s)" using core t(3) by (simp add: core_inv_def)
  moreover have "unat (esp (pcbs t p)) div 4096 = unat stack div 4096"
    using e(4) [of p] top_word_page [OF pg(1)] by (simp add: new_pcb_def)
  moreover have "esp (pcbs t q) = esp (pcbs s q)" if "q \<noteq> p" for q using e(4) [of q] that by simp
  moreover have "p \<notin> live s" using core t(2) by (simp add: core_inv_def)
  ultimately show ?thesis using own pg(2) e(12) unfolding own_stacks_def by (auto; metis)
next
  case False
  with create_process_fails [OF core False, of f prio] c own show ?thesis by simp
qed

lemma init_own_stacks:
  assumes "pmm_ready (pm s)" "run_queue s = None" "\<not> tcb_pool_initialized s"
    and init: "scheduler_init idle s = Some (Inr t)"
  shows "own_stacks t"
proof -
  note c = pool_cleared_inv [OF assms(1-3)]
  obtain p u where u: "create_process idle 0 (pool_cleared s) = Some (Some p, u)"
    "t = upd_pcb p (\<lambda>c. c\<lparr>state := PROCESS_RUNNING\<rparr>) (u\<lparr>idle_pcb := Some p, current_pcb := Some p\<rparr>)"
    using init by (auto simp: scheduler_init_def Let_def pool_cleared_def [symmetric] split: option.splits)
  have "live (pool_cleared s) = {}" using c(1) by (simp add: core_inv_def)
  then have "own_stacks (pool_cleared s)" by (simp add: own_stacks_def)
  from create_own_stacks [OF c(1) this u(1)] have "own_stacks u" .
  moreover have "p \<in> live u"
  proof (cases "can_create (pool_cleared s)")
    case True
    obtain q v where "create_process idle 0 (pool_cleared s) = Some (Some q, v)" "core_inv v ([] @ [q])"
      by (rule create_process_succeeds [OF c(1) True])
    with u(1) have "{p} = live u" by (simp add: core_inv_def)
    then show ?thesis by blast
  next
    case False
    with create_process_fails [OF c(1)] u(1) show ?thesis by simp
  qed
  then have "live t = live u" by (auto simp: u(2) live_def)
  ultimately show ?thesis by (auto simp: own_stacks_def u(2))
qed

lemma create_step_current: "current_pcb (snd (create_step f prio pc k)) = current_pcb k"
  by (cases "(f, prio, pc, k)" rule: create_step.cases)
    (auto simp: fill_field_def Let_def split: prod.split option.split)

section \<open>Properties\<close>

text \<open>C12: a timer interrupt cannot hurt a creation. However the timer ticks between the statements of
  \<open>create_process\<close> and whatever processes run meanwhile, as long as no other one creates: no step
  gets stuck, and the process comes to the end after at most \<open>143\<close> statements of its own and one for each queued
  process; the state then is the one that the same ticks give when the whole call happens at
  once, somewhere between two of them.\<close>

theorem create_process_preemptible:
  assumes "kern_sound (pk s) xs" "own_stacks (pk s)" "pat s c = Start"
    and "lone_run (create_step f prio) create_safe c as s"
  shows "\<exists>t. acts (create_step f prio) as s = Some t
    \<and> (case pat t c of
         Returned r \<Rightarrow> at_once (create_process f prio) r (interrupts as) (pk s) (pk t)
       | _ \<Rightarrow> statements as < 143 + length xs)"
proof -
  have "to_create f prio xs (pat s c) (pk s) (pk s)" using assms(1-3) by (simp add: to_create_def)
  from cp.run_at_once [OF this assms(4)] obtain t where t: "acts (create_step f prio) as s = Some t"
    "if left xs (pat t c) = 0
     then \<exists>r. at_once (create_process f prio) r (interrupts as) (pk s) (pk t) \<and> created r (pat t c) (pk t) (pk t)
     else left xs (pat t c) + statements as \<le> 143 + length xs"
    unfolding assms(3) left.simps by blast
  show ?thesis
  proof (cases "left xs (pat t c) = 0")
    case True
    with t show ?thesis by (auto simp: created_def)
  next
    case False
    with t(2) have "statements as < 143 + length xs" by simp
    with t(1) False show ?thesis by (cases "pat t c") auto
  qed
qed

text \<open>The first process is created by the idle process with a tick after its second statement.\<close>

lemma demo_s0_alone:
  "kern_sound demo_s0 [Pcb 0]" "own_stacks demo_s0" "current_pcb demo_s0 = Some (Pcb 0)"
  "state (pcbs demo_s0 (Pcb 0)) = PROCESS_RUNNING" "tick e demo_s0 = Some (demo_s0\<lparr>cpu_esp := e\<rparr>)"
proof -
  show s: "kern_sound demo_s0 [Pcb 0]" using init_sound [OF demo_start] by blast
  show "own_stacks demo_s0" by (rule init_own_stacks [OF demo_start])
  obtain c d where cd: "current_pcb demo_s0 = Some c" "idle_pcb demo_s0 = Some d" "c = Pcb 0" "d = Pcb 0"
    "state (pcbs demo_s0 c) = PROCESS_RUNNING"
    by (rule kern_sound_refs [OF s]) auto
  then show "current_pcb demo_s0 = Some (Pcb 0)" "state (pcbs demo_s0 (Pcb 0)) = PROCESS_RUNNING"
    by simp_all
  have "sched_choice demo_s0 [Pcb 0] (Pcb 0) (Pcb 0) = Pcb 0"
    using cd by (simp add: sched_choice_def rotation_def ready_def)
  with tick_eq [OF kern_sound_core(2) [OF s], of "Pcb 0" "Pcb 0" e] cd
  show "tick e demo_s0 = Some (demo_s0\<lparr>cpu_esp := e\<rparr>)" by simp
qed

definition demo_interrupted :: "action list" where
  "demo_interrupted = [Statement, Statement, Interrupt 0x9F00] @ replicate 142 Statement"

lemma demo_interrupted_lone:
  "lone_run (create_step f prio) create_safe (Pcb 0) demo_interrupted \<lparr>pk = demo_s0, pat = (\<lambda>_. Start)\<rparr>"
proof -
  have "free_set (pm demo_s0) \<subseteq> {1, 3, 35}"
    using init_sound [OF demo_start] by (auto simp: pages_def demo_boot demo_pmm_free)
  then have "unat (0x9F00 :: uint32_t) div 4096 \<notin> free_set (pm demo_s0)" by auto
  with demo_s0_alone(3-5) show ?thesis
    by (simp add: demo_interrupted_def MAX_PROCESSES_def create_safe_def lone_statements [of "create_step _ _", OF create_step_current])
qed

theorem create_process_preemptible_witness:
  "\<exists>t r. acts (create_step 0x10BEEF 1) demo_interrupted \<lparr>pk = demo_s0, pat = (\<lambda>_. Start)\<rparr> = Some t
     \<and> pat t (Pcb 0) = Returned r \<and> at_once (create_process 0x10BEEF 1) r [0x9F00] demo_s0 (pk t)"
proof -
  let ?s = "\<lparr>pk = demo_s0, pat = (\<lambda>_. Start)\<rparr>"
  have int: "interrupts demo_interrupted = [0x9F00]" "statements demo_interrupted = 144"
    by (simp_all add: demo_interrupted_def)
  have s: "kern_sound (pk ?s) [Pcb 0]" "own_stacks (pk ?s)" "pat ?s (Pcb 0) = Start"
    using demo_s0_alone(1,2) by simp_all
  from create_process_preemptible [OF s demo_interrupted_lone, of "0x10BEEF" 1]
  obtain t where t: "acts (create_step 0x10BEEF 1) demo_interrupted ?s = Some t"
    "case pat t (Pcb 0) of
       Returned r \<Rightarrow> at_once (create_process 0x10BEEF 1) r (interrupts demo_interrupted) (pk ?s) (pk t)
     | _ \<Rightarrow> statements demo_interrupted < 143 + length [Pcb 0]"
    by blast
  then obtain r where "pat t (Pcb 0) = Returned r" using int(2) by (cases "pat t (Pcb 0)") auto
  with t int(1) show ?thesis by auto
qed

end
