(* ===== verification/Kernel_Spec.thy ===== *)
theory Kernel_Spec
  imports Kernel
begin

text \<open>
  What process and thread management promises, as a machine over lists and sets: a list of live
  slots in queue order with a state, a page and a thread number for each, the current and the idle
  slot, and the set of free pages. No pointers, no bitmap, no bytes. The code
  of \<^verbatim>\<open>scheduler.c\<close>, \<^verbatim>\<open>thread.c\<close> and \<^verbatim>\<open>pmm.c\<close> is proved to refine it: from related states every
  sequence of calls returns, gives the replies of the specification, and ends in related states.
\<close>

section \<open>The specification\<close>

record kspec =
  sp_queue :: "pcb_ref list"
  sp_state :: "pcb_ref \<Rightarrow> process_state_t"
  sp_page :: "pcb_ref \<Rightarrow> nat"
  sp_tid :: "nat \<Rightarrow> uint32_t"
  sp_next_tid :: uint32_t
  sp_current :: pcb_ref
  sp_idle :: pcb_ref
  sp_free :: "nat set"
  sp_limit :: nat

datatype reply = Made "pcb_ref option" | Deleted int | Runs "pcb_ref option"

text \<open>The first slot of a pool that is not in use, and the lowest free page below the limit.\<close>

definition spare_slot :: "(nat \<Rightarrow> pcb_ref) \<Rightarrow> kspec \<Rightarrow> nat option" where
  "spare_slot mk a = find (\<lambda>i. mk i \<notin> set (sp_queue a)) [0..<64]"

definition lowest_page :: "nat set \<Rightarrow> nat \<Rightarrow> nat option" where
  "lowest_page free limit = find (\<lambda>n. n \<in> free) [0..<limit]"

definition spare_page :: "kspec \<Rightarrow> nat option" where
  "spare_page a = lowest_page (sp_free a) (sp_limit a)"

definition spec_add :: "pcb_ref \<Rightarrow> nat \<Rightarrow> kspec \<Rightarrow> kspec" where
  "spec_add r n a = a\<lparr>sp_queue := sp_queue a @ [r], sp_state := (sp_state a)(r := PROCESS_READY),
     sp_page := (sp_page a)(r := n), sp_free := sp_free a - {n}\<rparr>"

definition spec_remove :: "pcb_ref \<Rightarrow> kspec \<Rightarrow> kspec" where
  "spec_remove r a = a\<lparr>sp_queue := remove1 r (sp_queue a), sp_free := insert (sp_page a r) (sp_free a)\<rparr>"

definition spec_target :: "uint32_t \<Rightarrow> kspec \<Rightarrow> nat option" where
  "spec_target n a = find (\<lambda>i. Tcb i \<in> set (sp_queue a) \<and> sp_tid a i = n) [0..<64]"

text \<open>The next ready slot behind the current one, once around the queue; the idle slot if there is none.\<close>

definition spec_choice :: "kspec \<Rightarrow> pcb_ref" where
  "spec_choice a = (case find (\<lambda>r. sp_state a r = PROCESS_READY) (rotation (sp_queue a) (sp_current a)) of
     Some r \<Rightarrow> r | None \<Rightarrow> sp_idle a)"

fun spec_call :: "call \<Rightarrow> kspec \<Rightarrow> reply \<times> kspec" where
  "spec_call (Create f prio) a =
     (case (spare_slot Pcb a, spare_page a) of
        (Some i, Some n) \<Rightarrow> (Made (Some (Pcb i)), spec_add (Pcb i) n a)
      | _ \<Rightarrow> (Made None, a))"
| "spec_call (Spawn par f) a =
     (case (spare_slot Tcb a, spare_page a) of
        (Some i, Some n) \<Rightarrow>
          (Made (Some (Tcb i)),
           (spec_add (Tcb i) n a)\<lparr>sp_tid := (sp_tid a)(i := sp_next_tid a + 1),
                                  sp_next_tid := sp_next_tid a + 1\<rparr>)
      | _ \<Rightarrow> (Made None, a))"
| "spec_call Leave a =
     (Runs (Some (sp_idle a)),
      (spec_remove (sp_current a) a)\<lparr>sp_current := sp_idle a,
         sp_state := (sp_state a)(sp_idle a := PROCESS_RUNNING)\<rparr>)"
| "spec_call (Delete n) a =
     (case spec_target n a of
        None \<Rightarrow> (Deleted 0, a)
      | Some i \<Rightarrow> (Deleted 1, spec_remove (Tcb i) a))"
| "spec_call (Tick e) a =
     (let n = spec_choice a
      in (Runs (Some n),
          if n = sp_current a then a
          else a\<lparr>sp_current := n,
                 sp_state := (sp_state a)(sp_current a := PROCESS_READY, n := PROCESS_RUNNING)\<rparr>))"

text \<open>What the callers must not do: the idle process leaves, the current thread is deleted from outside.\<close>

fun spec_allows :: "call \<Rightarrow> kspec \<Rightarrow> bool" where
  "spec_allows Leave a \<longleftrightarrow> sp_current a \<noteq> sp_idle a"
| "spec_allows (Delete n) a \<longleftrightarrow>
     (case spec_target n a of None \<Rightarrow> True | Some i \<Rightarrow> Tcb i \<noteq> sp_current a \<and> Tcb i \<noteq> sp_idle a)"
| "spec_allows _ a \<longleftrightarrow> True"

fun spec_calls :: "call list \<Rightarrow> kspec \<Rightarrow> reply list \<times> kspec" where
  "spec_calls [] a = ([], a)"
| "spec_calls (c # cs) a =
     (let (r, b) = spec_call c a; (rs, z) = spec_calls cs b in (r # rs, z))"

fun spec_allows_all :: "call list \<Rightarrow> kspec \<Rightarrow> bool" where
  "spec_allows_all [] a \<longleftrightarrow> True"
| "spec_allows_all (c # cs) a \<longleftrightarrow> spec_allows c a \<and> (case spec_call c a of (r, b) \<Rightarrow> spec_allows_all cs b)"

section \<open>The code\<close>

text \<open>The same calls on the model of the code; \<open>None\<close> when one does not return.\<close>

fun kern_call :: "call \<Rightarrow> kern \<Rightarrow> (reply \<times> kern) option" where
  "kern_call (Create f prio) s = map_option (\<lambda>(r, t). (Made r, t)) (create_process f prio s)"
| "kern_call (Spawn par f) s =
     map_option (\<lambda>(r, t). (Made (map_option Tcb r), t)) (create_thread par f s)"
| "kern_call Leave s =
     map_option (\<lambda>fl. (Runs (current_pcb (flow_state fl)), flow_state fl)) (process_exit s)"
| "kern_call (Delete n) s = map_option (\<lambda>(r, t). (Deleted r, t)) (thread_delete n s)"
| "kern_call (Tick e) s = map_option (\<lambda>t. (Runs (current_pcb t), t)) (tick e s)"

fun kern_calls :: "call list \<Rightarrow> kern \<Rightarrow> (reply list \<times> kern) option" where
  "kern_calls [] s = Some ([], s)"
| "kern_calls (c # cs) s =
     Option.bind (kern_call c s) (\<lambda>(r, t). map_option (\<lambda>(rs, u). (r # rs, u)) (kern_calls cs t))"

section \<open>The simulation relation\<close>

definition pid_clear :: "kern \<Rightarrow> bool" where
  "pid_clear s \<longleftrightarrow> (\<forall>i < MAX_PROCESSES. state (pcbs s (Pcb i)) = PROCESS_DEAD \<longrightarrow> pid (pcbs s (Pcb i)) = 0)"

definition kern_rel :: "kern \<Rightarrow> kspec \<Rightarrow> bool" where
  "kern_rel s a \<longleftrightarrow> kern_sound s (sp_queue a) \<and> pid_clear s
     \<and> current_pcb s = Some (sp_current a) \<and> idle_pcb s = Some (sp_idle a)
     \<and> (\<forall>r \<in> set (sp_queue a). sp_state a r = state (pcbs s r) \<and> sp_page a r = stack_page s r)
     \<and> (\<forall>i. Tcb i \<in> set (sp_queue a) \<longrightarrow> sp_tid a i = tid (tcbs s i))
     \<and> sp_next_tid a = next_tid s \<and> sp_free a = free_set (pm s)
     \<and> sp_limit a = 32 * (pmm_managed (pm s) div 32)"

lemma kern_rel_live:
  assumes "kern_rel s a"
  shows "live s = set (sp_queue a)" "core_inv s (sp_queue a)" "kern_inv s (sp_queue a)"
    "distinct (sp_queue a)"
  using assms kern_inv_set [of s "sp_queue a"] by (auto simp: kern_rel_def kern_sound_def kern_inv_def)

section \<open>Slots and pages\<close>

lemma spare_slot_process:
  assumes "kern_rel s a"
  shows "alloc_pcb s = map_option Pcb (spare_slot Pcb a)"
proof -
  have d: "Pcb i \<notin> set (sp_queue a) \<longleftrightarrow> state (pcbs s (Pcb i)) = PROCESS_DEAD" if "i < 64" for i
    using that by (auto simp: kern_rel_live(1) [OF assms, symmetric] live_def MAX_PROCESSES_def)
  have "find (\<lambda>i. state (pcbs s (Pcb i)) = PROCESS_DEAD \<and> pid (pcbs s (Pcb i)) = 0) [0..<MAX_PROCESSES]
      = spare_slot Pcb a"
    unfolding spare_slot_def using assms d
    by (intro find_cong) (auto simp: MAX_PROCESSES_def kern_rel_def pid_clear_def)
  moreover have "find (\<lambda>i. state (pcbs s (Pcb i)) = PROCESS_DEAD) [0..<MAX_PROCESSES] = spare_slot Pcb a"
    unfolding spare_slot_def using d by (intro find_cong) (auto simp: MAX_PROCESSES_def)
  ultimately show ?thesis by (cases "spare_slot Pcb a") (simp_all add: alloc_pcb_def)
qed

lemma spare_slot_thread:
  assumes "kern_rel s a"
  shows "fst (alloc_tcb s) = spare_slot Tcb a"
proof -
  have "state (pcbs (ensure_pool_init s) (Tcb i)) = PROCESS_DEAD \<longleftrightarrow> Tcb i \<notin> set (sp_queue a)"
    if "i < 64" for i
  proof -
    have "Tcb i \<in> live (ensure_pool_init s) \<longleftrightarrow> Tcb i \<in> set (sp_queue a)"
      by (simp only: ensure_pool_init_live kern_rel_live(1) [OF assms])
    from this [unfolded live_def] that show ?thesis by (auto simp: MAX_THREADS_def)
  qed
  then show ?thesis
    unfolding spare_slot_def alloc_tcb_def Let_def fst_conv
    by (intro find_cong) (auto simp: MAX_THREADS_def)
qed

lemma lowest_page_alloc:
  assumes "pmm_ready m"
  shows "case lowest_page (free_set m) (32 * (pmm_managed m div 32)) of
      None \<Rightarrow> pmm_alloc_page m = (0, m)
    | Some n \<Rightarrow> \<exists>p k. pmm_alloc_page m = (p, k) \<and> p \<noteq> 0 \<and> unat p div 4096 = n"
proof -
  have inv: "pmm_inv m" "0 \<notin> free_set m" using assms by (simp_all add: pmm_ready_def)
  show ?thesis
  proof (rule pmm_alloc_page_cases [OF inv(1)])
    assume u: "usable m = {}" "pmm_alloc_page m = (0, m)"
    then have "lowest_page (free_set m) (32 * (pmm_managed m div 32)) = None"
      unfolding lowest_page_def find_upt_None_iff pmm_managed_def usable_def by blast
    with u(2) show ?thesis by simp
  next
    fix n assume n: "n \<in> usable m" "took n m (pmm_alloc_page m)" "\<And>k. k < n \<Longrightarrow> k \<notin> free_set m"
    then have "lowest_page (free_set m) (32 * (pmm_managed m div 32)) = Some n"
      unfolding lowest_page_def find_upt_Some_iff pmm_managed_def usable_def by blast
    moreover have "n \<noteq> 0" using took_facts(1) [OF n(2)] inv(2) by metis
    moreover obtain p k where "pmm_alloc_page m = (p, k)" by fastforce
    ultimately show ?thesis using took_address [OF n(2)] by auto
  qed
qed

lemma spare_page_alloc:
  assumes "kern_rel s a"
  shows "case spare_page a of
      None \<Rightarrow> pmm_alloc_page (pm s) = (0, pm s)
    | Some n \<Rightarrow> \<exists>p m. pmm_alloc_page (pm s) = (p, m) \<and> p \<noteq> 0 \<and> unat p div 4096 = n"
  using lowest_page_alloc [of "pm s"] kern_rel_live(2) [OF assms] assms
  by (simp add: spare_page_def core_inv_def kern_rel_def)

section \<open>Creating a process or a thread\<close>

lemma sound_queue:
  assumes "kern_sound t ys" "core_inv t zs"
  shows "kern_sound t zs"
proof -
  have "queue t ys" "queue t zs"
    using assms by (simp_all add: kern_sound_def kern_inv_def core_inv_def)
  then have "ys = zs" unfolding queue_def by (rule is_list_unique)
  with assms(1) show ?thesis by simp
qed

lemma alloc_page_facts:
  assumes "pmm_ready m" "pmm_alloc_page m = (p, k)" "p \<noteq> 0"
  shows "free_set k = free_set m - {unat p div 4096}" "pmm_managed k = pmm_managed m"
  using pa.alloc_page [OF assms(1)] pa.alloc_managed [OF assms(1)] assms(2,3) by simp_all

lemma rel_add:
  assumes rel: "kern_rel s a" and new: "kern_sound t (sp_queue a @ [r])" "r \<notin> set (sp_queue a)" "pid_clear t"
    and same: "current_pcb t = current_pcb s" "idle_pcb t = idle_pcb s"
      "\<forall>q \<in> set (sp_queue a). state (pcbs t q) = state (pcbs s q) \<and> stack_base (pcbs t q) = stack_base (pcbs s q)"
    and page: "state (pcbs t r) = PROCESS_READY" "stack_page t r = n"
      "free_set (pm t) = free_set (pm s) - {n}" "pmm_managed (pm t) = pmm_managed (pm s)"
    and tids: "\<forall>i. Tcb i \<in> set (sp_queue a @ [r]) \<longrightarrow> f i = tid (tcbs t i)"
  shows "kern_rel t ((spec_add r n a)\<lparr>sp_tid := f, sp_next_tid := next_tid t\<rparr>)"
proof -
  have "stack_page t q = stack_page s q" if "q \<in> set (sp_queue a)" for q
    using same(3) that by (simp add: stack_page_def)
  then show ?thesis
    using assms by (auto simp: kern_rel_def spec_add_def)
qed

lemma create_rel:
  assumes rel: "kern_rel s a"
  shows "\<exists>t. kern_call (Create f prio) s = Some (fst (spec_call (Create f prio) a), t)
    \<and> kern_rel t (snd (spec_call (Create f prio) a))"
proof -
  have sound: "kern_sound s (sp_queue a)" using rel by (simp add: kern_rel_def)
  note core = kern_rel_live(2) [OF rel]
  have ready: "pmm_ready (pm s)" using core by (simp add: core_inv_def)
  note slot = spare_slot_process [OF rel] and free = spare_page_alloc [OF rel]
  show ?thesis
  proof (cases "can_create s")
    case True
    obtain p t stack m where t: "create_process f prio s = Some (Some p, t)" "alloc_pcb s = Some p"
      "p \<notin> set (sp_queue a)" "core_inv t (sp_queue a @ [p])" "pmm_alloc_page (pm s) = (stack, m)" "stack \<noteq> 0"
      "strip t = strip (upd_pcb p (\<lambda>_. new_pcb (next_pid s + 1) prio stack)
          (s\<lparr>pm := m, ram := (ram s)(stack + STACK_SIZE - 4 := f), next_pid := next_pid s + 1\<rparr>))"
      by (rule create_process_succeeds [OF core True])
    note e = strip_eqD [OF t(7)]
    obtain i where i: "p = Pcb i" "spare_slot Pcb a = Some i"
      using slot t(2) by (cases "spare_slot Pcb a") auto
    obtain n where n: "spare_page a = Some n" "unat stack div 4096 = n"
      using free t(5,6) by (cases "spare_page a") auto
    note pg = alloc_page_facts [OF ready t(5,6)]
    have "kern_sound t (sp_queue a @ [p])"
      using create_sound [OF sound t(1)] t(4) sound_queue by blast
    moreover have "pid_clear t"
      using rel e(1,2) i(1) by (auto simp: kern_rel_def pid_clear_def new_pcb_def)
    moreover have "stack_page t p = n" using e(5) [of p] n(2) by (simp add: stack_page_def new_pcb_def)
    moreover have "\<forall>i. Tcb i \<in> set (sp_queue a @ [p]) \<longrightarrow> sp_tid a i = tid (tcbs t i)"
      using rel e(6) i(1) by (auto simp: kern_rel_def)
    ultimately have "kern_rel t ((spec_add p n a)\<lparr>sp_tid := sp_tid a, sp_next_tid := next_tid t\<rparr>)"
      using t(3) e pg n(2) by (intro rel_add [OF rel]) (auto simp: new_pcb_def)
    moreover have "(spec_add p n a)\<lparr>sp_tid := sp_tid a, sp_next_tid := next_tid t\<rparr> = spec_add p n a"
      using rel e(9) by (simp add: spec_add_def kern_rel_def)
    ultimately show ?thesis using t(1) i n(1) by simp
  next
    case False
    then have "spare_slot Pcb a = None \<or> spare_page a = None"
      using slot free by (cases "spare_page a") (auto simp: can_create_def)
    with create_process_fails [OF core False, of f prio] rel show ?thesis
      by (auto split: option.split)
  qed
qed

lemma pid_clear_pool: "pid_clear (ensure_pool_init s) = pid_clear s"
  by (auto simp: pid_clear_def ensure_pool_init_eq)

lemma rel_pool:
  assumes rel: "kern_rel s a"
  shows "kern_rel (ensure_pool_init s) a"
proof -
  have live: "live s = set (sp_queue a)" by (rule kern_rel_live(1) [OF rel])
  have "kern_sound (ensure_pool_init s) (sp_queue a)"
    using pool_sound [of s "sp_queue a"] rel by (simp add: kern_rel_def)
  moreover have "state (pcbs (ensure_pool_init s) r) = state (pcbs s r)" if "r \<in> set (sp_queue a)" for r
    using that live by (intro ensure_pool_init_state) simp
  moreover have "tid (tcbs (ensure_pool_init s) i) = tid (tcbs s i)" if "Tcb i \<in> set (sp_queue a)" for i
    using that unfolding live [symmetric] by (auto simp: live_def ensure_pool_init_eq)
  ultimately show ?thesis
    using rel by (simp add: kern_rel_def pid_clear_pool stack_page_def)
qed

lemma spawn_rel:
  assumes rel: "kern_rel s a"
  shows "\<exists>t. kern_call (Spawn par f) s = Some (fst (spec_call (Spawn par f) a), t)
    \<and> kern_rel t (snd (spec_call (Spawn par f) a))"
proof -
  let ?e = "ensure_pool_init s"
  have sound: "kern_sound s (sp_queue a)" using rel by (simp add: kern_rel_def)
  note core = kern_rel_live(2) [OF rel] and pool = rel_pool [OF rel]
  have ready: "pmm_ready (pm s)" using core by (simp add: core_inv_def)
  note slot = spare_slot_thread [OF rel] and free = spare_page_alloc [OF rel]
  show ?thesis
  proof (cases "can_create_thread s")
    case True
    obtain i t stack m where t: "create_thread par f s = Some (Some i, t)"
      "Tcb i \<notin> set (sp_queue a)" "core_inv t (sp_queue a @ [Tcb i])"
      "pmm_alloc_page (pm s) = (stack, m)" "stack \<noteq> 0"
      "strip t = strip (upd_pcb (Tcb i) (\<lambda>_. new_tcb_base par stack s)
          (upd_tcb i (\<lambda>_. \<lparr> tid = next_tid s + 1, parent = par, wait_next = None \<rparr>)
          (?e\<lparr>pm := m, ram := (ram s)(stack + STACK_SIZE - 4 := f), next_tid := next_tid s + 1\<rparr>)))"
      by (rule create_thread_succeeds [OF core True])
    note e = strip_eqD [OF t(6)]
    have slot_i: "spare_slot Tcb a = Some i"
    proof -
      obtain j where j: "spare_slot Tcb a = Some j"
        using True slot by (cases "spare_slot Tcb a") (auto simp: can_create_thread_def)
      then have "alloc_tcb s = (Some j, ?e)" using slot by (simp add: alloc_tcb_def Let_def)
      with t(1,4,5) have "j = i" by (auto simp: create_thread_def Let_def split: option.splits)
      with j show ?thesis by simp
    qed
    obtain n where n: "spare_page a = Some n" "unat stack div 4096 = n"
      using free t(4,5) by (cases "spare_page a") auto
    note pg = alloc_page_facts [OF ready t(4,5)]
    have "kern_sound t (sp_queue a @ [Tcb i])"
      using spawn_sound [OF sound t(1)] t(3) sound_queue by blast
    moreover have "pid_clear t"
      using pool e(1,2) by (simp add: kern_rel_def pid_clear_def)
    moreover have "stack_page t (Tcb i) = n"
      using e(5) [of "Tcb i"] n(2) by (simp add: stack_page_def new_tcb_base_def)
    moreover have "\<forall>j. Tcb j \<in> set (sp_queue a @ [Tcb i]) \<longrightarrow>
        ((sp_tid a)(i := next_tid t)) j = tid (tcbs t j)"
      using pool t(2) e(6,9) by (auto simp: kern_rel_def upd_tcb_def)
    ultimately have "kern_rel t ((spec_add (Tcb i) n a)
        \<lparr>sp_tid := (sp_tid a)(i := next_tid t), sp_next_tid := next_tid t\<rparr>)"
      using t(2) e pg n(2) by (intro rel_add [OF pool]) (auto simp: new_tcb_base_def)
    moreover have "next_tid t = sp_next_tid a + 1" using rel e(9) by (simp add: kern_rel_def)
    ultimately show ?thesis using t(1) slot_i n(1) by simp
  next
    case False
    then have "spare_slot Tcb a = None \<or> spare_page a = None"
      using slot free by (cases "spare_page a") (auto simp: can_create_thread_def)
    with create_thread_fails [OF core False, of par f] pool show ?thesis
      by (auto split: option.split)
  qed
qed

section \<open>Leaving and deleting\<close>

lemma rel_remove:
  assumes rel: "kern_rel s a" and r: "r \<in> set (sp_queue a)"
    and new: "kern_sound t (remove1 r (sp_queue a))" "pid_clear t" "current_pcb t = Some c"
      "idle_pcb t = idle_pcb s"
    and same: "\<forall>q \<in> set (sp_queue a). q \<noteq> r \<longrightarrow>
        st q = state (pcbs t q) \<and> stack_base (pcbs t q) = stack_base (pcbs s q)"
      "\<forall>i. Tcb i \<noteq> r \<longrightarrow> tid (tcbs t i) = tid (tcbs s i)" "next_tid t = next_tid s"
    and page: "free_set (pm t) = insert (stack_page s r) (free_set (pm s))"
      "pmm_managed (pm t) = pmm_managed (pm s)"
  shows "kern_rel t ((spec_remove r a)\<lparr>sp_current := c, sp_state := st\<rparr>)"
proof -
  have d: "set (remove1 r (sp_queue a)) = set (sp_queue a) - {r}"
    using kern_rel_live(4) [OF rel] by (simp add: set_remove1_eq)
  have "stack_page t q = stack_page s q" if "q \<in> set (sp_queue a) - {r}" for q
    using same(1) that by (simp add: stack_page_def)
  moreover have "stack_page s r = sp_page a r" using rel r by (simp add: kern_rel_def)
  ultimately show ?thesis
    using rel new same page by (auto simp: kern_rel_def spec_remove_def d)
qed

lemma process_exit_frame:
  assumes inv: "kern_inv s xs" "current_pcb s = Some c" "idle_pcb s = Some d"
    and ex: "process_exit s = Some (Switches t)"
  shows "tcbs t = tcbs s" "next_tid t = next_tid s" "pmm_managed (pm t) = pmm_managed (pm s)"
    and "r \<noteq> c \<Longrightarrow> pid (pcbs t r) = pid (pcbs s r)"
proof -
  have core: "core_inv s xs" and c: "c \<in> set xs" using inv by (auto simp: kern_inv_def run_ok_def)
  obtain u where u: "dequeue c (upd_pcb c (\<lambda>c. c\<lparr>state := PROCESS_DEAD\<rparr>) s) = Some u"
    "strip u = strip (upd_pcb c (\<lambda>c. c\<lparr>state := PROCESS_DEAD\<rparr>) s)"
    using core_remove [OF core c] by blast
  note e = strip_eqD [OF u(2)]
  have b: "pmm_ready (pm s)" "stack_base (pcbs s c) \<noteq> 0"
    using core c by (auto simp: core_inv_def stack_ok_def)
  have t: "t = context_switch c d (upd_pcb d (\<lambda>c. c\<lparr>state := PROCESS_RUNNING\<rparr>)
      ((upd_pcb c (\<lambda>c. c\<lparr>pid := 0, stack_base := 0, esp := 0\<rparr>)
         (u\<lparr>pm := pmm_free_page (stack_base (pcbs u c)) (pm u)\<rparr>))\<lparr>current_pcb := Some d\<rparr>))"
    using ex u(1) e(11) inv(2,3) by (simp add: process_exit_def Let_def)
  show "tcbs t = tcbs s" "next_tid t = next_tid s"
    using e(6,9) by (simp_all add: t context_switch_def Let_def)
  show "pmm_managed (pm t) = pmm_managed (pm s)"
    using e(5) [of c] e(12) pa.release_managed [OF b] by (simp add: t context_switch_def Let_def)
  show "pid (pcbs t r) = pid (pcbs s r)" if "r \<noteq> c"
    using that e(2) [of r] by (auto simp: t context_switch_def Let_def upd_pcb_def)
qed

lemma leave_rel:
  assumes rel: "kern_rel s a" and ok: "spec_allows Leave a"
  shows "\<exists>t. kern_call Leave s = Some (fst (spec_call Leave a), t) \<and> kern_rel t (snd (spec_call Leave a))"
proof -
  let ?c = "sp_current a" and ?d = "sp_idle a"
  have cd: "current_pcb s = Some ?c" "idle_pcb s = Some ?d" "?c \<noteq> ?d" "kern_sound s (sp_queue a)"
    using rel ok by (simp_all add: kern_rel_def)
  note inv = kern_rel_live(3) [OF rel]
  have c: "?c \<in> set (sp_queue a)" using inv cd(1) by (auto simp: kern_inv_def run_ok_def)
  obtain t where t: "process_exit s = Some (Switches t)" "kern_inv t (remove1 ?c (sp_queue a))"
    "current_pcb t = Some ?d" "idle_pcb t = Some ?d" "state (pcbs t ?d) = PROCESS_RUNNING"
    "pid (pcbs t ?c) = 0" "free_set (pm t) = insert (stack_page s ?c) (free_set (pm s))"
    "\<forall>r. r \<noteq> ?c \<longrightarrow> stack_base (pcbs t r) = stack_base (pcbs s r) \<and>
       (r \<noteq> ?d \<longrightarrow> state (pcbs t r) = state (pcbs s r))"
    using process_exit_spec [OF inv cd(1-3)] unfolding stack_page_def by auto
  note fr = process_exit_frame [OF inv cd(1,2) t(1)]
  have sound: "kern_sound t (remove1 ?c (sp_queue a))"
    using t(2-5) by (simp add: kern_sound_def is_runnable_def)
  have clear: "pid_clear t"
    unfolding pid_clear_def
  proof (intro allI impI)
    fix i assume i: "i < MAX_PROCESSES" "state (pcbs t (Pcb i)) = PROCESS_DEAD"
    show "pid (pcbs t (Pcb i)) = 0"
    proof (cases "Pcb i = ?c")
      case False
      with i t(5,8) have "state (pcbs s (Pcb i)) = PROCESS_DEAD" by (cases "Pcb i = ?d") auto
      with rel i(1) have "pid (pcbs s (Pcb i)) = 0" by (simp add: kern_rel_def pid_clear_def)
      with fr(4) [OF False] show ?thesis by simp
    qed (use t(6) in simp)
  qed
  have "\<forall>q \<in> set (sp_queue a). q \<noteq> ?c \<longrightarrow> ((sp_state a)(?d := PROCESS_RUNNING)) q = state (pcbs t q)
      \<and> stack_base (pcbs t q) = stack_base (pcbs s q)"
    using rel t(5,8) by (auto simp: kern_rel_def)
  from rel_remove [OF rel c sound clear t(3) _ this _ fr(2) t(7) fr(3)] fr(1) t(4) cd(2)
  have "kern_rel t ((spec_remove ?c a)\<lparr>sp_current := ?d, sp_state := (sp_state a)(?d := PROCESS_RUNNING)\<rparr>)"
    by (simp add: fun_upd_def)
  with t(1,3) show ?thesis by (simp add: fun_upd_def)
qed

lemma thread_delete_frame:
  assumes inv: "kern_inv s xs" and ini: "thread_target n s = Some i" and del: "thread_delete n s = Some (1, t)"
  shows "\<forall>j. j \<noteq> i \<longrightarrow> tid (tcbs t j) = tid (tcbs s j)" "next_tid t = next_tid s"
    "pmm_managed (pm t) = pmm_managed (pm s)" "pid_clear s \<Longrightarrow> pid_clear t"
proof -
  have i: "Tcb i \<in> live s" using ini by (auto simp: thread_target_def find_upt_Some_iff)
  then have e: "ensure_pool_init s = s" by (simp add: live_def ensure_pool_init_eq)
  have core: "core_inv s xs" and x: "Tcb i \<in> set xs" using inv i by (auto simp: kern_inv_def core_inv_def)
  obtain u where u: "dequeue (Tcb i) (upd_pcb (Tcb i) (\<lambda>c. c\<lparr>state := PROCESS_DEAD\<rparr>) s) = Some u"
    "strip u = strip (upd_pcb (Tcb i) (\<lambda>c. c\<lparr>state := PROCESS_DEAD\<rparr>) s)"
    using core_remove [OF core x] by blast
  note f = strip_eqD [OF u(2)]
  have b: "pmm_ready (pm s)" "stack_base (pcbs s (Tcb i)) \<noteq> 0"
    using core x by (auto simp: core_inv_def stack_ok_def)
  have t: "t = upd_tcb i (\<lambda>t. t\<lparr>tid := 0\<rparr>) (upd_pcb (Tcb i) (\<lambda>c. c\<lparr>stack_base := 0\<rparr>)
      (u\<lparr>pm := pmm_free_page (stack_base (pcbs u (Tcb i))) (pm u)\<rparr>))"
    using del u(1) ini thread_target_find [of s n]
    by (simp add: thread_delete_def Let_def scheduler_dequeue_def e)
  show "\<forall>j. j \<noteq> i \<longrightarrow> tid (tcbs t j) = tid (tcbs s j)" "next_tid t = next_tid s"
    using f(6,9) by (simp_all add: t upd_tcb_def)
  show "pmm_managed (pm t) = pmm_managed (pm s)"
    using f(5) [of "Tcb i"] f(12) pa.release_managed [OF b] by (simp add: t)
  show "pid_clear t" if "pid_clear s"
    using that f(1,2) by (simp add: t pid_clear_def)
qed

lemma delete_rel:
  assumes rel: "kern_rel s a" and ok: "spec_allows (Delete n) a"
  shows "\<exists>t. kern_call (Delete n) s = Some (fst (spec_call (Delete n) a), t)
    \<and> kern_rel t (snd (spec_call (Delete n) a))"
proof -
  let ?c = "sp_current a" and ?d = "sp_idle a"
  note inv = kern_rel_live(3) [OF rel] and live = kern_rel_live(1) [OF rel]
  have cd: "current_pcb s = Some ?c" "idle_pcb s = Some ?d" "kern_sound s (sp_queue a)"
    using rel by (simp_all add: kern_rel_def)
  have target: "thread_target n s = spec_target n a"
    unfolding thread_target_def spec_target_def live
    using rel by (intro find_cong) (auto simp: MAX_THREADS_def kern_rel_def)
  note spec = thread_delete_spec [OF inv cd(1,2), of n]
  show ?thesis
  proof (cases "spec_target n a")
    case None
    then show ?thesis using spec target rel_pool [OF rel] by simp
  next
    case (Some i)
    then have x: "Tcb i \<in> set (sp_queue a)" by (auto simp: spec_target_def find_upt_Some_iff)
    have ne: "Tcb i \<noteq> ?c" "Tcb i \<noteq> ?d" using ok Some by simp_all
    have tg: "thread_target n s = Some i" using Some target by simp
    obtain t where t: "thread_delete n s = Some (1, t)" "kern_inv t (remove1 (Tcb i) (sp_queue a))"
      "free_set (pm t) = insert (stack_page s (Tcb i)) (free_set (pm s))"
      "current_pcb t = Some ?c" "idle_pcb t = Some ?d"
      "\<forall>r \<in> set (sp_queue a). r \<noteq> Tcb i \<longrightarrow> stack_base (pcbs t r) = stack_base (pcbs s r)
         \<and> state (pcbs t r) = state (pcbs s r)"
      using spec ne unfolding tg stack_page_def by auto
    note fr = thread_delete_frame [OF inv tg t(1)]
    have in_q: "?c \<in> set (sp_queue a)" "?d \<in> set (sp_queue a)"
      using inv cd by (auto simp: kern_inv_def run_ok_def)
    have sound: "kern_sound t (remove1 (Tcb i) (sp_queue a))"
      using t(2,4-6) ne cd in_q by (auto simp: kern_sound_def is_runnable_def)
    have clear: "pid_clear t" using fr(4) rel by (simp add: kern_rel_def)
    have "kern_rel t ((spec_remove (Tcb i) a)\<lparr>sp_current := ?c, sp_state := sp_state a\<rparr>)"
      using rel_remove [OF rel x sound clear t(4), of "sp_state a"] t(3,5,6) fr(1-3) rel
      by (auto simp: kern_rel_def)
    then show ?thesis using t(1) Some by (simp add: spec_remove_def)
  qed
qed

section \<open>The timer\<close>

lemma tick_rel:
  assumes rel: "kern_rel s a"
  shows "\<exists>t. kern_call (Tick e) s = Some (fst (spec_call (Tick e) a), t)
    \<and> kern_rel t (snd (spec_call (Tick e) a))"
proof -
  let ?c = "sp_current a" and ?d = "sp_idle a" and ?n = "spec_choice a"
  note inv = kern_rel_live(3) [OF rel]
  have cd: "current_pcb s = Some ?c" "idle_pcb s = Some ?d" "kern_sound s (sp_queue a)"
    "state (pcbs s ?c) = PROCESS_RUNNING"
    using rel by (auto simp: kern_rel_def kern_sound_def)
  have c: "?c \<in> set (sp_queue a)" using inv cd(1) by (auto simp: kern_inv_def run_ok_def)
  have n: "sched_choice s (sp_queue a) ?c ?d = ?n"
  proof -
    obtain as bs where q: "sp_queue a = as @ ?c # bs" "rotation (sp_queue a) ?c = bs @ as @ [?c]"
      using inv c by (auto simp: kern_inv_def core_inv_def intro: queue_split [of s "sp_queue a" ?c])
    then have "set (rotation (sp_queue a) ?c) = set (sp_queue a)" by auto
    then have "find (ready s) (rotation (sp_queue a) ?c)
        = find (\<lambda>r. sp_state a r = PROCESS_READY) (rotation (sp_queue a) ?c)"
      using rel by (intro find_cong) (auto simp: ready_def kern_rel_def)
    then show ?thesis by (simp add: sched_choice_def spec_choice_def)
  qed
  obtain t where t: "tick e s = Some t" "kern_sound t (sp_queue a)"
    using timer_sound [OF cd(3)] by blast
  have run: "t = (if ?n = ?c then s\<lparr>cpu_esp := e\<rparr> else switch_to ?c ?n (s\<lparr>cpu_esp := e\<rparr>))"
    using tick_spec [OF inv cd(1,2), of e] t(1) n by simp
  show ?thesis
  proof (cases "?n = ?c")
    case True
    with run t rel show ?thesis
      by (auto simp: kern_rel_def pid_clear_def stack_page_def Let_def)
  next
    case False
    then have u: "t = switch_to ?c ?n (s\<lparr>cpu_esp := e\<rparr>)" using run by simp
    have "kern_rel t (a\<lparr>sp_current := ?n, sp_state := (sp_state a)(?c := PROCESS_READY, ?n := PROCESS_RUNNING)\<rparr>)"
      using t(2) rel cd(4) False unfolding u
      by (auto simp: kern_rel_def pid_clear_def stack_page_def switch_to_def)
    with t(1) False show ?thesis by (simp add: Let_def u switch_to_def)
  qed
qed

section \<open>Any sequence of calls\<close>

lemma call_rel:
  assumes "kern_rel s a" "spec_allows c a"
  shows "\<exists>t. kern_call c s = Some (fst (spec_call c a), t) \<and> kern_rel t (snd (spec_call c a))"
proof (cases c)
  case (Create f prio)
  show ?thesis unfolding Create by (rule create_rel [OF assms(1)])
next
  case (Spawn par f)
  show ?thesis unfolding Spawn by (rule spawn_rel [OF assms(1)])
next
  case Leave
  show ?thesis using leave_rel assms unfolding Leave by blast
next
  case (Delete n)
  show ?thesis using delete_rel assms unfolding Delete by blast
next
  case (Tick e)
  show ?thesis unfolding Tick by (rule tick_rel [OF assms(1)])
qed

lemma calls_rel:
  "kern_rel s a \<Longrightarrow> spec_allows_all cs a \<Longrightarrow>
   \<exists>t. kern_calls cs s = Some (fst (spec_calls cs a), t) \<and> kern_rel t (snd (spec_calls cs a))"
proof (induction cs arbitrary: s a)
  case (Cons c cs)
  obtain t where t: "kern_call c s = Some (fst (spec_call c a), t)" "kern_rel t (snd (spec_call c a))"
    using call_rel [OF Cons.prems(1), of c] Cons.prems(2) by auto
  obtain u where "kern_calls cs t = Some (fst (spec_calls cs (snd (spec_call c a))), u)"
    "kern_rel u (snd (spec_calls cs (snd (spec_call c a))))"
    using Cons.IH [OF t(2)] Cons.prems(2) by auto
  with t(1) show ?case by (auto simp: split_beta Let_def)
qed simp

section \<open>The start\<close>

text \<open>Only the idle process, on the lowest page that allocation may hand out.\<close>

definition spec_start :: "nat set \<Rightarrow> nat \<Rightarrow> uint32_t \<Rightarrow> kspec option" where
  "spec_start free limit tids =
     map_option (\<lambda>n. \<lparr> sp_queue = [Pcb 0], sp_state = (\<lambda>_. PROCESS_RUNNING), sp_page = (\<lambda>_. n),
         sp_tid = (\<lambda>_. 0), sp_next_tid = tids, sp_current = Pcb 0, sp_idle = Pcb 0,
         sp_free = free - {n}, sp_limit = limit \<rparr>)
       (lowest_page free limit)"

lemma init_rel:
  assumes s: "pmm_ready (pm s)" "run_queue s = None" "\<not> tcb_pool_initialized s"
    and a: "spec_start (free_set (pm s)) (32 * (pmm_managed (pm s) div 32)) (next_tid s) = Some a"
  shows "\<exists>t. scheduler_init idle s = Some (Inr t) \<and> kern_rel t a"
proof -
  note c = pool_cleared_inv [OF s]
  obtain n where n: "lowest_page (free_set (pm s)) (32 * (pmm_managed (pm s) div 32)) = Some n"
    using a by (auto simp: spec_start_def)
  obtain stack m where al: "pmm_alloc_page (pm s) = (stack, m)" "stack \<noteq> 0" "unat stack div 4096 = n"
    using lowest_page_alloc [OF s(1)] n by auto
  have can: "can_create (pool_cleared s)" using c al by (simp add: can_create_def)
  obtain p u stack' m' where u: "create_process idle 0 (pool_cleared s) = Some (Some p, u)"
    "alloc_pcb (pool_cleared s) = Some p" "pmm_alloc_page (pm (pool_cleared s)) = (stack', m')"
    "strip u = strip (upd_pcb p (\<lambda>_. new_pcb (next_pid (pool_cleared s) + 1) 0 stack')
        ((pool_cleared s)\<lparr>pm := m', ram := (ram (pool_cleared s))(stack' + STACK_SIZE - 4 := idle),
           next_pid := next_pid (pool_cleared s) + 1\<rparr>))"
    by (rule create_process_succeeds [OF c(1) can])
  have [simp]: "p = Pcb 0" "stack' = stack" "m' = m" using u(2,3) c(2,3) al(1) by simp_all
  let ?t = "upd_pcb p (\<lambda>c. c\<lparr>state := PROCESS_RUNNING\<rparr>) (u\<lparr>idle_pcb := Some p, current_pcb := Some p\<rparr>)"
  have t: "scheduler_init idle s = Some (Inr ?t)"
    using u(1) by (simp add: scheduler_init_def Let_def pool_cleared_def [symmetric])
  note e = strip_eqD [OF u(4)] and pg = alloc_page_facts [OF s(1) al(1,2)]
  have "pid_clear ?t"
    using e(2) by (auto simp: pid_clear_def upd_pcb_def new_pcb_def pool_cleared_eq dead_pcb_def)
  moreover have "stack_page ?t (Pcb 0) = n" using e(5) [of "Pcb 0"] al(3) by (simp add: stack_page_def new_pcb_def)
  moreover have "kern_sound ?t [Pcb 0]" using init_sound [OF s t] by simp
  moreover have "next_tid ?t = next_tid s" "free_set (pm ?t) = free_set (pm s) - {n}"
    "pmm_managed (pm ?t) = pmm_managed (pm s)"
    using e(9,12) pg al(3) by (simp_all add: pool_cleared_eq)
  moreover have "state (pcbs ?t (Pcb 0)) = PROCESS_RUNNING" "current_pcb ?t = Some (Pcb 0)"
    "idle_pcb ?t = Some (Pcb 0)" by simp_all
  moreover have "a = \<lparr> sp_queue = [Pcb 0], sp_state = (\<lambda>_. PROCESS_RUNNING), sp_page = (\<lambda>_. n),
      sp_tid = (\<lambda>_. 0), sp_next_tid = next_tid s, sp_current = Pcb 0, sp_idle = Pcb 0,
      sp_free = free_set (pm s) - {n}, sp_limit = 32 * (pmm_managed (pm s) div 32) \<rparr>"
    using a unfolding spec_start_def n by simp
  ultimately have "kern_rel ?t a" unfolding kern_rel_def by (simp only:) simp
  with t show ?thesis by blast
qed

section \<open>Properties\<close>

text \<open>C3: process and thread management refines its specification. Starting from memory with the free
  pages of \<open>m\<close>, \<open>scheduler_init\<close> fails exactly when the specification has no page for the idle process;
  otherwise every sequence of creations, exits, deletions and timer ticks that the specification allows
  returns, in the code as in the specification, with the same replies: the same slots are handed
  out, the same calls are refused, the same thread is deleted and the same process runs after every
  tick; the states at the end are related again.\<close>

theorem kernel_refines_spec:
  assumes "pmm_ready m"
  shows "case spec_start (free_set m) (32 * (pmm_managed m div 32)) 0 of
      None \<Rightarrow> scheduler_init idle (kern_boot m)
        = Some (Inl ''scheduler_init: failed to create idle process'')
    | Some a \<Rightarrow> \<exists>s. scheduler_init idle (kern_boot m) = Some (Inr s)
        \<and> (\<forall>cs. spec_allows_all cs a \<longrightarrow>
             (\<exists>t. kern_calls cs s = Some (fst (spec_calls cs a), t) \<and> kern_rel t (snd (spec_calls cs a))))"
proof -
  have b: "pmm_ready (pm (kern_boot m))" using assms by (simp add: demo_boot)
  have z: "next_tid (kern_boot m) = 0" by (simp add: kern_boot_def)
  note i = init_rel [OF b demo_boot(3,4), of _ idle, unfolded demo_boot(2) z]
  show ?thesis
  proof (cases "spec_start (free_set m) (32 * (pmm_managed m div 32)) 0")
    case None
    then have "fst (pmm_alloc_page (pm (kern_boot m))) = 0"
      using lowest_page_alloc [OF assms] by (simp add: spec_start_def demo_boot split: option.splits)
    with scheduler_init_spec [OF b demo_boot(3,4), of idle] None show ?thesis by simp
  next
    case (Some a)
    from i [OF Some] calls_rel Some show ?thesis by (simp only: option.case) blast
  qed
qed

text \<open>Two pages can be handed out, one for the idle process and one for process 1, so that the first
  thread is refused and gets its page only after process 1 has left.\<close>

theorem kernel_refines_spec_witness:
  "\<exists>s t. scheduler_init 0x101000 (kern_boot demo_pmm) = Some (Inr s)
     \<and> kern_calls [Create 0x10BEEF 1, Spawn None 0x10CAFE, Tick 0x9F00, Leave, Spawn None 0x10CAFE,
                   Tick 0x9F00, Tick 0x9F00, Delete 1, Delete 1] s
       = Some ([Made (Some (Pcb 1)), Made None, Runs (Some (Pcb 1)), Runs (Some (Pcb 0)),
                Made (Some (Tcb 0)), Runs (Some (Tcb 0)), Runs (Some (Pcb 0)), Deleted 1, Deleted 0], t)"
proof -
  let ?cs = "[Create 0x10BEEF 1, Spawn None 0x10CAFE, Tick 0x9F00, Leave, Spawn None 0x10CAFE,
      Tick 0x9F00, Tick 0x9F00, Delete 1, Delete 1]"
  have f: "free_set demo_pmm = {1, 3, 35}" "32 * (pmm_managed demo_pmm div 32) = 32"
    by (simp_all add: demo_pmm_free pmm_managed_def) (simp add: demo_pmm_def)
  let ?a = "\<lparr> sp_queue = [Pcb 0], sp_state = (\<lambda>_. PROCESS_RUNNING), sp_page = (\<lambda>_. 1), sp_tid = (\<lambda>_. 0),
      sp_next_tid = 0, sp_current = Pcb 0, sp_idle = Pcb 0, sp_free = {3, 35}, sp_limit = 32 \<rparr>"
  have "{1, 3, 35} - {1} = {3, 35 :: nat}" by auto
  moreover have "lowest_page {1, 3, 35} 32 = Some 1" unfolding lowest_page_def find_upt_Some_iff by simp
  ultimately have a: "spec_start {1, 3, 35} 32 0 = Some ?a" unfolding spec_start_def by simp
  have pages: "lowest_page {3, 35} 32 = Some 3" "lowest_page {35} 32 = None"
    unfolding lowest_page_def find_upt_Some_iff find_upt_None_iff by auto
  have slots: "find ((<) 0) [0..<64] = Some 1" "find (\<lambda>_. True) [0..<64] = Some 0"
    "find (\<lambda>_. False) [0..<64] = None" "find (\<lambda>i. i = 0) [0..<64] = Some 0"
    unfolding find_upt_Some_iff find_upt_None_iff by auto
  have ev: "spec_allows_all ?cs ?a" "fst (spec_calls ?cs ?a)
      = [Made (Some (Pcb 1)), Made None, Runs (Some (Pcb 1)), Runs (Some (Pcb 0)),
         Made (Some (Tcb 0)), Runs (Some (Tcb 0)), Runs (Some (Pcb 0)), Deleted 1, Deleted 0]"
    by (simp_all add: spec_add_def spec_remove_def spare_slot_def spare_page_def spec_target_def
        spec_choice_def rotation_def Let_def slots pages del: upt_rec_numeral)
  obtain s where s: "scheduler_init 0x101000 (kern_boot demo_pmm) = Some (Inr s)"
    "\<forall>cs. spec_allows_all cs ?a \<longrightarrow>
       (\<exists>t. kern_calls cs s = Some (fst (spec_calls cs ?a), t) \<and> kern_rel t (snd (spec_calls cs ?a)))"
    using kernel_refines_spec [OF demo_pmm_ready, of "0x101000", unfolded f a option.case] by blast
  from s(2) ev(1) obtain t where "kern_calls ?cs s = Some (fst (spec_calls ?cs ?a), t)" by blast
  with s(1) show ?thesis unfolding ev(2) by blast
qed

end
