(* ===== verification/Races.thy ===== *)
theory Races
  imports Preempt Kernel_Spec
begin

text \<open>
  What preemption does break: two processes that create at the same time, and a process that is
  interrupted in \<^verbatim>\<open>process_exit\<close>.
\<close>

section \<open>Two creators\<close>

lemma find_tail_loop: "next_pcb (h r) = Some r \<Longrightarrow> find_tail h r = None"
proof -
  have "find_tail h r = Some y \<Longrightarrow> next_pcb (h r) \<noteq> Some r" for y
    by (erule find_tail.raw_induct [rotated]) (fastforce split: option.splits)
  then show "next_pcb (h r) = Some r \<Longrightarrow> find_tail h r = None" by (cases "find_tail h r") auto
qed

fun searching :: "create_pc \<Rightarrow> bool" where
  "searching Start \<longleftrightarrow> True"
| "searching (Scanning i) \<longleftrightarrow> True"
| "searching (Rescanning i) \<longleftrightarrow> True"
| "searching _ \<longleftrightarrow> False"

lemma search_step:
  assumes "searching pc" "matches f prio xs pc k k" "alloc_pcb k = Some p"
    and "create_step f prio pc k = (y, l)"
  shows "l = k \<and> (y = Paging p \<or> searching y) \<and> (y = Paging p \<or> matches f prio xs y k k)"
  using assms alloc_scan alloc_rescan
  by (cases pc) (auto simp: unused_def less_Suc_eq alloc_pcb_None [THEN iffD2] split: if_splits)

lemma search_ends:
  assumes "kern_sound (pk s) xs" "current_pcb (pk s) = Some c" "alloc_pcb (pk s) = Some p"
    and "searching (pat s c)" "matches f prio xs (pat s c) (pk s) (pk s)"
  shows "\<exists>n. acts (create_step f prio) (replicate n Statement) s = Some (s\<lparr>pat := (pat s)(c := Paging p)\<rparr>)"
  using assms
proof (induction "left xs (pat s c)" arbitrary: s rule: less_induct)
  case less
  obtain y l where st: "create_step f prio (pat s c) (pk s) = (y, l)" by fastforce
  have l: "l = pk s" "y = Paging p \<or> searching y" "y = Paging p \<or> matches f prio xs y (pk s) (pk s)"
    using search_step [OF less.prems(4,5,3) st] by auto
  let ?t = "s\<lparr>pat := (pat s)(c := y)\<rparr>"
  have act: "act (create_step f prio) Statement s = Some ?t" using less.prems(2) st l(1) by simp
  show ?case
  proof (cases "y = Paging p")
    case True
    with act show ?thesis by (intro exI [of _ 1]) simp
  next
    case False
    have "left xs (pat ?t c) < left xs (pat s c)" using matches_step(2) [OF less.prems(1,5) st] by simp
    from less.hyps [OF this] less.prems(1-3) l(2,3) False
    obtain n where n: "acts (create_step f prio) (replicate n Statement) ?t
      = Some (?t\<lparr>pat := (pat ?t)(c := Paging p)\<rparr>)" by auto
    with act show ?thesis by (intro exI [of _ "Suc n"]) simp
  qed
qed

text \<open>A creator that holds on to a slot that another one has queued meanwhile, as the last one.\<close>

lemma second_append:
  assumes "current_pcb k = Some c" "run_queue k = Some n" "distinct [n, c, p]"
    and "next_pcb (pcbs k n) = Some c" "next_pcb (pcbs k c) = Some p"
    and "pmm_alloc_page (pm k) = (y, m)" "y \<noteq> 0" and s: "pk s = k" "pat s c = Paging p"
  shows "\<exists>t. acts (create_step f prio) (replicate 14 Statement) s = Some t
    \<and> pat t = (pat s)(c := Returned (Some p)) \<and> run_queue (pk t) = Some n
    \<and> next_pcb (pcbs (pk t) n) = Some c \<and> next_pcb (pcbs (pk t) c) = Some p
    \<and> next_pcb (pcbs (pk t) p) = Some p"
  using assms by (simp add: eval_nat_numeral fill_field_def Let_def fun_upd_twist)

text \<open>Nothing can be queued behind the loop.\<close>

lemma looped_enqueue:
  assumes "run_queue k = Some c" "next_pcb (pcbs k c) = Some n" "next_pcb (pcbs k n) = Some p"
    and "next_pcb (pcbs k p) = Some p" "q \<notin> {c, n, p}"
  shows "enqueue q k = None"
proof -
  let ?h = "pcbs (upd_pcb q (\<lambda>c. c\<lparr>next_pcb := None\<rparr>) k)"
  have "find_tail ?h p = None" using assms(4,5) by (intro find_tail_loop) auto
  then have "find_tail ?h n = None" using assms(3,5) by (subst find_tail.simps) auto
  then have "find_tail ?h c = None" using assms(2,5) by (subst find_tail.simps) auto
  with assms(1) show ?thesis by (simp add: enqueue_def Let_def)
qed

lemma tick_to:
  assumes s: "kern_sound k xs" and c: "current_pcb k = Some c" and r: "rotation xs c = n # rs"
    and n: "state (pcbs k n) = PROCESS_READY" "n \<noteq> c"
  shows "tick e k = Some (switch_to c n (k\<lparr>cpu_esp := e\<rparr>))" "kern_sound (switch_to c n (k\<lparr>cpu_esp := e\<rparr>)) xs"
    "state (pcbs (switch_to c n (k\<lparr>cpu_esp := e\<rparr>)) c) = PROCESS_READY"
    "\<And>q. q \<noteq> c \<Longrightarrow> q \<noteq> n \<Longrightarrow> pcbs (switch_to c n (k\<lparr>cpu_esp := e\<rparr>)) q = pcbs k q"
proof -
  obtain d where d: "kern_inv k xs" "idle_pcb k = Some d" "c \<in> set xs" "state (pcbs k c) = PROCESS_RUNNING"
    by (rule kern_sound_refs [OF s]) (use c in auto)
  have "sched_choice k xs c d = n" using r n(1) by (simp add: sched_choice_def ready_def)
  then show t: "tick e k = Some (switch_to c n (k\<lparr>cpu_esp := e\<rparr>))"
    using tick_spec [OF d(1) c d(2), of e] n(2) by simp
  show "kern_sound (switch_to c n (k\<lparr>cpu_esp := e\<rparr>)) xs" using tick_keeps(11) [OF s t] .
  show "state (pcbs (switch_to c n (k\<lparr>cpu_esp := e\<rparr>)) c) = PROCESS_READY"
    "\<And>q. q \<noteq> c \<Longrightarrow> q \<noteq> n \<Longrightarrow> pcbs (switch_to c n (k\<lparr>cpu_esp := e\<rparr>)) q = pcbs k q"
    using d(4) n(2) by (simp_all add: switch_to_def)
qed

text \<open>The other process creates at once, from the first statement to the last.\<close>

lemma statements_own:
  assumes "acts (create_step f prio) (replicate j Statement) s = Some t" "current_pcb (pk s) = Some c"
  shows "current_pcb (pk t) = Some c \<and> (\<forall>q. q \<noteq> c \<longrightarrow> pat t q = pat s q)"
  using assms
proof (induction j arbitrary: s)
  case (Suc j)
  obtain y l where st: "create_step f prio (pat s c) (pk s) = (y, l)" by fastforce
  let ?u = "s\<lparr>pk := l, pat := (pat s)(c := y)\<rparr>"
  have "current_pcb l = Some c"
    using create_step_current [of f prio "pat s c" "pk s"] st Suc.prems(2) by simp
  with Suc.IH [of ?u] Suc.prems st show ?case by simp
qed simp

lemma create_alone:
  assumes s: "kern_sound (pk s) xs" "own_stacks (pk s)" "current_pcb (pk s) = Some c" "pat s c = Start"
    and p: "alloc_pcb (pk s) = Some p" "fst (pmm_alloc_page (pm (pk s))) \<noteq> 0"
  shows "\<exists>j t. acts (create_step f prio) (replicate j Statement) s = Some t
    \<and> pat t = (pat s)(c := Returned (Some p)) \<and> create_process f prio (pk s) = Some (Some p, pk t)"
proof -
  let ?as = "replicate (144 + length xs) Statement"
  have "to_create f prio xs (pat s c) (pk s) (pk s)" using s by (simp add: to_create_def)
  from cp.run_at_once [OF this lone_statements [of "create_step f prio", OF create_step_current s(3)], of "144 + length xs"] s(4)
  obtain t r where t: "acts (create_step f prio) ?as s = Some t"
    "at_once (create_process f prio) r [] (pk s) (pk t)" "pat t c = Returned r"
    by (auto simp: created_def split: if_splits)
  then have made: "create_process f prio (pk s) = Some (r, pk t)" by (auto simp: at_once_def)
  have can: "can_create (pk s)" using p by (simp add: can_create_def)
  obtain q v where "create_process f prio (pk s) = Some (Some q, v)" "alloc_pcb (pk s) = Some q"
    by (rule create_process_succeeds [OF kern_sound_core(1) [OF s(1)] can])
  with made p(1) have "r = Some p" by simp
  moreover have "pat t = (pat s)(c := Returned r)" using statements_own [OF t(1) s(3)] t(3) by auto
  ultimately show ?thesis using t(1) made by blast
qed

text \<open>What the other creator leaves, and the tick that gives the processor back: the first one is
  next in the queue, before the new slot.\<close>

lemma after_create:
  assumes k: "kern_sound k xs" "current_pcb k = Some n" "c \<in> set xs" "state (pcbs k c) = PROCESS_READY"
    and made: "create_process f prio k = Some (Some p, b)"
  shows "kern_sound b (xs @ [p])" "current_pcb b = Some n" "state (pcbs b c) = PROCESS_READY"
    "pm b = snd (pmm_alloc_page (pm k))"
proof -
  note core = kern_sound_core(1) [OF k(1)]
  have can: "can_create k" using create_process_fails [OF core, of f prio] made by auto
  obtain q v y w where v: "create_process f prio k = Some (Some q, v)" "q \<notin> set xs"
    "core_inv v (xs @ [q])" "pmm_alloc_page (pm k) = (y, w)"
    "strip v = strip (upd_pcb q (\<lambda>_. new_pcb (next_pid k + 1) prio y)
        (k\<lparr>pm := w, ram := (ram k)(y + STACK_SIZE - 4 := f), next_pid := next_pid k + 1\<rparr>))"
    by (rule create_process_succeeds [OF core can])
  have [simp]: "q = p" "v = b" using v(1) made by simp_all
  note st = strip_eqD [OF v(5), simplified]
  obtain ys where "kern_sound b ys" using create_sound [OF k(1) made] by blast
  from sound_queue [OF this, of "xs @ [p]"] v(3) show "kern_sound b (xs @ [p])" by simp
  show "current_pcb b = Some n" using st(10) k(2) by simp
  have "c \<noteq> p" using v(2) k(3) by auto
  then show "state (pcbs b c) = PROCESS_READY" using st(1) [of c] k(4) by simp
  show "pm b = snd (pmm_alloc_page (pm k))" using st(12) v(4) by simp
qed

lemma back_to_creator:
  assumes b: "kern_sound b [n, c, p]" "current_pcb b = Some n" and ready: "state (pcbs b c) = PROCESS_READY"
  shows "\<exists>k. tick e b = Some k \<and> current_pcb k = Some c \<and> run_queue k = Some n
    \<and> next_pcb (pcbs k n) = Some c \<and> next_pcb (pcbs k c) = Some p \<and> pm k = pm b"
proof -
  have dist: "distinct [n, c, p]" using kern_sound_core(2) [OF b(1)] by (rule rq.queue_distinct)
  let ?k = "switch_to n c (b\<lparr>cpu_esp := e\<rparr>)"
  have "rotation [n, c, p] n = [c, p, n]" using dist by (simp add: rotation_def)
  then have k: "tick e b = Some ?k" "kern_sound ?k [n, c, p]"
    using tick_to [OF b, where n = c and rs = "[p, n]" and e = e] ready dist by auto
  have "run_queue ?k = Some n" "next_pcb (pcbs ?k n) = Some c" "next_pcb (pcbs ?k c) = Some p"
    using kern_sound_core(2) [OF k(2)] by (simp_all add: queue_def)
  moreover have "current_pcb ?k = Some c" by (simp add: switch_to_def)
  ultimately show ?thesis using k(1) tick_keeps(1) [OF b(1) k(1)] by auto
qed

section \<open>A process that is interrupted while it leaves\<close>

text \<open>The first statement of \<open>process_exit\<close>, and the others.\<close>

definition exit_mark :: "pcb_ref \<Rightarrow> kern \<Rightarrow> kern" where
  "exit_mark dying k = upd_pcb dying (\<lambda>c. c\<lparr>state := PROCESS_DEAD\<rparr>) k"

definition exit_rest :: "pcb_ref \<Rightarrow> kern \<Rightarrow> kern flow option" where
  "exit_rest dying k =
     (case dequeue dying k of
        None \<Rightarrow> None
      | Some k \<Rightarrow>
          (let k = k\<lparr>pm := pmm_free_page (stack_base (pcbs k dying)) (pm k)\<rparr>;
               k = upd_pcb dying (\<lambda>c. c\<lparr>pid := 0, stack_base := 0, esp := 0\<rparr>) k;
               k = k\<lparr>current_pcb := idle_pcb k\<rparr>
           in case idle_pcb k of
                None \<Rightarrow> None
              | Some idle \<Rightarrow>
                  Some (Switches (context_switch dying idle
                    (upd_pcb idle (\<lambda>c. c\<lparr>state := PROCESS_RUNNING\<rparr>) k)))))"

lemma process_exit_split:
  "process_exit k = Option.bind (current_pcb k) (\<lambda>c. exit_rest c (exit_mark c k))"
  by (cases "current_pcb k") (simp_all add: process_exit_def exit_mark_def exit_rest_def)

definition zombie :: "pcb_ref \<Rightarrow> pcb_ref \<Rightarrow> pcb_ref list \<Rightarrow> kern \<Rightarrow> bool" where
  "zombie c d xs k \<longleftrightarrow> queue k xs \<and> c \<in> set xs \<and> d \<in> set xs \<and> c \<noteq> d \<and> idle_pcb k = Some d
     \<and> state (pcbs k c) = PROCESS_DEAD \<and> (\<exists>r \<in> set xs. current_pcb k = Some r)"

lemma zombie_tick:
  assumes z: "zombie c d xs k"
  obtains t where "tick e k = Some t" "zombie c d xs t" "current_pcb t \<noteq> Some c" "pm t = pm k"
    "\<And>r. stack_base (pcbs t r) = stack_base (pcbs k r)"
proof -
  obtain r where r: "r \<in> set xs" "current_pcb k = Some r" and k: "queue k xs" "c \<in> set xs" "d \<in> set xs"
    "c \<noteq> d" "idle_pcb k = Some d" "state (pcbs k c) = PROCESS_DEAD"
    using z by (auto simp: zombie_def)
  let ?n = "sched_choice k xs r d"
  obtain us vs where "rotation xs r = vs @ us @ [r]" "xs = us @ r # vs"
    by (rule queue_split [OF k(1) r(1)])
  then have "set (rotation xs r) = set xs" by auto
  then have n: "?n \<in> set xs" "?n \<noteq> c"
    using k(3,4,6) by (auto simp: sched_choice_def ready_def dest: find_Some_in split: option.split)
  let ?t = "if ?n = r then k\<lparr>cpu_esp := e\<rparr> else switch_to r ?n (k\<lparr>cpu_esp := e\<rparr>)"
  have "queue ?t xs = queue k xs"
    unfolding queue_def by (auto simp: switch_to_def intro!: is_list_cong)
  then have "zombie c d xs ?t" using k r n by (auto simp: zombie_def switch_to_def)
  moreover have "current_pcb ?t \<noteq> Some c" using n(2) r(2) by (auto simp: switch_to_def)
  moreover have "pm ?t = pm k" "\<And>q. stack_base (pcbs ?t q) = stack_base (pcbs k q)"
    by (auto simp: switch_to_def)
  ultimately show ?thesis using that [OF tick_eq [OF k(1) r(2) k(5) r(1), of e]] by blast
qed

lemma zombie_ticks:
  assumes "zombie c d xs k" "es \<noteq> []"
  shows "\<exists>t. ticks es k = Some t \<and> zombie c d xs t \<and> current_pcb t \<noteq> Some c \<and> pm t = pm k"
  using assms
proof (induction es arbitrary: k)
  case (Cons e es)
  obtain t where t: "tick e k = Some t" "zombie c d xs t" "current_pcb t \<noteq> Some c" "pm t = pm k"
    by (rule zombie_tick [OF Cons.prems(1)])
  then show ?case using Cons.IH [OF t(2)] by (cases "es = []") auto
qed simp

lemma zombie_not_sound:
  assumes "zombie c d xs k"
  shows "\<not> kern_inv k ys"
proof
  assume k: "kern_inv k ys"
  then have "queue k ys" "set ys = live k" by (simp_all add: kern_inv_def core_inv_def)
  moreover have "queue k xs" "c \<in> set xs" "c \<notin> live k" using assms by (auto simp: zombie_def live_def)
  ultimately show False using is_list_unique unfolding queue_def by blast
qed

section \<open>Two processes\<close>

text \<open>Memory with the free pages 1, 3, 4 and 5, of which the idle process and a second one hold two.\<close>

definition roomy_pmm :: pmm where
  "roomy_pmm = pmm_free_page 0x5000 (pmm_free_page 0x4000 demo_pmm)"

lemma roomy_pmm_facts:
  "pmm_ready roomy_pmm" "pmm_managed roomy_pmm = 40" "free_set roomy_pmm = {1, 3, 4, 5, 35}"
proof -
  have m: "pmm_managed demo_pmm = 40" by (simp add: pmm_managed_def demo_pmm_def)
  let ?a = "pmm_free_page 0x4000 demo_pmm"
  have a: "pmm_ready ?a" "pmm_managed ?a = 40" "free_set ?a = {1, 3, 4, 35}"
    using pa.release_invar [OF demo_pmm_ready, of "0x4000"] pa.release_managed [OF demo_pmm_ready, of "0x4000"]
      pa.release_free [OF demo_pmm_ready, of "0x4000"] m
    by (auto simp: demo_pmm_free)
  show "pmm_ready roomy_pmm" "pmm_managed roomy_pmm = 40" "free_set roomy_pmm = {1, 3, 4, 5, 35}"
    using pa.release_invar [OF a(1), of "0x5000"] pa.release_managed [OF a(1), of "0x5000"]
      pa.release_free [OF a(1), of "0x5000"] a(2,3)
    by (auto simp: roomy_pmm_def)
qed

lemma two_processes_page:
  obtains k x m where "kern_sound k [Pcb 0, Pcb 1]" "own_stacks k" "current_pcb k = Some (Pcb 0)"
    "idle_pcb k = Some (Pcb 0)" "state (pcbs k (Pcb 1)) = PROCESS_READY" "alloc_pcb k = Some (Pcb 2)"
    "pmm_alloc_page (pm k) = (x, m)" "x \<noteq> 0" "fst (pmm_alloc_page m) \<noteq> 0"
    "unat x div 4096 = 4"
proof -
  let ?b = "kern_boot roomy_pmm"
  have b: "pmm_ready (pm ?b)" "next_tid ?b = 0" "free_set (pm ?b) = {1, 3, 4, 5, 35}"
    "32 * (pmm_managed (pm ?b) div 32) = 32"
    by (simp_all add: roomy_pmm_facts demo_boot) (simp add: kern_boot_def)
  have pages: "lowest_page {1, 3, 4, 5, 35} 32 = Some 1" "lowest_page {3, 4, 5, 35} 32 = Some 3"
    "lowest_page {4, 5, 35} 32 = Some 4" "lowest_page {5, 35} 32 = Some 5"
    unfolding lowest_page_def find_upt_Some_iff by auto
  have slots: "find ((<) 0) [0..<64] = Some 1" "find (\<lambda>i. 0 < i \<and> i \<noteq> Suc 0) [0..<64] = Some 2"
    unfolding find_upt_Some_iff by auto
  let ?start = "\<lparr> sp_queue = [Pcb 0], sp_state = (\<lambda>_. PROCESS_RUNNING), sp_page = (\<lambda>_. 1), sp_tid = (\<lambda>_. 0),
      sp_next_tid = 0, sp_current = Pcb 0, sp_idle = Pcb 0, sp_free = {3, 4, 5, 35}, sp_limit = 32 \<rparr>"
  have "{1, 3, 4, 5, 35} - {1} = {3, 4, 5, 35 :: nat}" by auto
  then have a0: "spec_start {1, 3, 4, 5, 35} 32 0 = Some ?start" unfolding spec_start_def pages by simp
  obtain r where r: "scheduler_init 0x101000 ?b = Some (Inr r)" "kern_rel r ?start"
    using init_rel [OF b(1) demo_boot(3,4), of _ "0x101000", unfolded b a0] by blast
  let ?a = "spec_add (Pcb 1) 3 ?start"
  have "spec_call (Create 0x10CAFE 1) ?start = (Made (Some (Pcb 1)), ?a)"
    by (simp add: spare_slot_def spare_page_def slots pages del: upt_rec_numeral)
  then obtain k where k: "create_process 0x10CAFE 1 r = Some (Some (Pcb 1), k)" "kern_rel k ?a"
    using create_rel [OF r(2), of "0x10CAFE" 1] by auto
  have rq: "sp_queue ?a = [Pcb 0, Pcb 1]" "sp_free ?a = {4, 5, 35}" "sp_limit ?a = 32"
    "sp_state ?a (Pcb 1) = PROCESS_READY" by (auto simp: spec_add_def)
  note rel = k(2) [unfolded kern_rel_def rq]
  have own: "own_stacks k"
    using create_own_stacks [OF _ init_own_stacks [OF b(1) demo_boot(3,4) r(1)] k(1)] kern_rel_live(2) [OF r(2)]
    by blast
  have "spare_slot Pcb ?a = Some 2" "spare_page ?a = Some 4"
    unfolding spare_slot_def spare_page_def rq by (simp_all add: slots pages del: upt_rec_numeral)
  then obtain x m where x: "alloc_pcb k = Some (Pcb 2)" "pmm_alloc_page (pm k) = (x, m)" "x \<noteq> 0"
    "unat x div 4096 = 4"
    using spare_slot_process [OF k(2)] spare_page_alloc [OF k(2)] by auto
  have ready: "pmm_ready (pm k)" using rel kern_sound_core(4) by blast
  have "pmm_ready m" by (rule stack_ok_alloc(1) [OF ready x(2,3)])
  moreover have "{4, 5, 35} - {4} = {5, 35 :: nat}" by auto
  then have "free_set m = {5, 35}" "pmm_managed m = pmm_managed (pm k)"
    using alloc_page_facts [OF ready x(2,3)] x(4) rel by simp_all
  ultimately have "fst (pmm_alloc_page m) \<noteq> 0" using lowest_page_alloc [of m] rel pages(4) by auto
  with that own x rel rq(4) show ?thesis by (auto simp: spec_add_def)
qed

lemma two_processes:
  obtains k x m where "kern_sound k [Pcb 0, Pcb 1]" "own_stacks k" "current_pcb k = Some (Pcb 0)"
    "idle_pcb k = Some (Pcb 0)" "state (pcbs k (Pcb 1)) = PROCESS_READY" "alloc_pcb k = Some (Pcb 2)"
    "pmm_alloc_page (pm k) = (x, m)" "x \<noteq> 0" "fst (pmm_alloc_page m) \<noteq> 0"
  using two_processes_page by blast

section \<open>Properties\<close>

text \<open>The second process seen from itself: it has the processor, the first one is ready.\<close>

lemma second_runs:
  obtains k x m where "kern_sound k [Pcb 0, Pcb 1]" "own_stacks k" "current_pcb k = Some (Pcb 1)"
    "state (pcbs k (Pcb 0)) = PROCESS_READY" "alloc_pcb k = Some (Pcb 2)"
    "pmm_alloc_page (pm k) = (x, m)" "x \<noteq> 0" "fst (pmm_alloc_page m) \<noteq> 0"
proof -
  obtain j x m where j: "kern_sound j [Pcb 0, Pcb 1]" "own_stacks j" "current_pcb j = Some (Pcb 0)"
    "idle_pcb j = Some (Pcb 0)" "state (pcbs j (Pcb 1)) = PROCESS_READY" "alloc_pcb j = Some (Pcb 2)"
    "pmm_alloc_page (pm j) = (x, m)" "x \<noteq> 0" "fst (pmm_alloc_page m) \<noteq> 0"
    by (rule two_processes)
  let ?e = "esp (pcbs j (Pcb 0))"
  let ?k = "switch_to (Pcb 0) (Pcb 1) (j\<lparr>cpu_esp := ?e\<rparr>)"
  have "rotation [Pcb 0, Pcb 1] (Pcb 0) = [Pcb 1, Pcb 0]" by (simp add: rotation_def)
  note k = tick_to [OF j(1,3) this j(5), where e = ?e]
  note keep = tick_keeps [OF j(1) k(1)]
  have "Pcb 0 \<in> live j" using kern_sound_core(3) [OF j(1)] by auto
  then have "own_stacks ?k" using own_stacks_tick [OF j(1,2) _ k(1)] j(2) by (simp add: own_stacks_def)
  moreover have "alloc_pcb ?k = Some (Pcb 2)" using alloc_pcb_cong(1) [of ?k j, OF keep(9,7)] j(6) by simp
  moreover have "current_pcb ?k = Some (Pcb 1)" "pm ?k = pm j" by (simp_all add: switch_to_def)
  ultimately show ?thesis using that [of ?k] k(2,3) j(7-9) by simp
qed

text \<open>C17: nothing keeps two processes from creating at the same time. \<open>c\<close>, with interrupts on, has found a
  free slot when a tick gives the processor to \<open>n\<close>, which was interrupted at the beginning of a creation
  of its own, completes it, and is interrupted in turn; \<open>c\<close>, next in the queue, goes on. These are the
  only two ticks, and the new process never runs. Both creators end with the same slot \<open>p\<close>; it is
  its own successor in the run queue, and from then on nothing can be queued any more: \<open>enqueue\<close> runs
  for ever.\<close>

theorem creation_race:
  assumes s: "kern_sound (pk s) [n, c]" "own_stacks (pk s)" "current_pcb (pk s) = Some c"
    and ready: "state (pcbs (pk s) n) = PROCESS_READY" "pat s c = Start" "pat s n = Start"
    and room: "alloc_pcb (pk s) = Some p" "pmm_alloc_page (pm (pk s)) = (x, m)" "x \<noteq> 0"
      "fst (pmm_alloc_page m) \<noteq> 0"
  shows "\<exists>i j l e u v t.
      acts (create_step f prio) (replicate i Statement @ [Interrupt e]) s = Some u \<and> current_pcb (pk u) = Some n
    \<and> acts (create_step f prio) (replicate j Statement @ [Interrupt e']) u = Some v \<and> current_pcb (pk v) = Some c
    \<and> acts (create_step f prio) (replicate l Statement) v = Some t
    \<and> pat t c = Returned (Some p) \<and> pat t n = Returned (Some p)
    \<and> next_pcb (pcbs (pk t) p) = Some p \<and> (\<forall>q. q \<notin> {c, n, p} \<longrightarrow> enqueue q (pk t) = None)"
proof -
  have cn: "n \<noteq> c" using kern_sound_core(2) [OF s(1)] rq.queue_distinct by fastforce
  obtain i where a1: "acts (create_step f prio) (replicate i Statement) s = Some (s\<lparr>pat := (pat s)(c := Paging p)\<rparr>)"
    using search_ends [OF s(1,3) room(1)] ready(2) by auto
  let ?e = "esp (pcbs (pk s) c)"
  have "rotation [n, c] c = [n, c]" using cn by (simp add: rotation_def)
  note k1 = tick_to [OF s(1,3) this ready(1) cn, where e = ?e]
  let ?k1 = "switch_to c n ((pk s)\<lparr>cpu_esp := ?e\<rparr>)"
  let ?u = "s\<lparr>pat := (pat s)(c := Paging p), pk := ?k1\<rparr>"
  have u: "acts (create_step f prio) (replicate i Statement @ [Interrupt ?e]) s = Some ?u"
    unfolding acts_then [OF a1] using k1(1) by simp
  note keep = tick_keeps [OF s(1) k1(1)]
  have "c \<in> live (pk s)" using kern_sound_core(3) [OF s(1)] by auto
  then have own: "own_stacks ?k1"
    using own_stacks_tick [OF s(1,2) _ k1(1)] s(2) by (simp add: own_stacks_def)
  have al: "alloc_pcb ?k1 = Some p" "fst (pmm_alloc_page (pm ?k1)) \<noteq> 0"
    using alloc_pcb_cong(1) [of ?k1 "pk s", OF keep(9,7)] room keep(1) by simp_all
  have cur: "current_pcb ?k1 = Some n" by (simp add: switch_to_def)
  obtain j w where a2: "acts (create_step f prio) (replicate j Statement) ?u = Some w"
    "pat w = (pat ?u)(n := Returned (Some p))" "create_process f prio ?k1 = Some (Some p, pk w)"
    using create_alone [of ?u "[n, c]" n p f prio] k1(2) own cur al ready(3) cn by auto
  have "c \<in> set [n, c]" by simp
  note b = after_create [OF k1(2) cur this k1(3) a2(3), simplified]
  obtain k where k: "tick e' (pk w) = Some k" "current_pcb k = Some c" "run_queue k = Some n"
    "next_pcb (pcbs k n) = Some c" "next_pcb (pcbs k c) = Some p" "pm k = pm (pk w)"
    using back_to_creator [OF b(1-3), of e'] by blast
  let ?v = "w\<lparr>pk := k\<rparr>"
  have v: "acts (create_step f prio) (replicate j Statement @ [Interrupt e']) ?u = Some ?v"
    unfolding acts_then [OF a2(1)] using k(1) by simp
  have "pm k = m" using k(6) b(4) keep(1) room(2) by simp
  then obtain y o' where y: "pmm_alloc_page (pm k) = (y, o')" "y \<noteq> 0"
    using room(4) by (cases "pmm_alloc_page m") auto
  have dist: "distinct [n, c, p]" using kern_sound_core(2) [OF b(1)] by (rule rq.queue_distinct)
  have "pat ?v c = Paging p" using a2(2) cn by auto
  then obtain t where t: "acts (create_step f prio) (replicate 14 Statement) ?v = Some t"
    "pat t = (pat ?v)(c := Returned (Some p))" "run_queue (pk t) = Some n"
    "next_pcb (pcbs (pk t) n) = Some c" "next_pcb (pcbs (pk t) c) = Some p" "next_pcb (pcbs (pk t) p) = Some p"
    using second_append [OF k(2,3) dist k(4,5) y, of ?v f prio] by auto
  have r: "pat t c = Returned (Some p)" "pat t n = Returned (Some p)" using t(2) a2(2) cn by auto
  have q: "\<forall>q. q \<notin> {c, n, p} \<longrightarrow> enqueue q (pk t) = None" using looped_enqueue [OF t(3-6)] by blast
  have cu: "current_pcb (pk ?u) = Some n" "current_pcb (pk ?v) = Some c" using cur k(2) by simp_all
  from u cu(1) v cu(2) t(1) r t(6) q show ?thesis by blast
qed

theorem creation_race_witness:
  "\<exists>k as t. kern_sound k [Pcb 0, Pcb 1] \<and> current_pcb k = Some (Pcb 1)
     \<and> acts (create_step 0x10BEEF 1) as \<lparr>pk = k, pat = (\<lambda>_. Start)\<rparr> = Some t
     \<and> pat t (Pcb 0) = Returned (Some (Pcb 2)) \<and> pat t (Pcb 1) = Returned (Some (Pcb 2))
     \<and> next_pcb (pcbs (pk t) (Pcb 2)) = Some (Pcb 2) \<and> enqueue (Pcb 3) (pk t) = None"
proof -
  obtain k x m where k: "kern_sound k [Pcb 0, Pcb 1]" "own_stacks k" "current_pcb k = Some (Pcb 1)"
    "state (pcbs k (Pcb 0)) = PROCESS_READY" "alloc_pcb k = Some (Pcb 2)"
    "pmm_alloc_page (pm k) = (x, m)" "x \<noteq> 0" "fst (pmm_alloc_page m) \<noteq> 0"
    by (rule second_runs)
  let ?s = "\<lparr>pk = k, pat = (\<lambda>_. Start)\<rparr>" and ?st = "create_step 0x10BEEF 1"
  obtain i j l e u v t where t: "acts ?st (replicate i Statement @ [Interrupt e]) ?s = Some u"
    "acts ?st (replicate j Statement @ [Interrupt 0x8F00]) u = Some v" "acts ?st (replicate l Statement) v = Some t"
    "pat t (Pcb 1) = Returned (Some (Pcb 2))" "pat t (Pcb 0) = Returned (Some (Pcb 2))"
    "next_pcb (pcbs (pk t) (Pcb 2)) = Some (Pcb 2)" "\<forall>q. q \<notin> {Pcb 1, Pcb 0, Pcb 2} \<longrightarrow> enqueue q (pk t) = None"
    using creation_race [of ?s "Pcb 0" "Pcb 1" "Pcb 2" x m "0x10BEEF" 1 "0x8F00"] k by auto
  have "acts ?st ((replicate i Statement @ [Interrupt e]) @ (replicate j Statement @ [Interrupt 0x8F00])
      @ replicate l Statement) ?s = Some t"
    unfolding acts_then [OF t(1)] acts_then [OF t(2)] by (rule t(3))
  moreover have "enqueue (Pcb 3) (pk t) = None" using t(7) by simp
  ultimately show ?thesis using k(1,3) t(4-6) by blast
qed

text \<open>C19: a process must not be interrupted while it leaves. When a tick falls behind the first statement
  of \<open>process_exit\<close>, the process never gets the processor back, however long the timer goes on ticking: it stays in
  the run queue as a dead element, its stack page is never given back, and no invariant of the
  process table holds any more.\<close>

theorem exit_interrupted:
  assumes "kern_sound k xs" "current_pcb k = Some c" "idle_pcb k = Some d" "c \<noteq> d" "es \<noteq> []"
  shows "\<exists>t. ticks es (exit_mark c k) = Some t \<and> current_pcb t \<noteq> Some c
    \<and> state (pcbs t c) = PROCESS_DEAD \<and> queue t xs \<and> c \<in> set xs
    \<and> stack_page k c \<notin> free_set (pm t) \<and> (\<forall>ys. \<not> kern_inv t ys)"
proof -
  obtain c' d' where r: "current_pcb k = Some c'" "idle_pcb k = Some d'" "c' \<in> set xs" "d' \<in> set xs"
    by (rule kern_sound_refs [OF assms(1)])
  then have z: "zombie c d xs (exit_mark c k)"
    using assms(2-4) kern_sound_core(2) [OF assms(1)]
    by (auto simp: zombie_def exit_mark_def queue_upd_keep)
  obtain t where t: "ticks es (exit_mark c k) = Some t" "zombie c d xs t" "current_pcb t \<noteq> Some c"
    "pm t = pm (exit_mark c k)" using zombie_ticks [OF z assms(5)] by blast
  have "c \<in> live k" using r(1,3) assms(2) kern_sound_core(3) [OF assms(1)] by simp
  then have "stack_page k c \<notin> free_set (pm t)"
    using kern_sound_pages(2) [OF assms(1)] t(4) by (auto simp: exit_mark_def)
  with t zombie_not_sound [OF t(2)] show ?thesis by (auto simp: zombie_def)
qed

theorem exit_interrupted_witness:
  "\<exists>k t. current_pcb k = Some (Pcb 1) \<and> ticks [0x9F00, 0x9F00, 0x9F00] (exit_mark (Pcb 1) k) = Some t
     \<and> current_pcb t \<noteq> Some (Pcb 1) \<and> queue t [Pcb 0, Pcb 1] \<and> stack_page k (Pcb 1) \<notin> free_set (pm t)"
proof -
  obtain j x m where j: "kern_sound j [Pcb 0, Pcb 1]" "own_stacks j" "current_pcb j = Some (Pcb 0)"
    "idle_pcb j = Some (Pcb 0)" "state (pcbs j (Pcb 1)) = PROCESS_READY" "alloc_pcb j = Some (Pcb 2)"
    "pmm_alloc_page (pm j) = (x, m)" "x \<noteq> 0" "fst (pmm_alloc_page m) \<noteq> 0"
    by (rule two_processes)
  let ?k = "switch_to (Pcb 0) (Pcb 1) (j\<lparr>cpu_esp := 0\<rparr>)"
  have "rotation [Pcb 0, Pcb 1] (Pcb 0) = [Pcb 1, Pcb 0]" by (simp add: rotation_def)
  from tick_to(2) [OF j(1,3) this j(5)] have k: "kern_sound ?k [Pcb 0, Pcb 1]" by simp
  have cur: "current_pcb ?k = Some (Pcb 1)" "idle_pcb ?k = Some (Pcb 0)" "Pcb 1 \<noteq> Pcb 0"
    using j(4) by (simp_all add: switch_to_def)
  from exit_interrupted [OF k cur, of "[0x9F00, 0x9F00, 0x9F00]"]
  obtain t where "ticks [0x9F00, 0x9F00, 0x9F00] (exit_mark (Pcb 1) ?k) = Some t" "current_pcb t \<noteq> Some (Pcb 1)"
    "queue t [Pcb 0, Pcb 1]" "stack_page ?k (Pcb 1) \<notin> free_set (pm t)" by blast
  with cur(1) show ?thesis by (intro exI [of _ ?k] exI [of _ t] conjI)
qed

end
