(* ===== verification/Kill_Preempt.thy ===== *)
theory Kill_Preempt
  imports Races Command_Facts
begin

text \<open>
  The killing of a process by \<^verbatim>\<open>killprocess\<close> (\<^verbatim>\<open>src/src/shell.c\<close>), with the \<^verbatim>\<open>dequeue\<close> of
  \<^verbatim>\<open>src/src/scheduler.c\<close> that it calls, cut into statements, with timer interrupts between them.
\<close>

section \<open>The statements\<close>

datatype kill_pc =
    Marking
  | Checking
  | Unhooking
  | Seeking "pcb_ref option"
  | Bypassing pcb_ref
  | Unlinking
  | Freeing
  | Zeroing
  | Unnaming
  | Gone

fun kill_step :: "pcb_ref \<Rightarrow> kill_pc \<Rightarrow> kern \<Rightarrow> kill_pc \<times> kern" where
  "kill_step p Marking k = (Checking, upd_pcb p (\<lambda>c. c\<lparr>state := PROCESS_DEAD\<rparr>) k)"
| "kill_step p Checking k = (if run_queue k = Some p then Unhooking else Seeking (run_queue k), k)"
| "kill_step p Unhooking k = (Unlinking, k\<lparr>run_queue := next_pcb (pcbs k p)\<rparr>)"
| "kill_step p (Seeking None) k = (Freeing, k)"
| "kill_step p (Seeking (Some r)) k =
     (if next_pcb (pcbs k r) \<noteq> Some p then Seeking (next_pcb (pcbs k r)) else Bypassing r, k)"
| "kill_step p (Bypassing r) k = (Unlinking, upd_pcb r (\<lambda>c. c\<lparr>next_pcb := next_pcb (pcbs k p)\<rparr>) k)"
| "kill_step p Unlinking k = (Freeing, upd_pcb p (\<lambda>c. c\<lparr>next_pcb := None\<rparr>) k)"
| "kill_step p Freeing k = (Zeroing, k\<lparr>pm := pmm_free_page (stack_base (pcbs k p)) (pm k)\<rparr>)"
| "kill_step p Zeroing k = (Unnaming, upd_pcb p (\<lambda>c. c\<lparr>stack_base := 0\<rparr>) k)"
| "kill_step p Unnaming k = (Gone, upd_pcb p (\<lambda>c. c\<lparr>pid := 0\<rparr>) k)"
| "kill_step p Gone k = (Gone, k)"

section \<open>What is left to do\<close>

text \<open>\<open>left_over p k b\<close>: \<open>b\<close> is \<open>k\<close> but for the links of the queue, the free pages and the slot \<open>p\<close>.\<close>

definition left_over :: "pcb_ref \<Rightarrow> kern \<Rightarrow> kern \<Rightarrow> bool" where
  "left_over p k b \<longleftrightarrow> b = k\<lparr>pcbs := pcbs b, run_queue := run_queue b, pm := pm b\<rparr>
     \<and> (\<forall>r. r \<noteq> p \<longrightarrow> pcbs b r = (pcbs k r)\<lparr>next_pcb := next_pcb (pcbs b r)\<rparr>)
     \<and> pcbs b p = (pcbs k p)\<lparr>next_pcb := None, pid := 0, stack_base := 0\<rparr>"

definition to_free :: "pcb_ref \<Rightarrow> kern \<Rightarrow> kern \<Rightarrow> bool" where
  "to_free p k b \<longleftrightarrow> pmm_free_page (stack_base (pcbs k p)) (pm k) = pm b"

fun stage :: "pcb_ref \<Rightarrow> pcb_ref list \<Rightarrow> kill_pc \<Rightarrow> kern \<Rightarrow> kern \<Rightarrow> bool" where
  "stage p xs Marking k b \<longleftrightarrow> False"
| "stage p xs Checking k b \<longleftrightarrow> queue k xs \<and> to_free p k b"
| "stage p xs Unhooking k b \<longleftrightarrow> queue k xs \<and> run_queue k = Some p \<and> to_free p k b"
| "stage p xs (Seeking q) k b \<longleftrightarrow> queue k xs \<and> to_free p k b
     \<and> (\<exists>us r vs. xs = us @ r # vs \<and> q = Some r \<and> p \<in> set vs)"
| "stage p xs (Bypassing r) k b \<longleftrightarrow> queue k xs \<and> to_free p k b \<and> (\<exists>us vs. xs = us @ r # p # vs)"
| "stage p xs Unlinking k b \<longleftrightarrow> queue k (remove1 p xs) \<and> to_free p k b"
| "stage p xs Freeing k b \<longleftrightarrow> queue k (remove1 p xs) \<and> next_pcb (pcbs k p) = None \<and> to_free p k b"
| "stage p xs Zeroing k b \<longleftrightarrow> queue k (remove1 p xs) \<and> next_pcb (pcbs k p) = None \<and> pm k = pm b"
| "stage p xs Unnaming k b \<longleftrightarrow> queue k (remove1 p xs) \<and> next_pcb (pcbs k p) = None \<and> pm k = pm b
     \<and> stack_base (pcbs k p) = 0"
| "stage p xs Gone k b \<longleftrightarrow> k = b"

definition killing :: "pcb_ref \<Rightarrow> pcb_ref list \<Rightarrow> kill_pc \<Rightarrow> kern \<Rightarrow> kern \<Rightarrow> bool" where
  "killing p xs x k b \<longleftrightarrow> kern_sound b (remove1 p xs) \<and> p \<in> set xs \<and> distinct xs
     \<and> state (pcbs k p) = PROCESS_DEAD \<and> left_over p k b
     \<and> (\<forall>r. r \<notin> set xs \<longrightarrow> next_pcb (pcbs k r) = next_pcb (pcbs b r)) \<and> stage p xs x k b"

fun kill_left :: "pcb_ref list \<Rightarrow> kill_pc \<Rightarrow> nat" where
  "kill_left xs Marking = 7 + length xs"
| "kill_left xs Checking = 6 + length xs"
| "kill_left xs Unhooking = 5"
| "kill_left xs (Seeking q) = 5 + length (case q of None \<Rightarrow> [] | Some r \<Rightarrow> dropWhile (\<lambda>x. x \<noteq> r) xs)"
| "kill_left xs (Bypassing r) = 5"
| "kill_left xs Unlinking = 4"
| "kill_left xs Freeing = 3"
| "kill_left xs Zeroing = 2"
| "kill_left xs Unnaming = 1"
| "kill_left xs Gone = 0"

section \<open>One statement\<close>

lemma left_over_upd:
  assumes "left_over p k b"
  shows "left_over p (k\<lparr>run_queue := q\<rparr>) b" "left_over p (k\<lparr>pm := m\<rparr>) b"
    "left_over p (upd_pcb r (\<lambda>c. c\<lparr>next_pcb := q\<rparr>) k) b"
    "left_over p (upd_pcb p (\<lambda>c. c\<lparr>stack_base := w\<rparr>) k) b"
    "left_over p (upd_pcb p (\<lambda>c. c\<lparr>pid := w\<rparr>) k) b"
proof -
  have b: "b = k\<lparr>pcbs := pcbs b, run_queue := run_queue b, pm := pm b\<rparr>"
    and r: "\<And>r. r \<noteq> p \<Longrightarrow> pcbs b r = (pcbs k r)\<lparr>next_pcb := next_pcb (pcbs b r)\<rparr>"
    and p: "pcbs b p = (pcbs k p)\<lparr>next_pcb := None, pid := 0, stack_base := 0\<rparr>"
    using assms unfolding left_over_def by blast+
  show "left_over p (k\<lparr>run_queue := q\<rparr>) b" "left_over p (k\<lparr>pm := m\<rparr>) b"
    "left_over p (upd_pcb r (\<lambda>c. c\<lparr>next_pcb := q\<rparr>) k) b"
    "left_over p (upd_pcb p (\<lambda>c. c\<lparr>stack_base := w\<rparr>) k) b"
    "left_over p (upd_pcb p (\<lambda>c. c\<lparr>pid := w\<rparr>) k) b"
    using r p by (subst left_over_def, subst b, auto simp: upd_pcb_def)+
qed

text \<open>When nothing is left over, the two states are the same.\<close>

lemma left_over_done:
  assumes "left_over p k b" "queue k ys" "queue b ys" "pm k = pm b"
    and "next_pcb (pcbs k p) = None" "stack_base (pcbs k p) = 0" "pid (pcbs k p) = 0"
    and "\<forall>r. r \<notin> set ys \<and> r \<noteq> p \<longrightarrow> next_pcb (pcbs k r) = next_pcb (pcbs b r)"
  shows "k = b"
proof -
  have rq: "run_queue k = run_queue b" using assms(2,3) by (cases ys) (auto simp: queue_def)
  have next_in: "is_list h q zs \<Longrightarrow> is_list g q zs \<Longrightarrow> r \<in> set zs \<Longrightarrow> next_pcb (h r) = next_pcb (g r)"
    for h g q r zs
  proof (induction zs arbitrary: q)
    case (Cons z zs)
    then have "next_pcb (h z) = next_pcb (g z)" by (cases zs) auto
    with Cons show ?case by auto
  qed simp
  have "pcbs k r = pcbs b r" for r
  proof (cases "r = p")
    case True
    then show ?thesis using assms(1,5-7) unfolding left_over_def by (cases "pcbs k p") simp
  next
    case False
    then have "next_pcb (pcbs k r) = next_pcb (pcbs b r)"
      using assms(2,3,8) next_in [of "pcbs k" "run_queue k" ys "pcbs b" r] rq
      by (cases "r \<in> set ys") (auto simp: queue_def)
    moreover have "pcbs b r = (pcbs k r)\<lparr>next_pcb := next_pcb (pcbs b r)\<rparr>"
      using assms(1) False unfolding left_over_def by blast
    ultimately show ?thesis by (metis pcb.surjective pcb.update_convs(6))
  qed
  then have same: "pcbs k = pcbs b" by blast
  have "b = k\<lparr>pcbs := pcbs b, run_queue := run_queue b, pm := pm b\<rparr>"
    using assms(1) unfolding left_over_def by blast
  also have "\<dots> = k\<lparr>pcbs := pcbs k, run_queue := run_queue k, pm := pm k\<rparr>"
    by (simp only: same rq assms(4))
  finally show ?thesis by simp
qed

text \<open>The start: what \<open>kill_pcb\<close> makes of \<open>a\<close> is left over when the slot has been marked.\<close>

lemma kill_marks:
  assumes s: "kern_sound a xs" and p: "p \<in> set xs" "current_pcb a \<noteq> Some p" "idle_pcb a \<noteq> Some p"
  obtains b where "kill_pcb p a = Some b"
    "killing p xs Checking (upd_pcb p (\<lambda>c. c\<lparr>state := PROCESS_DEAD\<rparr>) a) b"
proof -
  let ?k = "upd_pcb p (\<lambda>c. c\<lparr>state := PROCESS_DEAD\<rparr>) a"
  have inv: "kern_inv a xs" using s by (simp add: kern_sound_def)
  obtain b where b: "kill_pcb p a = Some b" "kern_inv b (remove1 p xs)"
    "\<forall>q. q \<noteq> p \<longrightarrow> state (pcbs b q) = state (pcbs a q) \<and> pid (pcbs b q) = pid (pcbs a q)"
    using kill_pcb_inv [OF inv p] by blast
  obtain t where t: "dequeue p ?k = Some t" "strip t = strip ?k"
    using core_remove [OF kern_sound_core(1) [OF s] p(1)] by blast
  have eq: "b = upd_pcb p (\<lambda>c. c\<lparr>stack_base := 0, pid := 0\<rparr>)
      (t\<lparr>pm := pmm_free_page (stack_base (pcbs t p)) (pm t)\<rparr>)"
    using b(1) t(1) by (simp add: kill_pcb_def scheduler_dequeue_def Let_def)
  note e = strip_eqD [OF t(2)]
  note links = kill_pcb_links [OF kern_sound_core(2) [OF s] p(1) b(1)]
  have fields: "pcbs t r = (pcbs ?k r)\<lparr>next_pcb := next_pcb (pcbs t r)\<rparr>" for r
    using e(1-5) [of r] by (cases "pcbs t r"; cases "pcbs ?k r") simp
  have "left_over p ?k b"
    unfolding left_over_def
  proof (intro conjI allI impI)
    show "b = ?k\<lparr>pcbs := pcbs b, run_queue := run_queue b, pm := pm b\<rparr>"
      by (rule kern.equality) (use e in \<open>simp_all add: eq\<close>)
    show "pcbs b r = (pcbs ?k r)\<lparr>next_pcb := next_pcb (pcbs b r)\<rparr>" if "r \<noteq> p" for r
      using fields [of r] that by (simp add: eq)
    show "pcbs b p = (pcbs ?k p)\<lparr>next_pcb := None, pid := 0, stack_base := 0\<rparr>"
      using fields [of p] links [of p] by (simp add: eq)
  qed
  moreover have "kern_sound b (remove1 p xs)"
  proof -
    obtain c d where cd: "current_pcb a = Some c" "idle_pcb a = Some d" "state (pcbs a c) = PROCESS_RUNNING"
      "is_runnable a d" by (rule kern_sound_refs [OF s])
    moreover have "current_pcb b = Some c" "idle_pcb b = Some d" using cd e by (simp_all add: eq)
    ultimately show ?thesis using b(2,3) p by (auto simp: kern_sound_def is_runnable_def)
  qed
  moreover have "to_free p ?k b" using e by (simp add: to_free_def eq)
  moreover have "queue ?k xs" using kern_sound_core(2) [OF s] by (simp add: queue_upd_keep)
  ultimately have "killing p xs Checking ?k b"
    using p(1) links kern_inv_set(2) [OF inv] by (auto simp: killing_def)
  with that b(1) show ?thesis by blast
qed

section \<open>A tick in between\<close>

lemma find_skip: "\<not> P p \<Longrightarrow> find P (filter (\<lambda>r. r \<noteq> p) rs) = find P rs"
  by (induction rs) auto

lemma rotation_skip:
  assumes "distinct zs" "c \<in> set zs" "c \<noteq> p"
  shows "rotation (filter (\<lambda>r. r \<noteq> p) zs) c = filter (\<lambda>r. r \<noteq> p) (rotation zs c)"
proof -
  obtain us vs where z: "zs = us @ c # vs" "c \<notin> set us" using assms(2) by (meson split_list_first)
  have "rotation (filter (\<lambda>r. r \<noteq> p) us @ c # filter (\<lambda>r. r \<noteq> p) vs) c
      = filter (\<lambda>r. r \<noteq> p) vs @ filter (\<lambda>r. r \<noteq> p) us @ [c]"
    using z(2) by (intro rotation_split) simp
  with assms(3) rotation_split [OF z(2), of vs] show ?thesis by (simp add: z(1))
qed

lemma stage_cong:
  assumes "x \<noteq> Gone" "\<And>r. next_pcb (pcbs l r) = next_pcb (pcbs k r)" "run_queue l = run_queue k" "pm l = pm k"
    and "stack_base (pcbs l p) = stack_base (pcbs k p)" "pm d = pm b"
  shows "stage p xs x l d = stage p xs x k b"
proof -
  have "queue l zs = queue k zs" for zs
    unfolding queue_def assms(3) by (rule is_list_cong) (rule assms(2))
  with assms show ?thesis by (cases x) (simp_all add: to_free_def)
qed

lemma left_over_fields:
  assumes "left_over p k b"
  shows "tcbs b = tcbs k"
    "tcb_pool_initialized b = tcb_pool_initialized k"
    "next_pid b = next_pid k"
    "next_tid b = next_tid k"
    "current_pcb b = current_pcb k"
    "idle_pcb b = idle_pcb k"
    "ram b = ram k"
    "cpu_esp b = cpu_esp k"
    "cpu_eip b = cpu_eip k"
proof -
  have b: "b = k\<lparr>pcbs := pcbs b, run_queue := run_queue b, pm := pm b\<rparr>"
    using assms unfolding left_over_def by blast
  show "tcbs b = tcbs k"
    "tcb_pool_initialized b = tcb_pool_initialized k"
    "next_pid b = next_pid k"
    "next_tid b = next_tid k"
    "current_pcb b = current_pcb k"
    "idle_pcb b = idle_pcb k"
    "ram b = ram k"
    "cpu_esp b = cpu_esp k"
    "cpu_eip b = cpu_eip k"
    by (subst b, simp)+
qed

lemma left_over_slot:
  assumes "left_over p k b"
  shows "state (pcbs b r) = state (pcbs k r)" "esp (pcbs b r) = esp (pcbs k r)"
    "priority (pcbs b r) = priority (pcbs k r)" "r \<noteq> p \<Longrightarrow> pid (pcbs b r) = pid (pcbs k r)"
    "r \<noteq> p \<Longrightarrow> stack_base (pcbs b r) = stack_base (pcbs k r)"
proof -
  have r: "pcbs b r = (pcbs k r)\<lparr>next_pcb := next_pcb (pcbs b r)\<rparr>" if "r \<noteq> p"
    using assms that unfolding left_over_def by blast
  have p: "pcbs b p = (pcbs k p)\<lparr>next_pcb := None, pid := 0, stack_base := 0\<rparr>"
    using assms unfolding left_over_def by blast
  show "r \<noteq> p \<Longrightarrow> pid (pcbs b r) = pid (pcbs k r)" "r \<noteq> p \<Longrightarrow> stack_base (pcbs b r) = stack_base (pcbs k r)"
    by (subst r, simp_all)+
  show "state (pcbs b r) = state (pcbs k r)" "esp (pcbs b r) = esp (pcbs k r)"
    "priority (pcbs b r) = priority (pcbs k r)"
    by (cases "r = p", simp add: p, subst r, simp_all)+
qed

lemma left_over_switch:
  assumes lo: "left_over p k b" and "c \<noteq> p" "n \<noteq> p"
  shows "left_over p (switch_to c n k) (switch_to c n b)"
proof -
  have r: "\<And>r. r \<noteq> p \<Longrightarrow> pcbs b r = (pcbs k r)\<lparr>next_pcb := next_pcb (pcbs b r)\<rparr>"
    and p: "pcbs b p = (pcbs k p)\<lparr>next_pcb := None, pid := 0, stack_base := 0\<rparr>"
    using lo unfolding left_over_def by blast+
  note f = left_over_fields [OF lo] left_over_slot [OF lo]
  show ?thesis
    unfolding left_over_def
  proof (intro conjI allI impI)
    show "switch_to c n b = (switch_to c n k)\<lparr>pcbs := pcbs (switch_to c n b),
        run_queue := run_queue (switch_to c n b), pm := pm (switch_to c n b)\<rparr>"
      using f by (intro kern.equality) (simp_all add: switch_to_def)
    show "pcbs (switch_to c n b) r
        = (pcbs (switch_to c n k) r)\<lparr>next_pcb := next_pcb (pcbs (switch_to c n b) r)\<rparr>" if "r \<noteq> p" for r
      using f that by (intro pcb.equality) (auto simp: switch_to_def)
    show "pcbs (switch_to c n b) p
        = (pcbs (switch_to c n k) p)\<lparr>next_pcb := None, pid := 0, stack_base := 0\<rparr>"
      using p assms(2,3) by (simp add: switch_to_def)
  qed
qed

lemma killing_tick:
  assumes kl: "killing p xs x k b"
  shows "\<exists>l d. tick e k = Some l \<and> tick e b = Some d \<and> killing p xs x l d"
proof -
  let ?ys = "remove1 p xs"
  have s: "kern_sound b ?ys" and px: "p \<in> set xs" "distinct xs" and dead: "state (pcbs k p) = PROCESS_DEAD"
    and lo: "left_over p k b" and out: "\<forall>r. r \<notin> set xs \<longrightarrow> next_pcb (pcbs k r) = next_pcb (pcbs b r)"
    and st: "stage p xs x k b" using kl by (simp_all add: killing_def)
  obtain d where d: "tick e b = Some d" using timer_sound [OF s] by blast
  note t = tick_keeps [OF s d]
  show ?thesis
  proof (cases "x = Gone")
    case True
    have "pcbs d p = pcbs b p" using t(5) px by simp
    moreover have kb: "k = b" using st True by simp
    then have "pcbs b p = (pcbs b p)\<lparr>next_pcb := None, pid := 0, stack_base := 0\<rparr>"
      using lo unfolding left_over_def by blast
    ultimately have "left_over p d d" by (simp add: left_over_def)
    with dead \<open>pcbs d p = pcbs b p\<close> t(11) px kb True have "killing p xs x d d" by (simp add: killing_def)
    with d kb show ?thesis by blast
  next
    case False
    have ys: "?ys = filter (\<lambda>r. r \<noteq> p) xs" using px(2) 
      by (auto simp: distinct_remove1_removeAll removeAll_filter_not_eq intro: filter_cong)
    obtain c i where c: "kern_inv b ?ys" "current_pcb b = Some c" "idle_pcb b = Some i" "c \<in> set ?ys" "i \<in> set ?ys"
      by (rule kern_sound_refs [OF s])
    let ?n = "sched_choice b ?ys c i"
    have n: "?n \<in> set ?ys" by (rule sched_choice_in [OF c(1-3)])
    have cp: "c \<noteq> p" "?n \<noteq> p" using c(4) n px by auto
    obtain zs where zs: "queue k zs" "distinct zs" "c \<in> set zs" "filter (\<lambda>r. r \<noteq> p) zs = ?ys"
    proof (cases "queue k xs")
      case True
      show ?thesis by (rule that [OF True px(2)]) (use c(4) ys in auto)
    next
      case notin: False
      then have "queue k ?ys" using st False by (cases x) auto
      then show ?thesis by (rule that) (use c(4) px(2) ys in auto)
    qed
    have "find (ready b) (rotation ?ys c) = find (ready k) (rotation zs c)"
    proof -
      have "ready b = ready k" using left_over_slot(1) [OF lo] by (simp add: ready_def fun_eq_iff)
      moreover have "\<not> ready k p" using dead by (simp add: ready_def)
      ultimately show ?thesis
        using find_skip [of "ready k" p] rotation_skip [OF zs(2,3) cp(1)] zs(4) by simp
    qed
    then have ch: "sched_choice k zs c i = ?n" by (simp add: sched_choice_def)
    note f = left_over_fields [OF lo]
    let ?l = "if ?n = c then k\<lparr>cpu_esp := e\<rparr> else switch_to c ?n (k\<lparr>cpu_esp := e\<rparr>)"
    have l: "tick e k = Some ?l"
      using tick_eq [OF zs(1) _ _ zs(3), of i e] c(2,3) f(5,6) ch by simp
    have dd: "d = (if ?n = c then b\<lparr>cpu_esp := e\<rparr> else switch_to c ?n (b\<lparr>cpu_esp := e\<rparr>))"
      using tick_spec [OF c(1-3), of e] d by simp
    have "left_over p (k\<lparr>cpu_esp := e\<rparr>) (b\<lparr>cpu_esp := e\<rparr>)"
    proof -
      have b: "b = k\<lparr>pcbs := pcbs b, run_queue := run_queue b, pm := pm b\<rparr>"
        using lo unfolding left_over_def by blast
      have "b\<lparr>cpu_esp := e\<rparr> = k\<lparr>cpu_esp := e, pcbs := pcbs b, run_queue := run_queue b, pm := pm b\<rparr>"
        by (subst b) (rule kern.equality; simp)
      with lo show ?thesis unfolding left_over_def by simp
    qed
    then have lo': "left_over p ?l d" using left_over_switch cp by (simp add: dd)
    have same: "\<And>r. next_pcb (pcbs ?l r) = next_pcb (pcbs k r)" "run_queue ?l = run_queue k" "pm ?l = pm k"
      "stack_base (pcbs ?l p) = stack_base (pcbs k p)" by (auto simp: switch_to_def)
    have "stage p xs x ?l d" using stage_cong [OF False same t(1)] st by simp
    moreover have "state (pcbs ?l p) = PROCESS_DEAD" using dead cp by (simp add: switch_to_def)
    ultimately have "killing p xs x ?l d"
      using t(11) px lo' out same(1) t(6) unfolding killing_def by simp
    with l d show ?thesis by blast
  qed
qed

section \<open>A statement\<close>

lemma stage_step:
  assumes s: "kern_sound b (remove1 p xs)" and px: "p \<in> set xs" "distinct xs"
    and st: "stage p xs x k b" and step: "kill_step p x k = (y, l)" and end_: "x = Unnaming \<Longrightarrow> l = b"
  shows "stage p xs y l b \<and> (kill_left xs y < kill_left xs x \<or> kill_left xs x = 0 \<and> kill_left xs y = 0)"
proof (cases x)
  case Checking
  then have q: "queue k xs" "to_free p k b" using st by simp_all
  with px obtain h hs where x: "xs = h # hs" "run_queue k = Some h" by (cases xs) (auto simp: queue_def)
  show ?thesis
  proof (cases "h = p")
    case True
    with x q step Checking show ?thesis by auto
  next
    case False
    with x px have "p \<in> set hs" by simp
    then have walk: "\<exists>us r vs. xs = us @ r # vs \<and> Some h = Some r \<and> p \<in> set vs"
      using x(1) by (intro exI [of _ "[]"] exI [of _ h] exI [of _ hs]) simp
    have y: "y = Seeking (Some h)" "l = k" using step False x(2) Checking by simp_all
    have "stage p xs y l b" unfolding y stage.simps using q walk by (intro conjI)
    moreover have "kill_left xs y < kill_left xs x" using x(1) Checking by (simp add: y)
    ultimately show ?thesis by simp
  qed
next
  case Unhooking
  then have q: "queue k xs" "to_free p k b" "run_queue k = Some p" using st by simp_all
  then obtain ys where "xs = p # ys" "is_list (pcbs k) (next_pcb (pcbs k p)) ys"
    by (cases xs) (auto simp: queue_def)
  with step Unhooking q show ?thesis by (auto simp: queue_def to_free_def)
next
  case (Seeking r)
  then obtain us c vs where q: "queue k xs" "to_free p k b" "xs = us @ c # vs" "r = Some c" "p \<in> set vs"
    using st by auto
  then obtain v ws where vs: "vs = v # ws" by (cases vs) auto
  have "c \<in> set xs" using q(3) by simp
  then obtain us' vs' where w: "xs = us' @ c # vs'" "dropWhile (\<lambda>r. r \<noteq> c) xs = c # vs'"
    "next_pcb (pcbs k c) = (case vs' of [] \<Rightarrow> None | v # _ \<Rightarrow> Some v)"
    "\<And>v ws. vs' = v # ws \<Longrightarrow> dropWhile (\<lambda>r. r \<noteq> v) xs = vs'"
    by (rule queue_walk [OF q(1)]) blast
  have eq: "us' = us" "vs' = vs"
    using w(1) q(3) px(2) by (metis append_Cons_eq_iff distinct_append distinct.simps(2) not_distinct_conv_prefix)+
  have nx: "next_pcb (pcbs k c) = Some v" "dropWhile (\<lambda>r. r \<noteq> c) xs = c # v # ws"
    "dropWhile (\<lambda>r. r \<noteq> v) xs = v # ws" using w(2-4) eq vs by simp_all
  show ?thesis
  proof (cases "v = p")
    case True
    have y: "y = Bypassing c" "l = k" using step nx(1) True Seeking q(4) by simp_all
    have "\<exists>us vs. xs = us @ c # p # vs" using q(3) vs True by (intro exI [of _ us] exI [of _ ws]) simp
    then have "stage p xs y l b" using q(1,2) by (simp add: y)
    moreover have "kill_left xs y < kill_left xs x" using nx(2) Seeking q(4) by (simp add: y)
    ultimately show ?thesis by simp
  next
    case False
    with q(5) vs have "p \<in> set ws" by simp
    then have walk: "\<exists>us r vs. xs = us @ r # vs \<and> Some v = Some r \<and> p \<in> set vs"
      using q(3) vs by (intro exI [of _ "us @ [c]"] exI [of _ v] exI [of _ ws]) simp
    have y: "y = Seeking (Some v)" "l = k" using step nx(1) False Seeking q(4) by simp_all
    have "stage p xs y l b" unfolding y stage.simps using q(1,2) walk by (intro conjI)
    moreover have "kill_left xs y < kill_left xs x" using nx(2,3) Seeking q(4) by (simp add: y)
    ultimately show ?thesis by simp
  qed
next
  case (Bypassing r)
  then obtain us vs where q: "queue k xs" "to_free p k b" "xs = us @ r # p # vs" using st by auto
  have "is_list (pcbs l) (run_queue l) (us @ r # vs)"
    using is_list_unlink [of "pcbs k" "run_queue k" us r p vs] q(1,3) step Bypassing
    by (auto simp: queue_def upd_pcb_def)
  moreover have "remove1 p xs = us @ r # vs" using px(2) by (auto simp: q(3) remove1_append)
  moreover have "to_free p l b" using q(2) step Bypassing by (auto simp: to_free_def)
  ultimately show ?thesis using step Bypassing by (auto simp: queue_def)
qed (use st step px end_ in \<open>auto simp: queue_upd set_remove1_eq to_free_def queue_upd_keep\<close>)

lemma killing_step:
  assumes kl: "killing p xs x k b" and step: "kill_step p x k = (y, l)"
  shows "killing p xs y l b \<and> (kill_left xs y < kill_left xs x \<or> kill_left xs x = 0 \<and> kill_left xs y = 0)"
proof -
  have s: "kern_sound b (remove1 p xs)" and px: "p \<in> set xs" "distinct xs" and dead: "state (pcbs k p) = PROCESS_DEAD"
    and lo: "left_over p k b" and out: "\<forall>r. r \<notin> set xs \<longrightarrow> next_pcb (pcbs k r) = next_pcb (pcbs b r)"
    and st: "stage p xs x k b" using kl by (simp_all add: killing_def)
  have nm: "x \<noteq> Marking" using st by auto
  have lo': "left_over p l b"
    using step lo left_over_upd [OF lo] nm by (cases x) (auto split: option.splits if_splits elim!: kill_step.elims)
  have dead': "state (pcbs l p) = PROCESS_DEAD"
    using left_over_slot(1) [OF lo, of p] left_over_slot(1) [OF lo', of p] dead by simp
  have out': "\<forall>r. r \<notin> set xs \<longrightarrow> next_pcb (pcbs l r) = next_pcb (pcbs b r)"
    using step out px(1) st by (cases x) (auto split: if_splits)
  have "l = b" if "x = Unnaming"
  proof (rule left_over_done [OF lo', of "remove1 p xs"])
    show "queue b (remove1 p xs)" by (rule kern_sound_core(2) [OF s])
    show "queue l (remove1 p xs)" using st step px(2) that by (auto simp: queue_upd)
  qed (use st step that out' px in \<open>auto simp: set_remove1_eq\<close>)
  from stage_step [OF s px st step this] s px lo' dead' out' show ?thesis by (simp add: killing_def)
qed

section \<open>A whole run\<close>

definition to_kill :: "pcb_ref \<Rightarrow> pcb_ref list \<Rightarrow> pcb_ref \<Rightarrow> kill_pc \<Rightarrow> kern \<Rightarrow> kern \<Rightarrow> bool" where
  "to_kill p xs c x k a \<longleftrightarrow> x = Marking \<and> k = a \<and> kern_sound a xs \<and> p \<in> set xs \<and> p \<noteq> c
     \<and> idle_pcb a \<noteq> Some p"

definition kill_call :: "pcb_ref \<Rightarrow> kern \<Rightarrow> (unit \<times> kern) option" where
  "kill_call p k = map_option (Pair ()) (kill_pcb p k)"

interpretation kp: preemptible "kill_step p" "\<lambda>_ _ _. True" c "to_kill p xs c"
  "\<lambda>_. killing p xs" "kill_call p" "kill_left xs" for p xs c
proof
  fix x k a y l
  assume a: "to_kill p xs c x k a" and c: "current_pcb k = Some c" and st: "kill_step p x k = (y, l)"
  then have s: "x = Marking" "k = a" "kern_sound a xs" "p \<in> set xs" "p \<noteq> c" "idle_pcb a \<noteq> Some p"
    by (simp_all add: to_kill_def)
  then have "current_pcb a \<noteq> Some p" using c by auto
  from kill_marks [OF s(3,4) this s(6)] obtain b where "kill_pcb p a = Some b"
    "killing p xs Checking (upd_pcb p (\<lambda>c. c\<lparr>state := PROCESS_DEAD\<rparr>) a) b" by blast
  with st s(1,2) show "kill_left xs y < kill_left xs x
      \<and> (to_kill p xs c y l a \<or> (\<exists>r b. kill_call p a = Some (r, b) \<and> killing p xs y l b))"
    by (auto simp: kill_call_def)
next
  fix x k a e
  assume a: "to_kill p xs c x k a"
  then have s: "kern_sound a xs" by (simp add: to_kill_def)
  obtain b where b: "tick e a = Some b" using timer_sound [OF s] by blast
  have "idle_pcb b = idle_pcb a"
    using b s by (auto simp: kern_sound_def tick_spec switch_to_def split: if_splits)
  with a b tick_keeps(11) [OF s b]
  show "\<exists>l b. tick e k = Some l \<and> tick e a = Some b \<and> to_kill p xs c x l b" by (auto simp: to_kill_def)
next
  fix x k b y l
  assume "killing p xs x k b" "kill_step p x k = (y, l)"
  then show "killing p xs y l b \<and> (kill_left xs y < kill_left xs x \<or> kill_left xs x = 0 \<and> kill_left xs y = 0)"
    by (rule killing_step)
next
  fix x k b e
  assume "killing p xs x k b"
  then show "\<exists>l d. tick e k = Some l \<and> tick e b = Some d \<and> killing p xs x l d" by (rule killing_tick)
next
  fix x k b
  assume "killing p xs x k b" "kill_left xs x = 0"
  then show "k = b" by (cases x) (auto simp: killing_def)
qed (simp add: to_kill_def)

section \<open>Properties\<close>

text \<open>C15: a timer interrupt cannot hurt a killing either. However the timer ticks between the
  statements that \<open>killprocess\<close> executes for a process that is neither the caller nor the idle process,
  nothing gets stuck, the killing ends after at most \<open>7\<close> statements of the
  caller and one for each queued process, and the state then is the one that the same ticks give when
  the process is killed at once.\<close>

theorem kill_preemptible:
  assumes "kern_sound (pk s) xs" "p \<in> set xs" "p \<noteq> c" "idle_pcb (pk s) \<noteq> Some p" "pat s c = Marking"
    and "lone_run (kill_step p) (\<lambda>_ _ _. True) c as s"
  shows "\<exists>t. acts (kill_step p) as s = Some t
    \<and> (if pat t c = Gone then at_once (kill_call p) () (interrupts as) (pk s) (pk t)
       else statements as < 7 + length xs)"
proof -
  have "to_kill p xs c (pat s c) (pk s) (pk s)" using assms(1-5) by (simp add: to_kill_def)
  from kp.run_at_once [OF this assms(6)] obtain t where t: "acts (kill_step p) as s = Some t"
    "if kill_left xs (pat t c) = 0
     then \<exists>r. at_once (kill_call p) r (interrupts as) (pk s) (pk t) \<and> killing p xs (pat t c) (pk t) (pk t)
     else kill_left xs (pat t c) + statements as \<le> 7 + length xs"
    unfolding assms(5) kill_left.simps by blast
  have "kill_left xs (pat t c) = 0 \<longleftrightarrow> pat t c = Gone" by (cases "pat t c") auto
  with t show ?thesis by (cases "pat t c = Gone") auto
qed

theorem kill_preemptible_witness:
  "\<exists>k t. kern_sound k [Pcb 0, Pcb 1]
     \<and> acts (kill_step (Pcb 1)) (Statement # Interrupt 0x9F00 # replicate 8 Statement) \<lparr>pk = k, pat = (\<lambda>_. Marking)\<rparr> = Some t
     \<and> pat t (Pcb 0) = Gone \<and> at_once (kill_call (Pcb 1)) () [0x9F00] k (pk t)"
proof -
  obtain k x m where k: "kern_sound k [Pcb 0, Pcb 1]" "own_stacks k" "current_pcb k = Some (Pcb 0)"
    "idle_pcb k = Some (Pcb 0)" "state (pcbs k (Pcb 1)) = PROCESS_READY" "alloc_pcb k = Some (Pcb 2)"
    "pmm_alloc_page (pm k) = (x, m)" "x \<noteq> 0" "fst (pmm_alloc_page m) \<noteq> 0"
    by (rule two_processes)
  have q: "queue k [Pcb 0, Pcb 1]" by (rule kern_sound_core(2) [OF k(1)])
  let ?as = "Statement # Interrupt 0x9F00 # replicate 8 Statement"
  let ?s = "\<lparr>pk = k, pat = (\<lambda>_. Marking)\<rparr>"
  let ?k = "upd_pcb (Pcb 1) (\<lambda>c. c\<lparr>state := PROCESS_DEAD\<rparr>) k"
  have "state (pcbs k (Pcb 0)) = PROCESS_RUNNING" using k(3) by (auto intro: kern_sound_refs [OF k(1)])
  then have "sched_choice ?k [Pcb 0, Pcb 1] (Pcb 0) (Pcb 0) = Pcb 0"
    by (simp add: sched_choice_def rotation_def ready_def)
  moreover have "queue ?k [Pcb 0, Pcb 1]" using q by (simp add: queue_upd_keep)
  ultimately have t: "tick 0x9F00 ?k = Some (?k\<lparr>cpu_esp := 0x9F00\<rparr>)"
    using k(3,4) by (subst tick_eq [where xs = "[Pcb 0, Pcb 1]" and c = "Pcb 0" and d = "Pcb 0"]) simp_all
  have lone: "lone_run (kill_step (Pcb 1)) (\<lambda>_ _ _. True) (Pcb 0) ?as ?s"
    using k(3) q t by (simp add: eval_nat_numeral queue_def)
  have "kern_sound (pk ?s) [Pcb 0, Pcb 1]" "Pcb 1 \<in> set [Pcb 0, Pcb 1]" "Pcb 1 \<noteq> Pcb 0"
    "idle_pcb (pk ?s) \<noteq> Some (Pcb 1)" "pat ?s (Pcb 0) = Marking" using k(1,4) by simp_all
  from kill_preemptible [OF this lone] obtain t where t: "acts (kill_step (Pcb 1)) ?as ?s = Some t"
    "if pat t (Pcb 0) = Gone then at_once (kill_call (Pcb 1)) () (interrupts ?as) (pk ?s) (pk t)
     else statements ?as < 7 + length [Pcb 0, Pcb 1]" by blast
  have "statements ?as = 9" "interrupts ?as = [0x9F00]" by simp_all
  then have "pat t (Pcb 0) = Gone" "at_once (kill_call (Pcb 1)) () [0x9F00] k (pk t)"
    using t(2) by (simp_all split: if_splits)
  with k(1) t(1) show ?thesis by blast
qed

end
