(* ===== verification/Alloc_Preempt.thy ===== *)
theory Alloc_Preempt
  imports Races
begin

text \<open>
  \<^verbatim>\<open>pmm_alloc_page\<close> (\<^verbatim>\<open>src/src/pmm.c\<close>) cut into statements, with timer interrupts between them: one process
  that allocates is not disturbed by the timer, which touches neither the bitmap nor the counter, but two that
  allocate at the same time can get the same page.
\<close>

section \<open>The statements\<close>

datatype alloc_pc =
    At_word uint32_t
  | At_bit uint32_t uint32_t
  | Taking uint32_t
  | Deducting uint32_t
  | Given uint32_t

fun alloc_step :: "alloc_pc \<Rightarrow> kern \<Rightarrow> alloc_pc \<times> kern" where
  "alloc_step (At_word i) k =
     (if i < pmm_total_pages (pm k) div 32
      then (if pmm_bitmap (pm k) ! unat i = 0xFFFFFFFF then At_word (i + 1) else At_bit i 0)
      else Given 0, k)"
| "alloc_step (At_bit i b) k =
     (if b < 32
      then (if \<not> bitmap_test (i * 32 + b) (pmm_bitmap (pm k)) then Taking (i * 32 + b) else At_bit i (b + 1))
      else At_word (i + 1), k)"
| "alloc_step (Taking page) k =
     (Deducting page, k\<lparr>pm := (pm k)\<lparr>pmm_bitmap := bitmap_set page (pmm_bitmap (pm k))\<rparr>\<rparr>)"
| "alloc_step (Deducting page) k =
     (Given (page * PAGE_SIZE), k\<lparr>pm := (pm k)\<lparr>pmm_free_pages := pmm_free_pages (pm k) - 1\<rparr>\<rparr>)"
| "alloc_step (Given a) k = (Given a, k)"

section \<open>The timer and the allocator\<close>

definition tickable :: "kern \<Rightarrow> pcb_ref list \<Rightarrow> bool" where
  "tickable k xs \<longleftrightarrow> queue k xs
     \<and> (\<exists>c d. current_pcb k = Some c \<and> idle_pcb k = Some d \<and> c \<in> set xs \<and> d \<in> set xs)"

lemma kern_sound_tickable: "kern_sound k xs \<Longrightarrow> tickable k xs"
  using kern_sound_core(2) by (fastforce simp: tickable_def elim: kern_sound_refs)

lemma tickable_pm [simp]: "tickable (k\<lparr>pm := m\<rparr>) xs = tickable k xs"
  by (simp add: tickable_def)

lemma tickable_tick:
  assumes "tickable k xs"
  obtains l where "tick e k = Some l" "tickable l xs" "pm l = pm k" "\<And>m. tick e (k\<lparr>pm := m\<rparr>) = Some (l\<lparr>pm := m\<rparr>)"
proof -
  obtain c d where k: "queue k xs" "current_pcb k = Some c" "idle_pcb k = Some d" "c \<in> set xs" "d \<in> set xs"
    using assms by (auto simp: tickable_def)
  let ?n = "sched_choice k xs c d"
  let ?l = "if ?n = c then k\<lparr>cpu_esp := e\<rparr> else switch_to c ?n (k\<lparr>cpu_esp := e\<rparr>)"
  obtain us vs where "rotation xs c = vs @ us @ [c]" "xs = us @ c # vs" by (rule queue_split [OF k(1,4)])
  then have "set (rotation xs c) = set xs" by auto
  then have n: "?n \<in> set xs" using k(5) by (auto simp: sched_choice_def dest: find_Some_in split: option.split)
  have "queue ?l xs = queue k xs" unfolding queue_def by (auto simp: switch_to_def intro!: is_list_cong)
  then have l: "tickable ?l xs" using k n by (auto simp: tickable_def switch_to_def)
  have "pm ?l = pm k" by (simp add: switch_to_def)
  moreover have "tick e (k\<lparr>pm := m\<rparr>) = Some (?l\<lparr>pm := m\<rparr>)" for m
  proof -
    have "sched_choice (k\<lparr>pm := m\<rparr>) xs c d = ?n" by (simp add: sched_choice_def ready_def [abs_def])
    with tick_eq [of "k\<lparr>pm := m\<rparr>" xs c d e] k show ?thesis by (simp add: switch_to_def)
  qed
  ultimately show ?thesis by (rule that [OF tick_eq [OF k(1-4)] l])
qed

section \<open>What is left to do\<close>

text \<open>In \<open>k\<close>, a process at \<open>x\<close> will find what \<open>pmm_alloc_page\<close> finds.\<close>

fun will_find :: "alloc_pc \<Rightarrow> kern \<Rightarrow> bool" where
  "will_find (At_word i) k \<longleftrightarrow> i \<le> pmm_total_pages (pm k) div 32 \<and> alloc_word i (pm k) = pmm_alloc_page (pm k)"
| "will_find (At_bit i b) k \<longleftrightarrow> i < pmm_total_pages (pm k) div 32 \<and> b \<le> 32
     \<and> (case alloc_bit i b (pm k) of Some r \<Rightarrow> r | None \<Rightarrow> alloc_word (i + 1) (pm k)) = pmm_alloc_page (pm k)"
| "will_find (Taking p) k \<longleftrightarrow> pmm_alloc_page (pm k) = (p * PAGE_SIZE,
     (pm k)\<lparr>pmm_bitmap := bitmap_set p (pmm_bitmap (pm k)), pmm_free_pages := pmm_free_pages (pm k) - 1\<rparr>)"
| "will_find (Deducting p) k \<longleftrightarrow> False"
| "will_find (Given a) k \<longleftrightarrow> False"

definition seeking :: "nat \<Rightarrow> pcb_ref list \<Rightarrow> alloc_pc \<Rightarrow> kern \<Rightarrow> kern \<Rightarrow> bool" where
  "seeking w xs x k a \<longleftrightarrow> k = a \<and> tickable a xs \<and> unat (pmm_total_pages (pm a) div 32) = w \<and> will_find x a"

fun has_found :: "pcb_ref list \<Rightarrow> uint32_t \<Rightarrow> alloc_pc \<Rightarrow> kern \<Rightarrow> kern \<Rightarrow> bool" where
  "has_found xs r (Deducting p) k b \<longleftrightarrow> tickable k xs \<and> r = p * PAGE_SIZE
     \<and> b = k\<lparr>pm := (pm k)\<lparr>pmm_free_pages := pmm_free_pages (pm k) - 1\<rparr>\<rparr>"
| "has_found xs r (Given a) k b \<longleftrightarrow> tickable k xs \<and> r = a \<and> k = b"
| "has_found xs r _ k b \<longleftrightarrow> False"

text \<open>A bound on the statements, for \<open>w\<close> words of the bitmap.\<close>

fun words_left :: "nat \<Rightarrow> alloc_pc \<Rightarrow> nat" where
  "words_left w (At_word i) = 34 * (w - unat i) + 3"
| "words_left w (At_bit i b) = 34 * (w - unat i) + 2 - unat b"
| "words_left w (Taking p) = 2"
| "words_left w (Deducting p) = 1"
| "words_left w (Given a) = 0"

definition alloc_call :: "kern \<Rightarrow> (uint32_t \<times> kern) option" where
  "alloc_call k = (let (a, m) = pmm_alloc_page (pm k) in Some (a, k\<lparr>pm := m\<rparr>))"

lemma seeking_step:
  assumes sk: "seeking w xs x k a" and step: "alloc_step x k = (y, l)"
  shows "words_left w y < words_left w x
    \<and> (seeking w xs y l a \<or> (\<exists>r b. alloc_call a = Some (r, b) \<and> has_found xs r y l b))"
proof -
  have k: "k = a" "tickable a xs" "unat (pmm_total_pages (pm a) div 32) = w" "will_find x a"
    using sk by (simp_all add: seeking_def)
  let ?n = "pmm_total_pages (pm a) div 32"
  show ?thesis
  proof (cases x)
    case (At_word i)
    show ?thesis
    proof (cases "i < ?n")
      case True
      then have i: "unat (i + 1) = Suc (unat i)" "i + 1 \<le> ?n" "unat i < w"
        using unat_Suc_word [OF True] k(3) by (auto simp: word_less_nat_alt word_le_nat_alt)
      from True i k step At_word show ?thesis
        by (auto simp: seeking_def alloc_word.simps [of i "pm a"] split: if_splits)
    next
      case False
      then have "alloc_word i (pm a) = (0, pm a)" by (subst alloc_word.simps) simp
      then have "pmm_alloc_page (pm a) = (0, pm a)" using k(4) At_word by simp
      moreover have "y = Given 0" "l = a" using False k(1) step At_word by simp_all
      ultimately show ?thesis using k(2) At_word by (simp add: alloc_call_def)
    qed
  next
    case (At_bit i b)
    then have i: "i < ?n" "b \<le> 32" using k(4) by simp_all
    then have i1: "unat (i + 1) = Suc (unat i)" "i + 1 \<le> ?n" "unat i < w"
      using unat_Suc_word [OF i(1)] k(3) by (auto simp: word_less_nat_alt word_le_nat_alt)
    show ?thesis
    proof (cases "b < 32")
      case True
      then have b: "unat (b + 1) = Suc (unat b)" "b + 1 \<le> 32" "unat b < 32"
        using unat_Suc_word [OF True] by (auto simp: word_less_nat_alt word_le_nat_alt)
      from True b i i1 k step At_bit show ?thesis
        by (auto simp: seeking_def Let_def alloc_bit.simps [of i b "pm a"] split: if_splits)
    next
      case False
      then have "unat b = 32" using i(2) by (simp add: word_less_nat_alt word_le_nat_alt)
      moreover have "alloc_bit i b (pm a) = None" using False by (subst alloc_bit.simps) simp
      ultimately show ?thesis using False i1 k step At_bit by (auto simp: seeking_def)
    qed
  qed (use k step in \<open>auto simp: alloc_call_def\<close>)
qed

interpretation ap: preemptible alloc_step "\<lambda>_ _ _. True" c "seeking w xs" "has_found xs" alloc_call
  "words_left w" for c w xs
proof
  fix x k a y l
  assume "seeking w xs x k a" "alloc_step x k = (y, l)"
  then show "words_left w y < words_left w x
      \<and> (seeking w xs y l a \<or> (\<exists>r b. alloc_call a = Some (r, b) \<and> has_found xs r y l b))"
    by (rule seeking_step)
next
  fix r x k b y l
  assume "has_found xs r x k b" "alloc_step x k = (y, l)"
  then show "has_found xs r y l b \<and> (words_left w y < words_left w x \<or> words_left w x = 0 \<and> words_left w y = 0)"
    by (cases x) auto
next
  fix x k a e
  assume "seeking w xs x k a"
  then have s: "k = a" "tickable a xs" "unat (pmm_total_pages (pm a) div 32) = w" "will_find x a"
    by (simp_all add: seeking_def)
  obtain l where l: "tick e a = Some l" "tickable l xs" "pm l = pm a"
    by (rule tickable_tick [OF s(2)]) blast
  have "will_find x l = will_find x a" by (cases x) (simp_all add: l(3) cong: option.case_cong)
  with s l show "\<exists>l b. tick e k = Some l \<and> tick e a = Some b \<and> seeking w xs x l b" by (simp add: seeking_def)
next
  fix r x k b e
  assume f: "has_found xs r x k b"
  then have "tickable k xs" by (cases x) auto
  then obtain l where l: "tick e k = Some l" "tickable l xs" "pm l = pm k"
    "\<And>m. tick e (k\<lparr>pm := m\<rparr>) = Some (l\<lparr>pm := m\<rparr>)" by (rule tickable_tick) blast
  from f show "\<exists>l d. tick e k = Some l \<and> tick e b = Some d \<and> has_found xs r x l d"
    using l by (cases x) auto
next
  fix x k a
  assume "seeking w xs x k a"
  then show "0 < words_left w x"
  proof (cases x)
    case (At_bit i b)
    then have "unat b \<le> 32" "unat i < w" using \<open>seeking w xs x k a\<close>
      by (auto simp: seeking_def word_less_nat_alt word_le_nat_alt)
    with At_bit show ?thesis by simp
  qed (auto simp: seeking_def)
next
  fix r x k b
  assume "has_found xs r x k b" "words_left w x = 0"
  then show "k = b" by (cases x) auto
qed

section \<open>Two allocations\<close>

lemma seeks:
  assumes "seeking w xs (pat s c) (pk s) (pk s)" "current_pcb (pk s) = Some c"
    and "fst (pmm_alloc_page (pm (pk s))) \<noteq> 0"
  shows "\<exists>j p. acts alloc_step (replicate j Statement) s = Some (s\<lparr>pat := (pat s)(c := Taking p)\<rparr>)
    \<and> will_find (Taking p) (pk s)"
  using assms
proof (induction "words_left w (pat s c)" arbitrary: s rule: less_induct)
  case less
  have wf: "will_find (pat s c) (pk s)" using less.prems(1) by (simp add: seeking_def)
  show ?case
  proof (cases "\<exists>p. pat s c = Taking p")
    case True
    then obtain p where "pat s c = Taking p" by blast
    with wf show ?thesis by (intro exI [of _ 0] exI [of _ p]) (simp add: fun_upd_idem)
  next
    case False
    obtain y l where st: "alloc_step (pat s c) (pk s) = (y, l)" by fastforce
    have l: "l = pk s" using st False wf by (cases "pat s c") auto
    note n = seeking_step [OF less.prems(1) st]
    have "seeking w xs y (pk s) (pk s)"
    proof (rule ccontr)
      assume "\<not> seeking w xs y (pk s) (pk s)"
      with n obtain r b where b: "alloc_call (pk s) = Some (r, b)" "has_found xs r y (pk s) b" by (auto simp: l)
      have "y \<noteq> Deducting p" for p using st False wf by (cases "pat s c") (auto split: if_splits)
      with b(2) have "y = Given r" by (cases y) auto
      then have "r = 0" using st False wf by (cases "pat s c") (auto split: if_splits)
      with b(1) less.prems(3) show False by (simp add: alloc_call_def split: prod.splits)
    qed
    moreover have act: "act alloc_step Statement s = Some (s\<lparr>pat := (pat s)(c := y)\<rparr>)"
      using less.prems(2) st l by simp
    ultimately obtain j p where "acts alloc_step (replicate j Statement) (s\<lparr>pat := (pat s)(c := y)\<rparr>)
        = Some (s\<lparr>pat := (pat s)(c := Taking p)\<rparr>)" "will_find (Taking p) (pk s)"
      using less.hyps [of "s\<lparr>pat := (pat s)(c := y)\<rparr>"] n less.prems(2,3) by auto
    with act show ?thesis by (intro exI [of _ "Suc j"] exI [of _ p]) (simp del: act.simps)
  qed
qed

lemma bitmap_set_twice [simp]: "bitmap_set p (bitmap_set p bm) = bitmap_set p bm"
  by (cases "unat p div 32 < length bm") (auto simp: bitmap_set_def list_update_beyond)

text \<open>The two statements that take the page.\<close>

lemma takes_page:
  assumes "current_pcb (pk s) = Some c" "pat s c = Taking p"
  shows "acts alloc_step [Statement, Statement] s
    = Some (s\<lparr>pat := (pat s)(c := Given (p * PAGE_SIZE)),
        pk := (pk s)\<lparr>pm := (pm (pk s))\<lparr>pmm_bitmap := bitmap_set p (pmm_bitmap (pm (pk s))),
          pmm_free_pages := pmm_free_pages (pm (pk s)) - 1\<rparr>\<rparr>\<rparr>)"
  using assms by simp

lemma will_find_start: "will_find (At_word 0) k"
  by (simp add: pmm_alloc_page_def)

text \<open>The page taken once more.\<close>

lemma taken_twice:
  assumes "pmm_ready u" "pmm_alloc_page u = (a, m)"
    and m: "m = u\<lparr>pmm_bitmap := bitmap_set p (pmm_bitmap u), pmm_free_pages := pmm_free_pages u - 1\<rparr>"
  shows "let v = m\<lparr>pmm_bitmap := bitmap_set p (pmm_bitmap m), pmm_free_pages := pmm_free_pages m - 1\<rparr>
    in free_set v = free_set m \<and> pmm_free_pages v = pmm_free_pages u - 2 \<and> \<not> pmm_inv v"
proof -
  let ?v = "m\<lparr>pmm_bitmap := bitmap_set p (pmm_bitmap m), pmm_free_pages := pmm_free_pages m - 1\<rparr>"
  have set: "free_set ?v = free_set m" by (simp add: free_set_def m)
  have "pmm_inv m" using pmm_alloc_page_ready [OF assms(1)] assms(2) by (simp add: pmm_ready_def)
  moreover have "pmm_free_pages m - 1 \<noteq> pmm_free_pages m" by (simp add: diff_eq_eq)
  then have "unat (pmm_free_pages m - 1) \<noteq> unat (pmm_free_pages m)" by (simp only: word_unat_eq_iff not_False_eq_True)
  ultimately have "\<not> pmm_inv ?v" using set by (auto simp: pmm_inv_def)
  with set show ?thesis by (simp add: m)
qed

lemma alloc_step_current: "current_pcb (snd (alloc_step x k)) = current_pcb k"
  by (cases x) simp_all

section \<open>Properties\<close>

text \<open>C13: a timer interrupt cannot hurt an allocation. However the timer ticks between the statements of
  \<open>pmm_alloc_page\<close>, nothing gets stuck, the allocation ends after at most \<open>34\<close> statements for each
  word of the bitmap and three more, and page and state then are those that the same ticks give when the page is taken at once.\<close>

theorem pmm_alloc_page_preemptible:
  assumes "kern_sound (pk s) xs" "pat s c = At_word 0"
    and "lone_run alloc_step (\<lambda>_ _ _. True) c as s"
  shows "\<exists>t. acts alloc_step as s = Some t
    \<and> (case pat t c of
         Given a \<Rightarrow> at_once alloc_call a (interrupts as) (pk s) (pk t)
       | _ \<Rightarrow> statements as < 34 * unat (pmm_total_pages (pm (pk s)) div 32) + 3)"
proof -
  let ?w = "unat (pmm_total_pages (pm (pk s)) div 32)"
  have "seeking ?w xs (pat s c) (pk s) (pk s)"
    using kern_sound_tickable [OF assms(1)] assms(2) will_find_start by (simp add: seeking_def)
  moreover have "words_left ?w (At_word 0) = 34 * ?w + 3" by simp
  ultimately obtain t where t: "acts alloc_step as s = Some t"
    "if words_left ?w (pat t c) = 0
     then \<exists>r. at_once alloc_call r (interrupts as) (pk s) (pk t) \<and> has_found xs r (pat t c) (pk t) (pk t)
     else words_left ?w (pat t c) + statements as \<le> 34 * ?w + 3"
    using ap.run_at_once [OF _ assms(3), of ?w xs] assms(2) by metis
  then show ?thesis by (cases "pat t c") (auto split: if_splits)
qed

theorem pmm_alloc_page_preemptible_witness:
  "\<exists>k n t a. kern_sound k [Pcb 0, Pcb 1]
     \<and> acts alloc_step (Statement # Interrupt 0 # Interrupt 0 # replicate n Statement)
         \<lparr>pk = k, pat = (\<lambda>_. At_word 0)\<rparr> = Some t
     \<and> pat t (Pcb 0) = Given a \<and> at_once alloc_call a [0, 0] k (pk t)"
proof -
  obtain k x m where k: "kern_sound k [Pcb 0, Pcb 1]" "own_stacks k" "current_pcb k = Some (Pcb 0)"
    "idle_pcb k = Some (Pcb 0)" "state (pcbs k (Pcb 1)) = PROCESS_READY" "alloc_pcb k = Some (Pcb 2)"
    "pmm_alloc_page (pm k) = (x, m)" "x \<noteq> 0" "fst (pmm_alloc_page m) \<noteq> 0"
    by (rule two_processes)
  let ?n = "34 * unat (pmm_total_pages (pm k) div 32) + 3"
  let ?s = "\<lparr>pk = k, pat = (\<lambda>_. At_word 0)\<rparr>"
  let ?as = "Statement # Interrupt 0 # Interrupt 0 # replicate ?n Statement"
  let ?k1 = "switch_to (Pcb 0) (Pcb 1) (k\<lparr>cpu_esp := 0\<rparr>)"
  have "rotation [Pcb 0, Pcb 1] (Pcb 0) = [Pcb 1, Pcb 0]" by (simp add: rotation_def)
  moreover have "Pcb 1 \<noteq> Pcb 0" "Pcb 0 \<noteq> Pcb 1" by simp_all
  ultimately have t1: "tick 0 k = Some ?k1" "kern_sound ?k1 [Pcb 0, Pcb 1]" "state (pcbs ?k1 (Pcb 0)) = PROCESS_READY"
    using tick_to [OF k(1,3) _ k(5), where e = 0] by blast+
  have "current_pcb ?k1 = Some (Pcb 1)" "rotation [Pcb 0, Pcb 1] (Pcb 1) = [Pcb 0, Pcb 1]"
    by (simp_all add: switch_to_def rotation_def)
  from tick_to(1) [OF t1(2) this t1(3) \<open>Pcb 0 \<noteq> Pcb 1\<close>, where e = 0]
  have t2: "tick 0 ?k1 = Some (switch_to (Pcb 1) (Pcb 0) (?k1\<lparr>cpu_esp := 0\<rparr>))" .
  have lone: "lone_run alloc_step (\<lambda>_ _ _. True) (Pcb 0) ?as ?s"
    using k(3) t1(1) t2 lone_statements [of alloc_step, OF alloc_step_current] by (simp add: switch_to_def)
  have "kern_sound (pk ?s) [Pcb 0, Pcb 1]" "pat ?s (Pcb 0) = At_word 0" using k(1) by simp_all
  from pmm_alloc_page_preemptible [OF this lone] obtain t where t: "acts alloc_step ?as ?s = Some t"
    "case pat t (Pcb 0) of Given a \<Rightarrow> at_once alloc_call a (interrupts ?as) (pk ?s) (pk t)
     | _ \<Rightarrow> statements ?as < 34 * unat (pmm_total_pages (pm (pk ?s)) div 32) + 3" by blast
  have "statements ?as = Suc ?n" "interrupts ?as = [0, 0]" by simp_all
  with t(2) obtain a where "pat t (Pcb 0) = Given a" "at_once alloc_call a [0, 0] k (pk t)"
    by (cases "pat t (Pcb 0)") simp_all
  with k(1) t(1) show ?thesis by blast
qed

text \<open>C18: two processes can get the same page. When a tick takes the processor away from one that has found a
  free page and not yet marked it, and the other one allocates meanwhile, both get the page, and the
  counter of free pages is one too low from then on.\<close>

theorem allocation_race:
  assumes s: "kern_sound (pk s) [c, n]" "current_pcb (pk s) = Some c" "state (pcbs (pk s) n) = PROCESS_READY"
    and pcs: "pat s c = At_word 0" "pat s n = At_word 0"
    and room: "pmm_alloc_page (pm (pk s)) = (a, m)" "a \<noteq> 0"
  shows "\<exists>as t. acts alloc_step as s = Some t \<and> pat t c = Given a \<and> pat t n = Given a
    \<and> free_set (pm (pk t)) = free_set m
    \<and> pmm_free_pages (pm (pk t)) = pmm_free_pages (pm (pk s)) - 2 \<and> \<not> pmm_inv (pm (pk t))"
proof -
  have cn: "n \<noteq> c" using kern_sound_core(2) [OF s(1)] rq.queue_distinct by fastforce
  let ?w = "unat (pmm_total_pages (pm (pk s)) div 32)"
  have "seeking ?w [c, n] (pat s c) (pk s) (pk s)"
    using kern_sound_tickable [OF s(1)] will_find_start by (simp add: seeking_def pcs)
  from seeks [OF this s(2)] room obtain j1 p where
    a1: "acts alloc_step (replicate j1 Statement) s = Some (s\<lparr>pat := (pat s)(c := Taking p)\<rparr>)"
      "will_find (Taking p) (pk s)" by auto
  have "rotation [c, n] c = [n, c]" using cn by (simp add: rotation_def)
  note k1 = tick_to [OF s(1,2) this s(3) cn, where e = 0]
  let ?k1 = "switch_to c n ((pk s)\<lparr>cpu_esp := 0\<rparr>)"
  have pm1: "pm ?k1 = pm (pk s)" and cur1: "current_pcb ?k1 = Some n" by (simp_all add: switch_to_def)
  let ?s1 = "s\<lparr>pat := (pat s)(c := Taking p), pk := ?k1\<rparr>"
  have "seeking ?w [c, n] (pat ?s1 n) (pk ?s1) (pk ?s1)"
    using kern_sound_tickable [OF k1(2)] will_find_start pm1 pcs(2) cn by (simp add: seeking_def)
  from seeks [OF this] cur1 pm1 room obtain j2 q where
    a2: "acts alloc_step (replicate j2 Statement) ?s1 = Some (?s1\<lparr>pat := (pat ?s1)(n := Taking q)\<rparr>)"
      "will_find (Taking q) ?k1" by auto
  have pq: "p * PAGE_SIZE = a" "q * PAGE_SIZE = a"
    and m: "m = (pm (pk s))\<lparr>pmm_bitmap := bitmap_set p (pmm_bitmap (pm (pk s))),
        pmm_free_pages := pmm_free_pages (pm (pk s)) - 1\<rparr>"
      "m = (pm (pk s))\<lparr>pmm_bitmap := bitmap_set q (pmm_bitmap (pm (pk s))),
        pmm_free_pages := pmm_free_pages (pm (pk s)) - 1\<rparr>"
    using a1(2) a2(2) pm1 room(1) by auto
  let ?s2 = "?s1\<lparr>pat := (pat ?s1)(n := Given a), pk := ?k1\<lparr>pm := m\<rparr>\<rparr>"
  have a3: "acts alloc_step [Statement, Statement] (?s1\<lparr>pat := (pat ?s1)(n := Taking q)\<rparr>) = Some ?s2"
    using takes_page [of "?s1\<lparr>pat := (pat ?s1)(n := Taking q)\<rparr>" n q] cur1 pq(2) m(2) pm1 by simp
  have "rotation [c, n] n = [c, n]" using cn by (simp add: rotation_def)
  note k2 = tick_to [OF k1(2) cur1 this k1(3) cn [symmetric], where e = 0]
  let ?k2 = "switch_to n c (?k1\<lparr>cpu_esp := 0\<rparr>)"
  obtain l where "tick 0 ?k1 = Some l" "\<And>m. tick 0 (?k1\<lparr>pm := m\<rparr>) = Some (l\<lparr>pm := m\<rparr>)"
    by (rule tickable_tick [OF kern_sound_tickable [OF k1(2)]]) blast
  then have k3: "tick 0 (?k1\<lparr>pm := m\<rparr>) = Some (?k2\<lparr>pm := m\<rparr>)" using k2(1) by simp
  let ?s3 = "?s2\<lparr>pk := ?k2\<lparr>pm := m\<rparr>\<rparr>"
  let ?m = "m\<lparr>pmm_bitmap := bitmap_set p (pmm_bitmap m), pmm_free_pages := pmm_free_pages m - 1\<rparr>"
  let ?t = "?s3\<lparr>pat := (pat ?s3)(c := Given a), pk := ?k2\<lparr>pm := ?m\<rparr>\<rparr>"
  have "current_pcb ?k2 = Some c" by (simp add: switch_to_def)
  then have a4: "acts alloc_step [Statement, Statement] ?s3 = Some ?t"
    using takes_page [of ?s3 c p] cn pq(1) by simp
  have i1: "acts alloc_step [Interrupt 0] (s\<lparr>pat := (pat s)(c := Taking p)\<rparr>) = Some ?s1"
    and i2: "acts alloc_step [Interrupt 0] ?s2 = Some ?s3" using k1(1) k3 by simp_all
  have run: "acts alloc_step (replicate j1 Statement @ [Interrupt 0] @ replicate j2 Statement
      @ [Statement, Statement] @ [Interrupt 0] @ [Statement, Statement]) s = Some ?t"
    by (simp only: acts_then [OF a1(1)] acts_then [OF i1] acts_then [OF a2(1)] acts_then [OF a3] acts_then [OF i2] a4)
  have "pat ?t c = Given a" "pat ?t n = Given a" "pm (pk ?t) = ?m" using cn by simp_all
  moreover have "pmm_ready (pm (pk s))" by (rule kern_sound_core(4) [OF s(1)])
  ultimately show ?thesis using run taken_twice [OF _ room(1) m(1)] by metis
qed

theorem allocation_race_witness:
  "\<exists>k as t a. kern_sound k [Pcb 0, Pcb 1] \<and> a \<noteq> 0
     \<and> acts alloc_step as \<lparr>pk = k, pat = (\<lambda>_. At_word 0)\<rparr> = Some t
     \<and> pat t (Pcb 0) = Given a \<and> pat t (Pcb 1) = Given a"
proof -
  obtain k x m where k: "kern_sound k [Pcb 0, Pcb 1]" "own_stacks k" "current_pcb k = Some (Pcb 0)"
    "idle_pcb k = Some (Pcb 0)" "state (pcbs k (Pcb 1)) = PROCESS_READY" "alloc_pcb k = Some (Pcb 2)"
    "pmm_alloc_page (pm k) = (x, m)" "x \<noteq> 0" "fst (pmm_alloc_page m) \<noteq> 0"
    by (rule two_processes)
  from allocation_race [of "\<lparr>pk = k, pat = (\<lambda>_. At_word 0)\<rparr>" "Pcb 0" "Pcb 1" x m] k
  show ?thesis by (metis psys.select_convs)
qed

end
