(* ===== verification/Movers.thy ===== *)
theory Movers
  imports Alloc_Preempt
begin

text \<open>
  A way to see that code is \<open>preemptible\<close>: each of its statements but the last may change places with a timer
  tick, because neither touches what the other reads. Then all ticks move in front of the first statement,
  and the code has run at once when it ends.
\<close>

section \<open>Code whose statements commute with ticks\<close>

text \<open>
  \<open>ok x k\<close> is an invariant of the code at \<open>x\<close>, \<open>result x\<close> what it returns when \<open>x\<close> is its end, and \<open>rest x k\<close> what
  comes out when it runs to its end from \<open>x\<close> in the state \<open>k\<close>.
\<close>

locale movers =
  fixes step :: "'x \<Rightarrow> kern \<Rightarrow> 'x \<times> kern"
    and safe :: "'x \<Rightarrow> kern \<Rightarrow> uint32_t \<Rightarrow> bool"
    and start :: 'x
    and ok :: "'x \<Rightarrow> kern \<Rightarrow> bool"
    and result :: "'x \<Rightarrow> 'r option"
    and rest :: "'x \<Rightarrow> kern \<Rightarrow> ('r \<times> kern) option"
    and good :: "kern \<Rightarrow> bool"
    and left :: "'x \<Rightarrow> nat"
  assumes ok_step: "ok x k \<Longrightarrow> result x = None \<Longrightarrow> step x k = (y, l) \<Longrightarrow>
      left y < left x \<and> rest x k = rest y l \<and> (result y = None \<longrightarrow> ok y l)"
    and ok_tick: "ok x k \<Longrightarrow> result x = None \<Longrightarrow> safe x k e \<Longrightarrow> \<exists>j. tick e k = Some j \<and> ok x j"
    and commutes: "ok x k \<Longrightarrow> result x = None \<Longrightarrow> step x k = (y, l) \<Longrightarrow> result y = None \<Longrightarrow> safe y l e
      \<Longrightarrow> safe x k e \<and> (\<forall>j. tick e k = Some j \<longrightarrow> (\<exists>i. step x j = (y, i) \<and> tick e l = Some i))"
    and ended: "result x = Some r \<Longrightarrow> rest x k = Some (r, k) \<and> step x k = (x, k) \<and> left x = 0"
    and starts: "result start = None"
    and ends_good: "ok start k \<Longrightarrow> rest start k = Some (r, l) \<Longrightarrow> good l"
    and good_tick: "good k \<Longrightarrow> \<exists>j. tick e k = Some j \<and> good j"
begin

inductive reaches :: "kern \<Rightarrow> 'x \<Rightarrow> kern \<Rightarrow> bool" for a where
  here: "ok start a \<Longrightarrow> reaches a start a"
| there: "reaches a x k \<Longrightarrow> step x k = (y, l) \<Longrightarrow> result y = None \<Longrightarrow> reaches a y l"

lemma reaches_ok: "reaches a x k \<Longrightarrow> ok start a \<and> ok x k \<and> result x = None \<and> rest x k = rest start a"
proof (induction rule: reaches.induct)
  case (there x k y l)
  then show ?case using ok_step [of x k y l] by simp
qed (use starts in simp)

lemma reaches_tick:
  assumes "reaches a x k" "safe x k e"
  shows "\<exists>b j. tick e a = Some b \<and> tick e k = Some j \<and> reaches b x j"
  using assms
proof (induction rule: reaches.induct)
  case here
  then show ?case using ok_tick [of start a e] starts reaches.here by blast
next
  case (there x k y l)
  note x = reaches_ok [OF there.hyps(1)]
  have c: "safe x k e \<and> (\<forall>j. tick e k = Some j \<longrightarrow> (\<exists>i. step x j = (y, i) \<and> tick e l = Some i))"
    by (rule commutes) (use x there in simp_all)
  then obtain b j where "tick e a = Some b" "tick e k = Some j" "reaches b x j" using there.IH by blast
  with c show ?case using reaches.there [OF _ _ there.hyps(3)] by blast
qed

definition returned :: "'r \<Rightarrow> 'x \<Rightarrow> kern \<Rightarrow> kern \<Rightarrow> bool" where
  "returned r x k b \<longleftrightarrow> result x = Some r \<and> k = b \<and> good b"

end

sublocale movers \<subseteq> mover_run: preemptible step safe caller "\<lambda>x k a. reaches a x k" returned "rest start" left
  for caller
proof
  fix x k a y l
  assume r: "reaches a x k" and st: "step x k = (y, l)"
  note x = reaches_ok [OF r]
  have s: "left y < left x" "rest x k = rest y l"
    using ok_step [of x k y l] x st by simp_all
  show "left y < left x \<and> (reaches a y l \<or> (\<exists>r b. rest start a = Some (r, b) \<and> returned r y l b))"
  proof (cases "result y")
    case None
    with s(1) reaches.there [OF r st] show ?thesis by blast
  next
    case (Some q)
    then have "rest start a = Some (q, l)" using ended [OF Some, of l] s(2) x by simp
    with s(1) Some ends_good x show ?thesis by (auto simp: returned_def)
  qed
next
  fix r x k b y l
  assume "returned r x k b" "step x k = (y, l)"
  with ended [of x r k] show "returned r y l b \<and> (left y < left x \<or> left x = 0 \<and> left y = 0)"
    by (simp add: returned_def)
next
  fix x k a e
  assume "reaches a x k" "safe x k e"
  from reaches_tick [OF this] show "\<exists>l b. tick e k = Some l \<and> tick e a = Some b \<and> reaches b x l" by blast
next
  fix r x k b e
  assume "returned r x k b"
  with good_tick show "\<exists>l d. tick e k = Some l \<and> tick e b = Some d \<and> returned r x l d" by (auto simp: returned_def)
next
  fix x k a
  assume r: "reaches a x k"
  obtain y l where "step x k = (y, l)" by fastforce
  with ok_step [of x k y l] reaches_ok [OF r] show "0 < left x" by auto
qed (simp add: returned_def)

end
