(* ===== verification/Thread_Preempt.thy ===== *)
theory Thread_Preempt
  imports Movers
begin

text \<open>
  \<^verbatim>\<open>create_thread\<close> (\<^verbatim>\<open>src/src/thread.c\<close>) with the \<^verbatim>\<open>enqueue\<close> that it calls cut into statements, with timer
  interrupts between them, the initialisation of the pool on first use included. \<open>pmm_alloc_page\<close>, which
  \<open>Alloc_Preempt\<close> cuts, is one statement here. Every statement but the last commutes with the timer.
\<close>

section \<open>The statements\<close>

text \<open>The place in the code with the local variables of the functions that are active.\<close>

datatype thread_pc =
    Beginning
  | Wiping nat nat
  | Looking nat
  | Fetching nat
  | Stacking nat uint32_t
  | Entering_field nat uint32_t nat
  | Unlinking_new nat uint32_t
  | Asking nat uint32_t
  | Leading nat uint32_t
  | Following nat uint32_t pcb_ref
  | Linking nat uint32_t pcb_ref
  | Replied "nat option"

text \<open>The three assignments to a slot of the pool on first use.\<close>

definition wipe_field :: "nat \<Rightarrow> nat \<Rightarrow> kern \<Rightarrow> kern" where
  "wipe_field n i k =
     (if n = 0 then upd_pcb (Tcb i) (\<lambda>c. c\<lparr>state := PROCESS_DEAD\<rparr>) k
      else if n = 1 then upd_pcb (Tcb i) (\<lambda>c. c\<lparr>pid := 0\<rparr>) k
      else upd_tcb i (\<lambda>t. t\<lparr>tid := 0\<rparr>) k)"

text \<open>The nine assignments to the slot of the new thread, the first with the increment of \<^verbatim>\<open>next_tid\<close>.\<close>

definition thread_field :: "pcb_ref option \<Rightarrow> nat \<Rightarrow> uint32_t \<Rightarrow> nat \<Rightarrow> kern \<Rightarrow> kern" where
  "thread_field par i stack n k =
     (if n = 0 then (let k = k\<lparr>next_tid := next_tid k + 1\<rparr> in upd_tcb i (\<lambda>t. t\<lparr>tid := next_tid k\<rparr>) k)
      else if n = 1 then upd_tcb i (\<lambda>t. t\<lparr>parent := par\<rparr>) k
      else if n = 2 then upd_tcb i (\<lambda>t. t\<lparr>wait_next := None\<rparr>) k
      else if n = 3 then upd_pcb (Tcb i) (\<lambda>c. c\<lparr>pid := 0\<rparr>) k
      else if n = 4 then upd_pcb (Tcb i) (\<lambda>c. c\<lparr>state := PROCESS_READY\<rparr>) k
      else if n = 5 then upd_pcb (Tcb i)
        (\<lambda>c. c\<lparr>priority := (case par of None \<Rightarrow> 1 | Some q \<Rightarrow> priority (pcbs k q))\<rparr>) k
      else if n = 6 then upd_pcb (Tcb i) (\<lambda>c. c\<lparr>esp := stack + STACK_SIZE - 4\<rparr>) k
      else if n = 7 then upd_pcb (Tcb i) (\<lambda>c. c\<lparr>stack_base := stack\<rparr>) k
      else upd_pcb (Tcb i) (\<lambda>c. c\<lparr>next_pcb := None\<rparr>) k)"

fun thread_step :: "pcb_ref option \<Rightarrow> uint32_t \<Rightarrow> thread_pc \<Rightarrow> kern \<Rightarrow> thread_pc \<times> kern" where
  "thread_step par f Beginning k = (if tcb_pool_initialized k then Looking 0 else Wiping 0 0, k)"
| "thread_step par f (Wiping i n) k =
     (if i < MAX_THREADS then (if n < 2 then Wiping i (n + 1) else Wiping (i + 1) 0, wipe_field n i k)
      else (Looking 0, k\<lparr>tcb_pool_initialized := True\<rparr>))"
| "thread_step par f (Looking i) k =
     (if i < MAX_THREADS
      then (if state (pcbs k (Tcb i)) = PROCESS_DEAD then Fetching i else Looking (i + 1))
      else Replied None, k)"
| "thread_step par f (Fetching i) k =
     (let (stack, m) = pmm_alloc_page (pm k)
      in (if stack = 0 then Replied None else Stacking i stack, k\<lparr>pm := m\<rparr>))"
| "thread_step par f (Stacking i stack) k =
     (Entering_field i stack 0, k\<lparr>ram := (ram k)(stack + STACK_SIZE - 4 := f)\<rparr>)"
| "thread_step par f (Entering_field i stack n) k =
     (if n < 8 then Entering_field i stack (n + 1) else Unlinking_new i stack, thread_field par i stack n k)"
| "thread_step par f (Unlinking_new i stack) k =
     (Asking i stack, upd_pcb (Tcb i) (\<lambda>c. c\<lparr>next_pcb := None\<rparr>) k)"
| "thread_step par f (Asking i stack) k =
     (case run_queue k of None \<Rightarrow> Leading i stack | Some h \<Rightarrow> Following i stack h, k)"
| "thread_step par f (Leading i stack) k = (Replied (Some i), k\<lparr>run_queue := Some (Tcb i)\<rparr>)"
| "thread_step par f (Following i stack t) k =
     (case next_pcb (pcbs k t) of None \<Rightarrow> Linking i stack t | Some n \<Rightarrow> Following i stack n, k)"
| "thread_step par f (Linking i stack t) k =
     (Replied (Some i), upd_pcb t (\<lambda>c. c\<lparr>next_pcb := Some (Tcb i)\<rparr>) k)"
| "thread_step par f (Replied r) k = (Replied r, k)"

fun thread_result :: "thread_pc \<Rightarrow> nat option option" where
  "thread_result (Replied r) = Some r"
| "thread_result _ = None"

text \<open>The interrupted code runs on a stack that is neither free nor under construction.\<close>

fun new_page :: "thread_pc \<Rightarrow> nat set" where
  "new_page (Stacking i stack) = {unat stack div 4096}"
| "new_page (Entering_field i stack n) = {unat stack div 4096}"
| "new_page (Unlinking_new i stack) = {unat stack div 4096}"
| "new_page (Asking i stack) = {unat stack div 4096}"
| "new_page (Leading i stack) = {unat stack div 4096}"
| "new_page (Following i stack t) = {unat stack div 4096}"
| "new_page (Linking i stack t) = {unat stack div 4096}"
| "new_page _ = {}"

definition thread_safe :: "thread_pc \<Rightarrow> kern \<Rightarrow> uint32_t \<Rightarrow> bool" where
  "thread_safe x k e \<longleftrightarrow> unat e div 4096 \<notin> free_set (pm k) \<union> new_page x"

section \<open>What comes out of the rest\<close>

definition wiped_from :: "nat \<Rightarrow> nat \<Rightarrow> kern \<Rightarrow> kern" where
  "wiped_from i n k =
     (if i < MAX_THREADS
      then fold (\<lambda>j. fold (\<lambda>m. wipe_field m j) [0..<3]) [Suc i..<MAX_THREADS]
             (fold (\<lambda>m. wipe_field m i) [n..<3] k)
      else k)\<lparr>tcb_pool_initialized := True\<rparr>"

definition fields_rest :: "pcb_ref option \<Rightarrow> nat \<Rightarrow> uint32_t \<Rightarrow> nat \<Rightarrow> kern \<Rightarrow> (nat option \<times> kern) option" where
  "fields_rest par i stack n k =
     map_option (Pair (Some i)) (enqueue (Tcb i) (fold (thread_field par i stack) [n..<9] k))"

definition fetch_rest :: "pcb_ref option \<Rightarrow> uint32_t \<Rightarrow> nat \<Rightarrow> kern \<Rightarrow> (nat option \<times> kern) option" where
  "fetch_rest par f i k =
     (let (stack, m) = pmm_alloc_page (pm k); k = k\<lparr>pm := m\<rparr>
      in if stack = 0 then Some (None, k)
         else fields_rest par i stack 0 (k\<lparr>ram := (ram k)(stack + STACK_SIZE - 4 := f)\<rparr>))"

definition look_rest :: "pcb_ref option \<Rightarrow> uint32_t \<Rightarrow> nat \<Rightarrow> kern \<Rightarrow> (nat option \<times> kern) option" where
  "look_rest par f i k =
     (case find (\<lambda>i. state (pcbs k (Tcb i)) = PROCESS_DEAD) [i..<MAX_THREADS] of
        None \<Rightarrow> Some (None, k)
      | Some j \<Rightarrow> fetch_rest par f j k)"

fun thread_rest :: "pcb_ref option \<Rightarrow> uint32_t \<Rightarrow> thread_pc \<Rightarrow> kern \<Rightarrow> (nat option \<times> kern) option" where
  "thread_rest par f Beginning k = create_thread par f k"
| "thread_rest par f (Wiping i n) k = look_rest par f 0 (wiped_from i n k)"
| "thread_rest par f (Looking i) k = look_rest par f i k"
| "thread_rest par f (Fetching i) k = fetch_rest par f i k"
| "thread_rest par f (Stacking i stack) k =
     fields_rest par i stack 0 (k\<lparr>ram := (ram k)(stack + STACK_SIZE - 4 := f)\<rparr>)"
| "thread_rest par f (Entering_field i stack n) k = fields_rest par i stack n k"
| "thread_rest par f (Unlinking_new i stack) k = map_option (Pair (Some i)) (enqueue (Tcb i) k)"
| "thread_rest par f (Asking i stack) k =
     (case run_queue k of
        None \<Rightarrow> Some (Some i, k\<lparr>run_queue := Some (Tcb i)\<rparr>)
      | Some h \<Rightarrow> map_option (\<lambda>t. (Some i, upd_pcb t (\<lambda>c. c\<lparr>next_pcb := Some (Tcb i)\<rparr>) k)) (find_tail (pcbs k) h))"
| "thread_rest par f (Leading i stack) k = Some (Some i, k\<lparr>run_queue := Some (Tcb i)\<rparr>)"
| "thread_rest par f (Following i stack t) k =
     map_option (\<lambda>t. (Some i, upd_pcb t (\<lambda>c. c\<lparr>next_pcb := Some (Tcb i)\<rparr>) k)) (find_tail (pcbs k) t)"
| "thread_rest par f (Linking i stack t) k = Some (Some i, upd_pcb t (\<lambda>c. c\<lparr>next_pcb := Some (Tcb i)\<rparr>) k)"
| "thread_rest par f (Replied r) k = Some (r, k)"

lemma fields_made:
  "fold (thread_field par i stack) [0..<9] k =
     upd_pcb (Tcb i) (\<lambda>_. \<lparr> pid = 0, state = PROCESS_READY,
         priority = (case par of None \<Rightarrow> 1 | Some q \<Rightarrow> priority (pcbs k q)),
         esp = stack + STACK_SIZE - 4, stack_base = stack, next_pcb = None \<rparr>)
       (upd_tcb i (\<lambda>_. \<lparr> tid = next_tid k + 1, parent = par, wait_next = None \<rparr>) (k\<lparr>next_tid := next_tid k + 1\<rparr>))"
  by (rule kern.equality)
    (simp_all add: upt_rec thread_field_def upd_pcb_def upd_tcb_def Let_def fun_eq_iff split: option.split)

lemma wipe_fields: "fold (\<lambda>m. wipe_field m i) [0..<3] k =
    upd_tcb i (\<lambda>t. t\<lparr>tid := 0\<rparr>) (upd_pcb (Tcb i) (\<lambda>c. c\<lparr>state := PROCESS_DEAD, pid := 0\<rparr>) k)"
  by (rule kern.equality) (simp_all add: upt_rec wipe_field_def upd_pcb_def upd_tcb_def)

lemma wiped_all: "\<not> tcb_pool_initialized k \<Longrightarrow> wiped_from 0 0 k = ensure_pool_init k"
proof -
  have "[0..<MAX_THREADS] = 0 # [Suc 0..<MAX_THREADS]" by (simp add: MAX_THREADS_def upt_conv_Cons)
  moreover have "(\<lambda>i. fold (\<lambda>m. wipe_field m i) [0..<3]) = (\<lambda>i k. upd_tcb i (\<lambda>t. t\<lparr>tid := 0\<rparr>)
      (upd_pcb (Tcb i) (\<lambda>c. c\<lparr>state := PROCESS_DEAD, pid := 0\<rparr>) k))"
    by (intro ext) (rule wipe_fields)
  ultimately show "\<not> tcb_pool_initialized k \<Longrightarrow> wiped_from 0 0 k = ensure_pool_init k"
    by (simp add: wiped_from_def ensure_pool_init_def wipe_fields MAX_THREADS_def)
qed

lemma create_thread_rest: "create_thread par f k = look_rest par f 0 (ensure_pool_init k)"
  by (simp add: create_thread_def alloc_tcb_def look_rest_def fetch_rest_def fields_rest_def fields_made
      scheduler_enqueue_def Let_def split: option.split prod.split)

section \<open>What the timer does not see\<close>

definition steady :: "pcb_ref list \<Rightarrow> kern \<Rightarrow> bool" where
  "steady xs k \<longleftrightarrow> tickable k xs \<and> (\<forall>r \<in> set xs. state (pcbs k r) \<noteq> PROCESS_DEAD)"

text \<open>\<open>veil i q tc m w n b k\<close>: the state \<open>k\<close> with another slot \<open>i\<close> of the pool, other numbers, pages and memory.\<close>

definition veil :: "nat \<Rightarrow> pcb \<Rightarrow> (nat \<Rightarrow> tcb_ext) \<Rightarrow> pmm \<Rightarrow> (uint32_t \<Rightarrow> uint32_t) \<Rightarrow> uint32_t \<Rightarrow> bool \<Rightarrow> kern \<Rightarrow> kern" where
  "veil i q tc m w n b k = k\<lparr>pcbs := (pcbs k)(Tcb i := q), tcbs := tc, pm := m, ram := w, next_tid := n,
     tcb_pool_initialized := b\<rparr>"

lemma veil_fields [simp]:
  "pcbs (veil i q tc m w n b k) = (pcbs k)(Tcb i := q)" "tcbs (veil i q tc m w n b k) = tc"
  "pm (veil i q tc m w n b k) = m" "ram (veil i q tc m w n b k) = w" "next_tid (veil i q tc m w n b k) = n"
  "tcb_pool_initialized (veil i q tc m w n b k) = b" "run_queue (veil i q tc m w n b k) = run_queue k"
  "current_pcb (veil i q tc m w n b k) = current_pcb k" "idle_pcb (veil i q tc m w n b k) = idle_pcb k"
  "cpu_esp (veil i q tc m w n b k) = cpu_esp k"
  by (simp_all add: veil_def)

lemma steady_veil [simp]:
  assumes "Tcb i \<notin> set xs"
  shows "steady xs (veil i q tc m w n b k) = steady xs k"
proof -
  have q: "queue (veil i q tc m w n b k) xs = queue k xs"
    unfolding queue_def veil_fields is_list_upd [OF assms] ..
  have s: "(\<forall>r \<in> set xs. state (pcbs (veil i q tc m w n b k) r) \<noteq> PROCESS_DEAD)
      = (\<forall>r \<in> set xs. state (pcbs k r) \<noteq> PROCESS_DEAD)" using assms by (intro ball_cong) auto
  show ?thesis by (simp only: steady_def tickable_def q s veil_fields(8,9))
qed

lemma steady_choice:
  assumes "steady xs k"
  obtains c d where "queue k xs" "current_pcb k = Some c" "idle_pcb k = Some d" "c \<in> set xs"
    "sched_choice k xs c d \<in> set xs" "set (rotation xs c) = set xs"
proof -
  obtain c d where k: "queue k xs" "current_pcb k = Some c" "idle_pcb k = Some d" "c \<in> set xs" "d \<in> set xs"
    using assms by (auto simp: steady_def tickable_def)
  obtain us vs where "rotation xs c = vs @ us @ [c]" "xs = us @ c # vs" by (rule queue_split [OF k(1,4)])
  then have r: "set (rotation xs c) = set xs" by auto
  with k(5) have "sched_choice k xs c d \<in> set xs" by (auto simp: sched_choice_def dest: find_Some_in split: option.split)
  with k(1-4) r that show ?thesis by blast
qed

lemma steady_tick:
  assumes "steady xs k"
  obtains j where "tick e k = Some j" "steady xs j" "tcbs j = tcbs k" "pm j = pm k" "ram j = ram k" "next_tid j = next_tid k"
    "tcb_pool_initialized j = tcb_pool_initialized k" "run_queue j = run_queue k"
    "\<And>r. r \<notin> set xs \<Longrightarrow> pcbs j r = pcbs k r" "\<And>r. next_pcb (pcbs j r) = next_pcb (pcbs k r)"
    "\<And>r. priority (pcbs j r) = priority (pcbs k r)"
    "\<And>r. state (pcbs j r) = PROCESS_DEAD \<longleftrightarrow> state (pcbs k r) = PROCESS_DEAD"
    "\<And>r. esp (pcbs j r) = esp (pcbs k r) \<or> esp (pcbs j r) = e"
    "\<And>i q tc m w n b. Tcb i \<notin> set xs \<Longrightarrow> (\<And>r. r \<in> set xs \<Longrightarrow> w (esp (pcbs k r)) = ram k (esp (pcbs k r)))
       \<Longrightarrow> tick e (veil i q tc m w n b k) = Some (veil i q tc m w n b j)"
proof -
  obtain c d where c: "queue k xs" "current_pcb k = Some c" "idle_pcb k = Some d" "c \<in> set xs"
    "sched_choice k xs c d \<in> set xs" "set (rotation xs c) = set xs" by (rule steady_choice [OF assms])
  let ?n = "sched_choice k xs c d"
  let ?j = "if ?n = c then k\<lparr>cpu_esp := e\<rparr> else switch_to c ?n (k\<lparr>cpu_esp := e\<rparr>)"
  have t: "tick e k = Some ?j" by (rule tick_eq [OF c(1-4)])
  have live: "state (pcbs k r) \<noteq> PROCESS_DEAD" if "r \<in> set xs" for r using assms that by (simp add: steady_def)
  have "tickable k xs" using assms by (simp add: steady_def)
  then obtain l where "tick e k = Some l" "tickable l xs" by (rule tickable_tick)
  with t have "tickable ?j xs" by (simp only: option.inject)
  then have steady: "steady xs ?j" using live c(4,5) by (auto simp: steady_def switch_to_def)
  have v: "tick e (veil i q tc m w n b k) = Some (veil i q tc m w n b ?j)"
    if i: "Tcb i \<notin> set xs" and w: "\<And>r. r \<in> set xs \<Longrightarrow> w (esp (pcbs k r)) = ram k (esp (pcbs k r))"
    for i q tc m w n b
  proof -
    let ?v = "veil i q tc m w n b k"
    have "find (ready ?v) (rotation xs c) = find (ready k) (rotation xs c)"
      using i c(6) by (intro find_cong) (auto simp: ready_def)
    then have ch: "sched_choice ?v xs c d = ?n" by (simp add: sched_choice_def)
    have "queue ?v xs" using c(1) i by (simp add: queue_def is_list_upd)
    from tick_eq [OF this, of c d e] c(2-4) have "tick e ?v = Some (if ?n = c then ?v\<lparr>cpu_esp := e\<rparr>
        else switch_to c ?n (?v\<lparr>cpu_esp := e\<rparr>))" by (simp add: ch)
    moreover have "?v\<lparr>cpu_esp := e\<rparr> = veil i q tc m w n b (k\<lparr>cpu_esp := e\<rparr>)" by (simp add: veil_def)
    moreover have "switch_to c ?n (?v\<lparr>cpu_esp := e\<rparr>) = veil i q tc m w n b (switch_to c ?n (k\<lparr>cpu_esp := e\<rparr>))"
      using i c(4,5) w [OF c(5)] by (auto simp: switch_to_def veil_def fun_upd_twist)
    ultimately show ?thesis by simp
  qed
  show ?thesis
  proof (rule that [OF t steady _ _ _ _ _ _ _ _ _ _ _ v])
    show "state (pcbs ?j r) = PROCESS_DEAD \<longleftrightarrow> state (pcbs k r) = PROCESS_DEAD" for r
      using live [OF c(4)] live [OF c(5)] by (auto simp: switch_to_def)
    show "pcbs ?j r = pcbs k r" if "r \<notin> set xs" for r using that c(4,5) by (auto simp: switch_to_def)
  qed (auto simp: switch_to_def)
qed

section \<open>Every statement\<close>

text \<open>The writes, as veils.\<close>

definition parent_priority :: "pcb_ref option \<Rightarrow> kern \<Rightarrow> uint8_t" where
  "parent_priority par k = (case par of None \<Rightarrow> 1 | Some q \<Rightarrow> priority (pcbs k q))"

lemma wipe_veil:
  "wipe_field n i k = veil i
     (if n = 0 then (pcbs k (Tcb i))\<lparr>state := PROCESS_DEAD\<rparr>
      else if n = 1 then (pcbs k (Tcb i))\<lparr>pid := 0\<rparr> else pcbs k (Tcb i))
     (if n = 0 \<or> n = 1 then tcbs k else (tcbs k)(i := (tcbs k i)\<lparr>tid := 0\<rparr>))
     (pm k) (ram k) (next_tid k) (tcb_pool_initialized k) k"
  by (simp add: wipe_field_def veil_def upd_pcb_def upd_tcb_def)

lemma field_veil:
  "thread_field par i stack n k = veil i
     (let c = pcbs k (Tcb i) in
      if n < 3 then c else if n = 3 then c\<lparr>pid := 0\<rparr> else if n = 4 then c\<lparr>state := PROCESS_READY\<rparr>
      else if n = 5 then c\<lparr>priority := parent_priority par k\<rparr>
      else if n = 6 then c\<lparr>esp := stack + STACK_SIZE - 4\<rparr> else if n = 7 then c\<lparr>stack_base := stack\<rparr>
      else c\<lparr>next_pcb := None\<rparr>)
     (let t = tcbs k i in
      if n = 0 then (tcbs k)(i := t\<lparr>tid := next_tid k + 1\<rparr>) else if n = 1 then (tcbs k)(i := t\<lparr>parent := par\<rparr>)
      else if n = 2 then (tcbs k)(i := t\<lparr>wait_next := None\<rparr>) else tcbs k)
     (pm k) (ram k) (if n = 0 then next_tid k + 1 else next_tid k) (tcb_pool_initialized k) k"
proof -
  consider "n = 0" | "n = 1" | "n = 2" | "n = 3" | "n = 4" | "n = 5" | "n = 6" | "n = 7" | "8 \<le> n" by linarith
  then show ?thesis
    by cases (simp_all add: thread_field_def veil_def upd_pcb_def upd_tcb_def parent_priority_def Let_def)
qed

lemma other_veils:
  "k\<lparr>pm := m\<rparr> = veil i (pcbs k (Tcb i)) (tcbs k) m (ram k) (next_tid k) (tcb_pool_initialized k) k"
  "k\<lparr>ram := w\<rparr> = veil i (pcbs k (Tcb i)) (tcbs k) (pm k) w (next_tid k) (tcb_pool_initialized k) k"
  "k\<lparr>tcb_pool_initialized := b\<rparr> = veil i (pcbs k (Tcb i)) (tcbs k) (pm k) (ram k) (next_tid k) b k"
  "upd_pcb (Tcb i) g k = veil i (g (pcbs k (Tcb i))) (tcbs k) (pm k) (ram k) (next_tid k) (tcb_pool_initialized k) k"
  by (simp_all add: veil_def upd_pcb_def)

definition apart :: "pcb_ref list \<Rightarrow> nat set \<Rightarrow> kern \<Rightarrow> bool" where
  "apart xs P k \<longleftrightarrow> (\<forall>r \<in> set xs. unat (esp (pcbs k r)) div 4096 \<notin> free_set (pm k) \<union> P)"

lemma apart_veil: "Tcb i \<notin> set xs \<Longrightarrow> apart xs P (veil i q tc m w n b k)
    \<longleftrightarrow> (\<forall>r \<in> set xs. unat (esp (pcbs k r)) div 4096 \<notin> free_set m \<union> P)"
  unfolding apart_def veil_fields by (intro ball_cong) auto

fun thread_ok :: "pcb_ref list \<Rightarrow> thread_pc \<Rightarrow> kern \<Rightarrow> bool" where
  "thread_ok xs Beginning k \<longleftrightarrow> kern_sound k xs \<and> own_stacks k"
| "thread_ok xs (Wiping i n) k \<longleftrightarrow> steady xs k \<and> pmm_ready (pm k) \<and> apart xs {} k \<and> i \<le> MAX_THREADS \<and> n < 3
     \<and> (i = MAX_THREADS \<longrightarrow> n = 0) \<and> (\<forall>j. Tcb j \<notin> set xs)"
| "thread_ok xs (Looking i) k \<longleftrightarrow> steady xs k \<and> pmm_ready (pm k) \<and> apart xs {} k \<and> i \<le> MAX_THREADS"
| "thread_ok xs (Fetching i) k \<longleftrightarrow> steady xs k \<and> pmm_ready (pm k) \<and> apart xs {} k \<and> Tcb i \<notin> set xs"
| "thread_ok xs (Stacking i stack) k \<longleftrightarrow> steady xs k \<and> apart xs {unat stack div 4096} k
     \<and> unat stack mod 4096 = 0 \<and> Tcb i \<notin> set xs"
| "thread_ok xs (Entering_field i stack n) k \<longleftrightarrow> steady xs k \<and> n < 9 \<and> Tcb i \<notin> set xs"
| "thread_ok xs (Unlinking_new i stack) k \<longleftrightarrow> steady xs k \<and> Tcb i \<notin> set xs"
| "thread_ok xs (Asking i stack) k \<longleftrightarrow> steady xs k \<and> Tcb i \<notin> set xs"
| "thread_ok xs (Leading i stack) k \<longleftrightarrow> False"
| "thread_ok xs (Following i stack t) k \<longleftrightarrow> steady xs k \<and> t \<in> set xs \<and> Tcb i \<notin> set xs"
| "thread_ok xs (Linking i stack t) k \<longleftrightarrow> steady xs k \<and> t \<in> set xs \<and> Tcb i \<notin> set xs"
| "thread_ok xs (Replied r) k \<longleftrightarrow> False"

text \<open>A bound on the statements that are left.\<close>

fun thread_left :: "pcb_ref list \<Rightarrow> thread_pc \<Rightarrow> nat" where
  "thread_left xs Beginning = 273 + length xs"
| "thread_left xs (Wiping i n) = 272 + length xs - 3 * i - n"
| "thread_left xs (Looking i) = 79 + length xs - i"
| "thread_left xs (Fetching i) = 14 + length xs"
| "thread_left xs (Stacking i stack) = 13 + length xs"
| "thread_left xs (Entering_field i stack n) = 12 + length xs - n"
| "thread_left xs (Unlinking_new i stack) = 3 + length xs"
| "thread_left xs (Asking i stack) = 2 + length xs"
| "thread_left xs (Leading i stack) = 1"
| "thread_left xs (Following i stack t) = 1 + length (dropWhile (\<lambda>r. r \<noteq> t) xs)"
| "thread_left xs (Linking i stack t) = 1"
| "thread_left xs (Replied r) = 0"

lemma sound_steady:
  assumes "kern_sound k xs" "own_stacks k"
  shows "steady xs k" "apart xs {} k" "pmm_ready (pm k)" "\<not> tcb_pool_initialized k \<Longrightarrow> Tcb j \<notin> set xs"
  using assms kern_sound_tickable [OF assms(1)] kern_sound_core(3,4) [OF assms(1)]
  by (auto simp: steady_def apart_def own_stacks_def live_def)

lemma steady_head:
  assumes "steady xs k"
  obtains h where "run_queue k = Some h" "h \<in> set xs"
proof -
  obtain c d where "queue k xs" "c \<in> set xs" by (rule steady_choice [OF assms])
  then show ?thesis using that by (cases xs) (auto simp: queue_def)
qed

lemma wiped_next:
  assumes "i < MAX_THREADS" "n < 3"
  shows "wiped_from i n k = (if n < 2 then wiped_from i (n + 1) (wipe_field n i k) else wiped_from (i + 1) 0 (wipe_field n i k))"
proof -
  have "n = 0 \<or> n = 1 \<or> n = 2" using assms(2) by linarith
  moreover have "i + 1 < MAX_THREADS \<Longrightarrow> [Suc i..<MAX_THREADS] = Suc i # [Suc (Suc i)..<MAX_THREADS]"
    by (simp add: upt_conv_Cons)
  moreover have "[0..<3 :: nat] = [0, 1, 2]" "[1..<3 :: nat] = [1, 2]" "[2..<3 :: nat] = [2]"
    "[Suc (Suc 0)..<3] = [2]" by (simp_all add: upt_rec)
  ultimately show ?thesis using assms(1) by (auto simp: wiped_from_def)
qed

lemma fields_next: "n < 9 \<Longrightarrow> fields_rest par i stack n k = (if n < 8
    then fields_rest par i stack (n + 1) (thread_field par i stack n k)
    else map_option (Pair (Some i)) (enqueue (Tcb i) (thread_field par i stack n k)))"
  by (auto simp: fields_rest_def upt_conv_Cons)

lemma look_next: "look_rest par f i k =
    (if i < MAX_THREADS then if state (pcbs k (Tcb i)) = PROCESS_DEAD then fetch_rest par f i k else look_rest par f (i + 1) k
     else Some (None, k))"
  by (simp add: look_rest_def upt_conv_Cons)

lemma thread_step_ok:
  assumes ok: "thread_ok xs x k" and un: "thread_result x = None" and st: "thread_step par f x k = (y, l)"
  shows "thread_left xs y < thread_left xs x \<and> thread_rest par f x k = thread_rest par f y l
    \<and> (thread_result y = None \<longrightarrow> thread_ok xs y l)"
proof (cases x)
  case Beginning
  then have s: "kern_sound k xs" "own_stacks k" using ok by simp_all
  note c = sound_steady [OF s]
  show ?thesis
  proof (cases "tcb_pool_initialized k")
    case True
    then have "ensure_pool_init k = k" by (simp add: ensure_pool_init_def)
    with Beginning st True c show ?thesis by (auto simp: create_thread_rest)
  next
    case False
    with Beginning st c wiped_all [OF False] show ?thesis by (auto simp: create_thread_rest)
  qed
next
  case (Wiping i n)
  show ?thesis
  proof (cases "i < MAX_THREADS")
    case True
    with Wiping ok st wiped_next [of i n k] show ?thesis
      by (auto simp: wipe_veil apart_veil apart_def MAX_THREADS_def less_Suc_eq)
  next
    case False
    with Wiping ok st show ?thesis
      by (auto simp: wiped_from_def other_veils(3) [of _ _ 0] apart_veil apart_def MAX_THREADS_def)
  qed
next
  case (Looking i)
  with ok st look_next [of par f i k] show ?thesis by (auto simp: steady_def MAX_THREADS_def split: if_splits)
next
  case (Fetching i)
  obtain stack m where m: "pmm_alloc_page (pm k) = (stack, m)" by fastforce
  show ?thesis
  proof (cases "stack = 0")
    case True
    with Fetching st m show ?thesis by (auto simp: fetch_rest_def Let_def)
  next
    case False
    with pa.alloc_page [of "pm k"] m ok Fetching have p: "unat stack mod 4096 = 0"
      "unat stack div 4096 \<in> free_set (pm k)" "free_set m = free_set (pm k) - {unat stack div 4096}" by simp_all
    have "unat (esp (pcbs k r)) div 4096 \<noteq> unat stack div 4096" if "r \<in> set xs" for r
      using ok Fetching p(2) that by (auto simp: apart_def)
    with p Fetching ok st m False show ?thesis
      by (auto simp: fetch_rest_def Let_def other_veils(1) [of _ _ i] apart_veil apart_def)
  qed
next
  case (Stacking i stack)
  with ok st show ?thesis by (auto simp: other_veils(2) [of _ _ i])
next
  case (Entering_field i stack n)
  with ok st fields_next [of n par i stack k] show ?thesis by (auto simp: field_veil split: if_splits)
next
  case (Unlinking_new i stack)
  then have "steady xs (upd_pcb (Tcb i) (\<lambda>c. c\<lparr>next_pcb := None\<rparr>) k)" using ok by (simp add: other_veils(4))
  with Unlinking_new ok st show ?thesis
    by (auto simp: enqueue_def Let_def split: option.split)
next
  case (Asking i stack)
  obtain h where h: "run_queue k = Some h" "h \<in> set xs" by (rule steady_head [of xs k]) (use ok Asking in auto)
  have "length (dropWhile (\<lambda>r. r \<noteq> h) xs) \<le> length xs" by (rule length_dropWhile_le)
  with Asking ok st h show ?thesis by auto
next
  case (Following i stack t)
  then have t: "t \<in> set xs" "steady xs k" using ok by simp_all
  obtain c d where q: "queue k xs" by (rule steady_choice [OF t(2)])
  obtain us vs where w: "xs = us @ t # vs" "dropWhile (\<lambda>r. r \<noteq> t) xs = t # vs"
    "next_pcb (pcbs k t) = (case vs of [] \<Rightarrow> None | v # _ \<Rightarrow> Some v)"
    "\<And>v ws. vs = v # ws \<Longrightarrow> dropWhile (\<lambda>r. r \<noteq> v) xs = vs" by (rule queue_walk [OF q t(1)]) blast
  have "set vs \<subseteq> set xs" using w(1) by auto
  with Following ok st w(2-) find_tail.simps [of "pcbs k" t] show ?thesis by (cases vs) auto
qed (use ok st un in auto)

text \<open>The timer at any place but the end.\<close>

lemma apart_tick:
  assumes "apart xs P k" "pm j = pm k" "unat e div 4096 \<notin> free_set (pm k) \<union> P"
    and "\<And>r. esp (pcbs j r) = esp (pcbs k r) \<or> esp (pcbs j r) = e"
  shows "apart xs P j"
  unfolding apart_def
proof
  fix r assume "r \<in> set xs"
  then show "unat (esp (pcbs j r)) div 4096 \<notin> free_set (pm j) \<union> P"
    using assms(1,2,3) assms(4) [of r] by (auto simp: apart_def)
qed

lemma thread_ok_tick:
  assumes ok: "thread_ok xs x k" and e: "thread_safe x k e"
  shows "\<exists>j. tick e k = Some j \<and> thread_ok xs x j"
proof (cases "x = Beginning")
  case True
  then have s: "kern_sound k xs" "own_stacks k" "unat e div 4096 \<notin> free_set (pm k)"
    using ok e by (simp_all add: thread_safe_def)
  obtain j where j: "tick e k = Some j" using timer_sound [OF s(1)] by blast
  with tick_keeps(11) [OF s(1) j] own_stacks_tick [OF s j] True show ?thesis by simp
next
  case False
  then have "steady xs k" using ok by (cases x) auto
  then obtain j where j: "tick e k = Some j" "steady xs j" "pm j = pm k"
    "\<And>r. esp (pcbs j r) = esp (pcbs k r) \<or> esp (pcbs j r) = e" by (rule steady_tick [where e = e]) blast
  have "apart xs P k \<Longrightarrow> unat e div 4096 \<notin> free_set (pm k) \<union> P \<Longrightarrow> apart xs P j" for P
    by (rule apart_tick [OF _ j(3) _ j(4)])
  then have "thread_ok xs x j" using ok e j(2,3) False by (cases x) (auto simp: thread_safe_def)
  with j(1) show ?thesis by blast
qed

lemma frame_word:
  assumes "apart xs {unat stack div 4096} k" "unat stack mod 4096 = 0" "r \<in> set xs"
  shows "((ram k)(stack + STACK_SIZE - 4 := f)) (esp (pcbs k r)) = ram k (esp (pcbs k r))"
proof -
  have "unat (esp (pcbs k r)) div 4096 \<noteq> unat stack div 4096" using assms(1,3) by (auto simp: apart_def)
  then have "esp (pcbs k r) \<noteq> stack + STACK_SIZE - 4" using top_word_page [OF assms(2)] by metis
  then show ?thesis by simp
qed

lemma thread_steady: "thread_ok xs x k \<Longrightarrow> steady xs k"
  by (cases x) (auto intro: sound_steady)

text \<open>A statement and a tick may change places.\<close>

lemma thread_safe_back:
  assumes "thread_ok xs x k" "thread_step par f x k = (y, l)" "thread_result y = None" "thread_safe y l e"
  shows "thread_safe x k e"
proof (cases x)
  case (Wiping i n)
  with assms show ?thesis by (auto simp: thread_safe_def wipe_veil split: if_splits)
next
  case (Fetching i)
  obtain stack m where m: "pmm_alloc_page (pm k) = (stack, m)" by fastforce
  with assms(2,3) Fetching have y: "stack \<noteq> 0" "y = Stacking i stack" "l = k\<lparr>pm := m\<rparr>" by (auto split: if_splits)
  have "pmm_ready (pm k)" using assms(1) Fetching by simp
  from pa.alloc_page [OF this] m y(1) have "free_set m = free_set (pm k) - {unat stack div 4096}" by simp
  with assms(4) show ?thesis by (simp add: thread_safe_def y Fetching)
next
  case (Entering_field i stack n)
  with assms show ?thesis by (auto simp: thread_safe_def field_veil split: if_splits)
qed (use assms in \<open>auto simp: thread_safe_def split: if_splits option.splits\<close>)

lemma thread_commutes:
  assumes ok: "thread_ok xs x k" and un: "thread_result x = None" "thread_result y = None"
    and st: "thread_step par f x k = (y, l)" and t: "tick e k = Some j"
  shows "\<exists>i. thread_step par f x j = (y, i) \<and> tick e l = Some i"
proof -
  obtain j' where "tick e k = Some j'" "steady xs j'" "tcbs j' = tcbs k" "pm j' = pm k" "ram j' = ram k"
    "next_tid j' = next_tid k" "tcb_pool_initialized j' = tcb_pool_initialized k" "run_queue j' = run_queue k"
    "\<And>r. r \<notin> set xs \<Longrightarrow> pcbs j' r = pcbs k r" "\<And>r. next_pcb (pcbs j' r) = next_pcb (pcbs k r)"
    "\<And>r. priority (pcbs j' r) = priority (pcbs k r)"
    "\<And>r. state (pcbs j' r) = PROCESS_DEAD \<longleftrightarrow> state (pcbs k r) = PROCESS_DEAD"
    "\<And>r. esp (pcbs j' r) = esp (pcbs k r) \<or> esp (pcbs j' r) = e"
    "\<And>i q tc m w n b. Tcb i \<notin> set xs \<Longrightarrow> (\<And>r. r \<in> set xs \<Longrightarrow> w (esp (pcbs k r)) = ram k (esp (pcbs k r)))
       \<Longrightarrow> tick e (veil i q tc m w n b k) = Some (veil i q tc m w n b j')"
    by (rule steady_tick [OF thread_steady [OF ok], where e = e]) blast
  moreover from this(1) have "j' = j" using t by simp
  ultimately have same: "tcbs j = tcbs k" "pm j = pm k" "ram j = ram k"
    "next_tid j = next_tid k" "tcb_pool_initialized j = tcb_pool_initialized k" "run_queue j = run_queue k"
    "\<And>r. r \<notin> set xs \<Longrightarrow> pcbs j r = pcbs k r" "\<And>r. next_pcb (pcbs j r) = next_pcb (pcbs k r)"
    "\<And>r. priority (pcbs j r) = priority (pcbs k r)"
    "\<And>r. state (pcbs j r) = PROCESS_DEAD \<longleftrightarrow> state (pcbs k r) = PROCESS_DEAD"
    and veil: "\<And>i q tc m w n b. Tcb i \<notin> set xs \<Longrightarrow> (\<And>r. r \<in> set xs \<Longrightarrow> w (esp (pcbs k r)) = ram k (esp (pcbs k r)))
       \<Longrightarrow> tick e (veil i q tc m w n b k) = Some (veil i q tc m w n b j)" by blast+
  have par: "parent_priority par j = parent_priority par k" using same(9) by (simp add: parent_priority_def split: option.split)
  show ?thesis
  proof (cases x)
    case (Wiping i n)
    with st t same veil ok show ?thesis
      by (auto simp: wipe_veil other_veils(3) [of _ _ 0] split: if_splits)
  next
    case (Fetching i)
    with st t same veil ok show ?thesis by (auto simp: other_veils(1) [of _ _ i] Let_def split: prod.splits)
  next
    case (Stacking i stack)
    let ?w = "(ram k)(stack + STACK_SIZE - 4 := f)"
    have "?w (esp (pcbs k r)) = ram k (esp (pcbs k r))" if "r \<in> set xs" for r
      using ok Stacking frame_word [OF _ _ that] by simp
    then have "tick e (veil i (pcbs k (Tcb i)) (tcbs k) (pm k) ?w (next_tid k) (tcb_pool_initialized k) k)
        = Some (veil i (pcbs k (Tcb i)) (tcbs k) (pm k) ?w (next_tid k) (tcb_pool_initialized k) j)"
      using ok Stacking by (intro veil) auto
    with Stacking st same ok show ?thesis by (auto simp: other_veils(2) [of _ _ i])
  next
    case (Entering_field i stack n)
    then have i: "Tcb i \<notin> set xs" using ok by simp
    have "tick e (thread_field par i stack n k) = Some (thread_field par i stack n j)"
      unfolding field_veil same(1-6) same(7) [OF i] par by (rule veil [OF i]) simp
    with st Entering_field show ?thesis by auto
  next
    case (Unlinking_new i stack)
    with st t same veil ok show ?thesis by (auto simp: other_veils(4))
  qed (use st t same un ok in \<open>auto split: if_splits option.splits\<close>)
qed

section \<open>A whole run\<close>

interpretation tm: movers "thread_step par f" thread_safe Beginning "thread_ok xs" thread_result "thread_rest par f"
  "\<lambda>k. \<exists>ys. kern_sound k ys" "thread_left xs" for par f xs
proof
  fix x k y l
  assume "thread_ok xs x k" "thread_result x = None" "thread_step par f x k = (y, l)"
  then show "thread_left xs y < thread_left xs x \<and> thread_rest par f x k = thread_rest par f y l
      \<and> (thread_result y = None \<longrightarrow> thread_ok xs y l)" by (rule thread_step_ok)
next
  fix x k e
  assume "thread_ok xs x k" "thread_safe x k e"
  then show "\<exists>j. tick e k = Some j \<and> thread_ok xs x j" by (rule thread_ok_tick)
next
  fix x k y l e
  assume a: "thread_ok xs x k" "thread_result x = None" "thread_step par f x k = (y, l)" "thread_result y = None"
    "thread_safe y l e"
  from thread_safe_back [OF a(1,3-5)] thread_commutes [OF a(1,2,4,3)]
  show "thread_safe x k e \<and> (\<forall>j. tick e k = Some j \<longrightarrow> (\<exists>i. thread_step par f x j = (y, i) \<and> tick e l = Some i))"
    by blast
next
  fix x k r
  assume "thread_result x = Some r"
  then show "thread_rest par f x k = Some (r, k) \<and> thread_step par f x k = (x, k) \<and> thread_left xs x = 0"
    by (cases x) auto
next
  fix k r l
  assume "thread_ok xs Beginning k" "thread_rest par f Beginning k = Some (r, l)"
  then show "\<exists>ys. kern_sound l ys" using spawn_sound [of k xs par f r l] by auto
next
  fix k e
  assume "\<exists>ys. kern_sound k ys"
  then show "\<exists>j. tick e k = Some j \<and> (\<exists>ys. kern_sound j ys)" using timer_sound by blast
qed simp

section \<open>Properties\<close>

text \<open>C14: a timer interrupt cannot hurt the creation of a thread, the initialisation of the pool on first use
  included. However the timer ticks between the statements of \<open>create_thread\<close> and whatever processes run
  meanwhile, as long as no other one creates: no step gets stuck, it comes to the end after at most \<open>273\<close> statements and
  one for each queued process, and reply and state are those that the same ticks give when the whole call
  happens at once, somewhere between two of them.\<close>

theorem create_thread_preemptible:
  assumes "kern_sound (pk s) xs" "own_stacks (pk s)" "pat s c = Beginning"
    and "lone_run (thread_step par f) thread_safe c as s"
  shows "\<exists>t. acts (thread_step par f) as s = Some t
    \<and> (case pat t c of
         Replied r \<Rightarrow> at_once (create_thread par f) r (interrupts as) (pk s) (pk t)
       | _ \<Rightarrow> statements as < 273 + length xs)"
proof -
  have "thread_ok xs Beginning (pk s)" using assms(1,2) by simp
  then have "tm.reaches par f xs (pk s) (pat s c) (pk s)" unfolding assms(3) by (rule tm.here)
  from tm.mover_run.run_at_once [OF this assms(4)] obtain t where t: "acts (thread_step par f) as s = Some t"
    "if thread_left xs (pat t c) = 0
     then \<exists>r. at_once (thread_rest par f Beginning) r (interrupts as) (pk s) (pk t)
       \<and> tm.returned r (pat t c) (pk t) (pk t)
     else thread_left xs (pat t c) + statements as \<le> 273 + length xs"
    unfolding assms(3) thread_left.simps by blast
  have "thread_rest par f Beginning = create_thread par f" by (rule ext) simp
  with t show ?thesis by (cases "pat t c") (auto simp: tm.returned_def split: if_splits)
qed

theorem create_thread_preemptible_witness:
  "\<exists>t r. acts (thread_step None 0x10BEEF) (Statement # Interrupt 0x9F00 # replicate 273 Statement)
       \<lparr>pk = demo_s0, pat = (\<lambda>_. Beginning)\<rparr> = Some t
     \<and> pat t (Pcb 0) = Replied r \<and> at_once (create_thread None 0x10BEEF) r [0x9F00] demo_s0 (pk t)"
proof -
  let ?s = "\<lparr>pk = demo_s0, pat = (\<lambda>_. Beginning)\<rparr>"
  let ?as = "Statement # Interrupt 0x9F00 # replicate 273 Statement"
  have cur: "current_pcb (snd (thread_step None 0x10BEEF x k)) = current_pcb k" for x k
    by (cases "(None :: pcb_ref option, 0x10BEEF :: uint32_t, x, k)" rule: thread_step.cases)
      (auto simp: wipe_veil field_veil Let_def upd_pcb_def split: prod.split)
  have "free_set (pm demo_s0) \<subseteq> {1, 3, 35}"
    using init_sound [OF demo_start] by (auto simp: pages_def demo_boot demo_pmm_free)
  then have "unat (0x9F00 :: uint32_t) div 4096 \<notin> free_set (pm demo_s0)" by auto
  with demo_s0_alone(3,5) have lone: "lone_run (thread_step None 0x10BEEF) thread_safe (Pcb 0) ?as ?s"
    by (simp add: thread_safe_def lone_statements [of "thread_step _ _", OF cur])
  have "kern_sound (pk ?s) [Pcb 0]" "own_stacks (pk ?s)" "pat ?s (Pcb 0) = Beginning"
    using demo_s0_alone(1,2) by simp_all
  from create_thread_preemptible [OF this lone] obtain t where t: "acts (thread_step None 0x10BEEF) ?as ?s = Some t"
    "case pat t (Pcb 0) of
       Replied r \<Rightarrow> at_once (create_thread None 0x10BEEF) r (interrupts ?as) (pk ?s) (pk t)
     | _ \<Rightarrow> statements ?as < 273 + length [Pcb 0]" by blast
  have "interrupts ?as = [0x9F00]" "statements ?as = 274" by simp_all
  with t show ?thesis by (cases "pat t (Pcb 0)") auto
qed

end
