(* ===== verification/Listing_Preempt.thy ===== *)
theory Listing_Preempt
  imports Races Command_Facts
begin

text \<open>
  The listings of the shell (\<^verbatim>\<open>ps\<close>, \<^verbatim>\<open>threads\<close> and the two loops of \<^verbatim>\<open>ls\<close> in \<^verbatim>\<open>src/src/shell.c\<close>) cut into
  statements, with timer interrupts between them. They walk the run queue while the scheduler may switch away and back; the
  proof that what they print does not depend on it. Whether a loop of \<^verbatim>\<open>ls\<close> has found anything, its variable
  \<^verbatim>\<open>found\<close>, is whether it has printed anything.
\<close>

section \<open>The statements\<close>

datatype listing = Ps_loop | Threads_loop | Ls_processes | Ls_threads

type_synonym printout = "(uint8_t option \<times> string) list"

fun row_of :: "listing \<Rightarrow> kern \<Rightarrow> pcb_ref \<Rightarrow> printout option" where
  "row_of Ps_loop = ps_row"
| "row_of Threads_loop = threads_row"
| "row_of Ls_processes = ls_process_row"
| "row_of Ls_threads = ls_thread_row"

text \<open>The test of the loop on \<^verbatim>\<open>p->pid\<close>, and the pieces that it prints for an element, one statement each.\<close>

fun of_threads :: "listing \<Rightarrow> bool" where
  "of_threads Ps_loop \<longleftrightarrow> False"
| "of_threads Threads_loop \<longleftrightarrow> True"
| "of_threads Ls_processes \<longleftrightarrow> False"
| "of_threads Ls_threads \<longleftrightarrow> True"

definition shown :: "listing \<Rightarrow> kern \<Rightarrow> pcb_ref \<Rightarrow> bool" where
  "shown L k p \<longleftrightarrow> (if of_threads L then pid (pcbs k p) = 0 else pid (pcbs k p) \<noteq> 0)"

fun tcb_index :: "pcb_ref \<Rightarrow> nat" where
  "tcb_index (Tcb i) = i"
| "tcb_index (Pcb i) = 0"

definition ps_pieces :: "kern \<Rightarrow> pcb_ref \<Rightarrow> printout" where
  "ps_pieces k p =
     [(None, sh_itoa (pid (pcbs k p))), (None, ''    ''), (Some 0x0A, state_name (state (pcbs k p))),
      (None, ''  ''), (None, sh_itoa (ucast (priority (pcbs k p)))), (None, ''    kernel'' @ [LF])]"

definition threads_pieces :: "kern \<Rightarrow> pcb_ref \<Rightarrow> printout" where
  "threads_pieces k p =
     [(None, sh_itoa (tid (tcbs k (tcb_index p)))), (None, ''    ''),
      (Some 0x0A, state_name (state (pcbs k p))), (None, ''  ''), (None, parent_text k (tcb_index p)),
      (None, [LF])]"

definition ls_process_pieces :: "kern \<Rightarrow> pcb_ref \<Rightarrow> printout" where
  "ls_process_pieces k p =
     [(None, ''  ''), (None, sh_itoa (pid (pcbs k p))), (None, ''     ''),
      (Some 0x0A, state_name (state (pcbs k p))), (None, ''  kernel'' @ [LF])]"

definition ls_thread_pieces :: "kern \<Rightarrow> pcb_ref \<Rightarrow> printout" where
  "ls_thread_pieces k p =
     [(None, ''  ''), (None, sh_itoa (tid (tcbs k (tcb_index p)))), (None, ''     ''),
      (Some 0x0A, state_name (state (pcbs k p))), (None, ''  pid=''), (None, parent_text k (tcb_index p)),
      (None, [LF])]"

fun pieces :: "listing \<Rightarrow> kern \<Rightarrow> pcb_ref \<Rightarrow> printout" where
  "pieces Ps_loop = ps_pieces"
| "pieces Threads_loop = threads_pieces"
| "pieces Ls_processes = ls_process_pieces"
| "pieces Ls_threads = ls_thread_pieces"

lemmas piece_lists [simp] = ps_pieces_def threads_pieces_def ls_process_pieces_def ls_thread_pieces_def

text \<open>
  Every place in the code carries what is printed so far. A process without a number that is no thread would be
  read as one, past its end; that is \<open>Astray\<close>.
\<close>

datatype list_pc =
    Entering
  | At "pcb_ref option" printout
  | Printing pcb_ref nat printout
  | Stepping pcb_ref printout
  | Astray printout
  | Listed printout

fun list_step :: "listing \<Rightarrow> list_pc \<Rightarrow> kern \<Rightarrow> list_pc \<times> kern" where
  "list_step L Entering k = (At (run_queue k) [], k)"
| "list_step L (At None out) k = (Listed out, k)"
| "list_step L (At (Some p) out) k =
     (if shown L k p
      then (if of_threads L \<and> \<not> is_thread p then Astray out else Printing p 0 out)
      else Stepping p out, k)"
| "list_step L (Printing p n out) k =
     (if n + 1 < length (pieces L k p) then Printing p (n + 1) (out @ [pieces L k p ! n])
      else Stepping p (out @ [pieces L k p ! n]), k)"
| "list_step L (Stepping p out) k = (At (next_pcb (pcbs k p)) out, k)"
| "list_step L (Astray out) k = (Astray out, k)"
| "list_step L (Listed out) k = (Listed out, k)"

lemma row_of_pieces:
  assumes "pids_ok k xs" "p \<in> set xs"
  shows "row_of L k p = Some (if shown L k p then pieces L k p else [])"
  using assms
  by (cases L; cases p) (auto simp: pids_ok_def shown_def ps_row_def threads_row_def ls_process_row_def
      ls_thread_row_def Let_def)

lemma shown_thread: "pids_ok k xs \<Longrightarrow> p \<in> set xs \<Longrightarrow> of_threads L \<Longrightarrow> shown L k p \<Longrightarrow> is_thread p"
  by (auto simp: pids_ok_def shown_def)

lemma length_pieces: "0 < length (pieces L k p)" "length (pieces L k p) = length (pieces L l q)"
  "length (pieces L k p) \<le> 7"
  by (cases L; simp)+

section \<open>What the caller sees\<close>

text \<open>
  While the caller has the processor it is the running process and every other one is not, so what it
  reads is the same whenever it reads it.
\<close>

definition seen_state :: "pcb_ref \<Rightarrow> kern \<Rightarrow> pcb_ref \<Rightarrow> process_state_t" where
  "seen_state c k p =
     (if p = c then PROCESS_RUNNING
      else if state (pcbs k p) = PROCESS_RUNNING then PROCESS_READY else state (pcbs k p))"

definition same_view :: "pcb_ref \<Rightarrow> kern \<Rightarrow> kern \<Rightarrow> bool" where
  "same_view c k l \<longleftrightarrow> tcbs k = tcbs l \<and> run_queue k = run_queue l
     \<and> (\<forall>p. pid (pcbs k p) = pid (pcbs l p) \<and> priority (pcbs k p) = priority (pcbs l p)
          \<and> next_pcb (pcbs k p) = next_pcb (pcbs l p) \<and> seen_state c k p = seen_state c l p)"

lemma same_view_refl: "same_view c k k"
  by (simp add: same_view_def)

lemma same_view_trans: "same_view c k l \<Longrightarrow> same_view c l m \<Longrightarrow> same_view c k m"
  by (simp add: same_view_def)

lemma tick_view:
  assumes "kern_sound k xs" "tick e k = Some l"
  shows "same_view c k l"
proof -
  obtain d i where d: "kern_inv k xs" "current_pcb k = Some d" "idle_pcb k = Some i" "d \<in> set xs" "i \<in> set xs"
    "state (pcbs k d) = PROCESS_RUNNING" "is_runnable k i"
    by (rule kern_sound_refs [OF assms(1)])
  let ?n = "sched_choice k xs d i"
  have "is_runnable k ?n"
    using d(7) by (auto simp: sched_choice_def find_Some_iff is_runnable_def ready_def split: option.split)
  then show ?thesis
    using tick_spec [OF d(1-3), of e] assms(2) d(6)
    by (auto simp: same_view_def seen_state_def switch_to_def is_runnable_def split: if_splits)
qed

lemma running_seen:
  assumes "kern_sound k xs" "current_pcb k = Some c" "p \<in> set xs"
  shows "state (pcbs k p) = seen_state c k p"
proof -
  obtain d i where "set xs = live k" "current_pcb k = Some d"
    "\<forall>r \<in> live k. state (pcbs k r) = PROCESS_RUNNING \<longleftrightarrow> r = d"
    using kern_sound_running [OF assms(1)] kern_sound_core(3) [OF assms(1)] by metis
  with assms(2,3) show ?thesis by (auto simp: seen_state_def)
qed

lemma view_pieces:
  assumes v: "same_view c k l" and k: "kern_sound k xs" "current_pcb k = Some c"
    and l: "kern_sound l xs" "current_pcb l = Some c" and p: "p \<in> set xs"
  shows "shown L k p = shown L l p" "pieces L k p = pieces L l p" "next_pcb (pcbs k p) = next_pcb (pcbs l p)"
proof -
  have "state (pcbs k p) = state (pcbs l p)"
    using v by (simp add: running_seen [OF k p] running_seen [OF l p] same_view_def)
  with v show "shown L k p = shown L l p" "pieces L k p = pieces L l p" "next_pcb (pcbs k p) = next_pcb (pcbs l p)"
    by (cases L; auto simp: same_view_def shown_def parent_text_def split: option.split)+
qed

section \<open>What is left to print\<close>

definition listing_text :: "listing \<Rightarrow> kern \<Rightarrow> pcb_ref list \<Rightarrow> printout" where
  "listing_text L k xs = concat (map (\<lambda>p. if shown L k p then pieces L k p else []) xs)"

abbreviation rest_of :: "pcb_ref list \<Rightarrow> pcb_ref \<Rightarrow> pcb_ref list" where
  "rest_of xs p \<equiv> dropWhile (\<lambda>r. r \<noteq> p) xs"

text \<open>\<open>listing_at L xs r a x\<close>: at \<open>x\<close> the listing of what was to be seen in \<open>a\<close> is on the way to the text \<open>r\<close>.\<close>

fun listing_at :: "listing \<Rightarrow> pcb_ref list \<Rightarrow> printout \<Rightarrow> kern \<Rightarrow> list_pc \<Rightarrow> bool" where
  "listing_at L xs r a Entering \<longleftrightarrow> False"
| "listing_at L xs r a (At None out) \<longleftrightarrow> r = out"
| "listing_at L xs r a (At (Some p) out) \<longleftrightarrow> p \<in> set xs \<and> r = out @ listing_text L a (rest_of xs p)"
| "listing_at L xs r a (Printing p n out) \<longleftrightarrow> p \<in> set xs \<and> n < length (pieces L a p)
     \<and> r = out @ drop n (pieces L a p) @ listing_text L a (tl (rest_of xs p))"
| "listing_at L xs r a (Stepping p out) \<longleftrightarrow> p \<in> set xs \<and> r = out @ listing_text L a (tl (rest_of xs p))"
| "listing_at L xs r a (Astray out) \<longleftrightarrow> False"
| "listing_at L xs r a (Listed out) \<longleftrightarrow> r = out"

fun list_left :: "pcb_ref list \<Rightarrow> list_pc \<Rightarrow> nat" where
  "list_left xs Entering = 2 + 9 * length xs"
| "list_left xs (At None out) = 1"
| "list_left xs (At (Some p) out) = 1 + 9 * length (rest_of xs p)"
| "list_left xs (Printing p n out) = 9 * length (rest_of xs p) - n"
| "list_left xs (Stepping p out) = 9 * length (rest_of xs p) - 7"
| "list_left xs (Astray out) = 0"
| "list_left xs (Listed out) = 0"

definition listing_done ::
  "listing \<Rightarrow> pcb_ref \<Rightarrow> pcb_ref list \<Rightarrow> printout \<Rightarrow> list_pc \<Rightarrow> kern \<Rightarrow> kern \<Rightarrow> bool" where
  "listing_done L c xs r x k b \<longleftrightarrow> k = b \<and> kern_sound b xs \<and> (\<exists>a. kern_sound a xs \<and> pids_ok a xs
     \<and> current_pcb a = Some c \<and> same_view c a b \<and> listing_at L xs r a x)"

lemma listing_step:
  assumes a: "kern_sound a xs" "pids_ok a xs" "current_pcb a = Some c" "listing_at L xs r a x"
    and k: "kern_sound k xs" "current_pcb k = Some c" "same_view c a k"
    and st: "list_step L x k = (y, l)"
  shows "l = k" "listing_at L xs r a y" "list_left xs y < list_left xs x \<or> list_left xs x = 0 \<and> list_left xs y = 0"
proof -
  note v = view_pieces [OF k(3) a(1,3) k(1,2)]
  note walk = queue_walk [OF kern_sound_core(2) [OF a(1)]]
  have "l = k \<and> listing_at L xs r a y \<and> (list_left xs y < list_left xs x \<or> list_left xs x = 0 \<and> list_left xs y = 0)"
  proof (cases x)
    case (At p out)
    show ?thesis
    proof (cases p)
      case (Some q)
      then have q: "q \<in> set xs" using a(4) At by simp
      obtain us vs where w: "xs = us @ q # vs" "rest_of xs q = q # vs" by (rule walk [OF q]) blast
      have "of_threads L \<Longrightarrow> shown L a q \<Longrightarrow> is_thread q" by (rule shown_thread [OF a(2) q])
      with st a(4) At Some q w(2) v(1) [OF q] length_pieces(1) [of L a q] show ?thesis
        by (auto simp: listing_text_def)
    qed (use st a(4) At in auto)
  next
    case (Printing p n out)
    then have p: "p \<in> set xs" "n < length (pieces L a p)" using a(4) by auto
    obtain us vs where w: "rest_of xs p = p # vs" by (rule walk [OF p(1)]) blast
    have "drop n (pieces L a p) = pieces L a p ! n # drop (Suc n) (pieces L a p)"
      using p(2) by (simp add: Cons_nth_drop_Suc)
    with st a(4) Printing p w v(2) [OF p(1)] length_pieces(3) [of L a p] show ?thesis by auto
  next
    case (Stepping p out)
    then have p: "p \<in> set xs" using a(4) by simp
    obtain us vs where w: "xs = us @ p # vs" "rest_of xs p = p # vs"
      "next_pcb (pcbs a p) = (case vs of [] \<Rightarrow> None | v # _ \<Rightarrow> Some v)"
      "\<And>v ws. vs = v # ws \<Longrightarrow> rest_of xs v = vs" by (rule walk [OF p]) blast
    have "set vs \<subseteq> set xs" using w(1) by auto
    with st a(4) Stepping w(2-) v(3) [OF p] show ?thesis by (cases vs) (auto simp: listing_text_def)
  qed (use st a(4) in auto)
  then show "l = k" "listing_at L xs r a y"
    "list_left xs y < list_left xs x \<or> list_left xs x = 0 \<and> list_left xs y = 0" by blast+
qed

lemma listing_ends:
  assumes "listing_at L xs r a x" "list_left xs x = 0"
  shows "x = Listed r"
proof -
  have len: "7 < 9 * length (rest_of xs p)" if "p \<in> set xs" for p
  proof -
    have "0 < length (rest_of xs p)" using that by (auto simp: dropWhile_eq_Nil_conv)
    then show ?thesis by linarith
  qed
  show ?thesis
  proof (cases x)
    case (At p out)
    then show ?thesis using assms by (cases p) auto
  next
    case (Printing p n out)
    then show ?thesis using assms len [of p] length_pieces(3) [of L a p] by auto
  next
    case (Stepping p out)
    then show ?thesis using assms len [of p] by auto
  qed (use assms in auto)
qed

definition to_list :: "pcb_ref list \<Rightarrow> list_pc \<Rightarrow> kern \<Rightarrow> kern \<Rightarrow> bool" where
  "to_list xs x k a \<longleftrightarrow> x = Entering \<and> k = a \<and> kern_sound a xs \<and> pids_ok a xs"

text \<open>The whole loop at once, by the process \<open>c\<close> when it has the processor.\<close>

definition list_call :: "listing \<Rightarrow> pcb_ref \<Rightarrow> pcb_ref list \<Rightarrow> kern \<Rightarrow> (printout \<times> kern) option" where
  "list_call L c xs k = (if current_pcb k = Some c then Some (listing_text L k xs, k) else None)"

lemma listing_starts:
  assumes "kern_sound a xs" "pids_ok a xs" "current_pcb a = Some c"
  shows "listing_done L c xs (listing_text L a xs) (At (run_queue a) []) a a"
    "list_left xs (At (run_queue a) []) < list_left xs Entering"
proof -
  obtain h ys where "xs = h # ys" "run_queue a = Some h" by (rule sound_head [OF assms(1)])
  then show "list_left xs (At (run_queue a) []) < list_left xs Entering"
    "listing_done L c xs (listing_text L a xs) (At (run_queue a) []) a a"
    using assms same_view_refl by (auto simp: listing_done_def)
qed

interpretation lp: preemptible "list_step L" "\<lambda>_ _ _. True" c "to_list xs" "listing_done L c xs"
  "list_call L c xs" "list_left xs" for L c xs
proof
  fix x k a y l
  assume "to_list xs x k a" "current_pcb k = Some c" "list_step L x k = (y, l)"
  with listing_starts [of a xs c]
  show "list_left xs y < list_left xs x
      \<and> (to_list xs y l a \<or> (\<exists>r b. list_call L c xs a = Some (r, b) \<and> listing_done L c xs r y l b))"
    by (auto simp: to_list_def list_call_def)
next
  fix r x k b y l
  assume d: "listing_done L c xs r x k b" and c: "current_pcb k = Some c" and st: "list_step L x k = (y, l)"
  then obtain a where a: "kern_sound a xs" "pids_ok a xs" "current_pcb a = Some c" "listing_at L xs r a x"
    "kern_sound k xs" "same_view c a k" "k = b" by (auto simp: listing_done_def)
  from listing_step [OF a(1-5) c a(6) st] a
  show "listing_done L c xs r y l b \<and> (list_left xs y < list_left xs x \<or> list_left xs x = 0 \<and> list_left xs y = 0)"
    by (auto simp: listing_done_def)
next
  fix x k a e
  assume a: "to_list xs x k a"
  then have s: "kern_sound a xs" by (simp add: to_list_def)
  obtain b where b: "tick e a = Some b" using timer_sound [OF s] by blast
  from tick_keeps(7,11) [OF s b] a b
  show "\<exists>l b. tick e k = Some l \<and> tick e a = Some b \<and> to_list xs x l b" by (auto simp: to_list_def pids_ok_def)
next
  fix r x k b e
  assume d: "listing_done L c xs r x k b"
  then have s: "kern_sound b xs" "k = b" by (simp_all add: listing_done_def)
  obtain l where l: "tick e b = Some l" using timer_sound [OF s(1)] by blast
  from d l tick_view [OF s(1) l, of c] tick_keeps(11) [OF s(1) l] s(2) same_view_trans
  show "\<exists>l d. tick e k = Some l \<and> tick e b = Some d \<and> listing_done L c xs r x l d"
    by (fastforce simp: listing_done_def)
qed (auto simp: to_list_def listing_done_def)

lemma ticks_view:
  "kern_sound k xs \<Longrightarrow> ticks es k = Some l \<Longrightarrow> kern_sound l xs \<and> same_view c k l"
proof (induction es arbitrary: k)
  case (Cons e es)
  then obtain j where j: "tick e k = Some j" "ticks es j = Some l" by (auto split: Option.bind_splits)
  with Cons.IH [of j] tick_keeps(11) [OF Cons.prems(1) j(1)] tick_view [OF Cons.prems(1) j(1)]
  show ?case using same_view_trans by blast
qed (simp add: same_view_refl)

lemma ticks_append: "ticks (ds @ es) k = Option.bind (ticks ds k) (ticks es)"
  by (induction ds arbitrary: k) (auto split: Option.bind_split)

lemma listing_at_once:
  assumes k: "kern_sound k xs" "current_pcb k = Some c" and o: "at_once (list_call L c xs) r es k l"
  shows "ticks es k = Some l" "r = listing_text L k xs"
proof -
  obtain ds fs a where a: "es = ds @ fs" "ticks ds k = Some a" "list_call L c xs a = Some (r, a)" "ticks fs a = Some l"
    using o by (auto simp: at_once_def list_call_def split: if_splits)
  then show "ticks es k = Some l" by (simp add: ticks_append)
  have c: "current_pcb a = Some c" "r = listing_text L a xs" using a(3) by (auto simp: list_call_def split: if_splits)
  note v = ticks_view [OF k(1) a(2), of c]
  then have "shown L k p = shown L a p" "pieces L k p = pieces L a p" if "p \<in> set xs" for p
    using view_pieces [OF _ k _ c(1) that] by blast+
  then show "r = listing_text L k xs"
    unfolding c(2) listing_text_def by (intro arg_cong [where f = concat] map_cong) simp_all
qed

lemma listing_text_rows:
  assumes "kern_sound a xs" "pids_ok a xs"
  shows "\<exists>n. rows (row_of L) a v = Some (n, say (listing_text L a xs) v)"
proof -
  have "row_of L a p = Some (if shown L a p then pieces L a p else [])" if "p \<in> set xs" for p
    by (rule row_of_pieces [OF assms(2) that])
  from rows_queue [where row = "row_of L" and out = "\<lambda>p. if shown L a p then pieces L a p else []",
      OF kern_sound_core(2) [OF assms(1)] this]
  show ?thesis by (simp add: listing_text_def)
qed

section \<open>Properties\<close>

text \<open>C16: the listings do not mind the timer. However it ticks between the statements of the loop of \<open>ps\<close>,
  \<open>threads\<close> or \<open>ls\<close>, and whatever processes run meanwhile, the loop ends after at most nine statements for
  each queued process and two more, the kernel is as the ticks alone leave it, and what has been printed is exactly what the
  loop prints when nothing interrupts it: every process once, in queue order, all the states of one moment.\<close>

theorem listing_preemptible:
  assumes "kern_sound (pk s) xs" "pids_ok (pk s) xs" "current_pcb (pk s) = Some c" "pat s c = Entering"
    and "lone_run (list_step L) (\<lambda>_ _ _. True) c as s"
  shows "\<exists>t. acts (list_step L) as s = Some t
    \<and> (case pat t c of
         Listed out \<Rightarrow> ticks (interrupts as) (pk s) = Some (pk t)
           \<and> (\<forall>v. \<exists>n. rows (row_of L) (pk s) v = Some (n, say out v))
       | _ \<Rightarrow> statements as < 2 + 9 * length xs)"
proof -
  have "to_list xs (pat s c) (pk s) (pk s)" using assms(1,2,4) by (simp add: to_list_def)
  from lp.run_at_once [OF this assms(5)] obtain t where t: "acts (list_step L) as s = Some t"
    "if list_left xs (pat t c) = 0
     then \<exists>r. at_once (list_call L c xs) r (interrupts as) (pk s) (pk t) \<and> listing_done L c xs r (pat t c) (pk t) (pk t)
     else list_left xs (pat t c) + statements as \<le> 2 + 9 * length xs"
    unfolding assms(4) list_left.simps by blast
  show ?thesis
  proof (cases "list_left xs (pat t c) = 0")
    case True
    then obtain r a where r: "at_once (list_call L c xs) r (interrupts as) (pk s) (pk t)" "listing_at L xs r a (pat t c)"
      using t(2) by (auto simp: listing_done_def)
    from listing_ends [OF r(2) True] t(1) listing_at_once [OF assms(1,3) r(1)] listing_text_rows [OF assms(1,2), of L]
    show ?thesis by auto
  next
    case False
    with t(2) have "statements as < 2 + 9 * length xs" by simp
    with t(1) False show ?thesis by (cases "pat t c") auto
  qed
qed

lemma list_step_kern: "snd (list_step L x k) = k"
  by (cases "(L, x, k)" rule: list_step.cases) simp_all

lemma lone_ticks:
  assumes "\<And>x k. current_pcb (snd (step x k)) = current_pcb k" "ticks es (pk s) = Some l" "current_pcb l = Some c"
  shows "lone_run step (\<lambda>_ _ _. True) c (map Interrupt es @ replicate j Statement) s"
  using assms(2)
proof (induction es arbitrary: s)
  case Nil
  then show ?case using lone_statements [of step, OF assms(1)] assms(3) by simp
qed (auto split: Option.bind_splits)

lemma lone_listing:
  assumes "current_pcb (pk s) = Some c" "ticks es (pk s) = Some l" "current_pcb l = Some c"
  shows "lone_run (list_step L) (\<lambda>_ _ _. True) c (replicate i Statement @ map Interrupt es @ replicate j Statement) s"
  using assms(1,2)
proof (induction i arbitrary: s)
  case 0
  then show ?case using lone_ticks [OF _ _ assms(3), of "list_step L"] by (simp add: list_step_kern)
next
  case (Suc i)
  then show ?case using list_step_kern [of L "pat s c" "pk s"] by (auto simp: split_beta Let_def)
qed

text \<open>Three ticks, which go round all the processes, in the middle of the first row.\<close>

theorem listing_preemptible_witness:
  "\<exists>t out. acts (list_step Ps_loop)
       (replicate 4 Statement @ map Interrupt [0x6F00, 0x6F00, 0x6F00] @ replicate 29 Statement)
       \<lparr>pk = demo_kern, pat = (\<lambda>_. Entering)\<rparr> = Some t
     \<and> pat t (Pcb 7) = Listed out \<and> (\<forall>v. \<exists>n. rows ps_row demo_kern v = Some (n, say out v))"
proof -
  let ?s = "\<lparr>pk = demo_kern, pat = (\<lambda>_. Entering)\<rparr>"
  let ?as = "replicate 4 Statement @ map Interrupt [0x6F00, 0x6F00, 0x6F00] @ replicate 29 Statement"
  have s: "kern_sound demo_kern demo_queue" using demo_inv by (simp add: kern_sound_def is_runnable_def)
  have p: "pids_ok demo_kern demo_queue" using demo_shell_inv by (simp add: shell_inv_def demo_machine_def)
  let ?k1 = "switch_to (Pcb 7) (Tcb 0) (demo_kern\<lparr>cpu_esp := 0x6F00\<rparr>)"
  let ?k2 = "switch_to (Tcb 0) (Pcb 0) (?k1\<lparr>cpu_esp := 0x6F00\<rparr>)"
  let ?k3 = "switch_to (Pcb 0) (Pcb 7) (?k2\<lparr>cpu_esp := 0x6F00\<rparr>)"
  have rot: "rotation demo_queue (Pcb 7) = [Tcb 0, Pcb 0, Pcb 7]" "rotation demo_queue (Tcb 0) = [Pcb 0, Pcb 7, Tcb 0]"
    "rotation demo_queue (Pcb 0) = [Pcb 7, Tcb 0, Pcb 0]" by (simp_all add: rotation_def)
  have c: "current_pcb ?k1 = Some (Tcb 0)" "current_pcb ?k2 = Some (Pcb 0)" "current_pcb ?k3 = Some (Pcb 7)"
    "state (pcbs ?k1 (Pcb 0)) = PROCESS_READY" "state (pcbs ?k2 (Pcb 7)) = PROCESS_READY"
    by (simp_all add: switch_to_def)
  note t1 = tick_to [OF s demo_fields(1) rot(1) demo_fields(6), where e = "0x6F00"]
  note t2 = tick_to [OF t1(2) c(1) rot(2) c(4), where e = "0x6F00"]
  note t3 = tick_to [OF t2(2) c(2) rot(3) c(5), where e = "0x6F00"]
  have "ticks [0x6F00, 0x6F00, 0x6F00] demo_kern = Some ?k3" using t1(1) t2(1) t3(1) by simp
  then have lone: "lone_run (list_step Ps_loop) (\<lambda>_ _ _. True) (Pcb 7) ?as ?s"
    by (intro lone_listing [where l = ?k3] c(3)) simp_all
  have "kern_sound (pk ?s) demo_queue" "pids_ok (pk ?s) demo_queue" "current_pcb (pk ?s) = Some (Pcb 7)"
    "pat ?s (Pcb 7) = Entering" using s p by simp_all
  from listing_preemptible [OF this lone, unfolded psys.simps row_of.simps] obtain t where t: "acts (list_step Ps_loop) ?as ?s = Some t"
    "case pat t (Pcb 7) of
       Listed out \<Rightarrow> ticks (interrupts ?as) demo_kern = Some (pk t) \<and> (\<forall>v. \<exists>n. rows ps_row demo_kern v = Some (n, say out v))
     | _ \<Rightarrow> statements ?as < 2 + 9 * length demo_queue" by blast
  have "statements ?as = 33" by simp
  with t show ?thesis by (cases "pat t (Pcb 7)") auto
qed

end
