(* ===== verification/First_Run.thy ===== *)
theory First_Run
  imports Context Races
begin

text \<open>
  The first run of a process: what \<^verbatim>\<open>create_process\<close> (\<^verbatim>\<open>src/src/scheduler.c\<close>) puts on its stack, and what
  \<^verbatim>\<open>context_switch\<close> (\<^verbatim>\<open>src/src/context_switch.asm\<close>) makes of it.
\<close>

section \<open>The first frame\<close>

lemma created_frame:
  assumes s: "kern_sound s xs" "create_process f prio s = Some (Some p, k)"
  shows "esp (pcbs k p) = stack_base (pcbs k p) + STACK_SIZE - 4" "ram k (esp (pcbs k p)) = f"
    "unat (stack_base (pcbs k p)) mod 4096 = 0" "slot_ok True p"
proof -
  note core = kern_sound_core(1) [OF s(1)]
  have can: "can_create s" using create_process_fails [OF core, of f prio] s(2) by auto
  obtain q t stack m where t: "create_process f prio s = Some (Some q, t)" "alloc_pcb s = Some q"
    "pmm_alloc_page (pm s) = (stack, m)" "stack \<noteq> 0"
    "strip t = strip (upd_pcb q (\<lambda>_. new_pcb (next_pid s + 1) prio stack)
        (s\<lparr>pm := m, ram := (ram s)(stack + STACK_SIZE - 4 := f), next_pid := next_pid s + 1\<rparr>))"
    by (rule create_process_succeeds [OF core can])
  have [simp]: "q = p" "t = k" using t(1) s(2) by simp_all
  note e = strip_eqD [OF t(5), simplified]
  show esp: "esp (pcbs k p) = stack_base (pcbs k p) + STACK_SIZE - 4" and "ram k (esp (pcbs k p)) = f"
    using e(4,5) [of p] e(13) by (simp_all add: new_pcb_def)
  show "unat (stack_base (pcbs k p)) mod 4096 = 0"
    using pa.alloc_page [OF kern_sound_core(4) [OF s(1)]] t(3,4) e(5) [of p] by (simp add: new_pcb_def)
  show "slot_ok True p" using t(2) by (auto simp: alloc_pcb_def split: option.splits dest!: find_Some_in)
qed

lemma next_page:
  assumes "unat (a :: uint32_t) mod 4096 = 0"
  shows "unat (a + STACK_SIZE) div 4096 \<noteq> unat a div 4096"
proof
  have e: "a + STACK_SIZE = a + 4096" by (simp add: STACK_SIZE_def PAGE_SIZE_def)
  obtain q where q: "unat a = 4096 * q" using assms by (metis mult.commute mod_0_imp_dvd dvdE)
  have "unat a < 2 ^ 32" using unsigned_less [of a] by simp
  then have "q < 1048576" using q by simp
  then consider "q = 1048575" | "4096 * q + 4096 < 4294967296" by linarith
  then have "unat (a + 4096) div 4096 \<noteq> q"
    using q by cases (simp_all add: unat_word_ariths)
  moreover assume "unat (a + STACK_SIZE) div 4096 = unat a div 4096"
  ultimately show False using q by (simp add: e)
qed

section \<open>Properties\<close>

text \<open>C30: a process that runs for the first time from within an interrupt starts with interrupts masked and
  has nowhere to return to. Whatever happens between the creation and the switch, as long as the slot and its
  frame are left alone: \<open>context_switch\<close> goes to the entry function with the interrupt flag as it is in the
  handler, off, and with the stack pointer behind the last word of the stack page, so that a return
  takes its address from the next page.\<close>

theorem new_process_starts_masked:
  assumes s: "kern_sound s xs" "create_process f prio s = Some (Some p, k)"
    and u: "esp (pcbs u p) = esp (pcbs k p)" "ram u (esp (pcbs k p)) = ram k (esp (pcbs k p))"
    and l: "layout_ok l" "switch_rel l S u c" "slot_ok True old" "p \<noteq> old"
    and args: "load32 (memory c) (gpr c ESP + 4) = ref_addr l old"
      "load32 (memory c) (gpr c ESP + 8) = ref_addr l p"
    and S: "gpr c ESP + 8 \<in> S" "esp (pcbs u p) \<in> S"
    and off: "\<not> int_flag c"
  defines "d \<equiv> exec context_switch_code c"
  shows "eip d = f \<and> \<not> int_flag d \<and> gpr d ESP = stack_base (pcbs k p) + STACK_SIZE
    \<and> unat (gpr d ESP) div 4096 \<noteq> stack_page k p"
proof -
  note k = created_frame [OF s]
  have "(if p = old then gpr c ESP else esp (pcbs u p)) \<in> S" using l(4) S(2) by simp
  note sw = context_switch_code_spec [OF l(1-3) k(4) args S(1) this]
  have t: "cpu_eip (context_switch old p u) = f" "cpu_esp (context_switch old p u) = stack_base (pcbs k p) + STACK_SIZE"
    using l(4) u k(1,2) by (simp_all add: context_switch_def Let_def)
  have "eip d = f" "gpr d ESP = stack_base (pcbs k p) + STACK_SIZE" "eflags d = eflags c"
    using sw t by (simp_all add: d_def switch_rel_def)
  with off next_page [OF k(3)] show ?thesis by (simp add: int_flag_def stack_page_def)
qed

theorem new_process_starts_masked_witness:
  "\<exists>s k. create_process 0x10BEEF 1 s = Some (Some (Pcb 2), k)
     \<and> eip (exec context_switch_code demo_calling) = 0x10BEEF
     \<and> \<not> int_flag (exec context_switch_code demo_calling)
     \<and> gpr (exec context_switch_code demo_calling) ESP = stack_base (pcbs k (Pcb 2)) + STACK_SIZE"
proof -
  obtain s x m where s: "kern_sound s [Pcb 0, Pcb 1]" "own_stacks s" "current_pcb s = Some (Pcb 0)"
    "idle_pcb s = Some (Pcb 0)" "state (pcbs s (Pcb 1)) = PROCESS_READY" "alloc_pcb s = Some (Pcb 2)"
    "pmm_alloc_page (pm s) = (x, m)" "x \<noteq> 0" "fst (pmm_alloc_page m) \<noteq> 0" "unat x div 4096 = 4"
    by (rule two_processes_page)
  have can: "can_create s" using s(6-8) by (simp add: can_create_def)
  obtain p k y w where k: "create_process 0x10BEEF 1 s = Some (Some p, k)" "alloc_pcb s = Some p"
    "pmm_alloc_page (pm s) = (y, w)"
    "strip k = strip (upd_pcb p (\<lambda>_. new_pcb (next_pid s + 1) 1 y)
        (s\<lparr>pm := w, ram := (ram s)(y + STACK_SIZE - 4 := 0x10BEEF), next_pid := next_pid s + 1\<rparr>))"
    by (rule create_process_succeeds [OF kern_sound_core(1) [OF s(1)] can])
  have [simp]: "p = Pcb 2" "y = x" using k(2,3) s(6,7) by simp_all
  note fr = created_frame [OF s(1) k(1), simplified]
  have b: "stack_base (pcbs k (Pcb 2)) = x" using strip_eqD(5) [OF k(4), of "Pcb 2"] by (simp add: new_pcb_def)
  have "unat x = 4096 * 4" using fr(3) s(10) b by (metis div_mult_mod_eq add_0_right mult.commute)
  then have "x = 0x4000" by (simp add: word_unat_eq_iff)
  then have e: "esp (pcbs k (Pcb 2)) = 0x4FFC" using fr(1) b by (simp add: STACK_SIZE_def PAGE_SIZE_def)
  have u: "esp (pcbs demo_blank (Pcb 2)) = 0x4FFC" "ram demo_blank 0x4FFC = 0x10BEEF"
    "gpr demo_calling ESP = 0x6F00" "\<not> int_flag demo_calling"
    using demo_words(3) by (simp_all add: demo_blank_def upd_pcb_def demo_calling_def int_flag_def)
  have sl: "slot_ok True (Pcb 0)" by (simp add: MAX_PROCESSES_def)
  have a: "load32 (memory demo_calling) (gpr demo_calling ESP + 4) = ref_addr demo_layout (Pcb 0)"
    "load32 (memory demo_calling) (gpr demo_calling ESP + 8) = ref_addr demo_layout (Pcb 2)"
    using demo_words by (simp_all add: u demo_layout_def)
  have pre: "esp (pcbs demo_blank p) = esp (pcbs k p)" "ram demo_blank (esp (pcbs k p)) = ram k (esp (pcbs k p))"
    "p \<noteq> Pcb 0" "gpr demo_calling ESP + 8 \<in> {0x6F08, 0x4FFC}" "esp (pcbs demo_blank p) \<in> {0x6F08, 0x4FFC}"
    using e u fr(2) by simp_all
  note r = new_process_starts_masked [OF s(1) k(1) pre(1,2) demo_layout_ok demo_switch_rel sl pre(3)
      a(1) a(2) [folded \<open>p = Pcb 2\<close>] pre(4,5) u(4)]
  show ?thesis using r k(1) by (intro exI [of _ s] exI [of _ k]) simp
qed

end
