(* ===== verification/Shell_Interrupted.thy ===== *)
theory Shell_Interrupted
  imports Boot "HOL-Library.Sublist"
begin

text \<open>
  The loop of \<^verbatim>\<open>shell_run\<close> (\<^verbatim>\<open>src/src/shell.c\<close>) with \<^verbatim>\<open>keyboard_getchar\<close> (\<^verbatim>\<open>src/src/keyboard.c\<close>) cut into
  statements, with hardware interrupts between any two of them, and not only in \<^verbatim>\<open>hlt\<close>: keys arrive while the
  shell tests the buffer, takes a character out of it, or is about to sleep. What the loop does
  with a key (\<open>shell_key\<close>) is one statement; the keyboard handler, which runs with interrupts off, is one
  action too.
\<close>

section \<open>The statements\<close>

datatype loop_pc =
    Top
  | Testing
  | Reading
  | Advancing char
  | Enabling
  | Halting
  | Halted
  | Masking
  | Unmasking
  | Counting
  | Handling char
  | Ended outcome

record loop =
  lpc :: loop_pc
  lshell :: shell
  lmach :: machine

text \<open>
  \<^verbatim>\<open>sti\<close> holds interrupts back for one more instruction when they were off, so that no interrupt comes between
  it and the \<^verbatim>\<open>hlt\<close> behind it; when they were on already, it does nothing.
\<close>

fun loop_step ::
  "devices \<Rightarrow> image \<Rightarrow> loop_pc \<Rightarrow> shell \<Rightarrow> machine \<Rightarrow> (loop_pc \<times> shell \<times> machine) option" where
  "loop_step d im Top sh m =
     Some (Testing, sh, if keystroke_count sh mod 50 = 0 then refresh_statusbar m else m)"
| "loop_step d im Testing sh m =
     Some (if kb_head (mkbd m) = kb_tail (mkbd m) then Enabling else Reading, sh, m)"
| "loop_step d im Reading sh m = Some (Advancing (kb_buffer (mkbd m) ! unat (kb_tail (mkbd m))), sh, m)"
| "loop_step d im (Advancing c) sh m =
     Some (if c = NUL then Enabling else Handling c, sh,
       m\<lparr>mkbd := (mkbd m)\<lparr>kb_tail := kb_next (kb_tail (mkbd m))\<rparr>\<rparr>)"
| "loop_step d im Enabling sh m = Some (if mif m then Halting else Halted, sh, m\<lparr>mif := True\<rparr>)"
| "loop_step d im Halting sh m = Some (Halted, sh, m)"
| "loop_step d im Halted sh m = None"
| "loop_step d im Masking sh m = Some (Unmasking, sh, m\<lparr>mif := False\<rparr>)"
| "loop_step d im Unmasking sh m = Some (Counting, sh, m\<lparr>mif := True\<rparr>)"
| "loop_step d im Counting sh m =
     (let sh = sh\<lparr>idle_count := idle_count sh + 1\<rparr>
      in Some (Testing, sh, if idle_count sh mod 200 = 0 then refresh_statusbar m else m))"
| "loop_step d im (Handling c) sh m =
     map_option (\<lambda>(sh, r). case r of
         Done m \<Rightarrow> (Top, sh, m)
       | Away m \<Rightarrow> (Ended r, sh, m)
       | Stopped m \<Rightarrow> (Ended r, sh, m)) (shell_key d im c sh m)"
| "loop_step d im (Ended r) sh m = None"

datatype loop_action = Go | Irq registers

fun ended :: "loop_pc \<Rightarrow> bool" where
  "ended (Ended r) \<longleftrightarrow> True"
| "ended _ \<longleftrightarrow> False"

fun possible :: "loop_action \<Rightarrow> loop \<Rightarrow> bool" where
  "possible Go s \<longleftrightarrow> lpc s \<noteq> Halted \<and> \<not> ended (lpc s)"
| "possible (Irq r) s \<longleftrightarrow> mif (lmach s) \<and> \<not> ended (lpc s)"

text \<open>An interrupt ends \<^verbatim>\<open>hlt\<close>; the code goes on behind it.\<close>

fun loop_act :: "devices \<Rightarrow> image \<Rightarrow> loop_action \<Rightarrow> loop \<Rightarrow> loop option" where
  "loop_act d im Go s =
     map_option (\<lambda>(x, sh, m). \<lparr>lpc = x, lshell = sh, lmach = m\<rparr>)
       (loop_step d im (lpc s) (lshell s) (lmach s))"
| "loop_act d im (Irq r) s =
     map_option (\<lambda>v. case v of
         Done m \<Rightarrow> s\<lparr>lpc := if lpc s = Halted then Masking else lpc s, lmach := m\<rparr>
       | Away m \<Rightarrow> s\<lparr>lpc := Ended v, lmach := m\<rparr>
       | Stopped m \<Rightarrow> s\<lparr>lpc := Ended v, lmach := m\<rparr>) (common_isr_handler d r (lmach s))"

fun loop_acts :: "devices \<Rightarrow> image \<Rightarrow> loop_action list \<Rightarrow> loop \<Rightarrow> loop option" where
  "loop_acts d im [] s = Some s"
| "loop_acts d im (a # as) s = Option.bind (loop_act d im a s) (loop_acts d im as)"

text \<open>A run in which every action is possible, its interrupts, and the keys it handles.\<close>

fun admissible :: "devices \<Rightarrow> image \<Rightarrow> loop_action list \<Rightarrow> loop \<Rightarrow> bool" where
  "admissible d im [] s \<longleftrightarrow> True"
| "admissible d im (a # as) s \<longleftrightarrow> possible a s
     \<and> (case loop_act d im a s of None \<Rightarrow> True | Some t \<Rightarrow> admissible d im as t)"

fun irqs_of :: "loop_action list \<Rightarrow> registers list" where
  "irqs_of [] = []"
| "irqs_of (Go # as) = irqs_of as"
| "irqs_of (Irq r # as) = r # irqs_of as"

fun in_hand :: "loop_pc \<Rightarrow> string" where
  "in_hand (Handling c) = [c]"
| "in_hand _ = []"

fun keys_handled :: "devices \<Rightarrow> image \<Rightarrow> loop_action list \<Rightarrow> loop \<Rightarrow> string" where
  "keys_handled d im [] s = []"
| "keys_handled d im (a # as) s = (if a = Go then in_hand (lpc s) else [])
     @ (case loop_act d im a s of None \<Rightarrow> [] | Some t \<Rightarrow> keys_handled d im as t)"

text \<open>
  The keys as they arrive: the character that a keyboard interrupt brings, if its scancode makes one, and
  whether the buffer has room for it, holding less than its 255 characters.
\<close>

definition arrived :: "devices \<Rightarrow> registers \<Rightarrow> machine \<Rightarrow> (char \<times> bool) list" where
  "arrived d r m =
     (if is_key r
      then (case scancode_char (shift_held (mkbd m)) (fst (inb (ps2 d) KB_DATA_PORT (kb_io (mkbd m)))) of
              None \<Rightarrow> []
            | Some c \<Rightarrow> [(c, length (kb_contents (mkbd m)) < 255)])
      else [])"

fun arrivals :: "devices \<Rightarrow> image \<Rightarrow> loop_action list \<Rightarrow> loop \<Rightarrow> (char \<times> bool) list" where
  "arrivals d im [] s = []"
| "arrivals d im (a # as) s = (case a of Go \<Rightarrow> [] | Irq r \<Rightarrow> arrived d r (lmach s))
     @ (case loop_act d im a s of None \<Rightarrow> [] | Some t \<Rightarrow> arrivals d im as t)"

abbreviation taken_in :: "(char \<times> bool) list \<Rightarrow> string" where
  "taken_in ks \<equiv> map fst (filter snd ks)"

section \<open>The invariant\<close>

text \<open>The keys that are typed but not handled: in hand, in the buffer, or still to be typed.\<close>

definition to_come :: "uint8_t list \<Rightarrow> loop \<Rightarrow> string" where
  "to_come scs s = in_hand (lpc s) @ pending (lmach s) scs"

fun pc_ok :: "loop_pc \<Rightarrow> kbd \<Rightarrow> bool" where
  "pc_ok Reading k \<longleftrightarrow> kb_contents k \<noteq> []"
| "pc_ok (Advancing c) k \<longleftrightarrow> (\<exists>cs. kb_contents k = c # cs)"
| "pc_ok (Handling c) k \<longleftrightarrow> c \<noteq> NUL"
| "pc_ok (Ended r) k \<longleftrightarrow> False"
| "pc_ok _ k \<longleftrightarrow> True"

definition loop_ok :: "devices \<Rightarrow> registers list \<Rightarrow> uint8_t list \<Rightarrow> loop \<Rightarrow> bool" where
  "loop_ok d irqs scs s \<longleftrightarrow> typing d irqs scs (lmach s) \<and> (\<exists>xs. shell_core (lmach s) xs)
     \<and> shell_ok (lshell s) \<and> pc_ok (lpc s) (mkbd (lmach s)) \<and> (mif (lmach s) \<longleftrightarrow> lpc s \<noteq> Unmasking)
     \<and> unat (next_pid (mkern (lmach s))) + length (to_come scs s) < 2 ^ 32 - 1"

text \<open>A command has stopped the machine.\<close>

definition shut_down :: "loop \<Rightarrow> bool" where
  "shut_down s \<longleftrightarrow> lpc s = Ended (Stopped (lmach s)) \<and> \<not> mif (lmach s)"

lemma shell_core_cong:
  "mkern n = mkern m \<Longrightarrow> cursor_ok (mvga n) = cursor_ok (mvga m) \<Longrightarrow> shell_core n xs = shell_core m xs"
  by (simp add: shell_core_def)

lemma loop_ok_quiet:
  assumes "loop_ok d irqs scs \<lparr>lpc = x, lshell = sh, lmach = m\<rparr>"
    and "mkbd n = mkbd m" "midt n = midt m" "mkern n = mkern m" "cursor_ok (mvga n) = cursor_ok (mvga m)"
    and "pc_ok y (mkbd m)" "mif n \<longleftrightarrow> y \<noteq> Unmasking" "in_hand y = in_hand x" "shell_ok t"
  shows "loop_ok d irqs scs \<lparr>lpc = y, lshell = t, lmach = n\<rparr>
    \<and> to_come scs \<lparr>lpc = y, lshell = t, lmach = n\<rparr> = to_come scs \<lparr>lpc = x, lshell = sh, lmach = m\<rparr>"
  using assms typing_cong [OF assms(2-4), of d irqs scs] shell_core_cong [OF assms(4,5)]
  by (simp add: loop_ok_def to_come_def)

lemma cursor_ok_refresh [simp]: "cursor_ok (mvga (refresh_statusbar m)) = cursor_ok (mvga m)"
  using waited_cursor [OF waited_statusbar] .

section \<open>One statement\<close>

lemma take_char:
  assumes inv: "kb_invar k" and c: "kb_contents k = c # cs"
  shows "kb_buffer k ! unat (kb_tail k) = c" "c \<noteq> NUL"
    "kb_contents (k\<lparr>kb_tail := kb_next (kb_tail k)\<rparr>) = cs" "kb_invar (k\<lparr>kb_tail := kb_next (kb_tail k)\<rparr>)"
proof -
  have "kb_head k \<noteq> kb_tail k" using c by (auto simp: kb_contents_def)
  then have "keyboard_getchar k = (kb_buffer k ! unat (kb_tail k), k\<lparr>kb_tail := kb_next (kb_tail k)\<rparr>)"
    by (simp add: keyboard_getchar_def)
  with getchar_cases(2) [OF inv c] show "kb_buffer k ! unat (kb_tail k) = c" "c \<noteq> NUL"
    "kb_contents (k\<lparr>kb_tail := kb_next (kb_tail k)\<rparr>) = cs" "kb_invar (k\<lparr>kb_tail := kb_next (kb_tail k)\<rparr>)"
    by simp_all
qed

lemma head_tail_contents: "kb_head k = kb_tail k \<longleftrightarrow> kb_contents k = []"
  using length_kb_contents [of k] by (metis length_0_conv right_minus_eq unat_eq_0)

text \<open>What is taken from the keys to come is what is handled.\<close>

definition consumed :: "string \<Rightarrow> uint8_t list \<Rightarrow> loop \<Rightarrow> loop \<Rightarrow> bool" where
  "consumed cs scs s t \<longleftrightarrow> (\<exists>rest. to_come scs s = cs @ rest \<and> (\<not> ended (lpc t) \<longrightarrow> to_come scs t = rest))"

lemma go_step:
  assumes ok: "loop_ok d irqs scs s" and go: "possible Go s"
  shows "\<exists>t. loop_act d im Go s = Some t \<and> (loop_ok d irqs scs t \<or> shut_down t)
     \<and> consumed (in_hand (lpc s)) scs s t"
proof -
  obtain x sh m where s: "s = \<lparr>lpc = x, lshell = sh, lmach = m\<rparr>" by (cases s)
  have f: "typing d irqs scs m" "shell_ok sh" "pc_ok x (mkbd m)" "mif m \<longleftrightarrow> x \<noteq> Unmasking"
    "kb_invar (mkbd m)" and core: "\<exists>xs. shell_core m xs"
    using ok by (simp_all add: s loop_ok_def typing_def)
  note q = loop_ok_quiet [OF ok [unfolded s]]
  have quiet: "\<exists>t. loop_act d im Go s = Some t \<and> (loop_ok d irqs scs t \<or> shut_down t)
      \<and> consumed (in_hand (lpc s)) scs s t"
    if "loop_step d im x sh m = Some (y, t, n)" "mkbd n = mkbd m" "midt n = midt m" "mkern n = mkern m"
      "cursor_ok (mvga n) = cursor_ok (mvga m)" "pc_ok y (mkbd m)" "mif n \<longleftrightarrow> y \<noteq> Unmasking"
      "in_hand x = []" "in_hand y = []" "shell_ok t" for y t n
    using q [of n y t] that by (simp add: s consumed_def)
  show ?thesis
  proof (cases x)
    case Testing
    then show ?thesis using f by (intro quiet [of "if kb_head (mkbd m) = kb_tail (mkbd m) then Enabling else Reading" sh m])
      (simp_all add: head_tail_contents)
  next
    case Reading
    then obtain c cs where c: "kb_contents (mkbd m) = c # cs" using f(3) by (cases "kb_contents (mkbd m)") auto
    with Reading f take_char(1) [OF f(5) c] show ?thesis by (intro quiet [of "Advancing c" sh m]) simp_all
  next
    case (Advancing c)
    then obtain cs where c: "kb_contents (mkbd m) = c # cs" using f(3) by auto
    let ?k = "(mkbd m)\<lparr>kb_tail := kb_next (kb_tail (mkbd m))\<rparr>"
    let ?n = "m\<lparr>mkbd := ?k\<rparr>"
    note k = take_char [OF f(5) c]
    have ty: "typing d irqs scs ?n" using f(1) k(4) by (simp add: typing_def)
    have come: "to_come scs \<lparr>lpc = Handling c, lshell = sh, lmach = ?n\<rparr> = to_come scs s"
      using c k(3) by (simp add: to_come_def pending_def s Advancing del: length_kb_contents)
    have "\<exists>xs. shell_core ?n xs" using core by (simp add: shell_core_def)
    then have "loop_ok d irqs scs \<lparr>lpc = Handling c, lshell = sh, lmach = ?n\<rparr>"
      using ok f ty come k(2) Advancing by (simp add: loop_ok_def s)
    with k(2) come Advancing show ?thesis by (simp add: s consumed_def)
  next
    case (Handling c)
    then have c: "c \<noteq> NUL" using f(3) by simp
    obtain xs where xs: "shell_core m xs" using core by blast
    have pid: "unat (next_pid (mkern m)) + Suc (length (pending m scs)) < 2 ^ 32 - 1"
      using ok by (simp add: s Handling loop_ok_def to_come_def)
    then have ne: "unat (next_pid (mkern m) + 1) = unat (next_pid (mkern m)) + 1"
      by (subst unat_add_lem [THEN iffD1]) simp_all
    then have "next_pid (mkern m) + 1 \<noteq> 0" by (metis unat_eq_0 Suc_eq_plus1 nat.distinct(1))
    from shell_key_sound [OF xs f(2) c this] obtain sh' r where
      r: "shell_key d im c sh m = Some (sh', r)" "sound_outcome m r" "\<forall>n. r = Done n \<longrightarrow> shell_ok sh'" by blast
    show ?thesis
    proof (cases r)
      case (Done n)
      with r obtain ys where n: "shell_core n ys" "mkbd n = mkbd m" "midt n = midt m" "shell_ok sh'"
        "next_pid (mkern n) = next_pid (mkern m) \<or> next_pid (mkern n) = next_pid (mkern m) + 1"
        "mif n = mif m" by auto
      then have "mif n" using f(4) Handling by simp
      have t: "typing d irqs scs n" "pending n scs = pending m scs"
        using f(1) n(2,3) shell_core_calm [OF n(1)] by (simp_all add: typing_def pending_def)
      have "loop_ok d irqs scs \<lparr>lpc = Top, lshell = sh', lmach = n\<rparr>"
        using n t pid ne \<open>mif n\<close> by (auto simp: loop_ok_def to_come_def)
      with r(1) Done t(2) Handling show ?thesis by (simp add: s consumed_def to_come_def)
    next
      case (Stopped n)
      with r have "\<not> mif n" by auto
      with r(1) Stopped Handling show ?thesis by (simp add: s consumed_def to_come_def shut_down_def)
    qed (use r in simp)
  next
    case Top
    with f show ?thesis
      by (intro quiet [of Testing sh "if keystroke_count sh mod 50 = 0 then refresh_statusbar m else m"]) simp_all
  next
    case Enabling
    with f show ?thesis by (intro quiet [of Halting sh "m\<lparr>mif := True\<rparr>"]) simp_all
  next
    case Halting
    with f show ?thesis by (intro quiet [of Halted sh m]) simp_all
  next
    case Masking
    with f show ?thesis by (intro quiet [of Unmasking sh "m\<lparr>mif := False\<rparr>"]) simp_all
  next
    case Unmasking
    with f show ?thesis by (intro quiet [of Counting sh "m\<lparr>mif := True\<rparr>"]) simp_all
  next
    case Counting
    let ?sh = "sh\<lparr>idle_count := idle_count sh + 1\<rparr>"
    from Counting f show ?thesis
      by (intro quiet [of Testing ?sh "if idle_count ?sh mod 200 = 0 then refresh_statusbar m else m"])
        (simp_all add: Let_def)
  qed (use go s in simp_all)
qed

section \<open>One interrupt\<close>

text \<open>A scancode goes behind the keys in the buffer, or is dropped when the buffer is full.\<close>

lemma scancode_into:
  assumes inv: "kb_invar k"
    and new: "new = (case scancode_char (shift_held k) sc of None \<Rightarrow> []
        | Some c \<Rightarrow> [(c, length (kb_contents k) < 255)])"
  shows "kb_contents (keyboard_scancode sc k) = kb_contents k @ taken_in new"
    "map fst new @ decode_scancodes (shift_held (keyboard_scancode sc k)) scs
       = decode_scancodes (shift_held k) (sc # scs)"
proof -
  have "kb_contents (keyboard_scancode sc k) = kb_contents k @ taken_in new
    \<and> map fst new @ decode_scancodes (shift_held (keyboard_scancode sc k)) scs
       = decode_scancodes (shift_held k) (sc # scs)"
  proof (cases "scancode_char (shift_held k) sc")
    case None
    then show ?thesis
      by (simp add: new keyboard_scancode_spec del: length_kb_contents)
  next
    case (Some c)
    then have c: "c \<noteq> NUL" using scancode_char_neq_NUL by auto
    note push = kb.push_contents [OF inv c]
    have "length (kb_contents k) \<le> 255" using inv by (rule kb.cap_bound)
    then consider "length (kb_contents k) < 255" | "length (kb_contents k) = 255" by linarith
    then show ?thesis
      by cases (use Some push in
        \<open>simp_all add: new keyboard_scancode_spec scancode_shift_char del: length_kb_contents\<close>)
  qed
  then show "kb_contents (keyboard_scancode sc k) = kb_contents k @ taken_in new"
    "map fst new @ decode_scancodes (shift_held (keyboard_scancode sc k)) scs
       = decode_scancodes (shift_held k) (sc # scs)" by blast+
qed

lemma pc_ok_push: "pc_ok x k \<Longrightarrow> kb_contents j = kb_contents k @ new \<Longrightarrow> pc_ok x j"
  by (cases x) auto

text \<open>What an interrupt may do to the keys to come: nothing, as long as the buffer can hold them.\<close>

definition kept :: "string \<Rightarrow> string \<Rightarrow> bool" where
  "kept new old \<longleftrightarrow> subseq new old \<and> (length old \<le> 255 \<longrightarrow> new = old)"

lemma kept_refl [simp]: "kept xs xs"
  by (simp add: kept_def)

lemma kept_trans: "kept xs ys \<Longrightarrow> kept ys zs \<Longrightarrow> kept xs zs"
  by (auto simp: kept_def intro: subseq_order.trans)

lemma kept_append: "kept xs ys \<Longrightarrow> kept (zs @ xs) (zs @ ys)"
  by (auto simp: kept_def intro: list_emb_append_mono)

lemma kept_length: "kept xs ys \<Longrightarrow> length xs \<le> length ys"
  by (auto simp: kept_def intro: list_emb_length)

text \<open>One interrupt, accounted for exactly; it leaves the tables of the processor alone.\<close>

lemma irq_account:
  assumes ok: "loop_ok d (r # irqs) scs s" and can: "possible (Irq r) s"
  shows "\<exists>t scs'. loop_act d im (Irq r) s = Some t \<and> loop_ok d irqs scs' t
    \<and> in_hand (lpc t) = in_hand (lpc s) \<and> midt (lmach t) = midt (lmach s)
    \<and> kb_contents (mkbd (lmach t)) = kb_contents (mkbd (lmach s)) @ taken_in (arrived d r (lmach s))
    \<and> map fst (arrived d r (lmach s)) @ decode_scancodes (shift_held (mkbd (lmach t))) scs'
        = decode_scancodes (shift_held (mkbd (lmach s))) scs"
proof -
  obtain x sh m where s: "s = \<lparr>lpc = x, lshell = sh, lmach = m\<rparr>" by (cases s)
  let ?y = "if x = Halted then Masking else x"
  have ty: "typing d (r # irqs) scs m" and f: "shell_ok sh" "pc_ok x (mkbd m)" "mif m" "x \<noteq> Unmasking"
    "kb_invar (mkbd m)" and core: "\<exists>xs. shell_core m xs"
    and pid: "unat (next_pid (mkern m)) + length (to_come scs s) < 2 ^ 32 - 1"
    using ok can by (auto simp: s loop_ok_def typing_def)
  have y: "in_hand ?y = in_hand x" "pc_ok ?y k = pc_ok x k" "?y \<noteq> Unmasking" for k using f(4) by auto
  show ?thesis
  proof (cases "is_key r")
    case True
    then obtain sc scs' where scs: "scs = sc # scs'" using ty by (cases scs) (auto simp: typing_def)
    let ?j = "(mkbd m)\<lparr>kb_io := kb_io (mkbd m) @ [In KB_DATA_PORT sc]\<rparr>"
    let ?k = "keyboard_scancode sc ?j"
    let ?m = "m\<lparr>mkbd := ?k, mpic := pic_send_eoi 1 (mpic m)\<rparr>"
    let ?t = "\<lparr>lpc = ?y, lshell = sh, lmach = ?m\<rparr>"
    have scr: "kbd_script (ps2 d) (kb_io (mkbd m)) (sc # scs')" and h: "irq_handlers (midt m) = boot_handlers"
      using ty by (simp_all add: typing_def scs)
    have isr: "common_isr_handler d r m = Some (Done ?m)"
      using keyboard_irq [of r m d] True h by (simp add: is_key_def keyboard_handler_scripted [OF scr])
    have i: "kb_invar ?j" using f(5) by simp
    have "arrived d r m = (case scancode_char (shift_held ?j) sc of None \<Rightarrow> []
        | Some c \<Rightarrow> [(c, length (kb_contents ?j) < 255)])"
      using True scr by (simp add: arrived_def inb_def Let_def del: length_kb_contents split: option.split)
    note new = scancode_into [OF i this]
    have new1: "kb_contents ?k = kb_contents (mkbd m) @ taken_in (arrived d r m)"
      using new(1) by (simp del: length_kb_contents)
    have new2: "map fst (arrived d r m) @ decode_scancodes (shift_held ?k) scs'
        = decode_scancodes (shift_held (mkbd m)) scs"
      using new(2) [of scs'] by (simp add: scs del: decode_scancodes.simps)
    have "length (decode_scancodes (shift_held (mkbd m)) scs)
        = length (arrived d r m) + length (decode_scancodes (shift_held ?k) scs')"
      using arg_cong [OF new2, of length] by simp
    then have less: "length (to_come scs' ?t) \<le> length (to_come scs s)"
      using y(1) by (simp add: to_come_def pending_def new1 s del: length_kb_contents)
    have "typing d irqs scs' ?m"
      using ty True keyboard_scancode_invar [OF i] by (simp add: typing_def scs)
    moreover have "\<exists>xs. shell_core ?m xs" using core by (simp add: shell_core_def)
    ultimately have "loop_ok d irqs scs' ?t"
      using f y pc_ok_push [OF f(2) new1] pid less by (auto simp: loop_ok_def)
    moreover have "loop_act d im (Irq r) s = Some ?t" using isr by (simp add: s)
    ultimately show ?thesis using y(1) new1 new2 by (intro exI [of _ ?t] exI [of _ scs']) (simp add: s)
  next
    case False
    have r: "32 \<le> int_no r" and h: "irq_handlers (midt m) = boot_handlers"
      and calm: "schedule (mkern m) = Some (Returns (mkern m))" using ty by (simp_all add: typing_def)
    obtain p l where isr: "common_isr_handler d r m = Some (Done (m\<lparr>mpit := p, mpic := l\<rparr>))"
      using other_irq [OF r False h calm, of d] by blast
    let ?m = "m\<lparr>mpit := p, mpic := l\<rparr>"
    let ?t = "\<lparr>lpc = ?y, lshell = sh, lmach = ?m\<rparr>"
    have same: "to_come scs ?t = to_come scs s" using y(1) by (simp add: to_come_def pending_def s)
    have "typing d irqs scs ?m" using ty False by (simp add: typing_def)
    moreover have "\<exists>xs. shell_core ?m xs" using core by (simp add: shell_core_def)
    ultimately have "loop_ok d irqs scs ?t" using f y pid same by (simp add: loop_ok_def)
    moreover have "loop_act d im (Irq r) s = Some ?t" using isr by (simp add: s)
    moreover have "arrived d r m = []" using False by (simp add: arrived_def)
    ultimately show ?thesis using y(1) by (intro exI [of _ ?t] exI [of _ scs]) (simp add: s)
  qed
qed

lemma arrived_shape:
  "arrived d r m = [] \<or> (\<exists>c. arrived d r m = [(c, length (kb_contents (mkbd m)) < 255)])"
  unfolding arrived_def
  by (cases "scancode_char (shift_held (mkbd m)) (fst (inb (ps2 d) KB_DATA_PORT (kb_io (mkbd m))))")
    (simp_all del: length_kb_contents)

lemma arrived_dropped:
  assumes "taken_in (arrived d r m) \<noteq> map fst (arrived d r m)"
  shows "255 \<le> length (kb_contents (mkbd m))"
  using assms arrived_shape [of d r m] by (auto simp del: length_kb_contents split: if_splits)

lemma subseq_taken_in: "subseq (taken_in ks) (map fst ks)"
  by (induction ks) auto

lemma irq_step:
  assumes ok: "loop_ok d (r # irqs) scs s" and can: "possible (Irq r) s"
  shows "\<exists>t scs'. loop_act d im (Irq r) s = Some t \<and> loop_ok d irqs scs' t \<and> kept (to_come scs' t) (to_come scs s)"
proof -
  let ?new = "arrived d r (lmach s)"
  obtain t scs' where t: "loop_act d im (Irq r) s = Some t" "loop_ok d irqs scs' t"
    "in_hand (lpc t) = in_hand (lpc s)"
    "kb_contents (mkbd (lmach t)) = kb_contents (mkbd (lmach s)) @ taken_in ?new"
    "map fst ?new @ decode_scancodes (shift_held (mkbd (lmach t))) scs'
        = decode_scancodes (shift_held (mkbd (lmach s))) scs"
    using irq_account [OF ok can, of im] by blast
  let ?rest = "decode_scancodes (shift_held (mkbd (lmach t))) scs'"
  have old: "to_come scs s = (in_hand (lpc s) @ kb_contents (mkbd (lmach s))) @ map fst ?new @ ?rest"
    by (simp add: to_come_def pending_def t(5) del: length_kb_contents)
  have new: "to_come scs' t = (in_hand (lpc s) @ kb_contents (mkbd (lmach s))) @ taken_in ?new @ ?rest"
    by (simp add: to_come_def pending_def t(3,4) del: length_kb_contents)
  have "kept (taken_in ?new @ ?rest) (map fst ?new @ ?rest) \<or> 255 < length (to_come scs s)"
  proof (cases "taken_in ?new = map fst ?new")
    case False
    then have "?new \<noteq> []" by auto
    then have "0 < length ?new" by simp
    moreover have "length (to_come scs s) = length (in_hand (lpc s)) + length (kb_contents (mkbd (lmach s)))
        + length ?new + length ?rest" unfolding old by (simp del: length_kb_contents)
    ultimately show ?thesis using arrived_dropped [OF False] by linarith
  qed simp
  moreover have "subseq (to_come scs' t) (to_come scs s)"
    unfolding old new by (intro list_emb_append_mono subseq_taken_in) simp_all
  ultimately have "kept (to_come scs' t) (to_come scs s)"
    unfolding old new by (auto simp: kept_def)
  with t(1,2) show ?thesis by blast
qed

section \<open>Runs\<close>

declare loop_act.simps [simp del] possible.simps [simp del]

lemma loop_ok_going: "loop_ok d irqs scs s \<Longrightarrow> \<not> ended (lpc s)"
  by (cases "lpc s") (auto simp: loop_ok_def)

lemma shut_down_ended: "shut_down s \<Longrightarrow> ended (lpc s)"
  by (simp add: shut_down_def)

lemma ended_stays: "ended (lpc s) \<Longrightarrow> admissible d im as s \<Longrightarrow> as = []"
  by (cases as) (auto elim: possible.elims)

lemma irq_pc:
  assumes "loop_act d im (Irq r) s = Some t" "\<not> ended (lpc t)"
  shows "lpc t = (if lpc s = Halted then Masking else lpc s)"
proof -
  obtain v where "common_isr_handler d r (lmach s) = Some v" using assms(1) by (auto simp: loop_act.simps)
  with assms show ?thesis by (cases v) (auto simp: loop_act.simps)
qed

text \<open>A run keeps the invariant, and the keys are handled in the order in which they were typed.\<close>

lemma loop_run:
  assumes "loop_ok d (irqs_of as) scs s" "admissible d im as s"
  shows "\<exists>t rest. loop_acts d im as s = Some t \<and> kept (keys_handled d im as s @ rest) (to_come scs s)
    \<and> (shut_down t \<or> loop_ok d [] [] t \<and> rest = to_come [] t)"
  using assms
proof (induction as arbitrary: s scs)
  case Nil
  then have "scs = []" by (simp add: loop_ok_def typing_def)
  with Nil.prems show ?case by (intro exI [of _ s] exI [of _ "to_come [] s"]) simp
next
  case (Cons a as)
  show ?case
  proof (cases a)
    case Go
    with Cons.prems obtain t where t: "loop_act d im Go s = Some t"
      "loop_ok d (irqs_of as) scs t \<or> shut_down t" "consumed (in_hand (lpc s)) scs s t"
      using go_step [of d "irqs_of as" scs s im] by auto
    obtain r where r: "to_come scs s = in_hand (lpc s) @ r" "\<not> ended (lpc t) \<longrightarrow> to_come scs t = r"
      using t(3) by (auto simp: consumed_def)
    have ad: "admissible d im as t" using Cons.prems(2) t(1) Go by simp
    show ?thesis
    proof (cases "shut_down t")
      case True
      then have "as = []" using ended_stays [OF shut_down_ended ad] by simp
      with True t(1) r(1) Go show ?thesis by (intro exI [of _ t] exI [of _ r]) simp
    next
      case False
      then have ok: "loop_ok d (irqs_of as) scs t" using t(2) by simp
      obtain u rest where u: "loop_acts d im as t = Some u" "kept (keys_handled d im as t @ rest) (to_come scs t)"
        "shut_down u \<or> loop_ok d [] [] u \<and> rest = to_come [] u" using Cons.IH [OF ok ad] by blast
      have "to_come scs s = in_hand (lpc s) @ to_come scs t" using r loop_ok_going [OF ok] by simp
      with u(2) have "kept (keys_handled d im (a # as) s @ rest) (to_come scs s)"
        using t(1) Go by (simp add: kept_append)
      with u(1,3) t(1) Go show ?thesis by (intro exI [of _ u] exI [of _ rest]) simp
    qed
  next
    case (Irq r)
    with Cons.prems obtain t scs' where t: "loop_act d im (Irq r) s = Some t"
      "loop_ok d (irqs_of as) scs' t" "kept (to_come scs' t) (to_come scs s)"
      using irq_step [of d r "irqs_of as" scs s im] by auto
    have "admissible d im as t" using Cons.prems(2) t(1) Irq by simp
    from Cons.IH [OF t(2) this] obtain u rest where u: "loop_acts d im as t = Some u"
      "kept (keys_handled d im as t @ rest) (to_come scs' t)"
      "shut_down u \<or> loop_ok d [] [] u \<and> rest = to_come [] u" by blast
    then have "kept (keys_handled d im (a # as) s @ rest) (to_come scs s)"
      using t(1) Irq kept_trans [OF u(2) t(3)] by simp
    with u(1,3) t(1) Irq show ?thesis by (intro exI [of _ u] exI [of _ rest]) simp
  qed
qed

section \<open>The account of the keys\<close>

text \<open>The statements of the shell leave the tables of the processor and the shift key alone.\<close>

lemma go_step_tables:
  assumes ok: "loop_ok d irqs scs s" and step: "loop_act d im Go s = Some t" and on: "\<not> ended (lpc t)"
  shows "midt (lmach t) = midt (lmach s)" "shift_held (mkbd (lmach t)) = shift_held (mkbd (lmach s))"
proof -
  obtain x sh m where s: "s = \<lparr>lpc = x, lshell = sh, lmach = m\<rparr>" by (cases s)
  have "midt (lmach t) = midt m \<and> shift_held (mkbd (lmach t)) = shift_held (mkbd m)"
  proof (cases x)
    case (Handling c)
    obtain xs where c: "shell_core m xs" "shell_ok sh" "c \<noteq> NUL" using ok by (auto simp: s Handling loop_ok_def)
    have "unat (next_pid (mkern m)) + 1 < 2 ^ 32"
      using ok by (simp add: s Handling loop_ok_def to_come_def)
    then have "unat (next_pid (mkern m) + 1) = unat (next_pid (mkern m)) + 1"
      by (subst unat_add_lem [THEN iffD1]) simp_all
    then have "next_pid (mkern m) + 1 \<noteq> 0" by (metis unat_eq_0 Suc_eq_plus1 nat.distinct(1))
    from shell_key_sound [OF c this] obtain sh' r where
      r: "shell_key d im c sh m = Some (sh', r)" "sound_outcome m r" by blast
    with step on Handling show ?thesis by (cases r) (auto simp: s loop_act.simps)
  next
    case (Ended r)
    with ok show ?thesis by (simp add: s loop_ok_def)
  qed (use step in \<open>auto simp: s loop_act.simps Let_def split: if_splits\<close>)
  then show "midt (lmach t) = midt (lmach s)" "shift_held (mkbd (lmach t)) = shift_held (mkbd (lmach s))"
    by (simp_all add: s)
qed

abbreviation at_hand :: "loop \<Rightarrow> string" where
  "at_hand s \<equiv> in_hand (lpc s) @ kb_contents (mkbd (lmach s))"

lemma go_account:
  assumes ok: "loop_ok d irqs scs s" and go: "possible Go s" and step: "loop_act d im Go s = Some t"
    and on: "\<not> ended (lpc t)"
  shows "at_hand s = in_hand (lpc s) @ at_hand t"
proof -
  note tables = go_step_tables [OF ok step on]
  have "to_come scs s = in_hand (lpc s) @ to_come scs t"
    using go_step [OF ok go, of im] step on by (auto simp: consumed_def)
  then show ?thesis
    by (simp add: to_come_def pending_def tables(2) del: length_kb_contents)
qed

text \<open>The whole run: the keys handled and those left are those that were there and those that found room.\<close>

lemma loop_account:
  assumes "loop_ok d (irqs_of as) scs s" "admissible d im as s"
  shows "\<exists>t rest. loop_acts d im as s = Some t
    \<and> keys_handled d im as s @ rest = at_hand s @ taken_in (arrivals d im as s)
    \<and> map fst (arrivals d im as s) = decode_scancodes (shift_held (mkbd (lmach s))) scs
    \<and> (length (at_hand s) + length (arrivals d im as s) \<le> 255
         \<longrightarrow> taken_in (arrivals d im as s) = map fst (arrivals d im as s))
    \<and> (shut_down t \<or> loop_ok d [] [] t \<and> midt (lmach t) = midt (lmach s) \<and> rest = at_hand t)"
  using assms
proof (induction as arbitrary: s scs)
  case Nil
  then have "scs = []" by (simp add: loop_ok_def typing_def)
  with Nil.prems show ?case by (intro exI [of _ s] exI [of _ "at_hand s"]) simp
next
  case (Cons a as)
  show ?case
  proof (cases a)
    case Go
    have ok: "loop_ok d (irqs_of as) scs s" and go: "possible Go s" using Cons.prems Go by simp_all
    obtain t where t: "loop_act d im Go s = Some t" "loop_ok d (irqs_of as) scs t \<or> shut_down t"
      using go_step [OF ok go, of im] by blast
    have ad: "admissible d im as t" using Cons.prems(2) t(1) Go by simp
    show ?thesis
    proof (cases "shut_down t")
      case True
      then have Nil: "as = []" using ended_stays [OF shut_down_ended ad] by simp
      then have "scs = []" using ok by (simp add: loop_ok_def typing_def)
      with True Nil t(1) Go show ?thesis
        by (intro exI [of _ t] exI [of _ "kb_contents (mkbd (lmach s))"]) simp
    next
      case False
      then have okt: "loop_ok d (irqs_of as) scs t" using t(2) by simp
      note on = loop_ok_going [OF okt]
      note tables = go_step_tables [OF ok t(1) on] and hand = go_account [OF ok go t(1) on]
      obtain u rest where u: "loop_acts d im as t = Some u"
        "keys_handled d im as t @ rest = at_hand t @ taken_in (arrivals d im as t)"
        "map fst (arrivals d im as t) = decode_scancodes (shift_held (mkbd (lmach s))) scs"
        "length (at_hand t) + length (arrivals d im as t) \<le> 255
           \<longrightarrow> taken_in (arrivals d im as t) = map fst (arrivals d im as t)"
        "shut_down u \<or> loop_ok d [] [] u \<and> midt (lmach u) = midt (lmach s) \<and> rest = at_hand u"
        using Cons.IH [OF okt ad] unfolding tables by blast
      have "keys_handled d im (a # as) s @ rest = at_hand s @ taken_in (arrivals d im (a # as) s)"
        unfolding hand using t(1) u(2) Go by (simp del: length_kb_contents)
      moreover have "length (at_hand t) \<le> length (at_hand s)" unfolding hand by simp
      ultimately show ?thesis
        using t(1) u(1,3-5) Go
        by (intro exI [of _ u] exI [of _ rest]) (simp del: length_kb_contents length_append)
    qed
  next
    case (Irq r)
    let ?new = "arrived d r (lmach s)"
    have ok: "loop_ok d (r # irqs_of as) scs s" and can: "possible (Irq r) s" using Cons.prems Irq by simp_all
    obtain t scs' where t: "loop_act d im (Irq r) s = Some t" "loop_ok d (irqs_of as) scs' t"
      "in_hand (lpc t) = in_hand (lpc s)" "midt (lmach t) = midt (lmach s)"
      "kb_contents (mkbd (lmach t)) = kb_contents (mkbd (lmach s)) @ taken_in ?new"
      "map fst ?new @ decode_scancodes (shift_held (mkbd (lmach t))) scs'
        = decode_scancodes (shift_held (mkbd (lmach s))) scs" using irq_account [OF ok can, of im] by blast
    have ad: "admissible d im as t" using Cons.prems(2) t(1) Irq by simp
    have hand: "at_hand t = at_hand s @ taken_in ?new" using t(3,5) by simp
    obtain u rest where u: "loop_acts d im as t = Some u"
      "keys_handled d im as t @ rest = at_hand t @ taken_in (arrivals d im as t)"
      "map fst (arrivals d im as t) = decode_scancodes (shift_held (mkbd (lmach t))) scs'"
      "length (at_hand t) + length (arrivals d im as t) \<le> 255
         \<longrightarrow> taken_in (arrivals d im as t) = map fst (arrivals d im as t)"
      "shut_down u \<or> loop_ok d [] [] u \<and> midt (lmach u) = midt (lmach s) \<and> rest = at_hand u"
      using Cons.IH [OF t(2) ad] unfolding t(4) by blast
    have all: "arrivals d im (a # as) s = ?new @ arrivals d im as t" using t(1) Irq by simp
    have room: "taken_in (?new @ arrivals d im as t) = map fst (?new @ arrivals d im as t)"
      if "length (at_hand s) + length (?new @ arrivals d im as t) \<le> 255"
    proof -
      have now: "taken_in ?new = map fst ?new"
      proof (rule ccontr)
        assume no: "taken_in ?new \<noteq> map fst ?new"
        then have "?new \<noteq> []" by auto
        then show False using arrived_dropped [OF no] that by (cases ?new) (auto simp del: length_kb_contents)
      qed
      then have "length (taken_in ?new) = length ?new" by (metis length_map)
      with that u(4) now show ?thesis unfolding hand by (simp del: length_kb_contents)
    qed
    have "keys_handled d im (a # as) s @ rest = at_hand s @ taken_in (arrivals d im (a # as) s)"
      unfolding all using t(1) u(2) Irq by (simp add: hand)
    moreover have "map fst (arrivals d im (a # as) s) = decode_scancodes (shift_held (mkbd (lmach s))) scs"
      unfolding all using u(3) t(6) by simp
    ultimately show ?thesis
      using t(1) u(1,5) room Irq unfolding all by (intro exI [of _ u] exI [of _ rest]) simp
  qed
qed

section \<open>What the keys do\<close>

text \<open>Keys other than Enter edit the line, one by one, and leave the kernel alone.\<close>

lemma go_step_line:
  assumes ok: "loop_ok d irqs scs s" and nl: "LF \<notin> set (in_hand (lpc s))"
    and step: "loop_act d im Go s = Some t"
  shows "typed (lshell t) = foldl edit (typed (lshell s)) (in_hand (lpc s))"
    "mkern (lmach t) = mkern (lmach s)" "\<not> ended (lpc t)"
proof -
  obtain x sh m where s: "s = \<lparr>lpc = x, lshell = sh, lmach = m\<rparr>" by (cases s)
  have "typed (lshell t) = foldl edit (typed sh) (in_hand x) \<and> mkern (lmach t) = mkern m \<and> \<not> ended (lpc t)"
  proof (cases x)
    case (Handling c)
    then have c: "shell_ok sh" "c \<noteq> NUL" "c \<noteq> LF" "cursor_ok (mvga m)"
      using ok nl by (auto simp: s loop_ok_def shell_core_def)
    obtain sh' n where "shell_key d im c sh m = Some (sh', Done n)" "typed sh' = edit (typed sh) c"
      "only_screen m n" using shell_key_char [OF c(1,4,3,2), of d im] by blast
    with step Handling show ?thesis by (auto simp: s loop_act.simps only_screen_def)
  next
    case (Ended r)
    with ok show ?thesis by (simp add: s loop_ok_def)
  qed (use step in \<open>auto simp: s loop_act.simps Let_def split: if_splits\<close>)
  then show "typed (lshell t) = foldl edit (typed (lshell s)) (in_hand (lpc s))"
    "mkern (lmach t) = mkern (lmach s)" "\<not> ended (lpc t)" by (simp_all add: s)
qed

lemma irq_step_line:
  assumes "loop_ok d (r # irqs) scs s" "loop_act d im (Irq r) s = Some t"
  shows "lshell t = lshell s" "mkern (lmach t) = mkern (lmach s)"
proof -
  have ty: "typing d (r # irqs) scs (lmach s)" using assms(1) by (simp add: loop_ok_def)
  then have h: "irq_handlers (midt (lmach s)) = boot_handlers" "32 \<le> int_no r"
    "schedule (mkern (lmach s)) = Some (Returns (mkern (lmach s)))" by (simp_all add: typing_def)
  obtain n where "common_isr_handler d r (lmach s) = Some (Done n)" "mkern n = mkern (lmach s)"
  proof (cases "is_key r")
    case True
    with keyboard_irq [of r "lmach s" d] h(1) that show ?thesis by (simp add: is_key_def)
  next
    case False
    with other_irq [OF h(2) False h(1,3), of d] that show ?thesis by auto
  qed
  with assms(2) show "lshell t = lshell s" "mkern (lmach t) = mkern (lmach s)" by (auto simp: loop_act.simps)
qed

lemma kept_set: "kept xs ys \<Longrightarrow> set xs \<subseteq> set ys"
  by (auto simp: kept_def dest: list_emb_set)

lemma line_run:
  assumes "loop_ok d (irqs_of as) scs s" "admissible d im as s" "LF \<notin> set (to_come scs s)"
  shows "\<exists>t. loop_acts d im as s = Some t \<and> loop_ok d [] [] t \<and> mkern (lmach t) = mkern (lmach s)
    \<and> typed (lshell t) = foldl edit (typed (lshell s)) (keys_handled d im as s)
    \<and> kept (keys_handled d im as s @ to_come [] t) (to_come scs s)"
  using assms
proof (induction as arbitrary: s scs)
  case Nil
  then have "scs = []" by (simp add: loop_ok_def typing_def)
  with Nil.prems show ?case by simp
next
  case (Cons a as)
  obtain t scs' where t: "loop_act d im a s = Some t" "loop_ok d (irqs_of as) scs' t"
    "kept ((if a = Go then in_hand (lpc s) else []) @ to_come scs' t) (to_come scs s)"
    "typed (lshell t) = foldl edit (typed (lshell s)) (if a = Go then in_hand (lpc s) else [])"
    "mkern (lmach t) = mkern (lmach s)"
  proof (cases a)
    case Go
    with Cons.prems obtain t where t: "loop_act d im Go s = Some t"
      "loop_ok d (irqs_of as) scs t \<or> shut_down t" "consumed (in_hand (lpc s)) scs s t"
      using go_step [of d "irqs_of as" scs s im] by auto
    have ok: "loop_ok d (irqs_of as) scs s" using Cons.prems(1) Go by simp
    have nl: "LF \<notin> set (in_hand (lpc s))" using Cons.prems(3) by (auto simp: to_come_def)
    note l = go_step_line [OF ok nl t(1)]
    have "loop_ok d (irqs_of as) scs t" using t(2) l(3) shut_down_ended by blast
    moreover have "to_come scs s = in_hand (lpc s) @ to_come scs t" using t(3) l(3) by (auto simp: consumed_def)
    ultimately show ?thesis using that [OF _ _ _ _ l(2), of scs] t(1) l(1) Go by simp
  next
    case (Irq r)
    with Cons.prems obtain t scs' where t: "loop_act d im (Irq r) s = Some t"
      "loop_ok d (irqs_of as) scs' t" "kept (to_come scs' t) (to_come scs s)"
      using irq_step [of d r "irqs_of as" scs s im] by auto
    have "loop_ok d (r # irqs_of as) scs s" using Cons.prems(1) Irq by simp
    from irq_step_line [OF this t(1)] that [OF _ t(2)] t Irq show ?thesis by simp
  qed
  have ad: "admissible d im as t" using Cons.prems(2) t(1) by simp
  have nl: "LF \<notin> set (to_come scs' t)" using kept_set [OF t(3)] Cons.prems(3) by auto
  obtain u where u: "loop_acts d im as t = Some u" "loop_ok d [] [] u" "mkern (lmach u) = mkern (lmach t)"
    "typed (lshell u) = foldl edit (typed (lshell t)) (keys_handled d im as t)"
    "kept (keys_handled d im as t @ to_come [] u) (to_come scs' t)" using Cons.IH [OF t(2) ad nl] by blast
  have "kept (keys_handled d im (a # as) s @ to_come [] u) (to_come scs s)"
    using kept_trans [OF kept_append [OF u(5)] t(3)] t(1) by simp
  with u t show ?case by (intro exI [of _ u]) simp
qed

section \<open>Falling asleep\<close>

text \<open>The number of statements that lead from here to the next key, or to sleep.\<close>

fun awake :: "loop_pc \<Rightarrow> bool" where
  "awake Enabling \<longleftrightarrow> False"
| "awake Halting \<longleftrightarrow> False"
| "awake Halted \<longleftrightarrow> False"
| "awake (Ended r) \<longleftrightarrow> False"
| "awake _ \<longleftrightarrow> True"

fun steps_on :: "loop_pc \<Rightarrow> nat" where
  "steps_on Masking = 6"
| "steps_on Unmasking = 5"
| "steps_on Counting = 4"
| "steps_on Top = 4"
| "steps_on Testing = 3"
| "steps_on Reading = 2"
| "steps_on (Advancing c) = 1"
| "steps_on _ = 0"

definition own_left :: "loop \<Rightarrow> nat" where
  "own_left s = steps_on (lpc s) + 5 * length (to_come [] s)"

lemma awake_step:
  assumes ok: "loop_ok d [] [] s" and aw: "awake (lpc s)" and busy: "lpc s = Testing \<longrightarrow> to_come [] s \<noteq> []"
  obtains t where "loop_act d im Go s = Some t" "possible Go s"
    "shut_down t \<or> loop_ok d [] [] t \<and> awake (lpc t) \<and> own_left t < own_left s"
proof -
  obtain x sh m where s: "s = \<lparr>lpc = x, lshell = sh, lmach = m\<rparr>" by (cases s)
  have go: "possible Go s" using aw by (cases "lpc s") (simp_all add: possible.simps)
  obtain t where t: "loop_act d im Go s = Some t" "loop_ok d [] [] t \<or> shut_down t"
    "consumed (in_hand (lpc s)) [] s t" using go_step [OF ok go] by blast
  have "awake (lpc t) \<and> own_left t < own_left s" if okt: "loop_ok d [] [] t"
  proof -
    have come: "to_come [] s = in_hand x @ to_come [] t"
      using t(3) loop_ok_going [OF okt] by (auto simp: consumed_def s)
    have pc: "pc_ok x (mkbd m)" "pc_ok (lpc t) (mkbd (lmach t))" using ok okt by (simp_all add: s loop_ok_def)
    have inv: "kb_invar (mkbd m)" using ok by (simp add: s loop_ok_def typing_def)
    show ?thesis
    proof (cases x)
      case Testing
      then have "kb_contents (mkbd m) \<noteq> []" using busy by (simp add: s to_come_def pending_def)
      with Testing t(1) have "lpc t = Reading" by (auto simp: s loop_act.simps head_tail_contents)
      with come Testing show ?thesis by (simp add: own_left_def s)
    next
      case (Advancing c)
      then obtain cs where "kb_contents (mkbd m) = c # cs" using pc(1) by auto
      from take_char(2) [OF inv this] Advancing t(1) have "lpc t = Handling c" by (auto simp: s loop_act.simps)
      with come Advancing show ?thesis by (simp add: own_left_def s)
    next
      case (Handling c)
      obtain sh' r where r: "shell_key d im c sh m = Some (sh', r)" using t(1) Handling by (auto simp: s loop_act.simps)
      have "lpc t = Top" using t(1) Handling r loop_ok_going [OF okt] by (cases r) (auto simp: s loop_act.simps)
      with come Handling show ?thesis by (simp add: own_left_def s)
    qed (use t(1) come aw in \<open>auto simp: s loop_act.simps own_left_def Let_def\<close>)
  qed
  with that [OF t(1) go] t(2) show ?thesis by blast
qed

lemma falls_asleep:
  assumes "loop_ok d [] [] s" "awake (lpc s)"
  shows "\<exists>n t. n \<le> own_left s \<and> admissible d im (replicate n Go) s
    \<and> loop_acts d im (replicate n Go) s = Some t
    \<and> (shut_down t \<or> loop_ok d [] [] t \<and> lpc t = Halted \<and> to_come [] t = [])"
  using assms
proof (induction "own_left s" arbitrary: s rule: less_induct)
  case less
  show ?case
  proof (cases "lpc s = Testing \<and> to_come [] s = []")
    case True
    obtain sh m where s: "s = \<lparr>lpc = Testing, lshell = sh, lmach = m\<rparr>" using True by (cases s) simp
    have none: "kb_head (mkbd m) = kb_tail (mkbd m)"
      using True by (simp add: s to_come_def pending_def head_tail_contents)
    have on: "mif m" using less.prems(1) by (simp add: s loop_ok_def)
    let ?t = "\<lparr>lpc = Halted, lshell = sh, lmach = m\<lparr>mif := True\<rparr>\<rparr>"
    have run: "admissible d im (replicate 3 Go) s" "loop_acts d im (replicate 3 Go) s = Some ?t"
      using none on by (simp_all add: s loop_act.simps possible.simps eval_nat_numeral)
    have "loop_ok d [] [] ?t \<and> to_come [] ?t = to_come [] s"
      using loop_ok_quiet [OF less.prems(1) [unfolded s], of "m\<lparr>mif := True\<rparr>" Halted sh] less.prems(1)
      by (simp add: s loop_ok_def)
    with run True show ?thesis by (intro exI [of _ 3] exI [of _ ?t]) (simp add: own_left_def)
  next
    case False
    then have "lpc s = Testing \<longrightarrow> to_come [] s \<noteq> []" by blast
    from awake_step [OF less.prems this] obtain t where t: "loop_act d im Go s = Some t" "possible Go s"
      "shut_down t \<or> loop_ok d [] [] t \<and> awake (lpc t) \<and> own_left t < own_left s" by blast
    show ?thesis
    proof (cases "shut_down t")
      case True
      have "0 < own_left s" using False less.prems(2) by (cases "lpc s") (auto simp: own_left_def to_come_def)
      with True t(1,2) show ?thesis
        by (intro exI [of _ 1] exI [of _ t]) simp
    next
      case False
      with t(3) have r: "loop_ok d [] [] t" "awake (lpc t)" "own_left t < own_left s" by simp_all
      from less.hyps [OF r(3,1,2)] obtain n u where n: "n \<le> own_left t" "admissible d im (replicate n Go) t"
        "loop_acts d im (replicate n Go) t = Some u"
        "shut_down u \<or> loop_ok d [] [] u \<and> lpc u = Halted \<and> to_come [] u = []" by blast
      with t(1,2) r(3) show ?thesis by (intro exI [of _ "Suc n"] exI [of _ u]) simp
    qed
  qed
qed

lemma comes_to_rest:
  assumes ok: "loop_ok d [] [] s"
  shows "\<exists>n t. n \<le> 5 * length (at_hand s) + 6 \<and> admissible d im (replicate n Go) s
    \<and> loop_acts d im (replicate n Go) s = Some t
    \<and> (shut_down t \<or> lpc t = Halted \<and> mif (lmach t))"
proof -
  have on: "lpc s \<noteq> Unmasking \<Longrightarrow> mif (lmach s)" using ok by (simp add: loop_ok_def)
  consider "awake (lpc s)" | "lpc s = Enabling" | "lpc s = Halting" | "lpc s = Halted"
    using loop_ok_going [OF ok] by (cases "lpc s") auto
  then show ?thesis
  proof cases
    case 1
    have "own_left s \<le> 5 * length (at_hand s) + 6"
      by (cases "lpc s") (simp_all add: own_left_def to_come_def pending_def del: length_kb_contents)
    moreover obtain n t where "n \<le> own_left s" "admissible d im (replicate n Go) s"
      "loop_acts d im (replicate n Go) s = Some t"
      "shut_down t \<or> loop_ok d [] [] t \<and> lpc t = Halted \<and> to_come [] t = []"
      using falls_asleep [OF ok 1] by blast
    ultimately show ?thesis by (intro exI [of _ n] exI [of _ t]) (auto simp: loop_ok_def)
  next
    case 2
    with on show ?thesis
      by (intro exI [of _ 2] exI [of _ "s\<lparr>lpc := Halted, lmach := (lmach s)\<lparr>mif := True\<rparr>\<rparr>"])
        (simp add: loop_act.simps possible.simps eval_nat_numeral)
  next
    case 3
    with on show ?thesis
      by (intro exI [of _ 1] exI [of _ "s\<lparr>lpc := Halted\<rparr>"]) (simp add: loop_act.simps possible.simps)
  next
    case 4
    with on show ?thesis by (intro exI [of _ 0] exI [of _ s]) simp
  qed
qed

lemma line_goes_on:
  assumes "loop_ok d (irqs_of as) scs s" "admissible d im as s" "LF \<notin> set (to_come scs s)"
    and "loop_acts d im as s = Some t"
  shows "\<not> shut_down t"
  using line_run [OF assms(1-3)] assms(4) loop_ok_going shut_down_ended by fastforce

lemma irqs_of_go [simp]: "irqs_of (replicate n Go) = []"
  by (induction n) simp_all

section \<open>The booted system\<close>

definition loop_start :: "string \<Rightarrow> machine \<Rightarrow> loop" where
  "loop_start junk m = \<lparr> lpc = Top,
     lshell = \<lparr> line_buf = junk, line_pos = 0, keystroke_count = 0, idle_count = 0 \<rparr>,
     lmach = shell_opening m \<rparr>"

lemma loop_start_ok:
  assumes "booted im t" "typist d irqs scs" "length scs < 2 ^ 32 - 2" "length junk = MAX_LINE"
  shows "loop_ok d irqs scs (loop_start junk t)" "to_come scs (loop_start junk t) = decode_scancodes 0 scs"
proof -
  note o = shell_opened [OF assms(1-3)]
  show "to_come scs (loop_start junk t) = decode_scancodes 0 scs"
    using o(2) by (simp add: to_come_def loop_start_def)
  show "loop_ok d irqs scs (loop_start junk t)"
    using o fresh_shell_ok(1) [OF assms(4)] by (auto simp: loop_ok_def loop_start_def to_come_def)
qed

lemma loop_start_fresh:
  assumes "booted im t" "typist d irqs scs" "length scs < 2 ^ 32 - 2"
  shows "at_hand (loop_start junk t) = []" "shift_held (mkbd (lmach (loop_start junk t))) = 0"
    "midt (lmach (loop_start junk t)) = midt t"
proof -
  have "cursor_ok (mvga t)" using assms(1) by (simp add: booted_def shell_inv_def)
  from only_screen_quiet [OF shell_opening_screen [OF this]]
  have same: "mkbd (shell_opening t) = mkbd t" "midt (shell_opening t) = midt t" by (simp_all add: quiet_def)
  have "mkbd t = keyboard_init kbd_boot" using assms(1) by (simp add: booted_def)
  then show "at_hand (loop_start junk t) = []" "shift_held (mkbd (lmach (loop_start junk t))) = 0"
    "midt (lmach (loop_start junk t)) = midt t"
    using same keyboard_init_empty by (simp_all add: loop_start_def keyboard_init_def)
qed

section \<open>A shell at work\<close>

lemma session_loop_ok:
  assumes "length (filter is_key irqs) = length scs" "\<forall>r \<in> set irqs. 32 \<le> int_no r"
    and "x = Halted \<or> x = Testing" "length (to_come scs \<lparr>lpc = x, lshell = empty_shell, lmach = session_machine\<rparr>) < 1000"
  shows "loop_ok (keyboard_demo scs) irqs scs \<lparr>lpc = x, lshell = empty_shell, lmach = session_machine\<rparr>"
proof -
  have "next_pid (mkern session_machine) = 2" "mif session_machine"
    by (simp_all add: session_machine_def session_kern_def mark_blocked_def demo_kern_def demo_machine_def)
  with assms session_typing [OF assms(1,2)] session_core empty_shell_ok show ?thesis
    by (auto simp: loop_ok_def)
qed

section \<open>Properties\<close>

text \<open>The machine as the loop leaves it after some actions, in a system that has booted.\<close>

lemma booted_loop_run:
  assumes b: "booted im t" and ty: "typist d (irqs_of as) scs" "length scs < 2 ^ 32 - 2"
    and len: "length junk = MAX_LINE" and ad: "admissible d im as (loop_start junk t)"
  obtains s where "loop_acts d im as (loop_start junk t) = Some s"
    "shut_down s \<or> loop_ok d [] [] s \<and> midt (lmach s) = midt t"
  using loop_account [OF loop_start_ok(1) [OF b ty len] ad] loop_start_fresh(3) [OF b ty, of junk] by auto

text \<open>A session on the machine of the examples: the key L arrives before the first statement of the loop.\<close>

lemma demo_session:
  obtains es t n where "boot_regions demo_mem demo_mb = Some es"
    "kernel_boot (keyboard_demo [0x26]) demo_image demo_mem demo_mb cold_machine = Some (Done t)"
    "booted demo_image t"
    "typist (keyboard_demo [0x26]) (irqs_of (Irq (demo_regs 33) # replicate n Go)) [0x26]"
    "admissible (keyboard_demo [0x26]) demo_image (Irq (demo_regs 33) # replicate n Go)
       (loop_start (replicate 256 (CHR ''?'')) t)"
    "loop_ok (keyboard_demo [0x26]) [demo_regs 33] [0x26] (loop_start (replicate 256 (CHR ''?'')) t)"
proof -
  let ?d = "keyboard_demo [0x26]" and ?r = "demo_regs 33" and ?junk = "replicate 256 (CHR ''?'')"
  obtain es where es: "boot_regions demo_mem demo_mb = Some es" "boot_pages demo_image demo_mb es \<noteq> {}"
    using demo_map by blast
  have k: "0 < kernel_page_count (kernel_end_addr demo_image)" by (simp add: demo_image_pages)
  obtain t where t: "kernel_boot ?d demo_image demo_mem demo_mb cold_machine = Some (Done t)" "booted demo_image t"
    by (rule kernel_boot_spec [OF cold_power_on demo_uart_live(1) es(1) k]) (use es(2) in blast)
  have irqs: "irqs_of (Irq ?r # replicate n Go) = [?r]" for n by simp
  have ty: "typist ?d [?r] [0x26]"
    using kbd_script_script [of "[0x26]" "[]"]
    by (simp add: typist_def keyboard_demo_def is_key_def demo_regs_def del: kbd_script.simps)
  have len: "length ?junk = MAX_LINE" "length [0x26 :: uint8_t] < 2 ^ 32 - 2" by (simp_all add: MAX_LINE_def)
  note start = loop_start_ok [OF t(2) ty len(2,1)]
  have go: "possible (Irq ?r) (loop_start ?junk t)" using shell_opened(4) [OF t(2) ty len(2)]
    by (simp add: possible.simps loop_start_def)
  obtain s scs' where s: "loop_act ?d demo_image (Irq ?r) (loop_start ?junk t) = Some s" "loop_ok ?d [] scs' s"
    using irq_step [OF start(1) go, of demo_image] by blast
  have "scs' = []" using s(2) by (simp add: loop_ok_def typing_def)
  moreover have "awake (lpc s)"
    using irq_pc [OF s(1) loop_ok_going [OF s(2)]] by (simp add: loop_start_def)
  ultimately obtain n where n: "admissible ?d demo_image (replicate n Go) s"
    using falls_asleep [of ?d s demo_image] s(2) by blast
  have "admissible ?d demo_image (Irq ?r # replicate n Go) (loop_start ?junk t)" using go s(1) n by simp
  from that [OF es(1) t ty [folded irqs [of n]] this start(1)] show ?thesis .
qed

text \<open>C1: the system stays up. From power-on the boot ends, in a panic with interrupts off when the memory map
  leaves no page for the kernel, and otherwise in the loop of the shell. Whatever is typed then, and wherever keys, timer
  ticks and spurious interrupts fall between the statements of the loop, the loop never gets stuck and the processor never
  leaves it: either a command has stopped the machine, or the line is in bounds, the cursor on the screen and the run
  queue exactly the live slots, and after at most five statements for each key at hand and six more, if no
  other interrupt comes, the shell is asleep in \<^verbatim>\<open>hlt\<close> with interrupts on, or a command has stopped the
  machine. Handling a key, and with it a whole command, is one statement here: what a tick inside one does is the
  subject of the theories on preemption and of \<open>Hazards\<close>.\<close>

theorem kernel_stays_up:
  assumes "power_on m" "uart_live (uart d)"
    and "boot_regions mem mb = Some es" "0 < kernel_page_count (kernel_end_addr im)"
    and "typist d (irqs_of as) scs" "length scs < 2 ^ 32 - 2" "length junk = MAX_LINE"
  shows "\<exists>r. kernel_boot d im mem mb m = Some r \<and> (case r of
      Away t \<Rightarrow> False
    | Stopped t \<Rightarrow> boot_pages im mb es = {} \<and> \<not> mif t
    | Done t \<Rightarrow> boot_pages im mb es \<noteq> {} \<and> (admissible d im as (loop_start junk t) \<longrightarrow>
        (\<exists>s. loop_acts d im as (loop_start junk t) = Some s
          \<and> (shut_down s \<or> shell_ok (lshell s) \<and> (\<exists>ys. shell_core (lmach s) ys)
               \<and> (\<exists>n u. n \<le> 5 * length (at_hand s) + 6 \<and> admissible d im (replicate n Go) s
                    \<and> loop_acts d im (replicate n Go) s = Some u
                    \<and> (shut_down u \<or> lpc u = Halted \<and> mif (lmach u)))))))"
proof -
  have run: "\<exists>s. loop_acts d im as (loop_start junk t) = Some s
      \<and> (shut_down s \<or> shell_ok (lshell s) \<and> (\<exists>ys. shell_core (lmach s) ys)
           \<and> (\<exists>n u. n \<le> 5 * length (at_hand s) + 6 \<and> admissible d im (replicate n Go) s
                \<and> loop_acts d im (replicate n Go) s = Some u
                \<and> (shut_down u \<or> lpc u = Halted \<and> mif (lmach u))))"
    if b: "booted im t" and ad: "admissible d im as (loop_start junk t)" for t
  proof -
    obtain s where s: "loop_acts d im as (loop_start junk t) = Some s"
      "shut_down s \<or> loop_ok d [] [] s \<and> midt (lmach s) = midt t"
      by (rule booted_loop_run [OF b assms(5-7) ad])
    show ?thesis
    proof (cases "shut_down s")
      case False
      then have ok: "loop_ok d [] [] s" using s(2) by simp
      then have "shell_ok (lshell s)" "\<exists>ys. shell_core (lmach s) ys" by (simp_all add: loop_ok_def)
      with s(1) comes_to_rest [OF ok, of im] show ?thesis by blast
    qed (use s(1) in blast)
  qed
  obtain w where down: "boot_pages im mb es = {} \<Longrightarrow> kernel_boot d im mem mb m
        = kernel_panic d ''scheduler_init: failed to create idle process'' w"
    and up: "boot_pages im mb es \<noteq> {} \<Longrightarrow> \<exists>t. kernel_boot d im mem mb m = Some (Done t) \<and> booted im t"
    by (rule kernel_boot_spec [OF assms(1-4)]) blast
  show ?thesis
  proof (cases "boot_pages im mb es = {}")
    case True
    have c: "c_string ''scheduler_init: failed to create idle process''" by (simp add: c_string_def)
    then have "c_string (panic_text ''scheduler_init: failed to create idle process'')"
      by (simp add: panic_text_def c_string_def)
    from serial_print_returns [OF assms(2) this, of "mserial w"] down True show ?thesis
      by (auto simp: kernel_panic_eq [OF c])
  next
    case False
    then obtain t where t: "kernel_boot d im mem mb m = Some (Done t)" "booted im t" using up by blast
    show ?thesis using False run [OF t(2)] by (intro exI [of _ "Done t"] conjI t(1)) simp
  qed
qed

text \<open>The key L is typed as the shell opens.\<close>

theorem kernel_stays_up_witness:
  "\<exists>t n s. kernel_boot (keyboard_demo [0x26]) demo_image demo_mem demo_mb cold_machine = Some (Done t)
     \<and> loop_acts (keyboard_demo [0x26]) demo_image (Irq (demo_regs 33) # replicate n Go)
         (loop_start (replicate 256 (CHR ''?'')) t) = Some s
     \<and> (shut_down s \<or> shell_ok (lshell s) \<and> (\<exists>ys. shell_core (lmach s) ys))"
proof -
  let ?junk = "replicate 256 (CHR ''?'')"
  have len: "length ?junk = MAX_LINE" "length [0x26 :: uint8_t] < 2 ^ 32 - 2" by (simp_all add: MAX_LINE_def)
  have k: "0 < kernel_page_count (kernel_end_addr demo_image)" by (simp add: demo_image_pages)
  obtain es t n where s: "boot_regions demo_mem demo_mb = Some es"
    "kernel_boot (keyboard_demo [0x26]) demo_image demo_mem demo_mb cold_machine = Some (Done t)" "booted demo_image t"
    "typist (keyboard_demo [0x26]) (irqs_of (Irq (demo_regs 33) # replicate n Go)) [0x26]"
    "admissible (keyboard_demo [0x26]) demo_image (Irq (demo_regs 33) # replicate n Go) (loop_start ?junk t)"
    by (rule demo_session)
  from kernel_stays_up [OF cold_power_on demo_uart_live(1) s(1) k s(4) len(2,1)] s(2,5) show ?thesis
    by auto
qed

text \<open>C2: the only keys the shell misses are those typed into a full buffer. In the booted system, with keys,
  timer ticks and spurious interrupts between any statements of the loop of the shell and of \<open>keyboard_getchar\<close>,
  nothing gets stuck; every character typed arrives, in order (\<open>arrivals\<close>, which records for each whether the buffer
  held less than 255 at that moment); and the keys that the shell has handled, followed by the one in hand and those
  in the buffer, are exactly the arrivals that found room: each of them once, in order. The keyboard handler
  discards the others. The shell goes on until a command stops the machine.\<close>

theorem interrupted_shell_keeps_keys:
  assumes "power_on m" "uart_live (uart d)"
    and "boot_regions mem mb = Some es" "0 < kernel_page_count (kernel_end_addr im)"
    and "kernel_boot d im mem mb m = Some (Done t)"
    and "typist d (irqs_of as) scs" "length scs < 2 ^ 32 - 2" "length junk = MAX_LINE"
    and "admissible d im as (loop_start junk t)"
  shows "\<exists>s rest. loop_acts d im as (loop_start junk t) = Some s
    \<and> map fst (arrivals d im as (loop_start junk t)) = decode_scancodes 0 scs
    \<and> keys_handled d im as (loop_start junk t) @ rest = taken_in (arrivals d im as (loop_start junk t))
    \<and> (length (decode_scancodes 0 scs) \<le> 255 \<longrightarrow>
         keys_handled d im as (loop_start junk t) @ rest = decode_scancodes 0 scs)
    \<and> (shut_down s \<or> shell_ok (lshell s) \<and> \<not> ended (lpc s)
         \<and> rest = in_hand (lpc s) @ kb_contents (mkbd (lmach s)))"
proof -
  note b = boot_done [OF assms(1-5)]
  note start = loop_start_ok [OF b assms(6-8)]
  have none: "at_hand (loop_start junk t) = []" "shift_held (mkbd (lmach (loop_start junk t))) = 0"
    using loop_start_fresh [OF b assms(6,7)] by simp_all
  obtain s rest where s: "loop_acts d im as (loop_start junk t) = Some s"
    "keys_handled d im as (loop_start junk t) @ rest = taken_in (arrivals d im as (loop_start junk t))"
    "map fst (arrivals d im as (loop_start junk t)) = decode_scancodes 0 scs"
    "length (arrivals d im as (loop_start junk t)) \<le> 255 \<longrightarrow> taken_in (arrivals d im as (loop_start junk t))
       = map fst (arrivals d im as (loop_start junk t))"
    "shut_down s \<or> loop_ok d [] [] s \<and> rest = at_hand s"
    using loop_account [OF start(1) assms(9)] unfolding none by auto
  have "length (arrivals d im as (loop_start junk t)) = length (decode_scancodes 0 scs)"
    using arg_cong [OF s(3), of length] by simp
  moreover have "shut_down s \<or> shell_ok (lshell s) \<and> \<not> ended (lpc s) \<and> rest = at_hand s"
    using s(5) loop_ok_going [of d "[]" "[]" s] by (auto simp: loop_ok_def)
  ultimately show ?thesis using s(1-4) by (intro exI [of _ s] exI [of _ rest]) simp
qed

text \<open>The key L arrives before the first statement of the loop.\<close>

theorem interrupted_shell_keeps_keys_witness:
  "\<exists>t n s. kernel_boot (keyboard_demo [0x26]) demo_image demo_mem demo_mb cold_machine = Some (Done t)
     \<and> loop_acts (keyboard_demo [0x26]) demo_image (Irq (demo_regs 33) # replicate n Go)
         (loop_start (replicate 256 (CHR ''?'')) t) = Some s
     \<and> keys_handled (keyboard_demo [0x26]) demo_image (Irq (demo_regs 33) # replicate n Go)
         (loop_start (replicate 256 (CHR ''?'')) t) @ in_hand (lpc s) @ kb_contents (mkbd (lmach s)) = ''l''"
proof -
  let ?d = "keyboard_demo [0x26]" and ?r = "demo_regs 33" and ?junk = "replicate 256 (CHR ''?'')"
  have len: "length ?junk = MAX_LINE" "length [0x26 :: uint8_t] < 2 ^ 32 - 2" by (simp_all add: MAX_LINE_def)
  have k: "0 < kernel_page_count (kernel_end_addr demo_image)" by (simp add: demo_image_pages)
  obtain es t n where s: "boot_regions demo_mem demo_mb = Some es"
    "kernel_boot ?d demo_image demo_mem demo_mb cold_machine = Some (Done t)" "booted demo_image t"
    "typist ?d (irqs_of (Irq ?r # replicate n Go)) [0x26]"
    "admissible ?d demo_image (Irq ?r # replicate n Go) (loop_start ?junk t)"
    "loop_ok ?d [?r] [0x26] (loop_start ?junk t)"
    by (rule demo_session)
  let ?as = "Irq ?r # replicate n Go"
  have dec: "decode_scancodes 0 [0x26] = ''l''" by code_simp
  from interrupted_shell_keeps_keys [OF cold_power_on demo_uart_live(1) s(1) k s(2,4) len(2,1) s(5)]
  obtain u rest where u: "loop_acts ?d demo_image ?as (loop_start ?junk t) = Some u"
    "keys_handled ?d demo_image ?as (loop_start ?junk t) @ rest = ''l''"
    "shut_down u \<or> rest = in_hand (lpc u) @ kb_contents (mkbd (lmach u))"
    unfolding dec by auto
  have ok: "loop_ok ?d (irqs_of ?as) [0x26] (loop_start ?junk t)" using s(6) by simp
  have "to_come [0x26] (loop_start ?junk t) = ''l''" using loop_start_ok(2) [OF s(3,4) len(2,1)] dec by simp
  then have "\<not> shut_down u" by (intro line_goes_on [OF ok s(5) _ u(1)]) simp
  with s(2) u show ?thesis by blast
qed

text \<open>C21: interrupts do not spoil the line. Wherever they fall, while no Enter is typed and no more keys than the
  buffer holds, the line on which the keys in hand and in the buffer still have to act becomes the line that all
  the typed keys make of the first one, and the kernel state is untouched: what the user gets does not
  depend on when the keys come in.\<close>

theorem interrupted_shell_edits_line:
  assumes "loop_ok d (irqs_of as) scs s" "admissible d im as s"
    and "LF \<notin> set (to_come scs s)" "length (to_come scs s) \<le> 255"
  shows "\<exists>t. loop_acts d im as s = Some t \<and> mkern (lmach t) = mkern (lmach s) \<and> shell_ok (lshell t)
    \<and> foldl edit (typed (lshell t)) (in_hand (lpc t) @ kb_contents (mkbd (lmach t)))
        = foldl edit (typed (lshell s)) (to_come scs s)"
proof -
  obtain t where t: "loop_acts d im as s = Some t" "loop_ok d [] [] t" "mkern (lmach t) = mkern (lmach s)"
    "typed (lshell t) = foldl edit (typed (lshell s)) (keys_handled d im as s)"
    "kept (keys_handled d im as s @ to_come [] t) (to_come scs s)" using line_run [OF assms(1-3)] by blast
  have "to_come scs s = keys_handled d im as s @ in_hand (lpc t) @ kb_contents (mkbd (lmach t))"
    using t(5) assms(4) by (simp add: kept_def to_come_def pending_def)
  with t show ?thesis by (auto simp: loop_ok_def)
qed

text \<open>The key A comes in just before the buffer is tested.\<close>

theorem interrupted_shell_edits_line_witness:
  "\<exists>n t. loop_acts (keyboard_demo [0x1E]) demo_image (Irq (demo_regs 33) # replicate n Go)
       \<lparr>lpc = Testing, lshell = empty_shell, lmach = session_machine\<rparr> = Some t
     \<and> lpc t = Halted \<and> typed (lshell t) = ''a''"
proof -
  let ?d = "keyboard_demo [0x1E]" and ?r = "demo_regs 33"
  let ?s = "\<lparr>lpc = Testing, lshell = empty_shell, lmach = session_machine\<rparr>"
  have come: "to_come [0x1E] ?s = ''a''"
    unfolding to_come_def loop.simps session_pending in_hand.simps by code_simp
  have ok: "loop_ok ?d [?r] [0x1E] ?s"
    by (rule session_loop_ok) (simp_all add: come is_key_def demo_regs_def)
  have can: "possible (Irq ?r) ?s" using ok by (simp add: possible.simps loop_ok_def)
  obtain u scs' where u: "loop_act ?d demo_image (Irq ?r) ?s = Some u" "loop_ok ?d [] scs' u"
    using irq_step [OF ok can, of demo_image] by blast
  have Nil: "scs' = []" using u(2) by (simp add: loop_ok_def typing_def)
  have "lpc u = Testing" using irq_pc [OF u(1) loop_ok_going [OF u(2)]] by simp
  then obtain n t where n: "admissible ?d demo_image (replicate n Go) u"
    "loop_acts ?d demo_image (replicate n Go) u = Some t"
    "shut_down t \<or> loop_ok ?d [] [] t \<and> lpc t = Halted \<and> to_come [] t = []"
    using falls_asleep [of ?d u demo_image] u(2) Nil by auto
  let ?as = "Irq ?r # replicate n Go"
  have run: "admissible ?d demo_image ?as ?s" "loop_acts ?d demo_image ?as ?s = Some t" using can u(1) n by simp_all
  have ok': "loop_ok ?d (irqs_of ?as) [0x1E] ?s" and nl: "LF \<notin> set (to_come [0x1E] ?s)"
    "length (to_come [0x1E] ?s) \<le> 255" using ok by (simp_all add: come)
  from line_goes_on [OF ok' run(1) nl(1) run(2)] have t: "lpc t = Halted" "kb_contents (mkbd (lmach t)) = []"
    using n(3) by (simp_all add: to_come_def pending_def)
  have "typed (lshell t) = ''a''"
    using interrupted_shell_edits_line [OF ok' run(1) nl] run(2) t
    by (simp add: come empty_shell_ok(2) edit_def MAX_LINE_def)
  with t(1) run(2) show ?thesis by blast
qed

text \<open>C5: the shell catches up. Whatever interrupt ends its sleep, a tick of the timer for instance, when no other
  one comes in it handles every key that has been typed, after at most five statements for each and six more, and
  sleeps again with an empty buffer, unless a command has stopped the machine.\<close>

theorem woken_shell_catches_up:
  assumes "loop_ok d [r] scs s" "lpc s = Halted"
  shows "\<exists>n t. n \<le> 5 * length (to_come scs s) + 6 \<and> admissible d im (Irq r # replicate n Go) s
    \<and> loop_acts d im (Irq r # replicate n Go) s = Some t
    \<and> (shut_down t \<or> lpc t = Halted \<and> mif (lmach t) \<and> kb_contents (mkbd (lmach t)) = []
         \<and> kept (keys_handled d im (Irq r # replicate n Go) s) (to_come scs s))"
proof -
  have can: "possible (Irq r) s" using assms by (simp add: possible.simps loop_ok_def)
  obtain u scs' where u: "loop_act d im (Irq r) s = Some u" "loop_ok d [] scs' u" "kept (to_come scs' u) (to_come scs s)"
    using irq_step [OF assms(1) can] by blast
  have Nil: "scs' = []" using u(2) by (simp add: loop_ok_def typing_def)
  have pc: "lpc u = Masking"
    using irq_pc [OF u(1) loop_ok_going [OF u(2)]] assms(2) by simp
  then have "awake (lpc u)" by simp
  from falls_asleep [OF _ this, of d im] u(2) Nil obtain n t where n: "n \<le> own_left u"
    "admissible d im (replicate n Go) u" "loop_acts d im (replicate n Go) u = Some t"
    "shut_down t \<or> loop_ok d [] [] t \<and> lpc t = Halted \<and> to_come [] t = []" by blast
  let ?as = "Irq r # replicate n Go"
  have run: "admissible d im ?as s" "loop_acts d im ?as s = Some t" using can u(1) n(2,3) by simp_all
  have "loop_ok d (irqs_of ?as) scs s" using assms(1) by simp
  from loop_run [OF this run(1)] run(2) obtain rest where r: "kept (keys_handled d im ?as s @ rest) (to_come scs s)"
    "shut_down t \<or> loop_ok d [] [] t \<and> rest = to_come [] t" by auto
  have "own_left u \<le> 5 * length (to_come scs s) + 6"
    using kept_length [OF u(3)] by (simp add: own_left_def pc Nil)
  moreover have "shut_down t \<or> lpc t = Halted \<and> mif (lmach t) \<and> kb_contents (mkbd (lmach t)) = []
      \<and> kept (keys_handled d im ?as s) (to_come scs s)"
    using n(4) r by (auto simp: shut_down_def loop_ok_def to_come_def pending_def simp del: keys_handled.simps)
  ultimately show ?thesis using n(1) run by (intro exI [of _ n] exI [of _ t]) simp
qed

theorem woken_shell_catches_up_witness:
  "\<exists>n t. n \<le> 11
     \<and> loop_acts (keyboard_demo [0x26]) demo_image (Irq (demo_regs 33) # replicate n Go)
         \<lparr>lpc = Halted, lshell = empty_shell, lmach = session_machine\<rparr> = Some t
     \<and> lpc t = Halted \<and> kb_contents (mkbd (lmach t)) = []
     \<and> keys_handled (keyboard_demo [0x26]) demo_image (Irq (demo_regs 33) # replicate n Go)
         \<lparr>lpc = Halted, lshell = empty_shell, lmach = session_machine\<rparr> = ''l''"
proof -
  let ?s = "\<lparr>lpc = Halted, lshell = empty_shell, lmach = session_machine\<rparr>"
  have come: "to_come [0x26] ?s = ''l''"
    unfolding to_come_def loop.simps session_pending in_hand.simps by code_simp
  have ok: "loop_ok (keyboard_demo [0x26]) [demo_regs 33] [0x26] ?s"
    by (rule session_loop_ok) (simp_all add: come is_key_def demo_regs_def)
  from woken_shell_catches_up [OF this, of demo_image] obtain n t where n: "n \<le> 11"
    "admissible (keyboard_demo [0x26]) demo_image (Irq (demo_regs 33) # replicate n Go) ?s"
    "loop_acts (keyboard_demo [0x26]) demo_image (Irq (demo_regs 33) # replicate n Go) ?s = Some t"
    "shut_down t \<or> lpc t = Halted \<and> kb_contents (mkbd (lmach t)) = []
      \<and> keys_handled (keyboard_demo [0x26]) demo_image (Irq (demo_regs 33) # replicate n Go) ?s = ''l''"
    unfolding come kept_def by auto
  moreover have "\<not> shut_down t"
    by (rule line_goes_on [OF _ n(2) _ n(3), of "[0x26]"]) (use ok in \<open>simp_all add: come\<close>)
  ultimately show ?thesis by blast
qed

text \<open>C33: a key can miss the shell. The test of the buffer and \<^verbatim>\<open>hlt\<close> are separate, and interrupts are on in between:
  a key that comes in after the test finds the shell on its way to sleep, and then it sleeps with the key in the
  buffer and goes on only at the next interrupt.\<close>

theorem key_can_miss_shell:
  assumes "loop_ok d (r # irqs) (sc # scs) s" "lpc s = Testing" "kb_contents (mkbd (lmach s)) = []"
    and "is_key r" "scancode_char (shift_held (mkbd (lmach s))) sc = Some c"
  shows "\<exists>t. admissible d im [Go, Irq r, Go, Go] s \<and> loop_acts d im [Go, Irq r, Go, Go] s = Some t
    \<and> lpc t = Halted \<and> kb_contents (mkbd (lmach t)) = [c] \<and> \<not> possible Go t"
proof -
  obtain sh m where s: "s = \<lparr>lpc = Testing, lshell = sh, lmach = m\<rparr>" using assms(2) by (cases s) simp
  have f: "irq_handlers (midt m) = boot_handlers" "kbd_script (ps2 d) (kb_io (mkbd m)) (sc # scs)"
    "kb_invar (mkbd m)" "mif m" using assms(1) by (simp_all add: s loop_ok_def typing_def)
  let ?k = "(mkbd m)\<lparr>kb_io := kb_io (mkbd m) @ [In KB_DATA_PORT sc]\<rparr>"
  let ?m = "m\<lparr>mkbd := keyboard_scancode sc ?k, mpic := pic_send_eoi 1 (mpic m)\<rparr>"
  have empty: "kb_head (mkbd m) = kb_tail (mkbd m)" using assms(3) by (simp add: s head_tail_contents)
  have isr: "common_isr_handler d r m = Some (Done ?m)"
    using keyboard_irq [of r m d] assms(4) f(1) by (simp add: is_key_def keyboard_handler_scripted [OF f(2)])
  have "c \<noteq> NUL" using assms(5) scancode_char_neq_NUL by auto
  then have "kb_contents (keyboard_scancode sc ?k) = [c]"
    using kb.push_contents [of ?k c] f(3) assms(3,5) by (simp add: s keyboard_scancode_spec del: length_kb_contents)
  then show ?thesis
    using empty isr f(4) by (simp add: s loop_act.simps possible.simps)
qed

theorem key_can_miss_shell_witness:
  "\<exists>t. loop_acts (keyboard_demo [0x26]) demo_image [Go, Irq (demo_regs 33), Go, Go]
       \<lparr>lpc = Testing, lshell = empty_shell, lmach = session_machine\<rparr> = Some t
     \<and> lpc t = Halted \<and> kb_contents (mkbd (lmach t)) = ''l''"
proof -
  let ?s = "\<lparr>lpc = Testing, lshell = empty_shell, lmach = session_machine\<rparr>"
  have come: "to_come [0x26] ?s = ''l''"
    unfolding to_come_def loop.simps session_pending in_hand.simps by code_simp
  have ok: "loop_ok (keyboard_demo [0x26]) [demo_regs 33] [0x26] ?s"
    by (rule session_loop_ok) (simp_all add: come is_key_def demo_regs_def)
  have k: "mkbd session_machine = keyboard_init kbd_boot" by (simp add: session_machine_def demo_machine_def)
  then have e: "kb_contents (mkbd (lmach ?s)) = []" "shift_held (mkbd (lmach ?s)) = 0"
    using keyboard_init_empty by (simp_all add: keyboard_init_def)
  have "scancode_char 0 0x26 = Some (CHR ''l'')" by code_simp
  from key_can_miss_shell [OF ok _ e(1) _ this [folded e(2)], of demo_image] show ?thesis
    by (auto simp: is_key_def demo_regs_def)
qed

end
