(* ===== verification/Spec2Isabelle.thy ===== *)
theory Spec2Isabelle
  imports Boot Kernel Hazards Stubs Context Entry Mutex_Quiet Kill_Preempt
    Thread_Preempt Listing_Preempt First_Run Shell_Interrupted
begin

text \<open>
  A verification library for the kernel under \<^verbatim>\<open>src/\<close>, a 32-bit x86 kernel in C with a few assembler
  stubs, which boots from a Multiboot loader into a shell.

  \<^bold>\<open>The program and its model.\<close> Every component keeps its state in static variables; in the model
  each component has a record with a field per variable, and an operation takes the record and
  returns it updated. An operation that can fail to return (a polling loop without an end, a walk
  along links that do not end, a NULL dereference, a division by zero) returns an option, with
  \<open>None\<close> for not returning; each theorem that such an operation does something says that it is
  \<open>Some\<close>. Machine integers are words of their width, C strings are character lists closed by NUL.

  \<^item> \<open>Prelude\<close>: integer types of \<^verbatim>\<open>include/types.h\<close>, shared lemmas. \<open>Ports\<close>: \<^verbatim>\<open>outb\<close>, \<^verbatim>\<open>inb\<close> as an access
    log, with the device a function from the log to the byte read.
  \<^item> \<open>Gdt\<close>, \<open>Idt\<close>, \<open>Pic\<close>, \<open>Pit\<close>, \<open>Serial\<close>, \<open>Keyboard\<close>, \<open>Vga\<close>: the drivers \<^verbatim>\<open>gdt.c\<close>, \<^verbatim>\<open>idt.c\<close>, \<^verbatim>\<open>pic.c\<close>,
    \<^verbatim>\<open>pit.c\<close>, \<^verbatim>\<open>serial.c\<close>, \<^verbatim>\<open>keyboard.c\<close> and \<^verbatim>\<open>vga.c\<close>, one definition per C function.
  \<^item> \<open>Pmm\<close>: the page bitmap of \<^verbatim>\<open>pmm.c\<close> and its initialisation from the Multiboot memory map. The pages that a
    map offers (\<open>offered_pages\<close>) are stated apart from the code, in natural numbers.
  \<^item> \<open>Scheduler\<close>: the process slots, the linked run queue, \<^verbatim>\<open>schedule\<close>, \<^verbatim>\<open>process_exit\<close> of
    \<^verbatim>\<open>scheduler.c\<close> and the switch of \<^verbatim>\<open>context_switch.asm\<close>. A pointer to a \<^verbatim>\<open>pcb_t\<close> is \<open>Pcb i\<close>, or \<open>Tcb i\<close>
    when it is embedded in a \<^verbatim>\<open>tcb_t\<close>; NULL is \<open>None\<close>. \<open>Process_Table\<close> states the invariant \<open>kern_inv\<close>
    and proves creation and exit against it, \<open>Round_Robin\<close> says whom \<^verbatim>\<open>schedule\<close> chooses.
  \<^item> \<open>Thread\<close>: \<^verbatim>\<open>thread.c\<close>. \<open>Kernel\<close>: the calls of \<^verbatim>\<open>scheduler.c\<close> and \<^verbatim>\<open>thread.c\<close> and the timer ticks as
    a step relation without guards. \<open>misuse\<close> names the two calls that break the kernel and that the code does not
    refuse; \<open>kern_run\<close> are the runs without them.
  \<^item> \<open>Mutex\<close>: \<^verbatim>\<open>mutex.c\<close>, once as operations, and once cut into single statements between any two of which a timer
    interrupt may fall.
  \<^item> \<open>Machine\<close>: all the state side by side, \<^verbatim>\<open>kernel_panic\<close> of \<^verbatim>\<open>kernel.c\<close>, the common handler of
    \<^verbatim>\<open>idt.c\<close> and the timer handler. An operation ends with \<open>Done\<close>, with the processor \<open>Away\<close> in
    another process, or with the machine \<open>Stopped\<close>.
  \<^item> \<open>Cstring\<close>, \<open>Shell_Parse\<close>, \<open>Shell_Commands\<close>, \<open>Shell\<close>: the string helpers, the parser, the fourteen
    commands with their table, and the loop of \<^verbatim>\<open>shell.c\<close>. \<open>Command_Facts\<close> and \<open>Shell_Session\<close> hold
    what is proved of them.
  \<^item> \<open>Boot\<close>: \<^verbatim>\<open>kernel_main.c\<close>, from the boot screen to the prompt: \<open>boot_sequence\<close> is the list of its statements,
    with the \<^verbatim>\<open>sti\<close> among them, and \<open>boot_trace\<close> the states behind each.
  \<^item> \<open>Hazards\<close>: interleavings and uses across components that the code does not guard against.
  \<^item> \<open>Kernel_Spec\<close>: an abstract machine over lists and page sets, which process and thread management
    refines.
  \<^item> \<open>Cpu\<close>: the registers, flags, memory and instructions of the processor that the assembler files use.
    \<open>Stubs\<close> holds \<^verbatim>\<open>isr.asm\<close>, \<open>Context\<close> \<^verbatim>\<open>context_switch.asm\<close> on the control blocks as bytes in memory, and
    \<open>Entry\<close> \<^verbatim>\<open>boot.asm\<close>, each instruction by instruction.
  \<^item> \<open>Preemption\<close>: code cut into statements, one process per copy, with timer interrupts between the
    statements. \<open>Preempt\<close> cuts \<^verbatim>\<open>create_process\<close>, \<open>Thread_Preempt\<close> \<^verbatim>\<open>create_thread\<close>, \<open>Kill_Preempt\<close> the killing in \<^verbatim>\<open>killprocess\<close>, \<open>Alloc_Preempt\<close>
    \<^verbatim>\<open>pmm_alloc_page\<close>, \<open>Listing_Preempt\<close> the loops of \<^verbatim>\<open>ps\<close>, \<^verbatim>\<open>threads\<close> and \<^verbatim>\<open>ls\<close>, \<open>Races\<close> \<^verbatim>\<open>process_exit\<close> behind its first statement. \<open>Mutex_Quiet\<close> restricts the interleavings of \<open>Mutex\<close>
    to those without a tick inside \<^verbatim>\<open>mutex_lock\<close> and \<^verbatim>\<open>mutex_unlock\<close>.
  \<^item> \<open>Shell_Interrupted\<close>: the loop of \<^verbatim>\<open>shell_run\<close> with \<^verbatim>\<open>keyboard_getchar\<close> cut into statements, with keys, ticks
    and spurious interrupts between any two of them, where \<open>Shell\<close> has them only in \<^verbatim>\<open>hlt\<close>.
    \<open>First_Run\<close>: what the context switch finds in the frame that \<^verbatim>\<open>create_process\<close> builds.

  \<^bold>\<open>Contracts.\<close> \<open>Interfaces\<close> states as locales what one component relies on of another: a bounded
  queue of characters (interpreted in \<open>Keyboard\<close>), a console that keeps its frame (in \<open>Vga\<close>), a page
  allocator (in \<open>Pmm\<close>) and a queue of processes (in \<open>Scheduler\<close>). The process table, the threads,
  the commands and the boot sequence rest on the facts of these interpretations. The locale
  \<open>preemptible\<close> of \<open>Preemption\<close> is the contract of code that ticks between its statements do not
  harm: such a piece of code ends, and has then happened at once at some point between the ticks. It is
  interpreted on the creation of a process (\<open>Preempt\<close>), on the killing of one (\<open>Kill_Preempt\<close>), on
  the allocation of a page (\<open>Alloc_Preempt\<close>) and on the listings (\<open>Listing_Preempt\<close>). The locale \<open>movers\<close> of
  \<open>Movers\<close> is a way into it, for code each of whose statements commutes with the timer; it is interpreted on the creation of a
  thread (\<open>Thread_Preempt\<close>).

  \<^bold>\<open>What is proved.\<close>
  \<^item> The whole system: from power-on the boot brings every component up, and enables interrupts only when that is
    done, or panics; after it the shell never hangs, whatever is typed and wherever interrupts fall
    between the statements of its loop, until \<^verbatim>\<open>reboot\<close> or \<^verbatim>\<open>exit\<close> (\<open>Boot\<close>, \<open>Shell_Interrupted\<close>). A command is one
    statement there.
  \<^item> Processes and threads: every call but the two misuses keeps the invariant, no page is lost or
    shared, every call returns with the reply of the abstract machine, and the timer serves every runnable
    process in turn; below, the same of the system that \<^verbatim>\<open>kernel_main\<close> has brought up.
  \<^item> Preemption: creating a process or a thread, killing another one and allocating a page may be interrupted anywhere, as
    long as no other process does the like meanwhile (\<open>Preempt\<close>, \<open>Thread_Preempt\<close>, \<open>Kill_Preempt\<close>,
    \<open>Alloc_Preempt\<close>). The listings print the same with ticks in between as without (\<open>Listing_Preempt\<close>).
  \<^item> Typing: wherever interrupts fall in the loop of the shell, every key that finds room in the buffer is handled once
    and in order, the line does not depend on when the keys come in, and a woken shell catches up (\<open>Shell_Interrupted\<close>).
  \<^item> The mutex: mutual exclusion under every interleaving, the interleaving that loses a
    wake-up, the one that reads through NULL, and that no wake-up is lost when the two functions are not interrupted.
  \<^item> Assembler: the entry code reaches \<^verbatim>\<open>kernel_main\<close> with the structure of the loader, the stubs restore
    every register, segment and flag of the interrupted code, and the context switch in memory is the
    one of the scheduler model; below, what the booted system does on each of the 48 interrupts at every
    moment of the shell loop.
  \<^item> Memory: after initialisation the free pages are exactly those that lie whole in an available region above the
    kernel, as long as the map is in the range of 32-bit arithmetic (\<open>memory_in_range\<close>); allocation takes the least
    of them, and release is exact.
  \<^item> Interrupts: exceptions panic, hardware interrupts are acknowledged, the timer schedules.
  \<^item> The shell: keys edit the line, Enter runs it, the parser splits it into words, the dispatcher
    runs the command named, and each command does what it prints.
  \<^item> What the code does not guard against: \<^verbatim>\<open>killprocess\<close> of the running process or of a word that is no
    number, the idle process leaving, the deletion of the running thread, a tick inside \<^verbatim>\<open>newprocess\<close>, the deletion of a waiting thread, the lost wake-up of the mutex, two
    processes that create or allocate at the same time, a tick inside \<^verbatim>\<open>process_exit\<close>, a process that starts
    with interrupts masked and has nowhere to return to, a key between the test of the buffer and \<^verbatim>\<open>hlt\<close>.
  \<^item> The drivers: the keyboard buffer is a queue, the console keeps cursor and status bar, numbers
    print in decimal, the timer divisor is exact, \<^verbatim>\<open>sleep_ticks\<close> waits for its ticks and no longer, the serial line sends
    exactly its string.

  \<^bold>\<open>Bounds.\<close> No definition has a fuel parameter: loops that may run forever are partial functions
  into the option type. A session is observed over a finite list of interrupts and ends asleep in
  \<^verbatim>\<open>hlt\<close> when they are used up; sessions are bounded by \<open>2 ^ 32 - 2\<close> scancodes, so that process
  numbers do not wrap around to 0. An interrupted creation takes at most \<open>143\<close> statements and one for
  each queued process, that of a thread \<open>273\<close> and one for each, an interrupted killing \<open>7\<close> and one for each: the two scans of the 64 slots, the
  assignments, and the walk along the queue. An interrupted allocation takes at most \<open>34\<close> statements for each word
  of the bitmap and three more; a woken shell takes \<open>5\<close> for each key and six more, a listing \<open>9\<close> for
  each queued process and two more.

  \<^bold>\<open>Assumptions.\<close> Devices are parameters. The UART reports an empty transmitter after finitely many
  polls (\<open>uart_live\<close>), and the keyboard controller answers each of its interrupts with a scancode
  (\<open>typist\<close>); timer ticks and spurious interrupts come in anywhere between. The addresses that the linker chooses
  are the records \<open>image\<close>, \<open>isr_labels\<close> and \<open>layout\<close>; the stubs lie at different addresses, and the pools fit into
  memory without overlapping (\<open>layout_ok\<close>). The compiled handler owes the stubs what the calling convention says:
  it returns to the address on the stack with the stack pointer behind it and leaves the frame above
  and the stack segment alone (\<open>returns_to_stub\<close>). Interrupted code runs on a stack that is neither free nor
  under construction (\<open>create_safe\<close>, \<open>thread_safe\<close>). Interrupts are delivered between the statements of the shell loop
  (\<open>Shell_Interrupted\<close>) and, in \<open>Mutex\<close>, \<open>Preempt\<close>, \<open>Thread_Preempt\<close>, \<open>Kill_Preempt\<close>, \<open>Alloc_Preempt\<close>, \<open>Listing_Preempt\<close> and \<open>Races\<close>, between
  the statements of the operation; elsewhere a command of the shell is one step. In these theories a tick is
  possible at every point, also where the machine has interrupts masked or the last tick unacknowledged: what
  holds of all their runs holds of those of the machine, and the runs shown to exist are possible there when
  the processes in them have been interrupted before. \<^verbatim>\<open>sti\<close> holds interrupts back for
  one instruction when they were off and does nothing when they were on, as on the processor.

  \<^bold>\<open>Not modelled.\<close> The registers that compiled C code uses; segment limits and paging, which the kernel leaves
  flat and off; the linker script; the busy loops of \<^verbatim>\<open>delay\<close>, which change nothing; the bodies of
  \<^verbatim>\<open>idle_task\<close> and \<^verbatim>\<open>counter_process\<close>, which only halt; the code of a process that the timer
  switches to, whose effect on the machine is not part of the source; interrupts inside a command of
  the shell other than in the creation and the killing of a process, the allocation of a page and the
  listings.

  \<^bold>\<open>Next.\<close> \<^verbatim>\<open>thread_delete\<close> cut into statements, together with the wait list of the mutex.
\<close>

section \<open>The booted system as a kernel\<close>




section \<open>The booted system and its interrupts\<close>

text \<open>The interrupt tables and the processes that \<open>kernel_main\<close> leaves behind.\<close>

lemma boot_starts_interrupts:
  assumes on: "power_on m" and u: "uart_live (uart d)"
    and mem: "boot_regions mem mb = Some es" "0 < kernel_page_count (kernel_end_addr im)"
    and up: "kernel_boot d im mem mb m = Some (Done t)"
  shows "midt t = irq_register_handler 1 keyboard_handler_fn
      (irq_register_handler 0 timer_handler_fn (idt_init (isr_addr im) (idt_addr im) idt_boot))"
    and "booted im t"
proof -
  obtain p n where n: "init_hardware d im mem mb m = Some n" "hardware_up im d p m n"
    using kernel_boot_spec [OF on u mem] init_hardware_up [OF on u] by metis
  obtain r where r: "start_scheduler d im n = Some r" "(case r of Done m \<Rightarrow> map_option Done (open_console d m)
      | Away m \<Rightarrow> Some (Away m) | Stopped m \<Rightarrow> Some (Stopped m)) = Some (Done t)"
    using up n(1) by (auto simp: kernel_boot_eq bind_eq_Some_conv)
  then obtain v where v: "start_scheduler d im n = Some (Done v)" "open_console d v = Some t"
    by (cases r) auto
  obtain k where "v = n\<lparr>mkern := k\<rparr>"
    using v(1) kernel_panic_stops by (fastforce simp: start_scheduler_def split: option.splits sum.splits)
  moreover have "midt t = midt v" using open_console_up [OF u, of v] v(2) by auto
  ultimately show "midt t = irq_register_handler 1 keyboard_handler_fn
      (irq_register_handler 0 timer_handler_fn (idt_init (isr_addr im) (idt_addr im) idt_boot))"
    using n(2) by (simp add: hardware_up_def)
  show "booted im t" by (rule boot_done [OF on u mem up])
qed

text \<open>An interrupt seen by its handler, while the timer has nobody to switch to.\<close>

lemma calm_handler:
  assumes h: "irq_handlers (midt t) = boot_handlers" and calm: "schedule (mkern t) = Some (Returns (mkern t))"
    and u: "uart_live (uart d)" and n: "n < 48"
  shows "case common_isr_handler d (frame_of c n err) t of
      Some (Stopped v) \<Rightarrow> n < 32 \<and> \<not> mif v
    | Some (Done v) \<Rightarrow> 32 \<le> n
        \<and> v = (if n = 32 then t\<lparr>mpit := count_tick (mpit t), mpic := pic_send_eoi 0 (mpic t)\<rparr>
               else if n = 33 then t\<lparr>mkbd := keyboard_handler (ps2 d) (mkbd t), mpic := pic_send_eoi 1 (mpic t)\<rparr>
               else t\<lparr>mpic := pic_send_eoi (of_nat (n - 32)) (mpic t)\<rparr>)
    | _ \<Rightarrow> False"
proof (cases "n < 32")
  case True
  let ?msg = "exception_names ! n"
  have v: "(of_nat n :: uint32_t) < 32" "unat (of_nat n :: uint32_t) = n"
    using True by (simp_all add: word_less_nat_alt unat_of_nat take_bit_eq_mod)
  have "?msg \<in> set exception_names" using True by simp
  moreover have "list_all c_string exception_names" by (simp add: exception_names_def c_string_def)
  ultimately have cs: "c_string ?msg" by (simp add: list_all_iff)
  then have "c_string (panic_text ?msg)" by (simp add: panic_text_def c_string_def)
  from serial_print_returns [OF u this] obtain s where
    "serial_print (uart d) (panic_text ?msg) (mserial t) = Some s" by blast
  then show ?thesis
    using True v by (simp add: common_isr_handler_def Let_def frame_of_def kernel_panic_eq [OF cs])
next
  case False
  let ?irq = "ucast (of_nat n - 32 :: uint32_t) :: uint8_t"
  have w: "\<not> (of_nat n :: uint32_t) < 32" "(of_nat n :: uint32_t) < 48"
    using False n by (simp_all add: word_less_nat_alt unat_of_nat take_bit_eq_mod)
  have "(of_nat n - 32 :: uint32_t) = of_nat (n - 32)" using False by (simp add: of_nat_diff)
  then have irq: "?irq = of_nat (n - 32)" "unat ?irq = n - 32"
    using n by (simp_all add: word_unat_eq_iff unsigned_ucast_eq unat_of_nat take_bit_eq_mod)
  note h = h [unfolded boot_handlers_def]
  from calm have tm: "timer_handler t = Some (Done (t\<lparr>mpit := count_tick (mpit t)\<rparr>))"
    by (simp add: timer_handler_def Let_def)
  consider "n = 32" | "n = 33" | "34 \<le> n" using False by linarith
  then show ?thesis
  proof cases
    case 1
    with h irq tm show ?thesis
      by (simp add: common_isr_handler_def Let_def frame_of_def)
  next
    case 2
    with h irq show ?thesis
      by (simp add: common_isr_handler_def Let_def frame_of_def)
  next
    case 3
    then have "irq_handlers (midt t) ! (n - 32) = None"
      using n by (simp add: h nth_append nth_Cons')
    with 3 w irq show ?thesis
      by (simp add: common_isr_handler_def Let_def frame_of_def)
  qed
qed

text \<open>C4: the booted system takes every interrupt. At every moment of the shell loop, whatever has been typed and
  wherever interrupts have fallen between its statements so far, and whatever the registers hold, an
  interrupt from the controller runs its driver and is acknowledged, and the interrupted code goes on with the
  registers, segments and flags it had; the keyboard line feeds the scancode to the driver, a tick of the timer is
  counted and finds nobody else to switch to. A processor exception stops the machine with interrupts off. It is so as
  long as the shell is the only process that is ready, as it is outside of its commands; a tick inside \<^verbatim>\<open>newprocess\<close> is
  treated in \<open>Hazards\<close>.\<close>

theorem booted_system_takes_interrupts:
  assumes "power_on m" "uart_live (uart d)"
    and "boot_regions mem mb = Some es" "0 < kernel_page_count (kernel_end_addr im)"
    and "kernel_boot d im mem mb m = Some (Done t)"
    and "typist d (irqs_of as) scs" "length scs < 2 ^ 32 - 2" "length junk = MAX_LINE"
    and "admissible d im as (loop_start junk t)"
    and "loop_acts d im as (loop_start junk t) = Some \<lparr>lpc = x, lshell = sh, lmach = u\<rparr>" "\<not> ended x"
    and "lbl_isr l = isr_addr im" "inj_on (isr_addr im) {..<48}" "data_segments_equal c"
    and "\<And>f. returns_to_stub f (cc f)" "n < 48"
  shows "if n < 32 then \<exists>f v. interrupt d l cc n err c u = Some (f, Stopped v) \<and> \<not> mif v
    else \<exists>b. interrupt d l cc n err c u = Some (c\<lparr>memory := b\<rparr>, Done
      (if n = 32 then u\<lparr>mpit := count_tick (mpit u), mpic := pic_send_eoi 0 (mpic u)\<rparr>
       else if n = 33 then u\<lparr>mkbd := keyboard_handler (ps2 d) (mkbd u), mpic := pic_send_eoi 1 (mpic u)\<rparr>
       else u\<lparr>mpic := pic_send_eoi (of_nat (n - 32)) (mpic u)\<rparr>))"
proof -
  note boot = boot_starts_interrupts [OF assms(1-5)]
  obtain s where s: "loop_acts d im as (loop_start junk t) = Some s"
    "shut_down s \<or> loop_ok d [] [] s \<and> midt (lmach s) = midt t"
    by (rule booted_loop_run [OF boot(2) assms(6-9)])
  have ok: "loop_ok d [] [] s" "midt u = midt t" and "u = lmach s"
    using s assms(10,11) by (auto simp: shut_down_def)
  then have ty: "typing d [] [] u" by (simp add: loop_ok_def)
  have u: "midt u = midt t" by (rule ok(2))
  have calm: "irq_handlers (midt u) = boot_handlers" "schedule (mkern u) = Some (Returns (mkern u))"
    using ty unfolding typing_def by blast+
  have i: "idt (midt u) = idt (idt_init (lbl_isr l) (idt_addr im) (idt_boot :: irq_fn idt_state))"
    by (simp add: u boot(1) assms(12))
  have inj: "inj_on (lbl_isr l) {..<48}" using assms(12,13) by simp
  obtain out where out: "common_isr_handler d (frame_of c n err) u = Some out"
    "case out of Stopped v \<Rightarrow> n < 32 \<and> \<not> mif v
      | Done v \<Rightarrow> 32 \<le> n \<and> v = (if n = 32 then u\<lparr>mpit := count_tick (mpit u), mpic := pic_send_eoi 0 (mpic u)\<rparr>
               else if n = 33 then u\<lparr>mkbd := keyboard_handler (ps2 d) (mkbd u), mpic := pic_send_eoi 1 (mpic u)\<rparr>
               else u\<lparr>mpic := pic_send_eoi (of_nat (n - 32)) (mpic u)\<rparr>)
      | Away v \<Rightarrow> False"
    using calm_handler [OF calm assms(2,16), of c err] by (auto split: option.splits outcome.splits)
  note r = interrupt_spec [OF inj assms(16,14) i assms(15), of d err]
  then obtain f where f: "interrupt d l cc n err c u = Some (f, out)"
    using out(1) by (auto simp: map_option_eq_Some)
  show ?thesis
  proof (cases out)
    case (Done v)
    then have "f = c\<lparr>memory := memory f\<rparr>" using r f by blast
    with f out(2) Done show ?thesis by (auto intro!: exI [of _ "memory f"])
  qed (use f out(2) in auto)
qed

lemma demo_image_stubs: "inj_on (isr_addr demo_image) {..<48}"
proof (rule inj_onI)
  fix i j :: nat
  assume i: "i \<in> {..<48}" "j \<in> {..<48}" and "isr_addr demo_image i = isr_addr demo_image j"
  then have "unat (of_nat (16 * i) :: uint32_t) = unat (of_nat (16 * j) :: uint32_t)"
    by (simp add: demo_image_def)
  then have "16 * i mod 2 ^ 32 = 16 * j mod 2 ^ 32"
    by (simp only: unat_of_nat take_bit_eq_mod len_of_numeral_defs) simp
  with i show "i = j" by simp
qed

text \<open>The key L is typed as the shell opens, and after some statements the timer ticks.\<close>

theorem booted_system_takes_interrupts_witness:
  "\<exists>t k s b. kernel_boot (keyboard_demo [0x26]) demo_image demo_mem demo_mb cold_machine = Some (Done t)
     \<and> loop_acts (keyboard_demo [0x26]) demo_image (Irq (demo_regs 33) # replicate k Go)
         (loop_start (replicate 256 (CHR ''?'')) t) = Some s
     \<and> interrupt (keyboard_demo [0x26]) (demo_labels\<lparr>lbl_isr := isr_addr demo_image\<rparr>) plain_return 32 0 demo_cpu (lmach s)
       = Some (demo_cpu\<lparr>memory := b\<rparr>,
           Done ((lmach s)\<lparr>mpit := count_tick (mpit (lmach s)), mpic := pic_send_eoi 0 (mpic (lmach s))\<rparr>))"
proof -
  let ?d = "keyboard_demo [0x26]" and ?r = "demo_regs 33" and ?junk = "replicate 256 (CHR ''?'')"
  have len: "length ?junk = MAX_LINE" "length [0x26 :: uint8_t] < 2 ^ 32 - 2" by (simp_all add: MAX_LINE_def)
  have n: "0 < kernel_page_count (kernel_end_addr demo_image)" by (simp add: demo_image_pages)
  obtain es t k where t: "boot_regions demo_mem demo_mb = Some es"
    "kernel_boot ?d demo_image demo_mem demo_mb cold_machine = Some (Done t)" "booted demo_image t"
    "typist ?d (irqs_of (Irq ?r # replicate k Go)) [0x26]"
    "admissible ?d demo_image (Irq ?r # replicate k Go) (loop_start ?junk t)"
    "loop_ok ?d [?r] [0x26] (loop_start ?junk t)"
    by (rule demo_session)
  let ?as = "Irq ?r # replicate k Go"
  obtain s where s: "loop_acts ?d demo_image ?as (loop_start ?junk t) = Some s"
    "shut_down s \<or> loop_ok ?d [] [] s \<and> midt (lmach s) = midt t"
    by (rule booted_loop_run [OF t(3,4) len(2,1) t(5)])
  have ok: "loop_ok ?d (irqs_of ?as) [0x26] (loop_start ?junk t)" using t(6) by simp
  have "decode_scancodes 0 [0x26] = ''l''" by code_simp
  then have "to_come [0x26] (loop_start ?junk t) = ''l''" using loop_start_ok(2) [OF t(3,4) len(2,1)] by simp
  then have "\<not> shut_down s" by (intro line_goes_on [OF ok t(5) _ s(1)]) simp
  then have on: "\<not> ended (lpc s)" using s(2) loop_ok_going by blast
  have run: "loop_acts ?d demo_image ?as (loop_start ?junk t)
      = Some \<lparr>lpc = lpc s, lshell = lshell s, lmach = lmach s\<rparr>" using s(1) by simp
  have "lbl_isr (demo_labels\<lparr>lbl_isr := isr_addr demo_image\<rparr>) = isr_addr demo_image" by simp
  from booted_system_takes_interrupts [OF cold_power_on demo_uart_live(1) t(1) n t(2,4) len(2,1) t(5) run on this
      demo_image_stubs demo_cpu_segments returns_to_stub_ret, where n = 32 and err = 0]
  show ?thesis using t(2) s(1) by auto
qed

end
